(* ===== verification/Prelude.thy ===== *)
theory Prelude
  imports Main "HOL-Library.Word" "HOL-Library.Sublist" "HOL-Library.List_Lexorder"
    "HOL-Library.Char_ord" "HOL-Library.Multiset"
    "HOL-Library.Code_Target_Nat"
begin

text \<open>
  Shared vocabulary of the development: machine integers, slices, strings as UTF-8 byte
  sequences, the FNV-1a hash, and the generic facts on lists, prefixes and majorities that the
  component theories use.

  \<^item> \<open>u64\<close> and \<open>usize\<close> values are natural numbers; every addition of the source that can reach
    the end of the range is written with \<open>checked_add\<close>, \<open>checked_sub\<close> or \<open>saturating_add\<close>, as in
    the source. Hashes, whose wrap-around is their point, are \<^typ>\<open>64 word\<close>.
  \<^item> Indexing and slicing return an option: \<^term>\<open>None\<close> stands for the panic of an
    out-of-range access.
  \<^item> A Rust \<^verbatim>\<open>String\<close> is the list of its UTF-8 bytes, so \<open>length\<close> is \<^verbatim>\<open>len()\<close> and
    the order is the byte-wise order.
\<close>

unbundle bit_operations_syntax

named_theorems opt_iffs \<open>when an option-valued primitive returns a value, and which\<close>

section \<open>Machine integers\<close>

type_synonym byte = "8 word"
type_synonym u64w = "64 word"

definition u64_max :: nat where
  "u64_max = 2 ^ 64 - 1"

definition checked_add :: "nat \<Rightarrow> nat \<Rightarrow> nat option" where
  "checked_add a b = (if a + b \<le> u64_max then Some (a + b) else None)"

definition checked_sub :: "nat \<Rightarrow> nat \<Rightarrow> nat option" where
  "checked_sub a b = (if b \<le> a then Some (a - b) else None)"

definition saturating_add :: "nat \<Rightarrow> nat \<Rightarrow> nat" where
  "saturating_add a b = min (a + b) u64_max"

lemma u64_max_eq: "u64_max = 18446744073709551615"
  by (simp add: u64_max_def)

lemma checked_add_Some [opt_iffs]: "checked_add a b = Some c \<longleftrightarrow> c = a + b \<and> a + b \<le> u64_max"
  by (auto simp: checked_add_def)

lemma checked_add_None [opt_iffs]: "checked_add a b = None \<longleftrightarrow> u64_max < a + b"
  by (simp add: checked_add_def)

lemma checked_sub_Some [opt_iffs]: "checked_sub a b = Some c \<longleftrightarrow> b \<le> a \<and> c = a - b"
  by (auto simp: checked_sub_def)

lemma checked_sub_None [opt_iffs]: "checked_sub a b = None \<longleftrightarrow> a < b"
  by (simp add: checked_sub_def not_le)

lemma saturating_add_le: "saturating_add a b \<le> a + b"
  by (simp add: saturating_add_def)

lemma saturating_add_bound: "saturating_add a b \<le> u64_max"
  by (simp add: saturating_add_def)

section \<open>Slices and indexing\<close>

definition get_at :: "'a list \<Rightarrow> nat \<Rightarrow> 'a option" where
  "get_at xs i = (if i < length xs then Some (xs ! i) else None)"

definition slice :: "'a list \<Rightarrow> nat \<Rightarrow> nat \<Rightarrow> 'a list option" where
  "slice xs a b = (if a \<le> b \<and> b \<le> length xs then Some (take (b - a) (drop a xs)) else None)"

definition slice_from :: "'a list \<Rightarrow> nat \<Rightarrow> 'a list option" where
  "slice_from xs a = (if a \<le> length xs then Some (drop a xs) else None)"

lemma get_at_Some [opt_iffs]: "get_at xs i = Some x \<longleftrightarrow> i < length xs \<and> x = xs ! i"
  by (auto simp: get_at_def)

lemma get_at_None [opt_iffs]: "get_at xs i = None \<longleftrightarrow> length xs \<le> i"
  by (auto simp: get_at_def)

lemma slice_Some [opt_iffs]:
  "slice xs a b = Some ys \<longleftrightarrow> a \<le> b \<and> b \<le> length xs \<and> ys = take (b - a) (drop a xs)"
  by (auto simp: slice_def)

lemma slice_from_Some [opt_iffs]: "slice_from xs a = Some ys \<longleftrightarrow> a \<le> length xs \<and> ys = drop a xs"
  by (auto simp: slice_from_def)

lemma case_SomeD: "(case x of None \<Rightarrow> False | Some y \<Rightarrow> P y) \<Longrightarrow> \<exists>y. x = Some y \<and> P y"
  by (cases x) auto

lemma take_slice: "a \<le> b \<Longrightarrow> take a xs @ take (b - a) (drop a xs) = take b xs"
  by (metis add_diff_inverse_nat not_less take_add)

lemma take_length_self: "take (length (take k xs)) xs = take k xs"
  by (cases "k \<le> length xs") (simp_all add: min_def)

section \<open>Strings\<close>

type_synonym node_name = string

definition str_bytes :: "string \<Rightarrow> byte list" where
  "str_bytes s = map of_char s"

text \<open>
  \<^verbatim>\<open>s.chars().any(char::is_control)\<close> on UTF-8 bytes: the control characters are
  U+0000..U+001F, U+007F (one byte each) and U+0080..U+009F (the byte 0xC2 followed by
  0x80..0x9F).
\<close>

fun has_control :: "string \<Rightarrow> bool" where
  "has_control [] = False"
| "has_control (c # cs) =
     (let b = (of_char c :: nat) in
      b < 32 \<or> b = 127 \<or>
      (b = 194 \<and> (case cs of [] \<Rightarrow> False
                   | d # _ \<Rightarrow> 128 \<le> (of_char d :: nat) \<and> (of_char d :: nat) \<le> 159)) \<or>
      has_control cs)"

text \<open>
  \<^verbatim>\<open>char::is_whitespace\<close> on UTF-8 bytes: U+0009..U+000D, U+0020, U+0085, U+00A0, U+1680,
  U+2000..U+200A, U+2028, U+2029, U+202F, U+205F and U+3000.
\<close>

definition starts_space :: "nat list \<Rightarrow> bool" where
  "starts_space bs =
     (case bs of
        [] \<Rightarrow> False
      | b # cs \<Rightarrow>
          (9 \<le> b \<and> b \<le> 13) \<or> b = 32 \<or> prefix [194, 133] bs \<or> prefix [194, 160] bs \<or>
          prefix [225, 154, 128] bs \<or> prefix [227, 128, 128] bs \<or> prefix [226, 129, 159] bs \<or>
          (prefix [226, 128] bs \<and>
             (case drop 2 bs of [] \<Rightarrow> False
              | d # _ \<Rightarrow> (128 \<le> d \<and> d \<le> 138) \<or> d = 168 \<or> d = 169 \<or> d = 175)))"

definition has_whitespace :: "string \<Rightarrow> bool" where
  "has_whitespace s \<longleftrightarrow> (\<exists>t \<in> set (suffixes (map of_char s)). starts_space t)"

text \<open>Decimal numerals, as \<^verbatim>\<open>format!\<close> prints an unsigned integer.\<close>

definition digit_char :: "nat \<Rightarrow> char" where
  "digit_char d = char_of (48 + d)"

fun dec_str :: "nat \<Rightarrow> string" where
  "dec_str n = (if n < 10 then [digit_char n] else dec_str (n div 10) @ [digit_char (n mod 10)])"

declare dec_str.simps [simp del]

definition dec_val :: "string \<Rightarrow> nat" where
  "dec_val s = foldl (\<lambda>v c. 10 * v + ((of_char c :: nat) - 48)) 0 s"

lemma of_digit_char: "d < 10 \<Longrightarrow> (of_char (digit_char d) :: nat) = 48 + d"
  by (simp add: digit_char_def)

lemma dec_val_str [simp]: "dec_val (dec_str n) = n"
proof (induction n rule: dec_str.induct)
  case (1 n)
  show ?case
  proof (cases "n < 10")
    case True
    then show ?thesis by (simp add: dec_str.simps [of n] dec_val_def of_digit_char)
  next
    case False
    have "dec_val (dec_str n) = 10 * dec_val (dec_str (n div 10)) + (of_char (digit_char (n mod 10)) - 48)"
      using False by (subst dec_str.simps) (simp add: dec_val_def)
    also have "\<dots> = 10 * (n div 10) + n mod 10" using 1 [OF False] by (simp add: of_digit_char)
    finally show ?thesis by simp
  qed
qed

lemma dec_str_inj [simp]: "dec_str m = dec_str n \<longleftrightarrow> m = n"
  by (metis dec_val_str)

text \<open>\<^verbatim>\<open>validate_node_id\<close> of \<^verbatim>\<open>parrot-config\<close>: the shape of a node identity.\<close>

definition validate_node_id :: "string \<Rightarrow> bool" where
  "validate_node_id v \<longleftrightarrow>
     \<not> (v = [] \<or> length v > 65535 \<or> has_whitespace v \<or> has_control v \<or>
        (\<exists>c \<in> set v. c = CHR ''/'' \<or> c = CHR ''@'' \<or> c = CHR ''?'' \<or> c = CHR ''#''))"

section \<open>FNV-1a\<close>

definition fnv_offset :: u64w where
  "fnv_offset = 0xcbf29ce484222325"

definition fnv_prime :: u64w where
  "fnv_prime = 0x100000001b3"

definition fnv_byte :: "u64w \<Rightarrow> byte \<Rightarrow> u64w" where
  "fnv_byte h b = (h XOR ucast b) * fnv_prime"

definition fnv_bytes :: "u64w \<Rightarrow> byte list \<Rightarrow> u64w" where
  "fnv_bytes h bs = foldl fnv_byte h bs"

lemma fnv_bytes_append [simp]: "fnv_bytes h (xs @ ys) = fnv_bytes (fnv_bytes h xs) ys"
  by (simp add: fnv_bytes_def)

section \<open>Prefixes\<close>

lemma take_eq_mono: "take m xs = take m ys \<Longrightarrow> k \<le> m \<Longrightarrow> take k xs = take k ys"
  by (metis min.absorb1 take_take)

lemma prefix_take_iff: "k \<le> length xs \<Longrightarrow> prefix (take k xs) ys \<longleftrightarrow> take k ys = take k xs"
  by (metis append_eq_conv_conj append_take_drop_id length_take min.absorb2 prefix_def)

lemma prefix_take_mono: "prefix (take m xs) ys \<Longrightarrow> k \<le> m \<Longrightarrow> prefix (take k xs) ys"
  by (metis min.absorb1 prefix_order.trans take_is_prefix take_take)

lemma prefix_take_take: "a \<le> b \<Longrightarrow> prefix (take a ys) (take b ys)"
  using take_is_prefix [of a "take b ys"] by (simp add: min_def)

lemma prefix_take_common:
  assumes "take (min a b) xs = take (min a b) ys"
  shows "prefix (take a xs) (take b ys) \<or> prefix (take b ys) (take a xs)"
proof (cases "a \<le> b")
  case True
  with assms show ?thesis using prefix_take_take [OF True, of ys] by simp
next
  case False
  with assms show ?thesis using prefix_take_take [of b a xs] by (simp add: min_def)
qed

lemma prefix_length_eq: "prefix xs ys \<or> prefix ys xs \<Longrightarrow> length xs = length ys \<Longrightarrow> xs = ys"
  by (auto simp: prefix_def)

lemma prefix_nth: "prefix xs ys \<Longrightarrow> i < length xs \<Longrightarrow> ys ! i = xs ! i"
  by (auto simp: prefix_def nth_append)

lemma take_eq_nth: "take m xs = take m ys \<Longrightarrow> i < m \<Longrightarrow> i < length xs \<Longrightarrow> i < length ys \<Longrightarrow> xs ! i = ys ! i"
  by (metis nth_take)

lemma prefix_length_take: "prefix xs ys \<Longrightarrow> take (length xs) ys = xs"
  by (auto simp: prefix_def)

lemma prefix_two:
  assumes "prefix xs zs" and "prefix ys zs" and "length xs \<le> length ys"
  shows "prefix xs ys"
  using assms prefix_length_prefix by blast

section \<open>Majorities\<close>

text \<open>
  The interface a voting protocol needs of its quorums: two of them share a member. The
  majorities of \<^verbatim>\<open>RaftNode::quorum\<close> are shown to provide it in the Raft theories.
\<close>

locale quorum_system =
  fixes is_quorum :: "'a set \<Rightarrow> bool"
  assumes quorum_meet: "is_quorum Q \<Longrightarrow> is_quorum R \<Longrightarrow> \<exists>v. v \<in> Q \<and> v \<in> R"
begin

lemma quorum_nonempty: "is_quorum Q \<Longrightarrow> Q \<noteq> {}"
  using quorum_meet by blast

text \<open>A function of the voters takes one value on two quorums at once.\<close>

lemma quorum_value_unique:
  assumes "is_quorum Q" and "is_quorum R"
    and "\<And>v. v \<in> Q \<Longrightarrow> f v = a" and "\<And>v. v \<in> R \<Longrightarrow> f v = b"
  shows "a = b"
  using quorum_meet [OF assms(1,2)] assms(3,4) by metis

end

lemma majorities_meet:
  assumes fin: "finite M" and sub: "Q \<subseteq> M" "R \<subseteq> M"
    and card: "card M < card Q + card R"
  shows "\<exists>v. v \<in> Q \<and> v \<in> R"
proof (rule ccontr)
  assume "\<nexists>v. v \<in> Q \<and> v \<in> R"
  then have "Q \<inter> R = {}" by blast
  moreover have "finite Q" "finite R" using fin sub finite_subset by blast+
  ultimately have "card (Q \<union> R) = card Q + card R" by (simp add: card_Un_disjoint)
  moreover have "card (Q \<union> R) \<le> card M" using fin sub by (simp add: card_mono)
  ultimately show False using card by simp
qed

text \<open>In a sorted list at least \<open>k\<close> elements are no smaller than the \<open>k\<close>-th from the end.\<close>

lemma length_filter_mono:
  "(\<And>x. x \<in> set xs \<Longrightarrow> P x \<Longrightarrow> Q x) \<Longrightarrow> length (filter P xs) \<le> length (filter Q xs)"
  by (induction xs) auto

lemma sorted_tail_count:
  fixes xs :: "nat list"
  assumes "sorted xs" and "k \<le> length xs" and "0 < k"
  shows "k \<le> length (filter (\<lambda>x. xs ! (length xs - k) \<le> x) xs)"
proof -
  let ?i = "length xs - k"
  have "\<forall>x \<in> set (drop ?i xs). xs ! ?i \<le> x"
  proof
    fix x assume "x \<in> set (drop ?i xs)"
    then obtain j where "j < length (drop ?i xs)" and "x = drop ?i xs ! j"
      by (auto simp: in_set_conv_nth)
    then show "xs ! ?i \<le> x" using assms by (simp add: sorted_nth_mono)
  qed
  then have "filter (\<lambda>x. xs ! ?i \<le> x) (drop ?i xs) = drop ?i xs" by simp
  then have "length (filter (\<lambda>x. xs ! ?i \<le> x) (drop ?i xs)) = k" using assms by simp
  moreover have "length (filter (\<lambda>x. xs ! ?i \<le> x) xs) =
      length (filter (\<lambda>x. xs ! ?i \<le> x) (take ?i xs)) + length (filter (\<lambda>x. xs ! ?i \<le> x) (drop ?i xs))"
    by (metis append_take_drop_id filter_append length_append)
  ultimately show ?thesis by simp
qed

end
