(* ===== verification/Raft_Node.thy ===== *)
theory Raft_Node
  imports Prelude
begin

text \<open>
  The Raft core of \<^verbatim>\<open>crates/parrot-remote/src/raft/mod.rs\<close>: a pure state machine that the
  host drives with \<^verbatim>\<open>tick\<close>, \<^verbatim>\<open>step\<close> and \<^verbatim>\<open>propose\<close>, and whose outgoing RPCs and
  committed entries the host drains with \<^verbatim>\<open>outbox\<close> and \<^verbatim>\<open>committed\<close>. The injected
  \<^verbatim>\<open>Clock\<close> is an argument of the operations that read it. An operation returns \<^term>\<open>None\<close>
  where the source panics (an out-of-range slice of the log); that no reachable state does so is
  a theorem of the cluster theory. \<^verbatim>\<open>usize\<close> is 64 bits wide, so \<^verbatim>\<open>as usize\<close> and
  \<^verbatim>\<open>usize::try_from\<close> on a \<open>u64\<close> keep the value.
\<close>

section \<open>Data\<close>

record log_entry =
  e_term :: nat
  e_index :: nat
  e_cmd :: "byte list"

datatype raft_rpc =
    RequestVote nat node_name nat nat
    \<comment> \<open>term, candidate, last log index, last log term\<close>
  | RequestVoteResp nat bool
    \<comment> \<open>term, vote granted\<close>
  | AppendEntries nat node_name nat nat "log_entry list" nat
    \<comment> \<open>term, leader, prev log index, prev log term, entries, leader commit\<close>
  | AppendEntriesResp nat bool nat
    \<comment> \<open>term, success, match index\<close>

record clock =
  now_ms :: nat
  election_timeout_ms :: nat
  election_jitter_ms :: nat
  heartbeat_ms :: nat

datatype role = Follower | Candidate | Leader

record raft_node =
  node_id :: node_name
  peers :: "node_name list"
  current_term :: nat
  voted_for :: "node_name option"
  log :: "log_entry list"
  commit_index :: nat
  last_applied :: nat
  role :: role
  leader_hint :: "node_name option"
  next_index :: "node_name \<rightharpoonup> nat"
  match_index :: "node_name \<rightharpoonup> nat"
  sent_upper :: "node_name \<rightharpoonup> nat"
  votes_received :: "node_name list"
  last_heartbeat_ms :: nat
  timeout_jitter_ms :: nat
  outbox :: "(node_name \<times> raft_rpc) list"
  pending_apply :: "log_entry list"

type_synonym entries = "log_entry list"

section \<open>Shape of an RPC\<close>

definition position_ok :: "nat \<Rightarrow> nat \<Rightarrow> nat \<Rightarrow> bool" where
  "position_ok index entry_term t \<longleftrightarrow> ((index = 0) = (entry_term = 0)) \<and> entry_term \<le> t"

fun entries_shape :: "nat \<Rightarrow> nat \<Rightarrow> nat \<Rightarrow> entries \<Rightarrow> bool" where
  "entries_shape t index previous_term [] = True"
| "entries_shape t index previous_term (e # es) =
     (if checked_add index 1 \<noteq> Some (e_index e) \<or> e_term e = 0 \<or> e_term e > t
         \<or> e_term e < previous_term
      then False
      else entries_shape t (e_index e) (e_term e) es)"

fun validate_shape :: "raft_rpc \<Rightarrow> bool" where
  "validate_shape (RequestVote t cand lli llt) = (t \<noteq> 0 \<and> position_ok lli llt t)"
| "validate_shape (AppendEntries t ldr pli plt es lc) =
     (t \<noteq> 0 \<and> position_ok pli plt t \<and> entries_shape t pli plt es)"
| "validate_shape (RequestVoteResp t g) = True"
| "validate_shape (AppendEntriesResp t s m) = True"

section \<open>Construction\<close>

definition id_jitter :: "node_name \<Rightarrow> u64w" where
  "id_jitter i = fnv_bytes fnv_offset (str_bytes i)"

definition raft_new :: "clock \<Rightarrow> node_name \<Rightarrow> node_name list \<Rightarrow> raft_node" where
  "raft_new clk i ps =
     \<lparr> node_id = i,
       peers = remdups_adj (sort (filter (\<lambda>p. p \<noteq> i) ps)),
       current_term = 0, voted_for = None, log = [], commit_index = 0, last_applied = 0,
       role = Follower, leader_hint = None,
       next_index = Map.empty, match_index = Map.empty, sent_upper = Map.empty,
       votes_received = [],
       last_heartbeat_ms = now_ms clk,
       timeout_jitter_ms = unat (id_jitter i) mod max (election_jitter_ms clk) 1,
       outbox = [], pending_apply = [] \<rparr>"

section \<open>Helpers\<close>

definition last_log_term :: "raft_node \<Rightarrow> nat" where
  "last_log_term n = (if log n = [] then 0 else e_term (last (log n)))"

definition last_log_index :: "raft_node \<Rightarrow> nat" where
  "last_log_index n = length (log n)"

definition quorum :: "raft_node \<Rightarrow> nat" where
  "quorum n = (length (peers n) + 1) div 2 + 1"

definition observe_term :: "nat \<Rightarrow> raft_node \<Rightarrow> raft_node" where
  "observe_term t n =
     (if t \<le> current_term n then n
      else n\<lparr>current_term := t, role := Follower, voted_for := None, leader_hint := None,
             votes_received := [], next_index := Map.empty, match_index := Map.empty,
             sent_upper := Map.empty, outbox := []\<rparr>)"

definition push_out :: "node_name \<Rightarrow> raft_rpc \<Rightarrow> raft_node \<Rightarrow> raft_node" where
  "push_out p m n = n\<lparr>outbox := outbox n @ [(p, m)]\<rparr>"

section \<open>Log replication: the sending side\<close>

text \<open>
  The batch window of \<^verbatim>\<open>send_append\<close>: at most 1024 entries, and after the first one at
  most 3 MiB counting 32 bytes of overhead per entry.
\<close>

fun batch_count :: "nat \<Rightarrow> entries \<Rightarrow> nat" where
  "batch_count bytes [] = 0"
| "batch_count bytes (e # es) =
     (let nxt = saturating_add (saturating_add bytes (length (e_cmd e))) 32 in
      if bytes \<noteq> 0 \<and> nxt > 3 * 1024 * 1024 then 0 else Suc (batch_count nxt es))"

definition prev_position :: "raft_node \<Rightarrow> nat \<Rightarrow> (nat \<times> nat) option" where
  "prev_position n ni =
     (if ni \<le> 1 then Some (0, 0)
      else map_option (\<lambda>e. (e_index e, e_term e)) (get_at (log n) (ni - 2)))"

definition send_append :: "node_name \<Rightarrow> raft_node \<Rightarrow> raft_node option" where
  "send_append p n =
     (let ni = (case next_index n p of None \<Rightarrow> 1 | Some v \<Rightarrow> v) in
      case prev_position n ni of
        None \<Rightarrow> None
      | Some (pli, plt) \<Rightarrow>
          (case slice_from (log n) (ni - 1) of
             None \<Rightarrow> None
           | Some sfx \<Rightarrow>
               let count = batch_count 0 (take 1024 sfx);
                   es = take count sfx;
                   sent_end = saturating_add pli (length es)
               in Some (push_out p
                     (AppendEntries (current_term n) (node_id n) pli plt es (commit_index n))
                     (n\<lparr>sent_upper := (sent_upper n)(p \<mapsto> sent_end)\<rparr>))))"

fun send_all :: "node_name list \<Rightarrow> raft_node \<Rightarrow> raft_node option" where
  "send_all [] n = Some n"
| "send_all (p # ps) n =
     (case send_append p n of None \<Rightarrow> None | Some n' \<Rightarrow> send_all ps n')"

definition broadcast_append :: "raft_node \<Rightarrow> raft_node option" where
  "broadcast_append n = send_all (peers n) n"

section \<open>Elections\<close>

definition become_leader :: "clock \<Rightarrow> raft_node \<Rightarrow> raft_node option" where
  "become_leader clk n =
     (let ni = last_log_index n + 1 in
      broadcast_append
        (n\<lparr>role := Leader, leader_hint := Some (node_id n),
           next_index := (\<lambda>p. if p \<in> set (peers n) then Some ni else None),
           match_index := (\<lambda>p. if p \<in> set (peers n) then Some 0 else None),
           sent_upper := (\<lambda>p. if p \<in> set (peers n) then Some 0 else None),
           last_heartbeat_ms := now_ms clk\<rparr>))"

definition le_bytes64 :: "nat \<Rightarrow> byte list" where
  "le_bytes64 t = map (\<lambda>i. word_of_nat (t div 256 ^ i)) [0..<8]"

definition election_jitter :: "clock \<Rightarrow> node_name \<Rightarrow> nat \<Rightarrow> nat" where
  "election_jitter clk i t =
     unat (fnv_bytes (id_jitter i) (le_bytes64 t)) mod max (election_jitter_ms clk) 1"

definition start_election :: "clock \<Rightarrow> raft_node \<Rightarrow> raft_node option" where
  "start_election clk n =
     (case checked_add (current_term n) 1 of
        None \<Rightarrow> Some n
      | Some t \<Rightarrow>
          let n1 = n\<lparr>current_term := t,
                     timeout_jitter_ms := election_jitter clk (node_id n) t,
                     role := Candidate, voted_for := Some (node_id n), leader_hint := None,
                     votes_received := [node_id n], last_heartbeat_ms := now_ms clk,
                     outbox := outbox n @ map (\<lambda>p. (p, RequestVote t (node_id n)
                        (last_log_index n) (last_log_term n))) (peers n)\<rparr>
          in if quorum n1 \<le> length (votes_received n1) then become_leader clk n1 else Some n1)"

definition up_to_date :: "nat \<Rightarrow> nat \<Rightarrow> raft_node \<Rightarrow> bool" where
  "up_to_date lli llt n \<longleftrightarrow>
     llt > last_log_term n \<or> (llt = last_log_term n \<and> lli \<ge> last_log_index n)"

definition step_request_vote ::
  "clock \<Rightarrow> node_name \<Rightarrow> nat \<Rightarrow> node_name \<Rightarrow> nat \<Rightarrow> nat \<Rightarrow> raft_node \<Rightarrow> raft_node option" where
  "step_request_vote clk from t candidate lli llt n =
     (if from \<noteq> candidate \<or> from \<notin> set (peers n) then Some n
      else if t < current_term n
        then Some (push_out from (RequestVoteResp (current_term n) False) n)
      else
        let n1 = observe_term t n;
            grant = (up_to_date lli llt n1 \<and>
                     (voted_for n1 = None \<or> voted_for n1 = Some candidate));
            n2 = (if grant then n1\<lparr>voted_for := Some candidate, last_heartbeat_ms := now_ms clk\<rparr>
                  else n1)
        in Some (push_out from (RequestVoteResp (current_term n2) grant) n2))"

definition step_vote_resp ::
  "clock \<Rightarrow> node_name \<Rightarrow> nat \<Rightarrow> bool \<Rightarrow> raft_node \<Rightarrow> raft_node option" where
  "step_vote_resp clk from t granted n =
     (if from \<notin> set (peers n) then Some n
      else if t > current_term n then Some (observe_term t n)
      else if role n \<noteq> Candidate \<or> t \<noteq> current_term n \<or> \<not> granted then Some n
      else
        let n1 = (if from \<in> set (votes_received n) then n
                  else n\<lparr>votes_received := votes_received n @ [from]\<rparr>)
        in if quorum n1 \<le> length (votes_received n1) then become_leader clk n1 else Some n1)"

section \<open>Log replication: the receiving side\<close>

fun append_scan ::
  "entries \<Rightarrow> nat \<Rightarrow> (nat \<times> nat) option \<Rightarrow> nat \<Rightarrow> entries \<Rightarrow> (nat \<times> nat) option option" where
  "append_scan lg commit change offset [] = Some change"
| "append_scan lg commit change offset (e # es) =
     (case checked_sub (e_index e) 1 of
        None \<Rightarrow> None
      | Some slot \<Rightarrow>
          let old = get_at lg slot in
          if (case old of None \<Rightarrow> False | Some o1 \<Rightarrow> e_term o1 = e_term e \<and> o1 \<noteq> e)
             \<or> (e_index e \<le> commit \<and> old \<noteq> Some e)
          then None
          else append_scan lg commit
                 (if change = None \<and>
                     (case old of None \<Rightarrow> True | Some o1 \<Rightarrow> e_term o1 \<noteq> e_term e)
                  then Some (slot, offset) else change)
                 (Suc offset) es)"

definition append_plan :: "nat \<Rightarrow> nat \<Rightarrow> entries \<Rightarrow> raft_node \<Rightarrow> (nat \<times> nat) option" where
  "append_plan pli plt es n =
     (if pli \<noteq> 0 \<and>
         (case get_at (log n) (pli - 1) of None \<Rightarrow> True | Some e \<Rightarrow> e_term e \<noteq> plt)
      then None
      else case append_scan (log n) (commit_index n) None 0 es of
             None \<Rightarrow> None
           | Some change \<Rightarrow>
               Some (case change of None \<Rightarrow> (length (log n), length es) | Some c \<Rightarrow> c))"

text \<open>The commit point moves to \<open>c\<close> and the newly committed entries become pending.\<close>

definition commit_to :: "nat \<Rightarrow> raft_node \<Rightarrow> raft_node option" where
  "commit_to c n =
     (case slice (log n) (last_applied n) c of
        None \<Rightarrow> None
      | Some newly \<Rightarrow>
          Some (n\<lparr>commit_index := c, pending_apply := pending_apply n @ newly,
                  last_applied := c\<rparr>))"

definition step_append ::
  "clock \<Rightarrow> node_name \<Rightarrow> nat \<Rightarrow> node_name \<Rightarrow> nat \<Rightarrow> nat \<Rightarrow> entries \<Rightarrow> nat \<Rightarrow> raft_node
     \<Rightarrow> raft_node option" where
  "step_append clk from t ldr pli plt es lc n =
     (if from \<noteq> ldr \<or> from \<notin> set (peers n) then Some n
      else if t < current_term n
        then Some (push_out from
               (AppendEntriesResp (current_term n) False (last_log_index n)) n)
      else
        let n1 = (observe_term t n)\<lparr>role := Follower, leader_hint := Some ldr,
                                    last_heartbeat_ms := now_ms clk\<rparr> in
        case append_plan pli plt es n1 of
          None \<Rightarrow> Some (push_out from
                    (AppendEntriesResp (current_term n1) False (last_log_index n1)) n1)
        | Some (keep, skip) \<Rightarrow>
            let matched = pli + length es;
                n2 = n1\<lparr>log := take keep (log n1) @ drop skip es\<rparr>;
                new_commit = min lc matched
            in case (if new_commit > commit_index n2 then commit_to new_commit n2 else Some n2) of
                 None \<Rightarrow> None
               | Some n3 \<Rightarrow>
                   Some (push_out from (AppendEntriesResp (current_term n3) True matched) n3))"

section \<open>Acknowledgements and the commit point\<close>

definition match_of :: "raft_node \<Rightarrow> node_name \<Rightarrow> nat" where
  "match_of n p = (case match_index n p of None \<Rightarrow> 0 | Some m \<Rightarrow> m)"

definition commit_votes :: "raft_node \<Rightarrow> nat list" where
  "commit_votes n =
     sort (map (\<lambda>p. min (match_of n p) (last_log_index n)) (peers n) @ [last_log_index n])"

definition advance_commit :: "raft_node \<Rightarrow> raft_node option" where
  "advance_commit n =
     (case get_at (commit_votes n) (length (commit_votes n) - quorum n) of
        None \<Rightarrow> None
      | Some majority \<Rightarrow>
          if majority > commit_index n \<and>
             (case get_at (log n) (majority - 1) of None \<Rightarrow> False
              | Some e \<Rightarrow> e_term e = current_term n)
          then (case commit_to majority n of None \<Rightarrow> None | Some n1 \<Rightarrow> broadcast_append n1)
          else Some n)"

definition step_append_resp ::
  "node_name \<Rightarrow> nat \<Rightarrow> bool \<Rightarrow> nat \<Rightarrow> raft_node \<Rightarrow> raft_node option" where
  "step_append_resp from t success m n =
     (if from \<notin> set (peers n) then Some n
      else if t > current_term n then Some (observe_term t n)
      else if role n \<noteq> Leader \<or> t \<noteq> current_term n then Some n
      else if success \<and> m > last_log_index n then Some n
      else if success \<and> m > (case sent_upper n from of None \<Rightarrow> 0 | Some u \<Rightarrow> u) then Some n
      else if success then
        let ni = (case next_index n from of None \<Rightarrow> 1 | Some v \<Rightarrow> v) in
        advance_commit
          (n\<lparr>match_index := (match_index n)(from \<mapsto> max (match_of n from) m),
             next_index := (next_index n)(from \<mapsto> max ni (saturating_add m 1))\<rparr>)
      else
        let floor_ni = saturating_add (match_of n from) 1;
            ni = (case next_index n from of None \<Rightarrow> 1 | Some v \<Rightarrow> v);
            retry = max (ni - 1) floor_ni
        in if ni \<le> retry then Some (n\<lparr>next_index := (next_index n)(from \<mapsto> ni)\<rparr>)
           else send_append from (n\<lparr>next_index := (next_index n)(from \<mapsto> retry)\<rparr>))"

section \<open>The driver interface\<close>

definition malformed_reply :: "node_name \<Rightarrow> raft_rpc \<Rightarrow> raft_node \<Rightarrow> raft_rpc option" where
  "malformed_reply from rpc n =
     (case rpc of
        RequestVote t cand lli llt \<Rightarrow>
          if cand = from then Some (RequestVoteResp (current_term n) False) else None
      | AppendEntries t ldr pli plt es lc \<Rightarrow>
          if ldr = from
          then Some (AppendEntriesResp (current_term n) False (last_log_index n)) else None
      | RequestVoteResp t g \<Rightarrow> None
      | AppendEntriesResp t s m \<Rightarrow> None)"

definition raft_step :: "clock \<Rightarrow> node_name \<Rightarrow> raft_rpc \<Rightarrow> raft_node \<Rightarrow> raft_node option" where
  "raft_step clk from rpc n =
     (if \<not> validate_shape rpc then
        Some (if from \<in> set (peers n)
              then (case malformed_reply from rpc n of None \<Rightarrow> n | Some r \<Rightarrow> push_out from r n)
              else n)
      else case rpc of
          RequestVote t cand lli llt \<Rightarrow> step_request_vote clk from t cand lli llt n
        | RequestVoteResp t g \<Rightarrow> step_vote_resp clk from t g n
        | AppendEntries t ldr pli plt es lc \<Rightarrow> step_append clk from t ldr pli plt es lc n
        | AppendEntriesResp t s m \<Rightarrow> step_append_resp from t s m n)"

definition raft_tick :: "clock \<Rightarrow> raft_node \<Rightarrow> raft_node option" where
  "raft_tick clk n =
     (case role n of
        Leader \<Rightarrow>
          if now_ms clk - last_heartbeat_ms n \<ge> heartbeat_ms clk
          then broadcast_append (n\<lparr>last_heartbeat_ms := now_ms clk\<rparr>) else Some n
      | _ \<Rightarrow>
          if now_ms clk - last_heartbeat_ms n
             \<ge> saturating_add (election_timeout_ms clk) (timeout_jitter_ms n)
          then start_election clk n else Some n)"

datatype not_leader = NotLeader "node_name option"

definition raft_propose ::
  "byte list \<Rightarrow> raft_node \<Rightarrow> ((not_leader + nat) \<times> raft_node) option" where
  "raft_propose cmd n =
     (if role n \<noteq> Leader then Some (Inl (NotLeader (leader_hint n)), n)
      else
        let index = length (log n) + 1;
            n1 = n\<lparr>log := log n @ [\<lparr>e_term = current_term n, e_index = index, e_cmd = cmd\<rparr>]\<rparr>
        in case broadcast_append n1 of
             None \<Rightarrow> None
           | Some n2 \<Rightarrow>
               (case (if peers n2 = [] then advance_commit n2 else Some n2) of
                  None \<Rightarrow> None
                | Some n3 \<Rightarrow> Some (Inr index, n3)))"

definition raft_outbox :: "raft_node \<Rightarrow> (node_name \<times> raft_rpc) list \<times> raft_node" where
  "raft_outbox n = (outbox n, n\<lparr>outbox := []\<rparr>)"

definition raft_pending_committed :: "raft_node \<Rightarrow> entries" where
  "raft_pending_committed n = pending_apply n"

definition raft_committed :: "raft_node \<Rightarrow> entries \<times> raft_node" where
  "raft_committed n = (pending_apply n, n\<lparr>pending_apply := []\<rparr>)"


section \<open>Well-formed nodes\<close>

text \<open>The log's indices count from one, its terms are positive, ordered and at most \<open>t\<close>.\<close>

definition log_idx :: "entries \<Rightarrow> bool" where
  "log_idx L \<longleftrightarrow> (\<forall>k < length L. e_index (L ! k) = k + 1)"

definition log_terms :: "nat \<Rightarrow> entries \<Rightarrow> bool" where
  "log_terms t L \<longleftrightarrow> sorted (map e_term L) \<and> (\<forall>e \<in> set L. 0 < e_term e \<and> e_term e \<le> t)"

definition next_ok :: "raft_node \<Rightarrow> bool" where
  "next_ok n \<longleftrightarrow> (\<forall>p v. next_index n p = Some v \<longrightarrow> v \<le> length (log n) + 1)"

definition node_wf :: "raft_node \<Rightarrow> bool" where
  "node_wf n \<longleftrightarrow>
     node_id n \<notin> set (peers n) \<and> distinct (peers n) \<and>
     log_idx (log n) \<and> log_terms (current_term n) (log n) \<and>
     commit_index n \<le> length (log n) \<and> last_applied n = commit_index n \<and>
     distinct (votes_received n) \<and>
     set (votes_received n) \<subseteq> insert (node_id n) (set (peers n)) \<and>
     (role n = Leader \<longrightarrow> next_ok n)"

lemma log_idx_Nil [simp]: "log_idx []"
  by (simp add: log_idx_def)

lemma log_terms_Nil [simp]: "log_terms t []"
  by (simp add: log_terms_def)

lemma log_terms_mono: "log_terms t L \<Longrightarrow> t \<le> u \<Longrightarrow> log_terms u L"
  by (auto simp: log_terms_def)

lemma log_idx_take: "log_idx L \<Longrightarrow> log_idx (take k L)"
  by (simp add: log_idx_def)

lemma log_idx_snoc: "log_idx L \<Longrightarrow> e_index e = length L + 1 \<Longrightarrow> log_idx (L @ [e])"
  by (auto simp: log_idx_def nth_append less_Suc_eq)

lemma log_terms_snoc:
  "log_terms t L \<Longrightarrow> e_term e = t \<Longrightarrow> 0 < t \<Longrightarrow> log_terms t (L @ [e])"
  by (auto simp: log_terms_def sorted_append)

lemma log_terms_take: "log_terms t L \<Longrightarrow> log_terms t (take k L)"
  by (auto simp: log_terms_def take_map [symmetric] sorted_wrt_take dest: in_set_takeD)

lemma log_terms_nth_mono:
  "log_terms t L \<Longrightarrow> i \<le> j \<Longrightarrow> j < length L \<Longrightarrow> e_term (L ! i) \<le> e_term (L ! j)"
  using sorted_nth_mono [of "map e_term L" i j] by (simp add: log_terms_def)

section \<open>What an append request carries\<close>

text \<open>
  \<open>ae_ok n m\<close>: \<open>m\<close> is an \<^verbatim>\<open>AppendEntries\<close> of node \<open>n\<close> for a contiguous section of
  its log, with the position before it and the node's commit point.
\<close>

definition ae_ok :: "raft_node \<Rightarrow> raft_rpc \<Rightarrow> bool" where
  "ae_ok n m \<longleftrightarrow>
     (\<exists>pli es. m = AppendEntries (current_term n) (node_id n) pli
          (if pli = 0 then 0 else e_term (log n ! (pli - 1))) es (commit_index n) \<and>
        pli + length es \<le> length (log n) \<and> es = take (length es) (drop pli (log n)))"

lemma ae_ok_cong:
  "current_term n = current_term k \<Longrightarrow> node_id n = node_id k \<Longrightarrow> log n = log k \<Longrightarrow>
   commit_index n = commit_index k \<Longrightarrow> ae_ok n m = ae_ok k m"
  by (simp add: ae_ok_def)

lemma ae_ok_update [simp]:
  "ae_ok (n\<lparr>sent_upper := a\<rparr>) m = ae_ok n m"
  "ae_ok (n\<lparr>outbox := b\<rparr>) m = ae_ok n m"
  "ae_ok (n\<lparr>last_heartbeat_ms := c\<rparr>) m = ae_ok n m"
  "ae_ok (n\<lparr>role := d\<rparr>) m = ae_ok n m"
  "ae_ok (n\<lparr>leader_hint := e\<rparr>) m = ae_ok n m"
  "ae_ok (n\<lparr>next_index := f\<rparr>) m = ae_ok n m"
  "ae_ok (n\<lparr>match_index := g\<rparr>) m = ae_ok n m"
  "ae_ok (n\<lparr>votes_received := h\<rparr>) m = ae_ok n m"
  "ae_ok (n\<lparr>pending_apply := i\<rparr>) m = ae_ok n m"
  "ae_ok (n\<lparr>last_applied := j\<rparr>) m = ae_ok n m"
  by (simp_all add: ae_ok_def)

lemma send_append_ok:
  assumes idx: "log_idx (log n)" and nxt: "next_ok n"
  shows "\<exists>su m. send_append p n = Some (n\<lparr>sent_upper := su, outbox := outbox n @ [(p, m)]\<rparr>)
           \<and> ae_ok n m"
proof -
  define ni where "ni = (case next_index n p of None \<Rightarrow> 1 | Some v \<Rightarrow> v)"
  have ni: "ni \<le> length (log n) + 1"
    using nxt by (auto simp: ni_def next_ok_def split: option.splits)
  define pli where "pli = ni - 1"
  define plt where "plt = (if pli = 0 then 0 else e_term (log n ! (pli - 1)))"
  have pp: "prev_position n ni = Some (pli, plt)"
    using ni idx by (auto simp: prev_position_def plt_def pli_def log_idx_def get_at_def)
      (metis Suc_diff_Suc numeral_2_eq_2)+
  have sl: "slice_from (log n) (ni - Suc 0) = Some (drop pli (log n))"
    using ni by (simp add: slice_from_def pli_def)
  let ?es = "take (batch_count 0 (take 1024 (drop pli (log n)))) (drop pli (log n))"
  have len: "pli + length ?es \<le> length (log n)" using ni by (auto simp: pli_def)
  have eq: "?es = take (length ?es) (drop pli (log n))" by (rule take_length_self [symmetric])
  let ?m = "AppendEntries (current_term n) (node_id n) pli plt ?es (commit_index n)"
  have "ae_ok n ?m" using len eq unfolding ae_ok_def plt_def by blast
  moreover have "send_append p n = Some (n\<lparr>sent_upper := (sent_upper n)(p \<mapsto> saturating_add pli (length ?es)),
      outbox := outbox n @ [(p, ?m)]\<rparr>)"
    by (simp add: send_append_def ni_def [symmetric] pp sl push_out_def Let_def)
  ultimately show ?thesis by blast
qed

lemma next_ok_update [simp]:
  "next_ok (n\<lparr>sent_upper := a\<rparr>) = next_ok n"
  "next_ok (n\<lparr>outbox := b\<rparr>) = next_ok n"
  by (simp_all add: next_ok_def)

lemma send_all_ok:
  assumes "log_idx (log n)" and "next_ok n"
  shows "\<exists>su ms. send_all ps n = Some (n\<lparr>sent_upper := su, outbox := outbox n @ ms\<rparr>)
           \<and> (\<forall>(p, m) \<in> set ms. p \<in> set ps \<and> ae_ok n m)"
  using assms
proof (induction ps arbitrary: n)
  case Nil
  show ?case
    by (rule exI [of _ "sent_upper n"], rule exI [of _ "[]"]) simp
next
  case (Cons p ps)
  obtain su m where 1: "send_append p n = Some (n\<lparr>sent_upper := su, outbox := outbox n @ [(p, m)]\<rparr>)"
    and ok: "ae_ok n m"
    using send_append_ok [OF Cons.prems] by blast
  let ?k = "n\<lparr>sent_upper := su, outbox := outbox n @ [(p, m)]\<rparr>"
  have "log_idx (log ?k)" "next_ok ?k" using Cons.prems by simp_all
  from Cons.IH [OF this] obtain su' ms where
    2: "send_all ps ?k = Some (?k\<lparr>sent_upper := su', outbox := outbox ?k @ ms\<rparr>)" and
    oks: "\<forall>(p, m) \<in> set ms. p \<in> set ps \<and> ae_ok ?k m"
    by blast
  show ?case
    using 1 2 ok oks by (intro exI [of _ su'] exI [of _ "(p, m) # ms"]) auto
qed

section \<open>The receiving side against the textbook rule\<close>

lemma entries_shape_props:
  assumes "entries_shape t i pt es"
  shows "(\<forall>j < length es. e_index (es ! j) = i + j + 1) \<and>
         sorted (pt # map e_term es) \<and> (\<forall>e \<in> set es. 0 < e_term e \<and> e_term e \<le> t)"
  using assms
proof (induction es arbitrary: i pt)
  case (Cons e es)
  then have e: "e_index e = i + 1" "0 < e_term e" "e_term e \<le> t" "pt \<le> e_term e"
    and sh: "entries_shape t (e_index e) (e_term e) es"
    by (auto simp: checked_add_def split: if_splits)
  from Cons.IH [OF sh] e show ?case
    by (auto simp: nth_Cons' less_Suc_eq_0_disj)
qed simp

lemma append_scan_changed: "append_scan lg c (Some x) off es = Some r \<Longrightarrow> r = Some x"
  by (induction es arbitrary: off) (auto simp: Let_def split: option.splits if_splits)

text \<open>The scan reports the first position where the local log does not hold the entry.\<close>

lemma append_scan_spec:
  assumes "append_scan lg c None off es = Some r"
    and "\<forall>j < length es. e_index (es ! j) = b + j + 1"
  shows "case r of
      None \<Rightarrow> \<forall>j < length es. get_at lg (b + j) = Some (es ! j)
    | Some (slot, o1) \<Rightarrow> \<exists>j < length es. slot = b + j \<and> o1 = off + j \<and> c \<le> slot \<and>
        (\<forall>i < j. get_at lg (b + i) = Some (es ! i)) \<and>
        (length lg \<le> slot \<or> e_term (lg ! slot) \<noteq> e_term (es ! j))"
  using assms
proof (induction es arbitrary: off b)
  case (Cons e es)
  have idx: "e_index e = b + 1" using Cons.prems(2) by force
  have rest: "\<forall>j < length es. e_index (es ! j) = Suc b + j + 1" using Cons.prems(2) by force
  show ?case
  proof (cases "get_at lg b = Some e")
    case True
    then have "append_scan lg c None (Suc off) es = Some r"
      using Cons.prems(1) idx by (simp add: checked_sub_def get_at_def Let_def)
    from Cons.IH [OF this rest] show ?thesis
    proof (cases r)
      case None
      with Cons.IH [OF \<open>append_scan lg c None (Suc off) es = Some r\<close> rest] True
      show ?thesis by (auto simp: nth_Cons' less_Suc_eq_0_disj)
    next
      case (Some so)
      obtain slot o1 where so: "so = (slot, o1)" by (cases so)
      from Cons.IH [OF \<open>append_scan lg c None (Suc off) es = Some r\<close> rest] Some so
      obtain j where j: "j < length es" "slot = Suc b + j" "o1 = Suc off + j" "c \<le> slot"
        "\<forall>i < j. get_at lg (Suc b + i) = Some (es ! i)"
        "length lg \<le> slot \<or> e_term (lg ! slot) \<noteq> e_term (es ! j)" by auto
      have "\<forall>i < Suc j. get_at lg (b + i) = Some ((e # es) ! i)"
      proof (intro allI impI)
        fix i assume "i < Suc j"
        then show "get_at lg (b + i) = Some ((e # es) ! i)" using j(5) True by (cases i) auto
      qed
      with j Some so show ?thesis by (auto intro!: exI [of _ "Suc j"])
    qed
  next
    case False
    then have "append_scan lg c (Some (b, off)) (Suc off) es = Some r" and c: "c \<le> b"
      and ne: "length lg \<le> b \<or> e_term (lg ! b) \<noteq> e_term e"
      using Cons.prems(1) idx
      by (auto simp: checked_sub_def get_at_def Let_def split: if_splits)
    then have "r = Some (b, off)" by (blast dest: append_scan_changed)
    with c ne show ?thesis by auto
  qed
qed simp

lemma get_at_prefix_eq:
  assumes "\<forall>i < j. get_at lg (b + i) = Some (es ! i)" and "j \<le> length es"
  shows "take (b + j) lg = take b lg @ take j es"
  using assms
proof (induction j)
  case (Suc j)
  then have "take (b + j) lg = take b lg @ take j es" by simp
  moreover have "b + j < length lg" "lg ! (b + j) = es ! j" using Suc.prems(1) by (auto simp: opt_iffs)
  ultimately show ?case using Suc.prems(2) by (simp add: take_Suc_conv_app_nth)
qed simp

text \<open>
  The plan against the textbook rule: an accepted request leaves a log that holds the request's
  entries right after the agreed prefix; it is the old log when that already holds them, and
  otherwise the old log cut back to the first position that is missing or has another term,
  which is never a committed one.
\<close>

lemma append_plan_spec:
  assumes plan: "append_plan pli plt es n = Some (keep, skip)"
    and idx: "\<forall>j < length es. e_index (es ! j) = pli + j + 1"
  defines "L' \<equiv> take keep (log n) @ drop skip es"
  shows "pli \<le> length (log n)" and "0 < pli \<Longrightarrow> e_term (log n ! (pli - 1)) = plt"
    and "(L' = log n \<and> take (pli + length es) (log n) = take pli (log n) @ es \<and>
            pli + length es \<le> length (log n)) \<or>
         (L' = take pli (log n) @ es \<and>
          (\<exists>s. pli \<le> s \<and> s < pli + length es \<and> commit_index n \<le> s \<and>
               take s L' = take s (log n) \<and>
               (length (log n) \<le> s \<or> e_term (log n ! s) \<noteq> e_term (L' ! s))))"
proof -
  from plan obtain r where sc: "append_scan (log n) (commit_index n) None 0 es = Some r"
    and r: "(keep, skip) = (case r of None \<Rightarrow> (length (log n), length es) | Some c \<Rightarrow> c)"
    by (auto simp: append_plan_def split: if_splits option.splits)
  have pre: "pli = 0 \<or> (pli - 1 < length (log n) \<and> e_term (log n ! (pli - 1)) = plt)"
    using plan by (auto simp: append_plan_def get_at_def split: if_splits option.splits)
  show len: "pli \<le> length (log n)" using pre by auto
  show "0 < pli \<Longrightarrow> e_term (log n ! (pli - 1)) = plt" using pre by auto
  show "(L' = log n \<and> take (pli + length es) (log n) = take pli (log n) @ es \<and>
            pli + length es \<le> length (log n)) \<or>
         (L' = take pli (log n) @ es \<and>
          (\<exists>s. pli \<le> s \<and> s < pli + length es \<and> commit_index n \<le> s \<and>
               take s L' = take s (log n) \<and>
               (length (log n) \<le> s \<or> e_term (log n ! s) \<noteq> e_term (L' ! s))))"
  proof (cases r)
    case None
    with append_scan_spec [OF sc idx]
    have all: "\<forall>j < length es. get_at (log n) (pli + j) = Some (es ! j)" by simp
    have "take (pli + length es) (log n) = take pli (log n) @ es"
      using get_at_prefix_eq [OF all] by simp
    moreover from this have "pli + length es \<le> length (log n)"
      using len by (metis (no_types, opaque_lifting) length_append length_take min.absorb2 min.cobounded1)
    moreover have "L' = log n" using None r by (simp add: L'_def)
    ultimately show ?thesis by blast
  next
    case (Some so)
    then have so: "so = (keep, skip)" using r by simp
    with append_scan_spec [OF sc idx] Some
    obtain j where j: "j < length es" "keep = pli + j" "skip = j" "commit_index n \<le> keep"
      "\<forall>i < j. get_at (log n) (pli + i) = Some (es ! i)"
      "length (log n) \<le> keep \<or> e_term (log n ! keep) \<noteq> e_term (es ! j)" by auto
    have tk: "take keep (log n) = take pli (log n) @ take j es"
      using get_at_prefix_eq [OF j(5)] j(1,2) by simp
    have L': "L' = take pli (log n) @ es" using tk j(3) by (simp add: L'_def)
    have "take keep L' = take keep (log n)" using tk len j(1,2) by (simp add: L')
    moreover have "L' ! keep = es ! j" using len j(1,2) by (simp add: L' nth_append)
    ultimately have "pli \<le> keep \<and> keep < pli + length es \<and> commit_index n \<le> keep \<and>
        take keep L' = take keep (log n) \<and>
        (length (log n) \<le> keep \<or> e_term (log n ! keep) \<noteq> e_term (L' ! keep))"
      using j by simp
    with L' show ?thesis by blast
  qed
qed

section \<open>Effects of the remaining helpers\<close>

lemma broadcast_append_ok:
  assumes "log_idx (log n)" and "next_ok n"
  shows "\<exists>su ms. broadcast_append n = Some (n\<lparr>sent_upper := su, outbox := outbox n @ ms\<rparr>)
           \<and> (\<forall>(p, m) \<in> set ms. p \<in> set (peers n) \<and> ae_ok n m)"
  using send_all_ok [OF assms] by (simp add: broadcast_append_def)

lemma become_leader_ok:
  assumes "log_idx (log n)"
  shows "\<exists>nx su ms. become_leader clk n = Some (n\<lparr>role := Leader, leader_hint := Some (node_id n),
           next_index := nx, match_index := (\<lambda>p. if p \<in> set (peers n) then Some 0 else None),
           sent_upper := su, last_heartbeat_ms := now_ms clk, outbox := outbox n @ ms\<rparr>)
         \<and> (\<forall>p v. nx p = Some v \<longrightarrow> v \<le> length (log n) + 1)
         \<and> (\<forall>(p, m) \<in> set ms. p \<in> set (peers n) \<and> ae_ok n m)"
proof -
  let ?nx = "\<lambda>p. if p \<in> set (peers n) then Some (last_log_index n + 1) else None"
  let ?k = "n\<lparr>role := Leader, leader_hint := Some (node_id n), next_index := ?nx,
      match_index := (\<lambda>p. if p \<in> set (peers n) then Some 0 else None),
      sent_upper := (\<lambda>p. if p \<in> set (peers n) then Some 0 else None),
      last_heartbeat_ms := now_ms clk\<rparr>"
  have "log_idx (log ?k)" "next_ok ?k"
    using assms by (auto simp: next_ok_def last_log_index_def split: if_splits)
  from broadcast_append_ok [OF this] obtain su ms where
    "broadcast_append ?k = Some (?k\<lparr>sent_upper := su, outbox := outbox ?k @ ms\<rparr>)"
    and "\<forall>(p, m) \<in> set ms. p \<in> set (peers ?k) \<and> ae_ok ?k m" by blast
  moreover have "become_leader clk n = broadcast_append ?k"
    unfolding become_leader_def Let_def by (rule refl)
  ultimately show ?thesis
    by - (rule exI [of _ ?nx], rule exI [of _ su], rule exI [of _ ms],
        auto simp: last_log_index_def split: if_splits)
qed

text \<open>The members that hold the leader's log up to \<open>c\<close>, as far as it knows.\<close>

definition ackers :: "raft_node \<Rightarrow> nat \<Rightarrow> node_name set" where
  "ackers n c = insert (node_id n) {p \<in> set (peers n). c \<le> match_of n p}"

lemma quorum_le: "quorum n \<le> length (peers n) + 1"
  by (simp add: quorum_def)

lemma length_commit_votes: "length (commit_votes n) = length (peers n) + 1"
  by (simp add: commit_votes_def)

lemma length_filter_sort: "length (filter P (sort xs)) = length (filter P xs)"
  by (metis filter_sort length_sort)

text \<open>
  The entry of the sorted acknowledgements that \<^verbatim>\<open>advance_commit\<close> picks is acknowledged by
  a strict majority.
\<close>

lemma majority_acked:
  assumes dist: "distinct (peers n)" and notin: "node_id n \<notin> set (peers n)"
    and c: "c = commit_votes n ! (length (commit_votes n) - quorum n)" and pos: "0 < c"
  shows "quorum n \<le> card (ackers n c)" and "c \<le> last_log_index n"
proof -
  let ?f = "\<lambda>p. min (match_of n p) (last_log_index n)"
  have "quorum n \<le> length (filter (\<lambda>x. c \<le> x) (commit_votes n))"
    unfolding c using quorum_le length_commit_votes
    by (intro sorted_tail_count) (auto simp: commit_votes_def quorum_def)
  also have "\<dots> = length (filter (\<lambda>x. c \<le> x) (map ?f (peers n) @ [last_log_index n]))"
    by (simp only: commit_votes_def length_filter_sort)
  also have "\<dots> \<le> length (filter (\<lambda>p. c \<le> match_of n p) (peers n)) + 1"
  proof -
    have "length (filter (\<lambda>p. c \<le> ?f p) (peers n)) \<le> length (filter (\<lambda>p. c \<le> match_of n p) (peers n))"
      by (rule length_filter_mono) simp
    then show ?thesis by (simp add: filter_map comp_def)
  qed
  also have "length (filter (\<lambda>p. c \<le> match_of n p) (peers n)) =
      card {p \<in> set (peers n). c \<le> match_of n p}"
    using dist by (metis distinct_card distinct_filter set_filter)
  also have "card {p \<in> set (peers n). c \<le> match_of n p} + 1 = card (ackers n c)"
    using notin by (simp add: ackers_def)
  finally show "quorum n \<le> card (ackers n c)" .
  have "length (commit_votes n) - quorum n < length (commit_votes n)"
    using length_commit_votes by (simp add: quorum_def)
  then have "c \<in> set (commit_votes n)" unfolding c by (rule nth_mem)
  then show "c \<le> last_log_index n" by (auto simp: commit_votes_def)
qed

lemma advance_commit_ok:
  assumes wf: "node_wf n" and lead: "role n = Leader"
  shows "advance_commit n = Some n \<or>
    (\<exists>c su ms. advance_commit n = Some (n\<lparr>commit_index := c,
        pending_apply := pending_apply n @ take (c - commit_index n) (drop (commit_index n) (log n)),
        last_applied := c, sent_upper := su, outbox := outbox n @ ms\<rparr>)
      \<and> commit_index n < c \<and> c \<le> length (log n) \<and> e_term (log n ! (c - 1)) = current_term n
      \<and> quorum n \<le> card (ackers n c)
      \<and> (\<forall>(p, m) \<in> set ms. p \<in> set (peers n) \<and> ae_ok (n\<lparr>commit_index := c\<rparr>) m))"
proof -
  let ?i = "length (commit_votes n) - quorum n"
  define c where "c = commit_votes n ! ?i"
  have i: "?i < length (commit_votes n)" using length_commit_votes by (simp add: quorum_def)
  then have get: "get_at (commit_votes n) ?i = Some c" by (simp add: c_def get_at_def)
  show ?thesis
  proof (cases "c > commit_index n \<and> (case get_at (log n) (c - 1) of None \<Rightarrow> False
              | Some e \<Rightarrow> e_term e = current_term n)")
    case False
    then have "advance_commit n = Some n" using get by (auto simp: advance_commit_def)
    then show ?thesis ..
  next
    case True
    then have c: "commit_index n < c" and tm: "e_term (log n ! (c - 1)) = current_term n"
      by (auto simp: opt_iffs split: option.splits)
    have acked: "quorum n \<le> card (ackers n c)" "c \<le> length (log n)"
      using majority_acked [OF _ _ c_def] wf c by (auto simp: node_wf_def last_log_index_def)
    let ?k = "n\<lparr>commit_index := c,
        pending_apply := pending_apply n @ take (c - commit_index n) (drop (commit_index n) (log n)),
        last_applied := c\<rparr>"
    have com: "commit_to c n = Some ?k"
      using wf c acked by (simp add: commit_to_def slice_def node_wf_def)
    have "log_idx (log ?k)" "next_ok ?k" using wf lead by (auto simp: node_wf_def next_ok_def)
    from broadcast_append_ok [OF this] obtain su ms where
      b: "broadcast_append ?k = Some (?k\<lparr>sent_upper := su, outbox := outbox ?k @ ms\<rparr>)" and
      ms: "\<forall>(p, m) \<in> set ms. p \<in> set (peers ?k) \<and> ae_ok ?k m" by blast
    have "advance_commit n = Some (?k\<lparr>sent_upper := su, outbox := outbox ?k @ ms\<rparr>)"
      using True get com b by (simp add: advance_commit_def)
    moreover have "\<forall>(p, m) \<in> set ms. p \<in> set (peers n) \<and> ae_ok (n\<lparr>commit_index := c\<rparr>) m"
      using ms by auto
    ultimately show ?thesis using c tm acked by (intro disjI2 exI [of _ c] exI [of _ su] exI [of _ ms]) simp
  qed
qed

end
