(* ===== verification/Raft_Cluster.thy ===== *)
theory Raft_Cluster
  imports Raft_Node
begin

text \<open>
  A group of Raft nodes and the network between them, driven as the host protocol of
  \<^verbatim>\<open>RaftNode\<close> prescribes: \<^verbatim>\<open>tick\<close>, deliver an RPC with \<^verbatim>\<open>step\<close>, client
  \<^verbatim>\<open>propose\<close>, take \<^verbatim>\<open>outbox\<close> and send it, take \<^verbatim>\<open>committed\<close> and apply it, and
  crash and reopen from the persistent state. Any node may move at any time with any clock
  reading. The wire keeps every RPC that was ever sent and a delivery picks any of them, so
  messages may be lost, duplicated, delayed and reordered at will; what the wire does not do is
  forge a sender, which is what the authenticated transport provides to the source
  (\<^verbatim>\<open>from\<close> is bound to the peer's identity).
\<close>

section \<open>Recovery\<close>

text \<open>
  What \<^verbatim>\<open>DurableRaft::open_validated\<close> builds from the snapshot: a fresh node with the
  saved term, vote, log and commit point, whose committed prefix is pending for replay.
\<close>

definition restart_node :: "clock \<Rightarrow> raft_node \<Rightarrow> raft_node" where
  "restart_node clk n =
     (raft_new clk (node_id n) (peers n))
       \<lparr>current_term := current_term n, voted_for := voted_for n, log := log n,
        commit_index := commit_index n, last_applied := commit_index n,
        pending_apply := take (commit_index n) (log n)\<rparr>"

section \<open>The group\<close>

record cluster =
  members :: "node_name list"
  nodes :: "node_name \<Rightarrow> raft_node"
  wire :: "(node_name \<times> node_name \<times> raft_rpc) list"
  applied :: "node_name \<Rightarrow> entries"
    \<comment> \<open>what the host of a node has applied since the node was opened\<close>

datatype event =
    Tick node_name clock
  | Deliver node_name node_name raft_rpc clock
  | Propose node_name "byte list"
  | Send node_name
  | Apply node_name
  | Restart node_name clock

definition set_node :: "node_name \<Rightarrow> raft_node \<Rightarrow> cluster \<Rightarrow> cluster" where
  "set_node i n c = c\<lparr>nodes := (nodes c)(i := n)\<rparr>"

fun enabled :: "event \<Rightarrow> cluster \<Rightarrow> bool" where
  "enabled (Tick i clk) c = (i \<in> set (members c))"
| "enabled (Deliver i j m clk) c = (j \<in> set (members c) \<and> (i, j, m) \<in> set (wire c))"
| "enabled (Propose i cmd) c = (i \<in> set (members c))"
| "enabled (Send i) c = (i \<in> set (members c))"
| "enabled (Apply i) c = (i \<in> set (members c))"
| "enabled (Restart i clk) c = (i \<in> set (members c))"

fun cluster_step :: "event \<Rightarrow> cluster \<Rightarrow> cluster option" where
  "cluster_step (Tick i clk) c = map_option (\<lambda>n. set_node i n c) (raft_tick clk (nodes c i))"
| "cluster_step (Deliver i j m clk) c =
     map_option (\<lambda>n. set_node j n c) (raft_step clk i m (nodes c j))"
| "cluster_step (Propose i cmd) c =
     map_option (\<lambda>(r, n). set_node i n c) (raft_propose cmd (nodes c i))"
| "cluster_step (Send i) c =
     (let (ms, n) = raft_outbox (nodes c i) in
      Some ((set_node i n c)\<lparr>wire := wire c @ map (\<lambda>(p, m). (i, p, m)) ms\<rparr>))"
| "cluster_step (Apply i) c =
     (let (es, n) = raft_committed (nodes c i) in
      Some ((set_node i n c)\<lparr>applied := (applied c)(i := applied c i @ es)\<rparr>))"
| "cluster_step (Restart i clk) c =
     Some ((set_node i (restart_node clk (nodes c i)) c)\<lparr>applied := (applied c)(i := [])\<rparr>)"

definition init_cluster :: "node_name list \<Rightarrow> (node_name \<Rightarrow> clock) \<Rightarrow> cluster" where
  "init_cluster M clks =
     \<lparr>members = M, nodes = (\<lambda>i. raft_new (clks i) i M), wire = [], applied = (\<lambda>_. [])\<rparr>"

inductive reachable :: "cluster \<Rightarrow> bool" where
  reach_init: "reachable (init_cluster M clks)"
| reach_step: "reachable c \<Longrightarrow> enabled e c \<Longrightarrow> cluster_step e c = Some c' \<Longrightarrow> reachable c'"

text \<open>A run over a list of events; an event that is not enabled, or panics, stops it.\<close>

fun run :: "event list \<Rightarrow> cluster \<Rightarrow> cluster option" where
  "run [] c = Some c"
| "run (e # es) c =
     (if enabled e c then (case cluster_step e c of None \<Rightarrow> None | Some c' \<Rightarrow> run es c') else None)"

lemma run_reachable: "reachable c \<Longrightarrow> run es c = Some c' \<Longrightarrow> reachable c'"
proof (induction es arbitrary: c)
  case (Cons e es)
  then show ?case by (auto split: if_splits option.splits intro: reach_step)
qed simp

lemma cluster_step_members: "cluster_step e c = Some c' \<Longrightarrow> members c' = members c"
  by (cases e) (auto simp: set_node_def Let_def raft_outbox_def raft_committed_def)

section \<open>A run of three members\<close>

text \<open>
  Member \<open>a\<close> times out and is elected with the vote of \<open>b\<close>, a client's command is replicated to
  \<open>b\<close>, committed, and applied by both; \<open>b\<close> then crashes and reopens. Member \<open>c\<close> hears nothing.
\<close>

definition demo_clock :: "nat \<Rightarrow> clock" where
  "demo_clock t = \<lparr>now_ms = t, election_timeout_ms = 150, election_jitter_ms = 1, heartbeat_ms = 50\<rparr>"

definition demo_entry :: log_entry where
  "demo_entry = \<lparr>e_term = 1, e_index = 1, e_cmd = [7]\<rparr>"

definition demo_election :: "event list" where
  "demo_election =
     [Tick ''a'' (demo_clock 1000), Send ''a'',
      Deliver ''a'' ''b'' (RequestVote 1 ''a'' 0 0) (demo_clock 1001), Send ''b'',
      Deliver ''b'' ''a'' (RequestVoteResp 1 True) (demo_clock 1002)]"

definition demo_commit :: "event list" where
  "demo_commit =
     [Propose ''a'' [7], Send ''a'',
      Deliver ''a'' ''b'' (AppendEntries 1 ''a'' 0 0 [demo_entry] 0) (demo_clock 1003), Send ''b'',
      Deliver ''b'' ''a'' (AppendEntriesResp 1 True 1) (demo_clock 1004), Send ''a'',
      Deliver ''a'' ''b'' (AppendEntries 1 ''a'' 1 1 [] 1) (demo_clock 1005),
      Apply ''a'', Apply ''b'']"

definition demo_init :: cluster where
  "demo_init = init_cluster [''a'', ''b'', ''c''] (\<lambda>_. demo_clock 0)"

end
