(* ===== verification/Raft_History.thy ===== *)
theory Raft_History
  imports Raft_Cluster
begin

text \<open>
  The history the safety proof of the Raft group reasons about, and the facts about it that do
  not mention a step. The history is not part of the model: the safety theory shows that every
  reachable group has one that explains its nodes and messages.

  A history records who voted for whom in each term and with which log, who led each term with
  which log and which voters elected it, and which members confirmed which prefix of a leader's
  log. \<open>LP\<close> is log matching in its strong form: every log agrees with the log of the leader
  of each of its entries' terms, up to that entry. \<open>retained\<close> is what makes leader completeness
  work: a member that confirmed a prefix keeps it until a leader without it is elected.
\<close>

section \<open>Histories\<close>

record history =
  votes :: "nat \<Rightarrow> node_name \<Rightarrow> (node_name \<times> entries) option"
  ldr :: "nat \<Rightarrow> (node_name \<times> entries \<times> node_name set) option"
  acks :: "(nat \<times> node_name \<times> nat) set"

definition is_majority :: "node_name set \<Rightarrow> node_name set \<Rightarrow> bool" where
  "is_majority M Q \<longleftrightarrow> finite M \<and> Q \<subseteq> M \<and> card M div 2 + 1 \<le> card Q"

interpretation majority: quorum_system "is_majority M" for M
proof
  fix Q R
  assume "is_majority M Q" and "is_majority M R"
  then show "\<exists>v. v \<in> Q \<and> v \<in> R"
    unfolding is_majority_def by (intro majorities_meet [of M]) auto
qed

definition last_term :: "entries \<Rightarrow> nat" where
  "last_term L = (if L = [] then 0 else e_term (last L))"

definition uptodate :: "entries \<Rightarrow> entries \<Rightarrow> bool" where
  "uptodate Lc L \<longleftrightarrow>
     last_term Lc > last_term L \<or> (last_term Lc = last_term L \<and> length Lc \<ge> length L)"

definition llog :: "history \<Rightarrow> nat \<Rightarrow> entries" where
  "llog g t = (case ldr g t of None \<Rightarrow> [] | Some (l, LL, Q) \<Rightarrow> LL)"

definition elog :: "history \<Rightarrow> nat \<Rightarrow> entries" where
  "elog g t = (case ldr g t of None \<Rightarrow> []
     | Some (l, LL, Q) \<Rightarrow> (case votes g t l of None \<Rightarrow> [] | Some (c, E) \<Rightarrow> E))"

definition LP :: "history \<Rightarrow> entries \<Rightarrow> bool" where
  "LP g L \<longleftrightarrow> (\<forall>k < length L. ldr g (e_term (L ! k)) \<noteq> None \<and>
      k < length (llog g (e_term (L ! k))) \<and>
      take (Suc k) (llog g (e_term (L ! k))) = take (Suc k) L)"

definition leads :: "history \<Rightarrow> nat \<Rightarrow> node_name \<Rightarrow> bool" where
  "leads g t i \<longleftrightarrow> (\<exists>LL Q. ldr g t = Some (i, LL, Q))"

definition held :: "history \<Rightarrow> nat \<Rightarrow> node_name \<Rightarrow> nat \<Rightarrow> bool" where
  "held g t v m \<longleftrightarrow> (t, v, m) \<in> acks g \<or> (leads g t v \<and> m \<le> length (llog g t))"

definition retained :: "history \<Rightarrow> nat \<Rightarrow> nat \<Rightarrow> entries \<Rightarrow> nat \<Rightarrow> bool" where
  "retained g t m L b \<longleftrightarrow> (\<forall>k \<le> m. prefix (take k (llog g t)) L \<or>
     (\<exists>u. t < u \<and> u \<le> b \<and> ldr g u \<noteq> None \<and> \<not> prefix (take k (llog g t)) (elog g u)))"

definition early_vote :: "history \<Rightarrow> nat \<Rightarrow> node_name \<Rightarrow> bool" where
  "early_vote g t v \<longleftrightarrow> (\<forall>l LL Q. ldr g t = Some (l, LL, Q) \<longrightarrow> v \<in> Q)"

definition committed :: "node_name set \<Rightarrow> history \<Rightarrow> nat \<Rightarrow> nat \<Rightarrow> bool" where
  "committed M g t i \<longleftrightarrow> ldr g t \<noteq> None \<and> 0 < i \<and> i \<le> length (llog g t) \<and>
     e_term (llog g t ! (i - 1)) = t \<and>
     (\<exists>R. is_majority M R \<and> (\<forall>v \<in> R. \<exists>m \<ge> i. held g t v m))"

definition commit_ok :: "node_name set \<Rightarrow> history \<Rightarrow> nat \<Rightarrow> entries \<Rightarrow> nat \<Rightarrow> bool" where
  "commit_ok M g b L c \<longleftrightarrow> c = 0 \<or> (\<exists>t i. t \<le> b \<and> committed M g t i \<and> c \<le> i \<and>
     c \<le> length L \<and> take c L = take c (llog g t))"

section \<open>Invariants\<close>

fun msg_inv :: "node_name set \<Rightarrow> history \<Rightarrow> node_name \<Rightarrow> node_name \<Rightarrow> raft_rpc \<Rightarrow> bool" where
  "msg_inv M g i to (RequestVote t c li lt) \<longleftrightarrow>
     c = i \<and> (\<exists>L. votes g t i = Some (i, L) \<and> li = length L \<and> lt = last_term L)"
| "msg_inv M g i to (RequestVoteResp t granted) \<longleftrightarrow>
     (granted \<longrightarrow> (\<exists>L. votes g t i = Some (to, L)))"
| "msg_inv M g i to (AppendEntries t l pli plt es lc) \<longleftrightarrow>
     l = i \<and> leads g t i \<and> pli + length es \<le> length (llog g t) \<and>
     es = take (length es) (drop pli (llog g t)) \<and>
     plt = (if pli = 0 then 0 else e_term (llog g t ! (pli - 1))) \<and>
     commit_ok M g t (llog g t) lc"
| "msg_inv M g i to (AppendEntriesResp t success m) \<longleftrightarrow> (success \<longrightarrow> (t, i, m) \<in> acks g)"

definition vote_inv :: "node_name set \<Rightarrow> history \<Rightarrow> bool" where
  "vote_inv M g \<longleftrightarrow> (\<forall>t v c L. votes g t v = Some (c, L) \<longrightarrow>
     v \<in> M \<and> c \<in> M \<and> 0 < t \<and> LP g L \<and> log_terms t L \<and>
     (\<exists>Lc. votes g t c = Some (c, Lc) \<and> uptodate Lc L) \<and>
     (c = v \<longrightarrow> log_terms (t - 1) L))"

definition leader_inv :: "node_name set \<Rightarrow> history \<Rightarrow> bool" where
  "leader_inv M g \<longleftrightarrow> (\<forall>t l LL Q. ldr g t = Some (l, LL, Q) \<longrightarrow>
     is_majority M Q \<and> l \<in> Q \<and> (\<forall>v \<in> Q. \<exists>L. votes g t v = Some (l, L)) \<and>
     prefix (elog g t) LL \<and> (\<forall>e \<in> set (drop (length (elog g t)) LL). e_term e = t) \<and>
     log_idx LL \<and> log_terms t LL \<and> LP g LL)"

definition ack_inv :: "node_name set \<Rightarrow> history \<Rightarrow> bool" where
  "ack_inv M g \<longleftrightarrow> (\<forall>t v m. (t, v, m) \<in> acks g \<longrightarrow>
     v \<in> M \<and> ldr g t \<noteq> None \<and> m \<le> length (llog g t))"

definition keep_inv :: "history \<Rightarrow> bool" where
  "keep_inv g \<longleftrightarrow> (\<forall>t v m u c L. held g t v m \<longrightarrow> t < u \<longrightarrow> votes g u v = Some (c, L) \<longrightarrow>
     early_vote g u v \<longrightarrow> retained g t m L (u - 1))"

definition hist_inv :: "node_name set \<Rightarrow> history \<Rightarrow> bool" where
  "hist_inv M g \<longleftrightarrow> finite M \<and> vote_inv M g \<and> leader_inv M g \<and> ack_inv M g \<and> keep_inv g"

definition node_inv :: "node_name set \<Rightarrow> history \<Rightarrow> node_name \<Rightarrow> raft_node \<Rightarrow> bool" where
  "node_inv M g i n \<longleftrightarrow>
     i \<in> M \<and> node_id n = i \<and> set (peers n) = M - {i} \<and> node_wf n \<and>
     (\<forall>t. votes g t i \<noteq> None \<longrightarrow> t \<le> current_term n) \<and>
     voted_for n = map_option fst (votes g (current_term n) i) \<and>
     LP g (log n) \<and>
     (role n = Candidate \<longrightarrow> votes g (current_term n) i = Some (i, log n) \<and>
        \<not> leads g (current_term n) i \<and> i \<in> set (votes_received n) \<and>
        (\<forall>v \<in> set (votes_received n). \<exists>L. votes g (current_term n) v = Some (i, L))) \<and>
     (role n = Leader \<longrightarrow> leads g (current_term n) i \<and> llog g (current_term n) = log n \<and>
        (\<forall>p m. match_index n p = Some m \<longrightarrow> m = 0 \<or> (\<exists>m' \<ge> m. (current_term n, p, m') \<in> acks g))) \<and>
     (\<forall>t m. held g t i m \<longrightarrow> t \<le> current_term n \<and> retained g t m (log n) (current_term n)) \<and>
     commit_ok M g (current_term n) (log n) (commit_index n) \<and>
     (\<forall>(p, m) \<in> set (outbox n). msg_inv M g i p m)"

definition wire_inv :: "node_name set \<Rightarrow> history \<Rightarrow> (node_name \<times> node_name \<times> raft_rpc) list \<Rightarrow> bool" where
  "wire_inv M g w \<longleftrightarrow> (\<forall>(i, j, m) \<in> set w. i \<in> M \<and> msg_inv M g i j m)"

definition cluster_inv :: "history \<Rightarrow> cluster \<Rightarrow> bool" where
  "cluster_inv g c \<longleftrightarrow>
     hist_inv (set (members c)) g \<and>
     (\<forall>i \<in> set (members c). node_inv (set (members c)) g i (nodes c i)) \<and>
     wire_inv (set (members c)) g (wire c)"

section \<open>Extending a history\<close>

text \<open>
  \<open>extends i g h\<close>: \<open>h\<close> adds to \<open>g\<close> only votes, leaderships and confirmations of member \<open>i\<close>;
  what \<open>g\<close> recorded stays, except that a leader's log may grow.
\<close>

definition extends :: "node_name \<Rightarrow> history \<Rightarrow> history \<Rightarrow> bool" where
  "extends i g h \<longleftrightarrow>
     (\<forall>t v x. votes g t v = Some x \<longrightarrow> votes h t v = Some x) \<and>
     (\<forall>t v. v \<noteq> i \<longrightarrow> votes h t v = votes g t v) \<and>
     (\<forall>t l LL Q. ldr g t = Some (l, LL, Q) \<longrightarrow> (\<exists>LL'. ldr h t = Some (l, LL', Q) \<and> prefix LL LL')) \<and>
     (\<forall>t l LL Q. ldr h t = Some (l, LL, Q) \<longrightarrow> l \<noteq> i \<longrightarrow> ldr g t = Some (l, LL, Q)) \<and>
     acks g \<subseteq> acks h \<and>
     (\<forall>t v m. (t, v, m) \<in> acks h \<longrightarrow> v \<noteq> i \<longrightarrow> (t, v, m) \<in> acks g)"

lemma extends_refl [simp]: "extends i g g"
  by (simp add: extends_def)

lemma extends_trans: "extends i g h \<Longrightarrow> extends i h k \<Longrightarrow> extends i g k"
proof -
  assume a: "extends i g h" and b: "extends i h k"
  have "\<exists>LL'. ldr k t = Some (l, LL', Q) \<and> prefix LL LL'" if l: "ldr g t = Some (l, LL, Q)" for t l LL Q
  proof -
    from a l obtain L1 where "ldr h t = Some (l, L1, Q)" "prefix LL L1" unfolding extends_def by blast
    moreover from b this(1) obtain L2 where "ldr k t = Some (l, L2, Q)" "prefix L1 L2"
      unfolding extends_def by blast
    ultimately show ?thesis by (auto intro: prefix_order.trans)
  qed
  moreover have "\<forall>t l LL Q. ldr k t = Some (l, LL, Q) \<longrightarrow> l \<noteq> i \<longrightarrow> ldr g t = Some (l, LL, Q)"
    using a b unfolding extends_def by simp
  moreover have "\<forall>t v x. votes g t v = Some x \<longrightarrow> votes k t v = Some x"
    using a b unfolding extends_def by simp
  moreover have "\<forall>t v. v \<noteq> i \<longrightarrow> votes k t v = votes g t v" using a b unfolding extends_def by simp
  moreover have "acks g \<subseteq> acks k" "\<forall>t v m. (t, v, m) \<in> acks k \<longrightarrow> v \<noteq> i \<longrightarrow> (t, v, m) \<in> acks g"
    using a b unfolding extends_def by auto
  ultimately show ?thesis unfolding extends_def by simp
qed

lemma extends_votes: "extends i g h \<Longrightarrow> votes g t v = Some x \<Longrightarrow> votes h t v = Some x"
  unfolding extends_def by blast

lemma extends_ldr: "extends i g h \<Longrightarrow> ldr g t \<noteq> None \<Longrightarrow> ldr h t \<noteq> None"
  by (fastforce simp: extends_def)

lemma extends_leads: "extends i g h \<Longrightarrow> leads g t l \<Longrightarrow> leads h t l"
  by (fastforce simp: extends_def leads_def)

lemma extends_leads_other: "extends i g h \<Longrightarrow> leads h t l \<Longrightarrow> l \<noteq> i \<Longrightarrow> leads g t l \<and> llog h t = llog g t"
  by (fastforce simp: extends_def leads_def llog_def)

lemma extends_llog: "extends i g h \<Longrightarrow> prefix (llog g t) (llog h t)"
  by (fastforce simp: extends_def llog_def split: option.splits)

lemma extends_take_llog: "extends i g h \<Longrightarrow> k \<le> length (llog g t) \<Longrightarrow> take k (llog h t) = take k (llog g t)"
  using extends_llog by (metis prefix_def take_append diff_is_0_eq take_0 append_Nil2)

lemma leads_votes: "leader_inv M g \<Longrightarrow> ldr g t = Some (l, LL, Q) \<Longrightarrow> votes g t l = Some (l, elog g t)"
  unfolding leader_inv_def elog_def by fastforce

lemma extends_elog:
  assumes "extends i g h" and "leader_inv M g" and "ldr g t \<noteq> None"
  shows "elog h t = elog g t"
proof -
  obtain l LL Q where l: "ldr g t = Some (l, LL, Q)" using assms(3) by (cases "ldr g t") auto
  from leads_votes [OF assms(2) l] have "votes g t l = Some (l, elog g t)" .
  with assms(1) have "votes h t l = Some (l, elog g t)" by (rule extends_votes)
  moreover obtain LL' where "ldr h t = Some (l, LL', Q)" using assms(1) l unfolding extends_def by blast
  ultimately show ?thesis by (simp add: elog_def)
qed

lemma LP_extends: assumes "extends i g h" and "LP g L" shows "LP h L"
  unfolding LP_def
proof (intro allI impI)
  fix k assume k: "k < length L"
  let ?t = "e_term (L ! k)"
  from assms(2) k have 1: "ldr g ?t \<noteq> None" "k < length (llog g ?t)"
    "take (Suc k) (llog g ?t) = take (Suc k) L" by (auto simp: LP_def)
  have "length (llog g ?t) \<le> length (llog h ?t)" using extends_llog [OF assms(1)] by (rule prefix_length_le)
  then show "ldr h ?t \<noteq> None \<and> k < length (llog h ?t) \<and> take (Suc k) (llog h ?t) = take (Suc k) L"
    using 1 extends_ldr [OF assms(1)] extends_take_llog [OF assms(1), of "Suc k" ?t] by simp
qed

lemma held_le: "ack_inv M g \<Longrightarrow> held g t v m \<Longrightarrow> ldr g t \<noteq> None \<and> m \<le> length (llog g t)"
  by (auto simp: held_def ack_inv_def leads_def)

lemma held_extends: "extends i g h \<Longrightarrow> held g t v m \<Longrightarrow> held h t v m"
  using extends_leads [of i g h t v] extends_llog [of i g h t]
  by (auto simp: held_def extends_def dest: prefix_length_le)

lemma held_other: "extends i g h \<Longrightarrow> held h t v m \<Longrightarrow> v \<noteq> i \<Longrightarrow> held g t v m"
  using extends_leads_other [of i g h t v] by (auto simp: held_def extends_def)

lemma retained_extends:
  assumes "extends i g h" and "leader_inv M g" and "m \<le> length (llog g t)" and "retained g t m L b"
    and "b \<le> b'"
  shows "retained h t m L b'"
  unfolding retained_def
proof (intro allI impI)
  fix k assume k: "k \<le> m"
  have tk: "take k (llog h t) = take k (llog g t)" using extends_take_llog [OF assms(1)] k assms(3) by simp
  from assms(4) k consider "prefix (take k (llog g t)) L"
    | u where "t < u" "u \<le> b" "ldr g u \<noteq> None" "\<not> prefix (take k (llog g t)) (elog g u)"
    unfolding retained_def by blast
  then show "prefix (take k (llog h t)) L \<or>
     (\<exists>u. t < u \<and> u \<le> b' \<and> ldr h u \<noteq> None \<and> \<not> prefix (take k (llog h t)) (elog h u))"
  proof cases
    case 1
    then show ?thesis by (simp add: tk)
  next
    case 2
    then have "ldr h u \<noteq> None" "elog h u = elog g u"
      using extends_ldr [OF assms(1)] extends_elog [OF assms(1,2)] by auto
    with 2 tk assms(5) show ?thesis by (metis le_trans)
  qed
qed

lemma retained_mono: "retained g t m L b \<Longrightarrow> b \<le> b' \<Longrightarrow> retained g t m L b'"
  unfolding retained_def by (meson le_trans)

lemma committed_extends:
  assumes "extends i g h" and "committed M g t k"
  shows "committed M h t k"
proof -
  have "llog h t ! (k - 1) = llog g t ! (k - 1)"
    using assms extends_llog [OF assms(1), of t] by (intro prefix_nth) (auto simp: committed_def)
  moreover have "length (llog g t) \<le> length (llog h t)"
    using extends_llog [OF assms(1)] by (rule prefix_length_le)
  ultimately show ?thesis
    using assms(2) extends_ldr [OF assms(1)] held_extends [OF assms(1)]
    unfolding committed_def by (metis le_trans)
qed

lemma commit_ok_extends:
  assumes "extends i g h" and "commit_ok M g b L c" and "b \<le> b'"
  shows "commit_ok M h b' L c"
proof (cases "c = 0")
  case False
  then obtain t j where "t \<le> b" "committed M g t j" "c \<le> j" "c \<le> length L" "take c L = take c (llog g t)"
    using assms(2) by (auto simp: commit_ok_def)
  moreover have "take c (llog h t) = take c (llog g t)"
    using extends_take_llog [OF assms(1)] calculation by (simp add: committed_def)
  ultimately show ?thesis
    using committed_extends [OF assms(1)] assms(3) unfolding commit_ok_def by (metis le_trans)
qed (simp add: commit_ok_def)

lemma msg_inv_extends:
  assumes ext: "extends k g h" and inv: "msg_inv M g i j m"
  shows "msg_inv M h i j m"
proof (cases m)
  case (AppendEntries t l pli plt es lc)
  let ?g = "llog g t" and ?h = "llog h t"
  from inv AppendEntries have g: "l = i" "leads g t i" "pli + length es \<le> length ?g"
    "es = take (length es) (drop pli ?g)" "plt = (if pli = 0 then 0 else e_term (?g ! (pli - 1)))"
    "commit_ok M g t ?g lc" by auto
  obtain zs where h: "?h = ?g @ zs" using extends_llog [OF ext] by (auto simp: prefix_def)
  have "commit_ok M h t ?h lc"
    using commit_ok_extends [OF ext g(6) order_refl] unfolding commit_ok_def h
    by (metis diff_is_0_eq length_append le_trans le_add1 self_append_conv take0 take_append)
  moreover have "plt = (if pli = 0 then 0 else e_term (?h ! (pli - 1)))"
    using g(3,5) by (auto simp: h nth_append)
  moreover have "es = take (length es) (drop pli ?h)" using g(3,4) by (simp add: h)
  ultimately show ?thesis using AppendEntries g extends_leads [OF ext] by (simp add: h)
qed (use assms in \<open>auto simp: extends_def\<close>)

lemma wire_inv_extends: "extends i g h \<Longrightarrow> wire_inv M g w \<Longrightarrow> wire_inv M h w"
  unfolding wire_inv_def using msg_inv_extends by fast

lemma node_inv_extends:
  assumes ext: "extends i g h" and hist: "hist_inv M g" and other: "j \<noteq> i"
    and inv: "node_inv M g j n"
  shows "node_inv M h j n"
proof -
  have v: "votes h t j = votes g t j" for t using ext other by (simp add: extends_def)
  have ld: "leads h t j \<longleftrightarrow> leads g t j" for t
    using extends_leads [OF ext] extends_leads_other [OF ext] other by blast
  have ll: "leads g t j \<Longrightarrow> llog h t = llog g t" for t
    using extends_leads [OF ext] extends_leads_other [OF ext] other by blast
  have ret: "held h t j m \<Longrightarrow> t \<le> current_term n \<and> retained h t m (log n) (current_term n)" for t m
  proof -
    assume "held h t j m"
    then have hg: "held g t j m" using held_other [OF ext] other by blast
    then have "m \<le> length (llog g t)" using hist held_le by (auto simp: hist_inv_def)
    moreover have "t \<le> current_term n" "retained g t m (log n) (current_term n)"
      using inv hg by (auto simp: node_inv_def)
    ultimately show ?thesis
      using retained_extends [OF ext _ _ _ order_refl] hist unfolding hist_inv_def by blast
  qed
  have votes: "\<exists>L. votes g t x = Some (j, L) \<Longrightarrow> \<exists>L. votes h t x = Some (j, L)" for t x
    using extends_votes [OF ext] by blast
  have ack: "(t, p, m) \<in> acks g \<Longrightarrow> (t, p, m) \<in> acks h" for t p m using ext by (auto simp: extends_def)
  note i = inv [unfolded node_inv_def]
  show ?thesis
    unfolding node_inv_def v ld
  proof (intro conjI)
    show "role n = Candidate \<longrightarrow> votes g (current_term n) j = Some (j, log n) \<and>
        \<not> leads g (current_term n) j \<and> j \<in> set (votes_received n) \<and>
        (\<forall>v \<in> set (votes_received n). \<exists>L. votes h (current_term n) v = Some (j, L))"
      using i votes by blast
    show "role n = Leader \<longrightarrow> leads g (current_term n) j \<and> llog h (current_term n) = log n \<and>
        (\<forall>p m. match_index n p = Some m \<longrightarrow> m = 0 \<or> (\<exists>m' \<ge> m. (current_term n, p, m') \<in> acks h))"
    proof (intro impI conjI allI)
      assume r: "role n = Leader"
      from i r show l: "leads g (current_term n) j" by blast
      from i r have "llog g (current_term n) = log n" by blast
      with ll [OF l] show "llog h (current_term n) = log n" by simp
      fix p m assume "match_index n p = Some m"
      with i r have "m = 0 \<or> (\<exists>m' \<ge> m. (current_term n, p, m') \<in> acks g)" by blast
      with ack show "m = 0 \<or> (\<exists>m' \<ge> m. (current_term n, p, m') \<in> acks h)" by blast
    qed
    show "\<forall>t m. held h t j m \<longrightarrow> t \<le> current_term n \<and> retained h t m (log n) (current_term n)"
      using ret by blast
    show "commit_ok M h (current_term n) (log n) (commit_index n)"
      using i commit_ok_extends [OF ext _ order_refl] by blast
    show "\<forall>(p, m) \<in> set (outbox n). msg_inv M h j p m"
      using i msg_inv_extends [OF ext] by fast
    show "LP h (log n)" using i LP_extends [OF ext] by blast
  qed (use i in blast)+
qed

section \<open>What the invariants imply\<close>

text \<open>Two leaders of one term are the same: their voters meet.\<close>

lemma leader_unique:
  assumes "leader_inv M g" and "ldr g t = Some (l, LL, Q)"
    and "is_majority M R" and "\<forall>v \<in> R. \<exists>L. votes g t v = Some (l', L)"
  shows "l' = l"
proof -
  have "is_majority M Q" "\<forall>v \<in> Q. \<exists>L. votes g t v = Some (l, L)"
    using assms(1,2) by (auto simp: leader_inv_def)
  then show ?thesis
    using majority.quorum_value_unique [of M Q R "\<lambda>v. fst (the (votes g t v))" l l'] assms(3,4) by fastforce
qed

lemma LP_matching:
  assumes "LP g K" and "LP g L" and "k < length K" and "k < length L"
    and "e_term (K ! k) = e_term (L ! k)"
  shows "take (Suc k) K = take (Suc k) L"
  using assms unfolding LP_def by metis

lemma LP_last:
  assumes "LP g L" and "L \<noteq> []"
  shows "ldr g (last_term L) \<noteq> None" and "prefix L (llog g (last_term L))"
proof -
  let ?k = "length L - 1"
  have k: "?k < length L" "Suc ?k = length L" using assms(2) by auto
  have t: "e_term (L ! ?k) = last_term L" using assms(2) by (simp add: last_term_def last_conv_nth)
  from assms(1) k(1) have "ldr g (last_term L) \<noteq> None"
    "take (Suc ?k) (llog g (last_term L)) = take (Suc ?k) L" unfolding LP_def t [symmetric] by blast+
  then show "ldr g (last_term L) \<noteq> None" and "prefix L (llog g (last_term L))"
    unfolding k(2) by (auto simp: prefix_def intro: exI [of _ "drop (length L) (llog g (last_term L))"])
      (metis append_take_drop_id)
qed

lemma LP_take: "LP g L \<Longrightarrow> LP g (take k L)"
  by (auto simp: LP_def min_def)

lemma leader_elog_short:
  assumes hist: "hist_inv M g" and ld: "ldr g s \<noteq> None"
    and Lc: "prefix Lc (llog g s)" "Lc \<noteq> []" "last_term Lc = s"
  shows "prefix (elog g s) Lc"
proof -
  obtain l LL Q where l: "ldr g s = Some (l, LL, Q)" using ld by auto
  have li: "leader_inv M g" and vi: "vote_inv M g" using hist by (auto simp: hist_inv_def)
  have pre: "prefix (elog g s) (llog g s)"
    using li l by (auto simp: leader_inv_def llog_def)
  have lt: "log_terms (s - 1) (elog g s)" "0 < s"
    using leads_votes [OF li l] vi by (auto simp: vote_inv_def)
  have "length (elog g s) \<le> length Lc"
  proof (rule ccontr)
    assume "\<not> length (elog g s) \<le> length Lc"
    then have "length Lc - 1 < length (elog g s)" by simp
    moreover from this have "elog g s ! (length Lc - 1) \<in> set (elog g s)" by (rule nth_mem)
    moreover have "length Lc - 1 < length Lc" using Lc(2) by (cases Lc) auto
    ultimately have "elog g s ! (length Lc - 1) = Lc ! (length Lc - 1)"
      "elog g s ! (length Lc - 1) \<in> set (elog g s)"
      using prefix_nth [OF pre] prefix_nth [OF Lc(1)] by metis+
    then have "e_term (Lc ! (length Lc - 1)) \<le> s - 1" using lt by (auto simp: log_terms_def)
    then show False using Lc(2,3) lt(2) by (simp add: last_term_def last_conv_nth)
  qed
  with pre Lc(1) show ?thesis by (rule prefix_two)
qed

text \<open>
  A candidate's log that is at least as recent as a voter's, which holds a committed prefix,
  holds it too, provided every leader in between does.
\<close>

lemma uptodate_keeps:
  assumes hist: "hist_inv M g" and P: "prefix P L" "P \<noteq> []" "last_term P = t" "0 < t"
    and L: "LP g L" "log_terms u L" and Lc: "LP g Lc" "log_terms (u - 1) Lc" "0 < u"
    and up: "uptodate Lc L"
    and IH: "\<And>s. t < s \<Longrightarrow> s < u \<Longrightarrow> ldr g s \<noteq> None \<Longrightarrow> prefix P (elog g s)"
  shows "prefix P Lc"
proof -
  have Lne: "L \<noteq> []" using P by (auto simp: prefix_def)
  have "t \<le> last_term L"
  proof -
    have "last P = L ! (length P - 1)" using P(1,2) prefix_nth [OF P(1)] by (simp add: last_conv_nth)
    moreover have "length P - 1 < length L"
      using prefix_length_le [OF P(1)] P(2) by (cases P) auto
    ultimately show ?thesis
      using log_terms_nth_mono [OF L(2), of "length P - 1" "length L - 1"] P(2,3) Lne
      by (auto simp: last_term_def last_conv_nth)
  qed
  then have Lcne: "Lc \<noteq> []" using up P(4) by (auto simp: uptodate_def last_term_def)
  show ?thesis
  proof (cases "last_term Lc = last_term L")
    case True
    then have "length L \<le> length Lc" using up by (simp add: uptodate_def)
    then have "prefix L Lc"
      using prefix_two LP_last(2) [OF L(1) Lne] LP_last(2) [OF Lc(1) Lcne] True by metis
    with P(1) show ?thesis by (rule prefix_order.trans)
  next
    case False
    let ?s = "last_term Lc"
    have s: "t < ?s" "?s < u"
      using False up \<open>t \<le> last_term L\<close> Lc(2,3) Lcne
      by (auto simp: uptodate_def log_terms_def last_term_def dest: last_in_set)
        (metis Suc_pred last_in_set le_imp_less_Suc)
    have "prefix (elog g ?s) Lc"
      using leader_elog_short [OF hist LP_last(1) [OF Lc(1) Lcne] LP_last(2) [OF Lc(1) Lcne] Lcne] by simp
    with IH [OF s LP_last(1) [OF Lc(1) Lcne]] show ?thesis by (rule prefix_order.trans)
  qed
qed

text \<open>Leader completeness: every later leader was elected with every committed entry.\<close>

lemma leader_completeness:
  assumes hist: "hist_inv M g" and com: "committed M g t i"
  shows "t < u \<Longrightarrow> ldr g u \<noteq> None \<Longrightarrow> prefix (take i (llog g t)) (elog g u)"
proof (induction u rule: less_induct)
  case (less u)
  have li: "leader_inv M g" and vi: "vote_inv M g" and ai: "ack_inv M g" and ki: "keep_inv g"
    using hist by (auto simp: hist_inv_def)
  obtain l LL Q where l: "ldr g u = Some (l, LL, Q)" using less.prems(2) by auto
  obtain R where R: "is_majority M R" "\<forall>v \<in> R. \<exists>m \<ge> i. held g t v m"
    and c: "0 < i" "i \<le> length (llog g t)" "e_term (llog g t ! (i - 1)) = t" "ldr g t \<noteq> None"
    using com by (auto simp: committed_def)
  have Q: "is_majority M Q" "\<forall>v \<in> Q. \<exists>L. votes g u v = Some (l, L)"
    using li l by (auto simp: leader_inv_def)
  obtain v where v: "v \<in> Q" "v \<in> R" using majority.quorum_meet [OF Q(1) R(1)] by blast
  obtain L where L: "votes g u v = Some (l, L)" using Q v by blast
  obtain m where m: "i \<le> m" "held g t v m" using R v by blast
  let ?P = "take i (llog g t)"
  have t0: "0 < t"
  proof -
    obtain l' LL' Q' where "ldr g t = Some (l', LL', Q')" using c(4) by auto
    then have "log_terms t (llog g t)" using li by (auto simp: leader_inv_def llog_def)
    then have "0 < e_term (llog g t ! (i - 1))" using c(1,2) by (simp add: log_terms_def)
    with c(3) show ?thesis by simp
  qed
  have P: "?P \<noteq> []" "last_term ?P = t"
    using c by (auto simp: last_term_def last_conv_nth min_def)
  have "early_vote g u v" using v l by (simp add: early_vote_def)
  then have "retained g t m L (u - 1)"
    using ki m(2) less.prems(1) L unfolding keep_inv_def by blast
  then consider "prefix ?P L" | w where "t < w" "w \<le> u - 1" "ldr g w \<noteq> None" "\<not> prefix ?P (elog g w)"
    using m(1) unfolding retained_def by blast
  then have PL: "prefix ?P L"
    by cases (use less.IH less.prems in auto)
  have self: "votes g u l = Some (l, elog g u)" using leads_votes [OF li l] .
  have "uptodate (elog g u) L" "LP g L" "log_terms u L" "0 < u"
    using vi L self by (auto simp: vote_inv_def) (metis option.inject prod.inject)+
  moreover have "LP g (elog g u)" "log_terms (u - 1) (elog g u)"
    using vi self by (auto simp: vote_inv_def)
  ultimately show ?case
    using uptodate_keeps [OF hist PL P t0] less.IH by blast
qed

lemma committed_in_leader:
  assumes hist: "hist_inv M g" and com: "committed M g t i" and "t \<le> u" and ld: "ldr g u \<noteq> None"
  shows "take i (llog g u) = take i (llog g t)"
proof (cases "t = u")
  case False
  then have "prefix (take i (llog g t)) (elog g u)"
    using leader_completeness [OF hist com] assms(3) ld by simp
  moreover have "prefix (elog g u) (llog g u)"
    using hist ld by (auto simp: hist_inv_def leader_inv_def llog_def)
  ultimately have "prefix (take i (llog g t)) (llog g u)" by (rule prefix_order.trans)
  then show ?thesis using com by (simp add: prefix_take_iff committed_def)
qed simp

lemma commit_agree:
  assumes hist: "hist_inv M g" and "commit_ok M g b1 L1 c1" and "commit_ok M g b2 L2 c2"
    and c: "c \<le> c1" "c \<le> c2"
  shows "take c L1 = take c L2"
proof (cases "c = 0")
  case False
  then obtain t1 i1 t2 i2 where 1: "committed M g t1 i1" "c1 \<le> i1" "take c1 L1 = take c1 (llog g t1)"
    and 2: "committed M g t2 i2" "c2 \<le> i2" "take c2 L2 = take c2 (llog g t2)"
    using assms unfolding commit_ok_def by auto
  have "take c (llog g t1) = take c (llog g t2)"
  proof (cases "t1 \<le> t2")
    case True
    then have "take i1 (llog g t2) = take i1 (llog g t1)"
      using committed_in_leader [OF hist 1(1)] 2(1) by (auto simp: committed_def)
    then show ?thesis using take_eq_mono c(1) 1(2) by (metis le_trans)
  next
    case False
    then have "take i2 (llog g t1) = take i2 (llog g t2)"
      using committed_in_leader [OF hist 2(1)] 1(1) by (auto simp: committed_def)
    then show ?thesis using take_eq_mono c(2) 2(2) by (metis le_trans)
  qed
  then show ?thesis using 1(3) 2(3) c take_eq_mono by metis
qed simp

end
