(* ===== verification/Raft_Safety.thy ===== *)
theory Raft_Safety
  imports Raft_History
begin

text \<open>
  Every operation of a Raft node keeps the invariants, possibly after recording something new of
  that node in the history. The operations are taken apart into the small moves they are made
  of (observing a term, voting, winning an election, accepting entries, moving the commit point,
  queueing a message); each move is shown to keep the node's invariant once, and the operations
  compose them.
\<close>

section \<open>Moves that touch only bookkeeping\<close>

lemma node_wf_update [simp]:
  "node_wf (n\<lparr>leader_hint := a\<rparr>) = node_wf n"
  "node_wf (n\<lparr>last_heartbeat_ms := b\<rparr>) = node_wf n"
  "node_wf (n\<lparr>timeout_jitter_ms := c\<rparr>) = node_wf n"
  "node_wf (n\<lparr>sent_upper := d\<rparr>) = node_wf n"
  "node_wf (n\<lparr>pending_apply := e\<rparr>) = node_wf n"
  "node_wf (n\<lparr>outbox := f\<rparr>) = node_wf n"
  "node_wf (n\<lparr>voted_for := h\<rparr>) = node_wf n"
  "node_wf (n\<lparr>match_index := k\<rparr>) = node_wf n"
  by (auto simp: node_wf_def next_ok_def)

lemma node_inv_update [simp]:
  "node_inv M g i (n\<lparr>leader_hint := a\<rparr>) = node_inv M g i n"
  "node_inv M g i (n\<lparr>last_heartbeat_ms := b\<rparr>) = node_inv M g i n"
  "node_inv M g i (n\<lparr>timeout_jitter_ms := c\<rparr>) = node_inv M g i n"
  "node_inv M g i (n\<lparr>sent_upper := d\<rparr>) = node_inv M g i n"
  "node_inv M g i (n\<lparr>pending_apply := e\<rparr>) = node_inv M g i n"
  by (simp_all add: node_inv_def)

lemma node_inv_wf: "node_inv M g i n \<Longrightarrow> node_wf n"
  by (simp add: node_inv_def)

lemma node_inv_held:
  "node_inv M g i n \<Longrightarrow> held g t i m \<Longrightarrow>
   t \<le> current_term n \<and> retained g t m (log n) (current_term n)"
  unfolding node_inv_def by blast

lemma node_inv_vote: "node_inv M g i n \<Longrightarrow> votes g t i = Some x \<Longrightarrow> t \<le> current_term n"
  unfolding node_inv_def by blast

lemma node_inv_commit:
  "node_inv M g i n \<Longrightarrow> commit_ok M g (current_term n) (log n) (commit_index n)"
  unfolding node_inv_def by blast

lemma node_invD:
  assumes "node_inv M g i n"
  shows "i \<in> M" and "node_id n = i" and "set (peers n) = M - {i}" and "node_wf n"
    and "voted_for n = map_option fst (votes g (current_term n) i)" and "LP g (log n)"
    and "(p, m) \<in> set (outbox n) \<Longrightarrow> msg_inv M g i p m"
  using assms unfolding node_inv_def by auto

lemma node_inv_candidate:
  assumes "node_inv M g i n" and "role n = Candidate"
  shows "votes g (current_term n) i = Some (i, log n)" and "\<not> leads g (current_term n) i"
    and "i \<in> set (votes_received n)"
    and "v \<in> set (votes_received n) \<Longrightarrow> \<exists>L. votes g (current_term n) v = Some (i, L)"
  using assms unfolding node_inv_def by auto

lemma node_inv_leader:
  assumes "node_inv M g i n" and "role n = Leader"
  shows "leads g (current_term n) i" and "llog g (current_term n) = log n"
    and "match_index n p = Some m \<Longrightarrow> m = 0 \<or> (\<exists>m' \<ge> m. (current_term n, p, m') \<in> acks g)"
  using assms unfolding node_inv_def by auto

lemma node_invI:
  assumes "i \<in> M" and "node_id n = i" and "set (peers n) = M - {i}" and "node_wf n"
    and "\<And>t x. votes g t i = Some x \<Longrightarrow> t \<le> current_term n"
    and "voted_for n = map_option fst (votes g (current_term n) i)"
    and "LP g (log n)"
    and "role n = Candidate \<Longrightarrow> votes g (current_term n) i = Some (i, log n)"
    and "role n = Candidate \<Longrightarrow> \<not> leads g (current_term n) i"
    and "role n = Candidate \<Longrightarrow> i \<in> set (votes_received n)"
    and "\<And>v. role n = Candidate \<Longrightarrow> v \<in> set (votes_received n) \<Longrightarrow>
           \<exists>L. votes g (current_term n) v = Some (i, L)"
    and "role n = Leader \<Longrightarrow> leads g (current_term n) i"
    and "role n = Leader \<Longrightarrow> llog g (current_term n) = log n"
    and "\<And>p m. role n = Leader \<Longrightarrow> match_index n p = Some m \<Longrightarrow>
           m = 0 \<or> (\<exists>m' \<ge> m. (current_term n, p, m') \<in> acks g)"
    and "\<And>t m. held g t i m \<Longrightarrow> t \<le> current_term n"
    and "\<And>t m. held g t i m \<Longrightarrow> retained g t m (log n) (current_term n)"
    and "commit_ok M g (current_term n) (log n) (commit_index n)"
    and "\<And>p m. (p, m) \<in> set (outbox n) \<Longrightarrow> msg_inv M g i p m"
  shows "node_inv M g i n"
  unfolding node_inv_def
proof (intro conjI)
  show "\<forall>t. votes g t i \<noteq> None \<longrightarrow> t \<le> current_term n" using assms(5) by auto
  show "role n = Candidate \<longrightarrow> votes g (current_term n) i = Some (i, log n) \<and>
      \<not> leads g (current_term n) i \<and> i \<in> set (votes_received n) \<and>
      (\<forall>v \<in> set (votes_received n). \<exists>L. votes g (current_term n) v = Some (i, L))"
    using assms(8-11) by simp
  show "role n = Leader \<longrightarrow> leads g (current_term n) i \<and> llog g (current_term n) = log n \<and>
      (\<forall>p m. match_index n p = Some m \<longrightarrow> m = 0 \<or> (\<exists>m' \<ge> m. (current_term n, p, m') \<in> acks g))"
    using assms(12-14) by simp
  show "\<forall>t m. held g t i m \<longrightarrow> t \<le> current_term n \<and> retained g t m (log n) (current_term n)"
    using assms(15,16) by blast
  show "\<forall>(p, m) \<in> set (outbox n). msg_inv M g i p m" using assms(18) by blast
qed (rule assms)+

lemma node_inv_outbox:
  assumes "node_inv M g i n" and "\<forall>(p, m) \<in> set ms. msg_inv M g i p m"
  shows "node_inv M g i (n\<lparr>outbox := outbox n @ ms\<rparr>)"
  using assms by (simp add: node_inv_def ball_Un)

lemma node_inv_clear_outbox: "node_inv M g i n \<Longrightarrow> node_inv M g i (n\<lparr>outbox := []\<rparr>)"
  by (simp add: node_inv_def)

lemma node_inv_push:
  "node_inv M g i n \<Longrightarrow> msg_inv M g i p m \<Longrightarrow> node_inv M g i (push_out p m n)"
  using node_inv_outbox [of M g i n "[(p, m)]"] by (simp add: push_out_def)

lemma node_inv_follower:
  assumes "node_inv M g i n"
  shows "node_inv M g i (n\<lparr>role := Follower\<rparr>)"
proof -
  have "node_wf (n\<lparr>role := Follower\<rparr>)" using node_inv_wf [OF assms] by (simp add: node_wf_def)
  then show ?thesis using assms by (simp add: node_inv_def)
qed

lemma node_inv_observe:
  assumes inv: "node_inv M g i n"
  shows "node_inv M g i (observe_term t n)"
proof (cases "t \<le> current_term n")
  case False
  have novote: "votes g t i = None" using node_inv_vote [OF inv] False by (cases "votes g t i") auto
  have wf: "node_wf (observe_term t n)"
    using node_invD(4) [OF inv] False by (auto simp: node_wf_def observe_term_def intro: log_terms_mono)
  have ob: "observe_term t n = n\<lparr>current_term := t, role := Follower, voted_for := None,
      leader_hint := None, votes_received := [], next_index := Map.empty, match_index := Map.empty,
      sent_upper := Map.empty, outbox := []\<rparr>" using False by (simp add: observe_term_def)
  show ?thesis
  proof (rule node_invI)
    show "node_wf (observe_term t n)" by (rule wf)
    show "s \<le> current_term (observe_term t n)" if "votes g s i = Some x" for s x
      using node_inv_vote [OF inv that] False by (simp add: ob)
    show "s \<le> current_term (observe_term t n)" if "held g s i m" for s m
      using node_inv_held [OF inv that] False by (simp add: ob)
    show "retained g s m (log (observe_term t n)) (current_term (observe_term t n))"
      if "held g s i m" for s m
      using node_inv_held [OF inv that] False retained_mono [of g s m "log n" "current_term n" t]
      by (simp add: ob)
    show "commit_ok M g (current_term (observe_term t n)) (log (observe_term t n))
        (commit_index (observe_term t n))"
      using commit_ok_extends [OF extends_refl node_inv_commit [OF inv]] False by (simp add: ob)
  qed (simp_all add: ob novote node_invD [OF inv])
qed (simp add: observe_term_def inv)

lemma observe_term_frame:
  "log (observe_term t n) = log n" "peers (observe_term t n) = peers n"
  "node_id (observe_term t n) = node_id n" "commit_index (observe_term t n) = commit_index n"
  "current_term n \<le> t \<Longrightarrow> current_term (observe_term t n) = t"
  by (simp_all add: observe_term_def)

lemma leader_ae_msg:
  assumes inv: "node_inv M g i n" and r: "role n = Leader" and m: "ae_ok n m"
  shows "msg_inv M g i p m"
proof -
  have "leads g (current_term n) i" "llog g (current_term n) = log n" "node_id n = i"
    "commit_ok M g (current_term n) (log n) (commit_index n)"
    using inv r by (auto simp: node_inv_def)
  with m show ?thesis by (auto simp: ae_ok_def)
qed

text \<open>Confirming or recording nothing: the shape every operation is brought into.\<close>

definition evolves ::
  "node_name set \<Rightarrow> node_name \<Rightarrow> history \<Rightarrow> raft_node option \<Rightarrow> bool" where
  "evolves M i g r \<longleftrightarrow>
     (\<exists>n' h. r = Some n' \<and> hist_inv M h \<and> extends i g h \<and> node_inv M h i n')"

lemma evolvesI: "hist_inv M h \<Longrightarrow> extends i g h \<Longrightarrow> node_inv M h i n' \<Longrightarrow> evolves M i g (Some n')"
  by (auto simp: evolves_def)

lemma evolves_same: "hist_inv M g \<Longrightarrow> node_inv M g i n' \<Longrightarrow> evolves M i g (Some n')"
  by (rule evolvesI) auto

lemma evolves_trans: "extends i g h \<Longrightarrow> evolves M i h r \<Longrightarrow> evolves M i g r"
  unfolding evolves_def using extends_trans by blast

lemma evolves_broadcast:
  assumes hist: "hist_inv M g" and inv: "node_inv M g i n" and r: "role n = Leader"
  shows "evolves M i g (broadcast_append n)"
proof -
  have "log_idx (log n)" "next_ok n" using inv r by (auto simp: node_inv_def node_wf_def)
  from broadcast_append_ok [OF this] obtain su ms where
    b: "broadcast_append n = Some (n\<lparr>sent_upper := su, outbox := outbox n @ ms\<rparr>)" and
    ms: "\<forall>(p, m) \<in> set ms. p \<in> set (peers n) \<and> ae_ok n m" by blast
  have "\<forall>(p, m) \<in> set ms. msg_inv M g i p m" using ms leader_ae_msg [OF inv r] by fast
  then have "node_inv M g i (n\<lparr>sent_upper := su, outbox := outbox n @ ms\<rparr>)"
    using node_inv_outbox [of M g i "n\<lparr>sent_upper := su\<rparr>" ms] inv by simp
  then show ?thesis unfolding b by (rule evolves_same [OF hist])
qed

section \<open>Voting\<close>

definition add_vote :: "nat \<Rightarrow> node_name \<Rightarrow> node_name \<Rightarrow> entries \<Rightarrow> history \<Rightarrow> history" where
  "add_vote t v c L g = g\<lparr>votes := (votes g)(t := (votes g t)(v \<mapsto> (c, L)))\<rparr>"

lemma add_vote_simps [simp]:
  "ldr (add_vote t v c L g) = ldr g" "acks (add_vote t v c L g) = acks g"
  "llog (add_vote t v c L g) u = llog g u" "LP (add_vote t v c L g) K = LP g K"
  "leads (add_vote t v c L g) u i = leads g u i" "held (add_vote t v c L g) u i m = held g u i m"
  "early_vote (add_vote t v c L g) u w = early_vote g u w"
  by (simp_all add: add_vote_def llog_def LP_def leads_def held_def early_vote_def)

lemma extends_add_vote: "votes g t v = None \<Longrightarrow> extends v g (add_vote t v c L g)"
  by (auto simp: extends_def add_vote_def)

lemma hist_inv_add_vote:
  assumes hist: "hist_inv M g" and inv: "node_inv M g i n" and t: "current_term n \<le> t"
    and fresh: "votes g t i = None" and c: "c \<in> M" "0 < t" and lt: "log_terms t (log n)"
    and self: "c = i \<Longrightarrow> log_terms (t - 1) (log n)"
    and cand: "c \<noteq> i \<Longrightarrow> \<exists>Lc. votes g t c = Some (c, Lc) \<and> uptodate Lc (log n)"
  shows "hist_inv M (add_vote t i c (log n) g)"
proof -
  let ?h = "add_vote t i c (log n) g"
  have ext: "extends i g ?h" using fresh by (rule extends_add_vote)
  have li: "leader_inv M g" and vi: "vote_inv M g" and ai: "ack_inv M g" and ki: "keep_inv g"
    using hist by (auto simp: hist_inv_def)
  have el: "ldr g u \<noteq> None \<Longrightarrow> elog ?h u = elog g u" for u using extends_elog [OF ext li] .
  have "vote_inv M ?h"
    unfolding vote_inv_def
  proof (intro allI impI)
    fix u v d L assume v: "votes ?h u v = Some (d, L)"
    show "v \<in> M \<and> d \<in> M \<and> 0 < u \<and> LP ?h L \<and> log_terms u L \<and>
      (\<exists>Lc. votes ?h u d = Some (d, Lc) \<and> uptodate Lc L) \<and> (d = v \<longrightarrow> log_terms (u - 1) L)"
    proof (cases "u = t \<and> v = i")
      case True
      then have [simp]: "d = c" "L = log n" using v by (auto simp: add_vote_def)
      have "\<exists>Lc. votes ?h t c = Some (c, Lc) \<and> uptodate Lc (log n)"
      proof (cases "c = i")
        case False
        then show ?thesis using cand extends_votes [OF ext] by blast
      qed (simp add: add_vote_def uptodate_def)
      then show ?thesis using True c lt self inv by (simp add: node_inv_def)
    next
      case False
      then have "votes g u v = Some (d, L)" using v by (auto simp: add_vote_def split: if_splits)
      then have "v \<in> M \<and> d \<in> M \<and> 0 < u \<and> LP g L \<and> log_terms u L \<and>
        (\<exists>Lc. votes g u d = Some (d, Lc) \<and> uptodate Lc L) \<and> (d = v \<longrightarrow> log_terms (u - 1) L)"
        using vi unfolding vote_inv_def by blast
      then show ?thesis using extends_votes [OF ext] by (auto simp del: fun_upd_apply)
    qed
  qed
  moreover have "leader_inv M ?h"
    unfolding leader_inv_def
  proof (intro allI impI)
    fix u l LL Q assume "ldr ?h u = Some (l, LL, Q)"
    then have l: "ldr g u = Some (l, LL, Q)" by simp
    have "votes g u v = Some (l, L) \<Longrightarrow> votes ?h u v = Some (l, L)" for v L
      using extends_votes [OF ext] .
    then have "\<forall>v \<in> Q. \<exists>L. votes ?h u v = Some (l, L)"
      using li l unfolding leader_inv_def by metis
    then show "is_majority M Q \<and> l \<in> Q \<and> (\<forall>v \<in> Q. \<exists>L. votes ?h u v = Some (l, L)) \<and>
      prefix (elog ?h u) LL \<and> (\<forall>e \<in> set (drop (length (elog ?h u)) LL). e_term e = u) \<and>
      log_idx LL \<and> log_terms u LL \<and> LP ?h LL"
      using li l el [of u] unfolding leader_inv_def by simp
  qed
  moreover have "ack_inv M ?h" using ai by (simp add: ack_inv_def)
  moreover have "keep_inv ?h"
    unfolding keep_inv_def
  proof (intro allI impI)
    fix s v m u d L
    assume a: "held ?h s v m" "s < u" "votes ?h u v = Some (d, L)" "early_vote ?h u v"
    then have hg: "held g s v m" "early_vote g u v" by simp_all
    have len: "m \<le> length (llog g s)" using held_le [OF ai] hg by blast
    have "retained g s m L (u - 1)"
    proof (cases "u = t \<and> v = i")
      case True
      then have [simp]: "L = log n" using a(3) by (auto simp: add_vote_def)
      have nl: "ldr g t = None"
      proof (rule ccontr)
        assume "ldr g t \<noteq> None"
        then obtain l LL Q where "ldr g t = Some (l, LL, Q)" by auto
        then have "i \<in> Q" using hg(2) True by (simp add: early_vote_def)
        then show False using li \<open>ldr g t = Some (l, LL, Q)\<close> fresh by (fastforce simp: leader_inv_def)
      qed
      have "retained g s m (log n) (current_term n)" using inv hg True by (auto simp: node_inv_def)
      then have "retained g s m (log n) t" using t by (rule retained_mono)
      moreover have "w \<le> t \<Longrightarrow> ldr g w \<noteq> None \<Longrightarrow> w \<le> t - 1" for w
        using nl by (cases "w = t") auto
      ultimately show ?thesis using True unfolding retained_def by auto blast
    next
      case False
      then have "votes g u v = Some (d, L)" using a(3) by (auto simp: add_vote_def split: if_splits)
      then show ?thesis using ki a(2) hg unfolding keep_inv_def by blast
    qed
    then show "retained ?h s m L (u - 1)" using retained_extends [OF ext li len _ order_refl] by blast
  qed
  ultimately show ?thesis using hist by (simp add: hist_inv_def)
qed

lemma node_inv_add_vote:
  assumes hist: "hist_inv M g" and inv: "node_inv M g i n" and fresh: "votes g (current_term n) i = None"
  shows "node_inv M (add_vote (current_term n) i c (log n) g) i (n\<lparr>voted_for := Some c\<rparr>)"
    (is "node_inv M ?h i ?n")
proof -
  have li: "leader_inv M g" and ai: "ack_inv M g" using hist by (auto simp: hist_inv_def)
  have ext: "extends i g ?h" using fresh by (rule extends_add_vote)
  have nc: "role n \<noteq> Candidate" using node_inv_candidate(1) [OF inv] fresh by auto
  have nl: "role n \<noteq> Leader"
  proof
    assume "role n = Leader"
    then obtain LL Q where "ldr g (current_term n) = Some (i, LL, Q)"
      using node_inv_leader(1) [OF inv] by (auto simp: leads_def)
    from leads_votes [OF li this] fresh show False by simp
  qed
  show ?thesis
  proof (rule node_invI)
    show "s \<le> current_term ?n" if "votes ?h s i = Some x" for s x
      using that node_inv_vote [OF inv] by (auto simp: add_vote_def split: if_splits)
    show "s \<le> current_term ?n" if "held ?h s i m" for s m
      using node_inv_held [OF inv, of s m] that by simp
    show "retained ?h s m (log ?n) (current_term ?n)" if "held ?h s i m" for s m
      using retained_extends [OF ext li _ _ order_refl] held_le [OF ai] node_inv_held [OF inv] that
      by simp
    show "commit_ok M ?h (current_term ?n) (log ?n) (commit_index ?n)"
      using commit_ok_extends [OF ext node_inv_commit [OF inv] order_refl] by simp
    show "msg_inv M ?h i p m" if "(p, m) \<in> set (outbox ?n)" for p m
      using msg_inv_extends [OF ext] node_invD(7) [OF inv] that by simp
    show "voted_for ?n = map_option fst (votes ?h (current_term ?n) i)" by (simp add: add_vote_def)
  qed (simp_all add: nc nl node_invD [OF inv])
qed

lemma last_log_term_eq: "last_log_term n = last_term (log n)"
  by (simp add: last_log_term_def last_term_def)

lemma evolves_request_vote:
  assumes hist: "hist_inv M g" and inv: "node_inv M g i n"
    and msg: "msg_inv M g from i (RequestVote t cand lli llt)"
  shows "evolves M i g (step_request_vote clk from t cand lli llt n)"
proof (cases "from \<noteq> cand \<or> from \<notin> set (peers n) \<or> t < current_term n")
  case True
  then show ?thesis
    using inv node_inv_push [OF inv, of "from" "RequestVoteResp (current_term n) False"]
    by (auto simp: step_request_vote_def intro: evolves_same [OF hist])
next
  case False
  then have f: "from = cand" "from \<in> set (peers n)" "current_term n \<le> t" by auto
  define n1 where "n1 = observe_term t n"
  have inv1: "node_inv M g i n1" unfolding n1_def using inv by (rule node_inv_observe)
  have n1: "current_term n1 = t" "peers n1 = peers n"
    using f(3) by (simp_all add: n1_def observe_term_def)
  obtain L where L: "votes g t cand = Some (cand, L)" "lli = length L" "llt = last_term L"
    using msg f(1) by auto
  have t: "0 < t" "cand \<in> M" using hist L(1) by (auto simp: hist_inv_def vote_inv_def)
  have ci: "cand \<noteq> i" using f node_invD(3) [OF inv] by auto
  define grant where "grant = (up_to_date lli llt n1 \<and> (voted_for n1 = None \<or> voted_for n1 = Some cand))"
  let ?n2 = "n1\<lparr>voted_for := Some cand, last_heartbeat_ms := now_ms clk\<rparr>"
  have step: "step_request_vote clk from t cand lli llt n =
      Some (push_out from (RequestVoteResp t grant) (if grant then ?n2 else n1))"
    using f n1(1) by (simp add: step_request_vote_def n1_def [symmetric] grant_def Let_def)
  show ?thesis
  proof (cases grant)
    case False
    then show ?thesis
      unfolding step using node_inv_push [OF inv1, of "from" "RequestVoteResp t False"]
      by (auto intro: evolves_same [OF hist])
  next
    case True
    then consider (again) "voted_for n1 = Some cand" | (new) "voted_for n1 = None"
      by (auto simp: grant_def)
    then show ?thesis
    proof cases
      case again
      then obtain K where K: "votes g t i = Some (cand, K)"
        using node_invD(5) [OF inv1] n1(1) by auto
      have "?n2 = n1\<lparr>last_heartbeat_ms := now_ms clk\<rparr>" using again by simp
      then have "node_inv M g i ?n2" using inv1 by simp
      then have "node_inv M g i (push_out from (RequestVoteResp t True) ?n2)"
        by (rule node_inv_push) (use K f(1) in simp)
      then show ?thesis unfolding step using True by (auto intro: evolves_same [OF hist])
    next
      case new
      then have fresh: "votes g (current_term n1) i = None" using node_invD(5) [OF inv1] by auto
      let ?h = "add_vote t i cand (log n1) g"
      have ext: "extends i g ?h" using fresh n1(1) by (intro extends_add_vote) simp
      have up: "uptodate L (log n1)"
        using True L by (auto simp: grant_def up_to_date_def uptodate_def last_log_term_eq last_log_index_def)
      have "hist_inv M ?h"
        using hist_inv_add_vote [OF hist inv1, of t cand] n1(1) fresh t ci L(1) up node_invD(4) [OF inv1]
        by (auto simp: node_wf_def)
      moreover have "node_inv M ?h i (push_out from (RequestVoteResp t True) ?n2)"
        using node_inv_add_vote [OF hist inv1 fresh, of cand] n1(1) f(1)
        by (intro node_inv_push) (simp_all add: add_vote_def)
      ultimately show ?thesis unfolding step using True ext by (auto intro: evolvesI)
    qed
  qed
qed

lemma ack_inv_extends:
  assumes ext: "extends i g h" and ai: "ack_inv M g" and "acks h = acks g"
  shows "ack_inv M h"
  unfolding ack_inv_def
proof (intro allI impI)
  fix u v m assume "(u, v, m) \<in> acks h"
  then have "v \<in> M" "ldr g u \<noteq> None" "m \<le> length (llog g u)" using ai assms(3) by (auto simp: ack_inv_def)
  then show "v \<in> M \<and> ldr h u \<noteq> None \<and> m \<le> length (llog h u)"
    using extends_ldr [OF ext] prefix_length_le [OF extends_llog [OF ext, of u]] by simp
qed

section \<open>Elections\<close>

definition add_leader :: "nat \<Rightarrow> node_name \<Rightarrow> entries \<Rightarrow> node_name set \<Rightarrow> history \<Rightarrow> history" where
  "add_leader t l LL Q g = g\<lparr>ldr := (ldr g)(t \<mapsto> (l, LL, Q))\<rparr>"

lemma add_leader_simps [simp]:
  "votes (add_leader t l LL Q g) = votes g" "acks (add_leader t l LL Q g) = acks g"
  "ldr (add_leader t l LL Q g) t = Some (l, LL, Q)" "llog (add_leader t l LL Q g) t = LL"
  "u \<noteq> t \<Longrightarrow> ldr (add_leader t l LL Q g) u = ldr g u"
  "u \<noteq> t \<Longrightarrow> llog (add_leader t l LL Q g) u = llog g u"
  "u \<noteq> t \<Longrightarrow> elog (add_leader t l LL Q g) u = elog g u"
  "u \<noteq> t \<Longrightarrow> leads (add_leader t l LL Q g) u i = leads g u i"
  "leads (add_leader t l LL Q g) t i = (i = l)"
  by (auto simp: add_leader_def llog_def elog_def leads_def split: option.split)

lemma extends_add_leader: "ldr g t = None \<Longrightarrow> extends i g (add_leader t i LL Q g)"
  by (auto simp: extends_def add_leader_def)

text \<open>The candidate \<open>n\<close> of member \<open>i\<close> has collected a majority: it leads its term.\<close>

lemma hist_inv_add_leader:
  assumes hist: "hist_inv M g" and inv: "node_inv M g i n" and r: "role n = Candidate"
    and q: "quorum n \<le> length (votes_received n)"
  defines "h \<equiv> add_leader (current_term n) i (log n) (set (votes_received n)) g"
  shows "hist_inv M h" and "extends i g h"
proof -
  let ?t = "current_term n" and ?Q = "set (votes_received n)"
  have li: "leader_inv M g" and vi: "vote_inv M g" and ai: "ack_inv M g" and ki: "keep_inv g"
    and fin: "finite M" using hist by (auto simp: hist_inv_def)
  note cand = node_inv_candidate [OF inv r]
  have wf: "node_wf n" using inv by (rule node_inv_wf)
  have M: "M = insert i (set (peers n))" "i \<notin> set (peers n)" "distinct (peers n)"
    using node_invD [OF inv] by (auto simp: node_wf_def)
  then have "card M = length (peers n) + 1" by (simp add: distinct_card)
  then have maj: "is_majority M ?Q"
    using q wf M fin node_invD(2) [OF inv]
    by (auto simp: is_majority_def quorum_def node_wf_def distinct_card)
  have vQ: "\<forall>v \<in> ?Q. \<exists>L. votes g ?t v = Some (i, L)" using cand(4) by blast
  have none: "ldr g ?t = None"
  proof (rule ccontr)
    assume "ldr g ?t \<noteq> None"
    then obtain l LL Q where l: "ldr g ?t = Some (l, LL, Q)" by auto
    from leader_unique [OF li l maj vQ] l cand(2) show False by (auto simp: leads_def)
  qed
  show ext: "extends i g h" unfolding h_def using none by (rule extends_add_leader)
  have el: "elog h ?t = log n" using cand(1) by (simp add: h_def elog_def)
  have "vote_inv M h"
    using vi LP_extends [OF ext] unfolding vote_inv_def h_def by simp
  moreover have "leader_inv M h"
    unfolding leader_inv_def
  proof (intro allI impI)
    fix u l LL Q assume l: "ldr h u = Some (l, LL, Q)"
    show "is_majority M Q \<and> l \<in> Q \<and> (\<forall>v \<in> Q. \<exists>L. votes h u v = Some (l, L)) \<and>
      prefix (elog h u) LL \<and> (\<forall>e \<in> set (drop (length (elog h u)) LL). e_term e = u) \<and>
      log_idx LL \<and> log_terms u LL \<and> LP h LL"
    proof (cases "u = ?t")
      case True
      then have "l = i" "LL = log n" "Q = ?Q" using l by (auto simp: h_def)
      then show ?thesis
        using True maj vQ cand(3) el wf LP_extends [OF ext node_invD(6) [OF inv]]
        by (auto simp: node_wf_def h_def)
    next
      case False
      then have "ldr g u = Some (l, LL, Q)" using l by (simp add: h_def)
      then have "is_majority M Q \<and> l \<in> Q \<and> (\<forall>v \<in> Q. \<exists>L. votes g u v = Some (l, L)) \<and>
        prefix (elog g u) LL \<and> (\<forall>e \<in> set (drop (length (elog g u)) LL). e_term e = u) \<and>
        log_idx LL \<and> log_terms u LL \<and> LP g LL"
        using li unfolding leader_inv_def by blast
      then show ?thesis using False LP_extends [OF ext] by (simp add: h_def)
    qed
  qed
  moreover have "ack_inv M h"
    by (rule ack_inv_extends [OF ext ai]) (simp add: h_def)
  moreover have "keep_inv h"
    unfolding keep_inv_def
  proof (intro allI impI)
    fix s v m u d L
    assume a: "held h s v m" "s < u" "votes h u v = Some (d, L)" "early_vote h u v"
    then have vg: "votes g u v = Some (d, L)" by (simp add: h_def)
    have eg: "early_vote g u v"
      using a(4) none by (cases "u = ?t") (auto simp: early_vote_def h_def)
    have "held g s v m"
    proof (cases "s = ?t \<and> v = i")
      case True
      then show ?thesis using node_inv_vote [OF inv] vg a(2) by fastforce
    next
      case False
      then show ?thesis
        using a(1) by (cases "s = ?t") (auto simp: held_def h_def)
    qed
    then have "retained g s m L (u - 1)" "m \<le> length (llog g s)"
      using ki a(2) vg eg held_le [OF ai] unfolding keep_inv_def by blast+
    then show "retained h s m L (u - 1)" using retained_extends [OF ext li _ _ order_refl] by blast
  qed
  ultimately show "hist_inv M h" using fin by (simp add: hist_inv_def)
qed

lemma retained_self: "retained g t m (llog g t) b"
  by (simp add: retained_def take_is_prefix)

lemma node_inv_become_leader:
  assumes hist: "hist_inv M g" and inv: "node_inv M g i n" and r: "role n = Candidate"
    and q: "quorum n \<le> length (votes_received n)"
    and nx: "\<forall>p v. nx p = Some v \<longrightarrow> v \<le> length (log n) + 1"
  shows "node_inv M (add_leader (current_term n) i (log n) (set (votes_received n)) g) i
           (n\<lparr>role := Leader, leader_hint := Some (node_id n), next_index := nx,
              match_index := (\<lambda>p. if p \<in> set (peers n) then Some 0 else None),
              sent_upper := su, last_heartbeat_ms := b\<rparr>)"
    (is "node_inv M ?h i ?k")
proof -
  note h = hist_inv_add_leader [OF hist inv r q]
  have li: "leader_inv M g" and ai: "ack_inv M g" using hist by (auto simp: hist_inv_def)
  have ret: "s \<le> current_term n \<and> retained ?h s m (log n) (current_term n)" if hd: "held ?h s i m" for s m
  proof (cases "held g s i m")
    case True
    then show ?thesis
      using node_inv_held [OF inv True] retained_extends [OF h(2) li _ _ order_refl] held_le [OF ai True]
      by blast
  next
    case False
    then have "s = current_term n" using hd by (cases "s = current_term n") (auto simp: held_def)
    then show ?thesis using retained_self [of ?h "current_term n"] by simp
  qed
  show ?thesis
  proof (rule node_invI)
    show "node_wf ?k" using node_inv_wf [OF inv] nx by (simp add: node_wf_def next_ok_def)
    show "s \<le> current_term ?k" if "votes ?h s i = Some x" for s x
      using that node_inv_vote [OF inv] by auto
    show "s \<le> current_term ?k" if "held ?h s i m" for s m using ret [OF that] by simp
    show "retained ?h s m (log ?k) (current_term ?k)" if "held ?h s i m" for s m
      using ret [OF that] by simp
    show "commit_ok M ?h (current_term ?k) (log ?k) (commit_index ?k)"
      using commit_ok_extends [OF h(2) node_inv_commit [OF inv] order_refl] by simp
    show "msg_inv M ?h i p m" if "(p, m) \<in> set (outbox ?k)" for p m
      using msg_inv_extends [OF h(2)] node_invD(7) [OF inv] that by simp
    show "LP ?h (log ?k)" using LP_extends [OF h(2) node_invD(6) [OF inv]] by simp
    show "m = 0 \<or> (\<exists>m' \<ge> m. (current_term ?k, p, m') \<in> acks ?h)" if "match_index ?k p = Some m" for p m
      using that by (simp split: if_splits)
  qed (simp_all add: node_invD [OF inv])
qed

lemma evolves_become_leader:
  assumes hist: "hist_inv M g" and inv: "node_inv M g i n" and r: "role n = Candidate"
    and q: "quorum n \<le> length (votes_received n)"
  shows "evolves M i g (become_leader clk n)"
proof -
  let ?h = "add_leader (current_term n) i (log n) (set (votes_received n)) g"
  have "log_idx (log n)" using node_inv_wf [OF inv] by (simp add: node_wf_def)
  from become_leader_ok [OF this, of clk] obtain nx su ms where
    b: "become_leader clk n = Some (n\<lparr>role := Leader, leader_hint := Some (node_id n),
           next_index := nx, match_index := (\<lambda>p. if p \<in> set (peers n) then Some 0 else None),
           sent_upper := su, last_heartbeat_ms := now_ms clk, outbox := outbox n @ ms\<rparr>)"
    and nx: "\<forall>p v. nx p = Some v \<longrightarrow> v \<le> length (log n) + 1"
    and ms: "\<forall>(p, m) \<in> set ms. p \<in> set (peers n) \<and> ae_ok n m" by blast
  let ?k = "n\<lparr>role := Leader, leader_hint := Some (node_id n), next_index := nx,
      match_index := (\<lambda>p. if p \<in> set (peers n) then Some 0 else None),
      sent_upper := su, last_heartbeat_ms := now_ms clk\<rparr>"
  have k: "node_inv M ?h i ?k" by (rule node_inv_become_leader [OF hist inv r q nx])
  have "\<forall>(p, m) \<in> set ms. msg_inv M ?h i p m"
    using ms leader_ae_msg [OF k] by fastforce
  then have "node_inv M ?h i (?k\<lparr>outbox := outbox ?k @ ms\<rparr>)" by (rule node_inv_outbox [OF k])
  then show ?thesis
    unfolding b using hist_inv_add_leader [OF hist inv r q] by (intro evolvesI) auto
qed

lemma evolves_vote_resp:
  assumes hist: "hist_inv M g" and inv: "node_inv M g i n"
    and msg: "msg_inv M g from i (RequestVoteResp t granted)"
  shows "evolves M i g (step_vote_resp clk from t granted n)"
proof (cases "from \<notin> set (peers n) \<or> t > current_term n \<or> role n \<noteq> Candidate
     \<or> t \<noteq> current_term n \<or> \<not> granted")
  case True
  then show ?thesis
    using inv node_inv_observe [OF inv]
    by (auto simp: step_vote_resp_def intro: evolves_same [OF hist])
next
  case False
  define n1 where "n1 = (if from \<in> set (votes_received n) then n
      else n\<lparr>votes_received := votes_received n @ [from]\<rparr>)"
  obtain L where L: "votes g (current_term n) from = Some (i, L)" using False msg by auto
  have inv1: "node_inv M g i n1" and r1: "role n1 = Candidate"
  proof -
    have wf: "node_wf n1" using node_inv_wf [OF inv] False by (auto simp: n1_def node_wf_def)
    have cand: "role n = Candidate" using False by simp
    show "role n1 = Candidate" using False by (simp add: n1_def)
    show "node_inv M g i n1"
    proof (cases "from \<in> set (votes_received n)")
      case True
      then show ?thesis using inv by (simp add: n1_def)
    next
      case new: False
      then have n1: "n1 = n\<lparr>votes_received := votes_received n @ [from]\<rparr>" by (simp add: n1_def)
      show ?thesis
      proof (rule node_invI)
        show "\<exists>L. votes g (current_term n1) v = Some (i, L)" if "v \<in> set (votes_received n1)" for v
          using that node_inv_candidate(4) [OF inv cand, of v] L by (auto simp: n1)
        show "node_wf n1" by (rule wf)
        show "s \<le> current_term n1" if "votes g s i = Some x" for s x 
          using node_inv_vote [OF inv that] by (simp add: n1)
        show "s \<le> current_term n1" if "held g s i m" for s m using node_inv_held [OF inv that] by (simp add: n1)
        show "retained g s m (log n1) (current_term n1)" if "held g s i m" for s m
          using node_inv_held [OF inv that] by (simp add: n1)
        show "role n1 = Leader \<Longrightarrow> leads g (current_term n1) i" using False by (simp add: n1)
        show "role n1 = Leader \<Longrightarrow> llog g (current_term n1) = log n1" using False by (simp add: n1)
        show "m = 0 \<or> (\<exists>m' \<ge> m. (current_term n1, p, m') \<in> acks g)" if "role n1 = Leader" for p m
          using that False by (simp add: n1)
      qed (simp_all add: n1 node_invD [OF inv] node_inv_commit [OF inv]
          node_inv_candidate(1-3) [OF inv cand])
    qed
  qed
  have "step_vote_resp clk from t granted n =
      (if quorum n1 \<le> length (votes_received n1) then become_leader clk n1 else Some n1)"
    using False by (simp add: step_vote_resp_def n1_def [symmetric])
  then show ?thesis
    using evolves_become_leader [OF hist inv1 r1] evolves_same [OF hist inv1] by simp
qed

lemma evolves_start_election:
  assumes hist: "hist_inv M g" and inv: "node_inv M g i n"
  shows "evolves M i g (start_election clk n)"
proof (cases "checked_add (current_term n) 1")
  case None
  then show ?thesis using evolves_same [OF hist inv] by (simp add: start_election_def)
next
  case (Some t)
  then have t: "t = Suc (current_term n)" by (simp add: opt_iffs)
  let ?h = "add_vote t i i (log n) g"
  let ?ms = "map (\<lambda>p. (p, RequestVote t (node_id n) (last_log_index n) (last_log_term n))) (peers n)"
  define n1 where "n1 = n\<lparr>current_term := t,
       timeout_jitter_ms := election_jitter clk (node_id n) t,
       role := Candidate, voted_for := Some (node_id n), leader_hint := None,
       votes_received := [node_id n], last_heartbeat_ms := now_ms clk, outbox := outbox n @ ?ms\<rparr>"
  have li: "leader_inv M g" and ai: "ack_inv M g" using hist by (auto simp: hist_inv_def)
  have fresh: "votes g t i = None" using node_inv_vote [OF inv] t by (cases "votes g t i") fastforce+
  have ext: "extends i g ?h" using fresh by (rule extends_add_vote)
  have lt: "log_terms (current_term n) (log n)" using node_inv_wf [OF inv] by (simp add: node_wf_def)
  have hist': "hist_inv M ?h"
    using hist_inv_add_vote [OF hist inv, of t i] t fresh node_invD(1) [OF inv] lt log_terms_mono [OF lt, of t]
    by simp
  have inv1: "node_inv M ?h i n1"
  proof (rule node_invI)
    show "node_wf n1"
      using node_inv_wf [OF inv] log_terms_mono [OF lt, of t] t by (simp add: n1_def node_wf_def)
    show "s \<le> current_term n1" if "votes ?h s i = Some x" for s x
      using that node_inv_vote [OF inv] t by (fastforce simp: add_vote_def n1_def split: if_splits)
    show "s \<le> current_term n1" if "held ?h s i m" for s m
      using node_inv_held [OF inv, of s m] that t by (simp add: n1_def)
    show "retained ?h s m (log n1) (current_term n1)" if "held ?h s i m" for s m
      using retained_extends [OF ext li, of m s "log n" "current_term n" t] held_le [OF ai, of s i m]
        node_inv_held [OF inv, of s m] that t by (simp add: n1_def)
    show "commit_ok M ?h (current_term n1) (log n1) (commit_index n1)"
      using commit_ok_extends [OF ext node_inv_commit [OF inv], of t] t by (simp add: n1_def)
    show "msg_inv M ?h i p m" if "(p, m) \<in> set (outbox n1)" for p m
      using that msg_inv_extends [OF ext] node_invD(7) [OF inv, of p m] node_invD(2) [OF inv]
      by (auto simp: n1_def add_vote_def last_log_index_def last_log_term_eq)
    show "\<not> leads ?h (current_term n1) i"
      using leads_votes [OF li] fresh by (fastforce simp: n1_def leads_def)
    show "LP ?h (log n1)" using node_invD(6) [OF inv] by (simp add: n1_def)
  qed (use node_invD [OF inv] in \<open>auto simp: n1_def add_vote_def\<close>)
  have "start_election clk n =
      (if quorum n1 \<le> length (votes_received n1) then become_leader clk n1 else Some n1)"
    unfolding start_election_def Some option.case Let_def n1_def by (rule refl)
  moreover have "role n1 = Candidate" by (simp add: n1_def)
  ultimately show ?thesis
    using evolves_become_leader [OF hist' inv1] evolves_same [OF hist' inv1] evolves_trans [OF ext] by simp
qed

section \<open>Moving the commit point\<close>

lemma commit_to_eq:
  assumes "node_wf n" and "commit_index n < c" and "c \<le> length (log n)"
  shows "commit_to c n = Some (n\<lparr>commit_index := c,
      pending_apply := pending_apply n @ take (c - commit_index n) (drop (commit_index n) (log n)),
      last_applied := c\<rparr>)"
  using assms by (simp add: commit_to_def slice_def node_wf_def)

lemma node_inv_commit_to:
  assumes inv: "node_inv M g i n" and "c \<le> length (log n)"
    and "commit_ok M g (current_term n) (log n) c"
  shows "node_inv M g i (n\<lparr>commit_index := c, pending_apply := ps, last_applied := c\<rparr>)"
    (is "node_inv M g i ?n")
proof (rule node_invI)
  show "node_wf ?n" using node_inv_wf [OF inv] assms(2) by (simp add: node_wf_def next_ok_def)
qed (simp_all add: node_invD [OF inv] node_inv_vote [OF inv] node_inv_candidate [OF inv]
    node_inv_leader [OF inv] conjunct1 [OF node_inv_held [OF inv]]
    conjunct2 [OF node_inv_held [OF inv]] assms)

lemma evolves_advance_commit:
  assumes hist: "hist_inv M g" and inv: "node_inv M g i n" and r: "role n = Leader"
  shows "evolves M i g (advance_commit n)"
proof -
  have wf: "node_wf n" using inv by (rule node_inv_wf)
  consider "advance_commit n = Some n" | c su ms where
    "advance_commit n = Some (n\<lparr>commit_index := c,
        pending_apply := pending_apply n @ take (c - commit_index n) (drop (commit_index n) (log n)),
        last_applied := c, sent_upper := su, outbox := outbox n @ ms\<rparr>)"
    "commit_index n < c" "c \<le> length (log n)" "e_term (log n ! (c - 1)) = current_term n"
    "quorum n \<le> card (ackers n c)"
    "\<forall>(p, m) \<in> set ms. p \<in> set (peers n) \<and> ae_ok (n\<lparr>commit_index := c\<rparr>) m"
    using advance_commit_ok [OF wf r] by blast
  then show ?thesis
  proof cases
    case 1
    then show ?thesis using evolves_same [OF hist inv] by simp
  next
    case 2
    let ?t = "current_term n"
    have M: "M = insert i (set (peers n))" "i \<notin> set (peers n)" "distinct (peers n)"
      using node_invD [OF inv] by (auto simp: node_wf_def)
    then have cM: "card M = length (peers n) + 1" by (simp add: distinct_card)
    have lead: "leads g ?t i" "llog g ?t = log n" using node_inv_leader [OF inv r] by auto
    have "is_majority M (ackers n c)"
      using 2(5) cM M(1) node_invD(2) [OF inv] by (auto simp: is_majority_def quorum_def ackers_def)
    moreover have "\<forall>v \<in> ackers n c. \<exists>m \<ge> c. held g ?t v m"
    proof
      fix v assume "v \<in> ackers n c"
      then consider "v = i" | "c \<le> match_of n v" using node_invD(2) [OF inv] by (auto simp: ackers_def)
      then show "\<exists>m \<ge> c. held g ?t v m"
      proof cases
        case 1
        then show ?thesis using lead 2(3) by (auto simp: held_def)
      next
        case acked: 2
        then obtain m where "match_index n v = Some m" "c \<le> m"
          using 2(2) by (auto simp: match_of_def split: option.splits)
        then obtain m' where "m \<le> m'" "(?t, v, m') \<in> acks g"
          using node_inv_leader(3) [OF inv r] 2(2) by fastforce
        then have "c \<le> m'" "held g ?t v m'" using \<open>c \<le> m\<close> by (auto simp: held_def)
        then show ?thesis by blast
      qed
    qed
    ultimately have com: "committed M g ?t c"
      using lead 2(2-4) unfolding committed_def leads_def by auto
    then have "commit_ok M g ?t (log n) c"
      using lead(2) 2(3) unfolding commit_ok_def by (metis order_refl)
    from node_inv_commit_to [OF inv 2(3) this]
    have k: "node_inv M g i (n\<lparr>commit_index := c,
        pending_apply := pending_apply n @ take (c - commit_index n) (drop (commit_index n) (log n)),
        last_applied := c, sent_upper := su\<rparr>)" (is "node_inv M g i ?k") by simp
    have "\<forall>(p, m) \<in> set ms. msg_inv M g i p m"
      using 2(6) leader_ae_msg [OF k] r by fastforce
    from node_inv_outbox [OF k this] show ?thesis
      unfolding 2(1) by (intro evolves_same [OF hist]) simp
  qed
qed

section \<open>Accepting entries\<close>

lemma retained_accept:
  assumes ret: "retained g t0 m K t" and t0: "t0 \<le> t" and m: "m \<le> length (llog g t0)"
    and ld: "ldr g t \<noteq> None" and el: "prefix (elog g t) (llog g t)"
    and s: "s < matched" "matched \<le> length (llog g t)" "take s (llog g t) = take s K"
      "length K \<le> s \<or> e_term (K ! s) \<noteq> e_term (llog g t ! s)"
  shows "retained g t0 m (take matched (llog g t)) t"
  unfolding retained_def
proof (intro allI impI)
  fix k assume k: "k \<le> m"
  let ?P = "take k (llog g t0)" and ?L = "take matched (llog g t)"
  have lenP: "length ?P = k" using k m by simp
  show "prefix ?P ?L \<or> (\<exists>u. t0 < u \<and> u \<le> t \<and> ldr g u \<noteq> None \<and> \<not> prefix ?P (elog g u))"
  proof (cases "\<exists>u. t0 < u \<and> u \<le> t \<and> ldr g u \<noteq> None \<and> \<not> prefix ?P (elog g u)")
    case False
    then have PK: "prefix ?P K" using ret k unfolding retained_def by blast
    have PL: "prefix ?P (llog g t)"
    proof (cases "t0 = t")
      case False
      then have "prefix ?P (elog g t)"
        using \<open>\<not> (\<exists>u. t0 < u \<and> u \<le> t \<and> ldr g u \<noteq> None \<and> \<not> prefix ?P (elog g u))\<close> t0 ld by auto
      then show ?thesis using el by (rule prefix_order.trans)
    qed (simp add: take_is_prefix)
    have "k \<le> s"
    proof (rule ccontr)
      assume "\<not> k \<le> s"
      then have "s < length ?P" using lenP by simp
      then have "K ! s = llog g t ! s" "s < length K"
        using prefix_nth [OF PK] prefix_nth [OF PL] prefix_length_le [OF PK] by auto
      then show False using s(4) by simp
    qed
    then have "length ?P \<le> length ?L" using lenP s(1,2) by simp
    then have "prefix ?P ?L" using PL take_is_prefix prefix_two by blast
    then show ?thesis ..
  qed simp
qed

text \<open>
  A follower in the leader's term that the plan accepts ends with a log whose first
  \<open>matched\<close> entries are the leader's.
\<close>

lemma node_inv_accept:
  assumes hist: "hist_inv M g" and inv: "node_inv M g i n" and fol: "role n = Follower"
    and msg: "msg_inv M g from i (AppendEntries (current_term n) l pli plt es lc)"
    and shape: "entries_shape (current_term n) pli plt es"
    and plan: "append_plan pli plt es n = Some (keep, skip)"
  defines "L' \<equiv> take keep (log n) @ drop skip es"
  shows "node_inv M g i (n\<lparr>log := L'\<rparr>)"
    and "take (pli + length es) L' = take (pli + length es) (llog g (current_term n))"
    and "pli + length es \<le> length L'"
proof -
  let ?t = "current_term n" and ?mt = "pli + length es"
  let ?LL = "llog g ?t"
  have li: "leader_inv M g" and ai: "ack_inv M g" using hist by (auto simp: hist_inv_def)
  have m: "ldr g ?t \<noteq> None" "?mt \<le> length ?LL" "es = take (length es) (drop pli ?LL)"
    "plt = (if pli = 0 then 0 else e_term (?LL ! (pli - 1)))"
    using msg by (auto simp: leads_def)
  have LL: "prefix (elog g ?t) ?LL" "log_idx ?LL" "log_terms ?t ?LL" "LP g ?LL"
    using li m(1) by (auto simp: leader_inv_def llog_def)
  have idx: "\<forall>j < length es. e_index (es ! j) = pli + j + 1" using entries_shape_props [OF shape] by blast
  note sp = append_plan_spec [OF plan idx, folded L'_def]
  have pre: "take pli (log n) = take pli ?LL"
  proof (cases "pli = 0")
    case False
    then have "take (Suc (pli - 1)) (log n) = take (Suc (pli - 1)) ?LL"
      using sp(1,2) m LP_matching [OF node_invD(6) [OF inv] LL(4), of "pli - 1"] by simp
    then show ?thesis using False by simp
  qed simp
  have all: "take pli (log n) @ es = take ?mt ?LL"
    using m(3) pre by (simp add: take_add)
  have lenLL: "length (take ?mt ?LL) = ?mt" using m(2) by simp
  from sp(3) consider "L' = log n" "take ?mt (log n) = take pli (log n) @ es" "?mt \<le> length (log n)"
    | "L' = take pli (log n) @ es" by blast
  then have tk: "take ?mt L' = take ?mt ?LL \<and> ?mt \<le> length L'"
  proof cases
    case 2
    then have "L' = take ?mt ?LL" using all by simp
    then show ?thesis using lenLL by simp
  qed (simp add: all)
  then show "take ?mt L' = take ?mt ?LL" and len: "?mt \<le> length L'" by auto
  show "node_inv M g i (n\<lparr>log := L'\<rparr>)"
  proof (cases "L' = log n")
    case True
    then show ?thesis using inv by simp
  next
    case False
    then have L': "L' = take ?mt ?LL" using sp(3) all by auto
    from sp(3) False obtain s where s: "s < ?mt" "commit_index n \<le> s" "take s L' = take s (log n)"
      "length (log n) \<le> s \<or> e_term (log n ! s) \<noteq> e_term (L' ! s)" by auto
    have s': "take s ?LL = take s (log n)" "L' ! s = ?LL ! s"
      using s(1,3) m(2) by (auto simp: L' min_def)
    show ?thesis
    proof (rule node_invI)
      show "node_wf (n\<lparr>log := L'\<rparr>)"
        using node_inv_wf [OF inv] fol LL(2,3) s(1,2) len
        by (auto simp: node_wf_def L' log_idx_take log_terms_take)
      show "retained g t0 m (log (n\<lparr>log := L'\<rparr>)) (current_term (n\<lparr>log := L'\<rparr>))"
        if hd: "held g t0 i m" for t0 m
        using retained_accept [OF _ _ _ m(1) LL(1) s(1) m(2) s'(1)] node_inv_held [OF inv hd]
          held_le [OF ai hd] s(4) s'(2) by (simp add: L')
      have "take (commit_index n) L' = take (commit_index n) (log n)"
        using s(2,3) take_eq_mono by blast
      then show "commit_ok M g (current_term (n\<lparr>log := L'\<rparr>)) (log (n\<lparr>log := L'\<rparr>))
          (commit_index (n\<lparr>log := L'\<rparr>))"
        using node_inv_commit [OF inv] s(1,2) len unfolding commit_ok_def by auto
      show "LP g (log (n\<lparr>log := L'\<rparr>))" using LP_take [OF LL(4)] by (simp add: L')
    qed (use fol in \<open>simp_all add: node_invD [OF inv] node_inv_vote [OF inv]
        conjunct1 [OF node_inv_held [OF inv]]\<close>)
  qed
qed

definition add_ack :: "nat \<Rightarrow> node_name \<Rightarrow> nat \<Rightarrow> history \<Rightarrow> history" where
  "add_ack t v m g = g\<lparr>acks := insert (t, v, m) (acks g)\<rparr>"

lemma add_ack_simps [simp]:
  "votes (add_ack t v m g) = votes g" "ldr (add_ack t v m g) = ldr g"
  "acks (add_ack t v m g) = insert (t, v, m) (acks g)"
  "llog (add_ack t v m g) u = llog g u" "elog (add_ack t v m g) u = elog g u"
  "LP (add_ack t v m g) L = LP g L" "leads (add_ack t v m g) u i = leads g u i"
  "early_vote (add_ack t v m g) u w = early_vote g u w"
  by (auto simp: add_ack_def llog_def elog_def LP_def leads_def early_vote_def split: option.split)

lemma retained_add_ack [simp]: "retained (add_ack t v m g) u k L b = retained g u k L b"
  by (simp add: retained_def)

lemma held_add_ack: "held (add_ack t v m g) u w k \<longleftrightarrow> held g u w k \<or> (u, w, k) = (t, v, m)"
  by (auto simp: held_def)

lemma extends_add_ack: "extends v g (add_ack t v m g)"
  by (auto simp: extends_def)

lemma add_ack_inv:
  assumes hist: "hist_inv M g" and inv: "node_inv M g i n"
    and ld: "ldr g (current_term n) \<noteq> None"
    and m: "m \<le> length (log n)" "m \<le> length (llog g (current_term n))"
      "take m (log n) = take m (llog g (current_term n))"
  defines "h \<equiv> add_ack (current_term n) i m g"
  shows "hist_inv M h" and "node_inv M h i n"
proof -
  have ext: "extends i g h" unfolding h_def by (rule extends_add_ack)
  have vi: "vote_inv M g" and li: "leader_inv M g" and ai: "ack_inv M g" and ki: "keep_inv g"
    and fin: "finite M" using hist by (auto simp: hist_inv_def)
  have new: "retained g (current_term n) m (log n) b" for b
    using m by (auto simp: retained_def prefix_take_iff intro: take_eq_mono)
  have "keep_inv h"
    unfolding keep_inv_def
  proof (intro allI impI)
    fix s v k u d L
    assume a: "held h s v k" "s < u" "votes h u v = Some (d, L)" "early_vote h u v"
    have "\<not> (s = current_term n \<and> v = i)"
      using node_inv_vote [OF inv] a(2,3) by (auto simp: h_def) fastforce
    then have "held g s v k" using a(1) by (auto simp: h_def held_add_ack)
    then show "retained h s k L (u - 1)" using ki a(2-4) unfolding keep_inv_def h_def by simp
  qed
  moreover have "vote_inv M h" using vi by (simp add: vote_inv_def h_def)
  moreover have "leader_inv M h" using li by (simp add: leader_inv_def h_def)
  moreover have "ack_inv M h" using ai ld m node_invD(1) [OF inv] by (auto simp: ack_inv_def h_def)
  ultimately show "hist_inv M h" using fin by (simp add: hist_inv_def)
  show "node_inv M h i n"
  proof (rule node_invI)
    show "s \<le> current_term n" if "held h s i k" for s k
      using that node_inv_held [OF inv, of s k] by (auto simp: h_def held_add_ack)
    show "retained h s k (log n) (current_term n)" if "held h s i k" for s k
      using that node_inv_held [OF inv, of s k] new by (auto simp: h_def held_add_ack)
    show "commit_ok M h (current_term n) (log n) (commit_index n)"
      using commit_ok_extends [OF ext node_inv_commit [OF inv] order_refl] .
    show "msg_inv M h i p k" if "(p, k) \<in> set (outbox n)" for p k
      using msg_inv_extends [OF ext] node_invD(7) [OF inv that] by blast
    show "k = 0 \<or> (\<exists>m' \<ge> k. (current_term n, p, m') \<in> acks h)"
      if "role n = Leader" "match_index n p = Some k" for p k
      using node_inv_leader(3) [OF inv that] by (auto simp: h_def)
  qed (simp_all add: h_def node_invD [OF inv] node_inv_vote [OF inv] node_inv_candidate [OF inv]
      node_inv_leader [OF inv])
qed

lemma evolves_append:
  assumes hist: "hist_inv M g" and inv: "node_inv M g i n"
    and msg: "msg_inv M g from i (AppendEntries t l pli plt es lc)"
    and shape: "entries_shape t pli plt es"
  shows "evolves M i g (step_append clk from t l pli plt es lc n)"
proof (cases "from \<noteq> l \<or> from \<notin> set (peers n) \<or> t < current_term n")
  case True
  then show ?thesis
    using inv node_inv_push [OF inv, of "from" "AppendEntriesResp (current_term n) False (last_log_index n)"]
    by (auto simp: step_append_def intro: evolves_same [OF hist])
next
  case False
  define n1 where "n1 = (observe_term t n)\<lparr>role := Follower, leader_hint := Some l,
      last_heartbeat_ms := now_ms clk\<rparr>"
  have inv1: "node_inv M g i n1"
    unfolding n1_def using node_inv_follower [OF node_inv_observe [OF inv]] by simp
  have n1: "current_term n1 = t" "role n1 = Follower"
    using False by (simp_all add: n1_def observe_term_def)
  show ?thesis
  proof (cases "append_plan pli plt es n1")
    case None
    then have "step_append clk from t l pli plt es lc n = Some (push_out from
        (AppendEntriesResp (current_term n1) False (last_log_index n1)) n1)"
      using False by (auto simp: step_append_def n1_def [symmetric])
    then show ?thesis using node_inv_push [OF inv1] by (auto intro!: evolves_same [OF hist])
  next
    case (Some ks)
    obtain keep skip where plan: "append_plan pli plt es n1 = Some (keep, skip)"
      using Some by (cases ks) auto
    let ?mt = "pli + length es"
    define n2 where "n2 = n1\<lparr>log := take keep (log n1) @ drop skip es\<rparr>"
    have msg1: "msg_inv M g from i (AppendEntries (current_term n1) l pli plt es lc)"
      and shape1: "entries_shape (current_term n1) pli plt es" using msg shape n1 by auto
    note acc = node_inv_accept [OF hist inv1 n1(2) msg1 shape1 plan, folded n2_def]
    have n2: "current_term n2 = t" "log n2 = take keep (log n1) @ drop skip es" "commit_index n2 = commit_index n1"
      by (simp_all add: n2_def n1)
    have ld: "ldr g t \<noteq> None" "?mt \<le> length (llog g t)" using msg by (auto simp: leads_def)
    let ?h = "add_ack t i ?mt g"
    have ext: "extends i g ?h" by (rule extends_add_ack)
    have h: "hist_inv M ?h" "node_inv M ?h i n2"
      using add_ack_inv [OF hist acc(1), of ?mt] acc(2,3) n1 n2 ld by auto
    define n3 where "n3 = (if min lc ?mt > commit_index n2 then n2\<lparr>commit_index := min lc ?mt,
        pending_apply := pending_apply n2 @ take (min lc ?mt - commit_index n2) (drop (commit_index n2) (log n2)),
        last_applied := min lc ?mt\<rparr> else n2)"
    have c3: "(if min lc ?mt > commit_index n2 then commit_to (min lc ?mt) n2 else Some n2) = Some n3"
      unfolding n3_def using commit_to_eq [OF node_inv_wf [OF h(2)], of "min lc ?mt"] acc(3) n2 by auto
    have lcok: "commit_ok M g t (llog g t) lc" using msg by simp
    have inv3: "node_inv M ?h i n3"
    proof (cases "min lc ?mt > commit_index n2")
      case True
      let ?c = "min lc ?mt"
      have tk: "take ?c (log n2) = take ?c (llog g t)"
        using acc(2) n1 n2 take_eq_mono [of ?mt "log n2" "llog g t" ?c] by simp
      from True lcok obtain t0 j where "t0 \<le> t" "committed M g t0 j" "lc \<le> j"
        "take lc (llog g t) = take lc (llog g t0)" by (auto simp: commit_ok_def)
      then have "commit_ok M g t (log n2) ?c"
        using tk acc(3) n2 take_eq_mono [of lc "llog g t" "llog g t0" ?c] unfolding commit_ok_def
        by (intro disjI2 exI [of _ t0] exI [of _ j]) auto
      from commit_ok_extends [OF ext this order_refl]
      show ?thesis
        unfolding n3_def using True node_inv_commit_to [OF h(2), of ?c] acc(3) n2 by auto
    qed (use h in \<open>auto simp: n3_def\<close>)
    have t3: "current_term n3 = t" using n2 by (simp add: n3_def)
    have "step_append clk from t l pli plt es lc n =
        Some (push_out from (AppendEntriesResp t True ?mt) n3)"
      using False plan c3 [unfolded n2(3)] t3
      by (auto simp: step_append_def n1_def [symmetric] n2_def [symmetric] Let_def split: if_splits)
    moreover have "node_inv M ?h i (push_out from (AppendEntriesResp t True ?mt) n3)"
      by (rule node_inv_push [OF inv3]) simp
    ultimately show ?thesis using evolvesI [OF h(1) ext] by simp
  qed
qed

section \<open>The leader's own moves\<close>

lemma node_inv_next_index:
  assumes inv: "node_inv M g i n" and nx: "\<forall>p v. nx p = Some v \<longrightarrow> v \<le> length (log n) + 1"
  shows "node_inv M g i (n\<lparr>next_index := nx\<rparr>)"
proof -
  have "node_wf (n\<lparr>next_index := nx\<rparr>)"
    using node_inv_wf [OF inv] nx by (simp add: node_wf_def next_ok_def)
  then show ?thesis using inv by (simp add: node_inv_def)
qed

lemma node_inv_match_index:
  assumes inv: "node_inv M g i n"
    and mt: "\<forall>p m. mx p = Some m \<longrightarrow> m = 0 \<or> (\<exists>m' \<ge> m. (current_term n, p, m') \<in> acks g)"
  shows "node_inv M g i (n\<lparr>match_index := mx\<rparr>)"
  using inv mt unfolding node_inv_def by simp

lemma evolves_append_resp:
  assumes hist: "hist_inv M g" and inv: "node_inv M g i n"
    and msg: "msg_inv M g from i (AppendEntriesResp t success m)"
  shows "evolves M i g (step_append_resp from t success m n)"
proof (cases "from \<notin> set (peers n) \<or> t > current_term n \<or> role n \<noteq> Leader \<or> t \<noteq> current_term n
    \<or> success \<and> m > last_log_index n
    \<or> success \<and> m > (case sent_upper n from of None \<Rightarrow> 0 | Some u \<Rightarrow> u)")
  case True
  then show ?thesis
    using inv node_inv_observe [OF inv] unfolding step_append_resp_def
    by (auto intro: evolves_same [OF hist])
next
  case False
  then have c: "from \<in> set (peers n)" "t = current_term n" "role n = Leader" by auto
  define ni where "ni = (case next_index n from of None \<Rightarrow> 1 | Some v \<Rightarrow> v)"
  have nok: "next_ok n" using node_inv_wf [OF inv] c(3) by (simp add: node_wf_def)
  then have ni: "ni \<le> length (log n) + 1" by (auto simp: ni_def next_ok_def split: option.splits)
  show ?thesis
  proof (cases success)
    case True
    define mx where "mx = (match_index n)(from \<mapsto> max (match_of n from) m)"
    define nx where "nx = (next_index n)(from \<mapsto> max ni (saturating_add m 1))"
    have "m \<le> length (log n)" using False True by (simp add: last_log_index_def)
    then have nx: "\<forall>p v. nx p = Some v \<longrightarrow> v \<le> length (log n) + 1"
      using nok ni saturating_add_le [of m 1] by (auto simp: nx_def next_ok_def)
    have "(current_term n, from, m) \<in> acks g" using msg True c by simp
    then have mx: "\<forall>p k. mx p = Some k \<longrightarrow> k = 0 \<or> (\<exists>m' \<ge> k. (current_term n, p, m') \<in> acks g)"
      using node_inv_leader(3) [OF inv c(3)]
      by (auto simp: mx_def match_of_def max_def split: option.splits)
    let ?n = "n\<lparr>match_index := mx, next_index := nx\<rparr>"
    have inv': "node_inv M g i ?n"
      using node_inv_next_index [OF node_inv_match_index [OF inv mx], of nx] nx by simp
    have "step_append_resp from t success m n = advance_commit ?n"
      using False True by (auto simp: step_append_resp_def mx_def nx_def ni_def)
    then show ?thesis using evolves_advance_commit [OF hist inv'] c by simp
  next
    case fail: False
    define retry where "retry = max (ni - 1) (saturating_add (match_of n from) 1)"
    define nx where "nx = (\<lambda>k. (next_index n)(from \<mapsto> (k :: nat)))"
    have nx: "\<forall>p v. nx k p = Some v \<longrightarrow> v \<le> length (log n) + 1" if "k \<le> ni" for k
      using nok ni that by (auto simp: nx_def next_ok_def)
    have inv': "node_inv M g i (n\<lparr>next_index := nx k\<rparr>)" if "k \<le> ni" for k
      using node_inv_next_index [OF inv nx [OF that]] .
    have eq: "step_append_resp from t success m n =
        (if ni \<le> retry then Some (n\<lparr>next_index := nx ni\<rparr>)
         else send_append from (n\<lparr>next_index := nx retry\<rparr>))"
      using False fail by (auto simp: step_append_resp_def nx_def ni_def retry_def Let_def)
    show ?thesis
    proof (cases "ni \<le> retry")
      case True
      then show ?thesis unfolding eq using evolves_same [OF hist inv' [OF order_refl]] by simp
    next
      case retry: False
      let ?n = "n\<lparr>next_index := nx retry\<rparr>"
      have k: "node_inv M g i ?n" using retry by (intro inv') simp
      have "log_idx (log ?n)" "next_ok ?n"
        using node_inv_wf [OF k] c(3) by (auto simp: node_wf_def)
      from send_append_ok [OF this, of "from"] obtain su m1 where
        sa: "send_append from ?n = Some (?n\<lparr>sent_upper := su, outbox := outbox ?n @ [(from, m1)]\<rparr>)"
        and ok: "ae_ok ?n m1" by blast
      have "msg_inv M g i from m1" using leader_ae_msg [OF k _ ok] c(3) by simp
      then have "node_inv M g i (?n\<lparr>sent_upper := su, outbox := outbox ?n @ [(from, m1)]\<rparr>)"
        using node_inv_outbox [of M g i "?n\<lparr>sent_upper := su\<rparr>" "[(from, m1)]"] k by simp
      then show ?thesis unfolding eq sa using retry by (auto intro: evolves_same [OF hist])
    qed
  qed
qed

lemma retained_append: "retained g t m L b \<Longrightarrow> retained g t m (L @ K) b"
  unfolding retained_def by (meson prefix_prefix)

lemma commit_ok_append: "commit_ok M g b L c \<Longrightarrow> commit_ok M g b (L @ K) c"
  unfolding commit_ok_def
  by (elim disjE exE conjE, simp, intro disjI2 exI conjI, assumption+, simp_all)

lemma propose_inv:
  assumes hist: "hist_inv M g" and inv: "node_inv M g i n" and r: "role n = Leader"
    and e: "e_term e = current_term n" "e_index e = length (log n) + 1"
  shows "\<exists>h. hist_inv M h \<and> extends i g h \<and> node_inv M h i (n\<lparr>log := log n @ [e]\<rparr>)"
proof -
  let ?t = "current_term n" and ?L = "log n @ [e]" and ?n = "n\<lparr>log := log n @ [e]\<rparr>"
  have vi: "vote_inv M g" and li: "leader_inv M g" and ai: "ack_inv M g" and ki: "keep_inv g"
    and fin: "finite M" using hist by (auto simp: hist_inv_def)
  obtain Q where Q: "ldr g ?t = Some (i, log n, Q)"
    using node_inv_leader [OF inv r] by (auto simp: leads_def llog_def)
  define h where "h = add_leader ?t i ?L Q g"
  have ext: "extends i g h"
    using Q unfolding extends_def h_def add_leader_def by (auto split: if_splits)
  have LQ: "is_majority M Q" "i \<in> Q" "\<forall>v \<in> Q. \<exists>L. votes g ?t v = Some (i, L)"
    "prefix (elog g ?t) (log n)" "\<forall>e \<in> set (drop (length (elog g ?t)) (log n)). e_term e = ?t"
    using li Q unfolding leader_inv_def by blast+
  have el: "elog h u = elog g u" if "ldr g u \<noteq> None" for u using extends_elog [OF ext li that] .
  have t0: "0 < ?t" using leads_votes [OF li Q] vi by (auto simp: vote_inv_def)
  have wf: "node_wf ?n"
    using node_inv_wf [OF inv] e t0
    by (auto simp: node_wf_def next_ok_def log_idx_snoc log_terms_snoc intro: le_SucI)
  have LPh: "LP h ?L"
    unfolding LP_def
  proof (intro allI impI)
    fix k assume k: "k < length ?L"
    show "ldr h (e_term (?L ! k)) \<noteq> None \<and> k < length (llog h (e_term (?L ! k))) \<and>
        take (Suc k) (llog h (e_term (?L ! k))) = take (Suc k) ?L"
    proof (cases "k < length (log n)")
      case True
      then show ?thesis
        using LP_extends [OF ext node_invD(6) [OF inv]] by (simp add: LP_def nth_append)
    next
      case False
      then have "k = length (log n)" using k by simp
      then show ?thesis using e(1) by (simp add: h_def)
    qed
  qed
  have "leader_inv M h"
    unfolding leader_inv_def
  proof (intro allI impI)
    fix u l LL R assume l: "ldr h u = Some (l, LL, R)"
    show "is_majority M R \<and> l \<in> R \<and> (\<forall>v \<in> R. \<exists>L. votes h u v = Some (l, L)) \<and>
      prefix (elog h u) LL \<and> (\<forall>e \<in> set (drop (length (elog h u)) LL). e_term e = u) \<and>
      log_idx LL \<and> log_terms u LL \<and> LP h LL"
    proof (cases "u = ?t")
      case True
      then have "l = i" "LL = ?L" "R = Q" using l by (auto simp: h_def)
      moreover have "elog h ?t = elog g ?t" using el Q by simp
      ultimately show ?thesis
        using True LQ wf LPh e prefix_length_le [OF LQ(4)]
        by (auto simp: h_def node_wf_def prefix_prefix)
    next
      case False
      then have lg: "ldr g u = Some (l, LL, R)" using l by (simp add: h_def)
      then have "is_majority M R \<and> l \<in> R \<and> (\<forall>v \<in> R. \<exists>L. votes g u v = Some (l, L)) \<and>
        prefix (elog g u) LL \<and> (\<forall>e \<in> set (drop (length (elog g u)) LL). e_term e = u) \<and>
        log_idx LL \<and> log_terms u LL \<and> LP g LL" using li unfolding leader_inv_def by blast
      then show ?thesis using False LP_extends [OF ext] by (simp add: h_def)
    qed
  qed
  moreover have "vote_inv M h"
    using vi LP_extends [OF ext] unfolding vote_inv_def h_def by simp
  moreover have "ack_inv M h" by (rule ack_inv_extends [OF ext ai]) (simp add: h_def)
  moreover have "keep_inv h"
    unfolding keep_inv_def
  proof (intro allI impI)
    fix s v m u d K
    assume a: "held h s v m" "s < u" "votes h u v = Some (d, K)" "early_vote h u v"
    have vg: "votes g u v = Some (d, K)" using a(3) by (simp add: h_def)
    have "early_vote g u v"
      using a(4) Q by (cases "u = ?t") (auto simp: early_vote_def h_def)
    moreover have hg: "held g s v m"
      using a(1,2) vg node_inv_vote [OF inv] by (cases "s = ?t") (fastforce simp: held_def h_def)+
    ultimately have "retained g s m K (u - 1)" using ki a(2) vg unfolding keep_inv_def by blast
    then show "retained h s m K (u - 1)"
      using retained_extends [OF ext li _ _ order_refl] held_le [OF ai hg] by blast
  qed
  ultimately have H: "hist_inv M h" using fin by (simp add: hist_inv_def)
  have ret: "s \<le> ?t \<and> retained h s m ?L ?t" if hd: "held h s i m" for s m
  proof (cases "held g s i m")
    case True
    then have "retained h s m (log n) ?t"
      using node_inv_held [OF inv True] retained_extends [OF ext li _ _ order_refl] held_le [OF ai True]
      by blast
    then show ?thesis using node_inv_held [OF inv True] retained_append by blast
  next
    case False
    then have "s = ?t" using hd by (cases "s = ?t") (auto simp: held_def h_def)
    then show ?thesis using retained_self [of h ?t] by (simp add: h_def)
  qed
  have "node_inv M h i ?n"
  proof (rule node_invI)
    show "s \<le> current_term ?n" if "votes h s i = Some x" for s x
      using that node_inv_vote [OF inv] by (auto simp: h_def)
    show "s \<le> current_term ?n" if "held h s i m" for s m using ret [OF that] by simp
    show "retained h s m (log ?n) (current_term ?n)" if "held h s i m" for s m using ret [OF that] by simp
    show "commit_ok M h (current_term ?n) (log ?n) (commit_index ?n)"
      using commit_ok_append [OF commit_ok_extends [OF ext node_inv_commit [OF inv] order_refl]] by simp
    show "msg_inv M h i p m" if "(p, m) \<in> set (outbox ?n)" for p m
      using msg_inv_extends [OF ext] node_invD(7) [OF inv] that by simp
    show "m = 0 \<or> (\<exists>m' \<ge> m. (current_term ?n, p, m') \<in> acks h)" if "match_index ?n p = Some m" for p m
      using node_inv_leader(3) [OF inv r, of p m] that by (simp add: h_def)
  qed (use wf LPh r in \<open>simp_all add: h_def node_invD [OF inv]\<close>)
  with H ext show ?thesis by blast
qed

lemma evolves_propose:
  assumes hist: "hist_inv M g" and inv: "node_inv M g i n"
  shows "\<exists>res n'. raft_propose cmd n = Some (res, n') \<and> evolves M i g (Some n')"
proof (cases "role n = Leader")
  case False
  then show ?thesis using evolves_same [OF hist inv] by (simp add: raft_propose_def)
next
  case True
  let ?e = "\<lparr>e_term = current_term n, e_index = length (log n) + 1, e_cmd = cmd\<rparr>"
  obtain h where h: "hist_inv M h" "extends i g h" "node_inv M h i (n\<lparr>log := log n @ [?e]\<rparr>)"
    using propose_inv [OF hist inv True, of ?e] by auto
  have "evolves M i h (broadcast_append (n\<lparr>log := log n @ [?e]\<rparr>))"
    using evolves_broadcast [OF h(1,3)] True by simp
  then obtain n2 h2 where b: "broadcast_append (n\<lparr>log := log n @ [?e]\<rparr>) = Some n2"
    and h2: "hist_inv M h2" "extends i h h2" "node_inv M h2 i n2" unfolding evolves_def by blast
  have r2: "role n2 = Leader"
  proof -
    have "log_idx (log (n\<lparr>log := log n @ [?e]\<rparr>))" "next_ok (n\<lparr>log := log n @ [?e]\<rparr>)"
      using node_inv_wf [OF h(3)] True by (auto simp: node_wf_def)
    from broadcast_append_ok [OF this] b True show ?thesis by auto
  qed
  have "evolves M i h2 (if peers n2 = [] then advance_commit n2 else Some n2)"
    using evolves_advance_commit [OF h2(1,3) r2] evolves_same [OF h2(1,3)] by simp
  then obtain n3 where n3: "(if peers n2 = [] then advance_commit n2 else Some n2) = Some n3"
    and ev: "evolves M i h2 (Some n3)" unfolding evolves_def by blast
  have "raft_propose cmd n = Some (Inr (length (log n) + 1), n3)"
    using True b n3 by (simp add: raft_propose_def Let_def)
  then show ?thesis using evolves_trans [OF extends_trans [OF h(2) h2(2)] ev] by blast
qed

section \<open>The driver's operations\<close>

lemma evolves_step:
  assumes hist: "hist_inv M g" and inv: "node_inv M g i n" and msg: "msg_inv M g from i m"
  shows "evolves M i g (raft_step clk from m n)"
proof (cases "validate_shape m")
  case False
  have "msg_inv M g i from r" if "malformed_reply from m n = Some r" for r
    using that by (auto simp: malformed_reply_def split: raft_rpc.splits if_splits)
  then show ?thesis
    using False inv node_inv_push [OF inv] unfolding raft_step_def
    by (auto intro!: evolves_same [OF hist] split: option.split)
next
  case True
  then show ?thesis
    using msg evolves_request_vote [OF hist inv] evolves_vote_resp [OF hist inv]
      evolves_append [OF hist inv] evolves_append_resp [OF hist inv]
    by (cases m) (auto simp: raft_step_def simp del: msg_inv.simps)
qed

lemma evolves_tick:
  assumes hist: "hist_inv M g" and inv: "node_inv M g i n"
  shows "evolves M i g (raft_tick clk n)"
  using evolves_same [OF hist inv] evolves_start_election [OF hist inv]
    evolves_broadcast [OF hist, of i "n\<lparr>last_heartbeat_ms := now_ms clk\<rparr>"] inv
  by (cases "role n") (auto simp: raft_tick_def)

lemma remdups_adj_sort_props:
  fixes xs :: "'a :: linorder list"
  shows "distinct (remdups_adj (sort xs))" and "set (remdups_adj (sort xs)) = set xs"
proof -
  have "sorted ys \<Longrightarrow> distinct (remdups_adj ys)" for ys :: "'a list"
    by (induction ys rule: remdups_adj.induct) auto
  then show "distinct (remdups_adj (sort xs))" by simp
qed simp

lemma node_inv_restart:
  assumes inv: "node_inv M g i n"
  shows "node_inv M g i (restart_node clk n)"
proof (rule node_invI)
  show "node_wf (restart_node clk n)"
    using node_inv_wf [OF inv] remdups_adj_sort_props [of "filter (\<lambda>p. p \<noteq> node_id n) (peers n)"]
    by (simp add: node_wf_def restart_node_def raft_new_def)
  show "set (peers (restart_node clk n)) = M - {i}"
    using node_invD(2,3) [OF inv] by (auto simp: restart_node_def raft_new_def)
qed (simp_all add: restart_node_def raft_new_def node_invD [OF inv] node_inv_vote [OF inv]
    node_inv_commit [OF inv] conjunct1 [OF node_inv_held [OF inv]] conjunct2 [OF node_inv_held [OF inv]])

end
