(* ===== verification/Raft_Theorems.thy ===== *)
theory Raft_Theorems
  imports Raft_Safety
begin

text \<open>
  The guarantees of the Raft group: every reachable group has a history that explains it, so no
  operation panics, one leader per term, logs match, leaders are complete, committed prefixes
  agree, and what the hosts apply is one sequence. The last section is about one node's own
  moves: what it never takes back.
\<close>

section \<open>Every reachable group has a history\<close>

definition no_history :: history where
  "no_history = \<lparr>votes = (\<lambda>_ _. None), ldr = (\<lambda>_. None), acks = {}\<rparr>"

lemma cluster_inv_init: "cluster_inv no_history (init_cluster M clks)"
proof -
  have h: "hist_inv (set M) no_history"
    by (simp add: hist_inv_def vote_inv_def leader_inv_def ack_inv_def keep_inv_def no_history_def)
  have "node_inv (set M) no_history i (raft_new (clks i) i M)" if "i \<in> set M" for i
  proof (rule node_invI)
    show "node_wf (raft_new (clks i) i M)"
      using remdups_adj_sort_props [of "filter (\<lambda>p. p \<noteq> i) M"] by (simp add: node_wf_def raft_new_def)
    show "set (peers (raft_new (clks i) i M)) = set M - {i}" by (auto simp: raft_new_def)
  qed (use that in \<open>auto simp: raft_new_def no_history_def held_def leads_def LP_def commit_ok_def\<close>)
  with h show ?thesis by (simp add: cluster_inv_def init_cluster_def wire_inv_def)
qed

text \<open>A move of member \<open>i\<close> that explains itself keeps the invariant of the whole group.\<close>

lemma cluster_inv_set:
  assumes inv: "cluster_inv g c" and h: "hist_inv (set (members c)) h" "extends i g h"
    "node_inv (set (members c)) h i n"
  shows "cluster_inv h (set_node i n c)"
proof -
  have "node_inv (set (members c)) h j (if j = i then n else nodes c j)" if "j \<in> set (members c)" for j
    using node_inv_extends [OF h(2), of "set (members c)" j "nodes c j"] inv h(3) that
    by (auto simp: cluster_inv_def)
  then show ?thesis
    using inv h wire_inv_extends [OF h(2)] by (auto simp: cluster_inv_def set_node_def)
qed

lemma cluster_inv_evolves:
  assumes "cluster_inv g c" and "evolves (set (members c)) i g r"
  shows "\<exists>n h. r = Some n \<and> cluster_inv h (set_node i n c)"
  using assms(2) cluster_inv_set [OF assms(1)] unfolding evolves_def by blast

lemma cluster_inv_applied [simp]: "cluster_inv g (c\<lparr>applied := a\<rparr>) = cluster_inv g c"
  by (simp add: cluster_inv_def)

lemma cluster_inv_step:
  assumes inv: "cluster_inv g c" and en: "enabled e c"
  shows "\<exists>c' h. cluster_step e c = Some c' \<and> cluster_inv h c'"
proof -
  let ?M = "set (members c)"
  have hist: "hist_inv ?M g" and nd: "\<And>i. i \<in> ?M \<Longrightarrow> node_inv ?M g i (nodes c i)"
    and w: "wire_inv ?M g (wire c)" using inv by (auto simp: cluster_inv_def)
  note ev = cluster_inv_evolves [OF inv]
  show ?thesis
  proof (cases e)
    case (Tick i clk)
    then show ?thesis using ev [OF evolves_tick [OF hist nd]] en by fastforce
  next
    case (Deliver i j m clk)
    then have "msg_inv ?M g i j m" using w en by (auto simp: wire_inv_def)
    then show ?thesis using ev [OF evolves_step [OF hist nd]] Deliver en by fastforce
  next
    case (Propose i cmd)
    then obtain res n where "raft_propose cmd (nodes c i) = Some (res, n)" "evolves ?M i g (Some n)"
      using evolves_propose [OF hist nd] en by fastforce
    then show ?thesis using ev [of i "Some n"] Propose by fastforce
  next
    case (Send i)
    let ?c = "set_node i ((nodes c i)\<lparr>outbox := []\<rparr>) c"
      and ?w = "map (\<lambda>(p, m). (i, p, m)) (outbox (nodes c i))"
    have i: "i \<in> ?M" using Send en by simp
    have "wire_inv ?M g (wire c @ ?w)"
      using w i node_invD(7) [OF nd [OF i]] by (auto simp: wire_inv_def)
    moreover have "cluster_inv g ?c"
      using cluster_inv_set [OF inv hist extends_refl node_inv_clear_outbox [OF nd [OF i]]] .
    ultimately have "cluster_inv g (?c\<lparr>wire := wire c @ ?w\<rparr>)"
      by (simp add: cluster_inv_def set_node_def)
    then show ?thesis using Send by (auto simp: raft_outbox_def)
  next
    case (Apply i)
    have "cluster_inv g (set_node i (snd (raft_committed (nodes c i))) c)"
      using cluster_inv_set [OF inv hist extends_refl] nd Apply en by (simp add: raft_committed_def)
    then show ?thesis using Apply by (auto simp: raft_committed_def)
  next
    case (Restart i clk)
    have "cluster_inv g (set_node i (restart_node clk (nodes c i)) c)"
      using cluster_inv_set [OF inv hist extends_refl] node_inv_restart [OF nd] Restart en by simp
    then show ?thesis using Restart by auto
  qed
qed

lemma reachable_inv: "reachable c \<Longrightarrow> \<exists>g. cluster_inv g c"
proof (induction rule: reachable.induct)
  case (reach_init M clks)
  show ?case using cluster_inv_init by blast
next
  case (reach_step c e c')
  then show ?case using cluster_inv_step by fastforce
qed

lemma reachable_node:
  assumes "reachable c"
  obtains g where "hist_inv (set (members c)) g"
    and "\<And>i. i \<in> set (members c) \<Longrightarrow> node_inv (set (members c)) g i (nodes c i)"
  using reachable_inv [OF assms] by (auto simp: cluster_inv_def)

lemma reachable_wf: "reachable c \<Longrightarrow> i \<in> set (members c) \<Longrightarrow> node_wf (nodes c i)"
  by (meson reachable_node node_inv_wf)

section \<open>What a node never takes back\<close>

text \<open>
  \<open>advances n n'\<close>: from \<open>n\<close> to \<open>n'\<close> the term and the commit point do not fall, a vote is not
  changed within its term, the committed entries stay, the entries that become committed are
  exactly what is added to the pending ones, and a leader that stays leader only appends.
\<close>

definition advances :: "raft_node \<Rightarrow> raft_node \<Rightarrow> bool" where
  "advances n n' \<longleftrightarrow>
     node_id n' = node_id n \<and> peers n' = peers n \<and> current_term n \<le> current_term n' \<and>
     (current_term n' = current_term n \<longrightarrow> voted_for n \<noteq> None \<longrightarrow> voted_for n' = voted_for n) \<and>
     commit_index n \<le> commit_index n' \<and>
     take (commit_index n) (log n') = take (commit_index n) (log n) \<and>
     pending_apply n' = pending_apply n @ drop (commit_index n) (take (commit_index n') (log n')) \<and>
     (role n = Leader \<longrightarrow> role n' = Leader \<longrightarrow>
        current_term n' = current_term n \<and> prefix (log n) (log n'))"

lemma advances_same:
  assumes "node_id n' = node_id n" "peers n' = peers n" "current_term n' = current_term n"
    "voted_for n' = voted_for n" "commit_index n' = commit_index n" "log n' = log n"
    "pending_apply n' = pending_apply n"
  shows "advances n n'"
  using assms by (simp add: advances_def)

lemma advances_observe: "advances n (observe_term t n)"
  by (auto simp: advances_def observe_term_def)

lemma advances_advance_commit:
  assumes "node_wf n" "role n = Leader" "advance_commit n = Some n'"
  shows "advances n n'"
  using advance_commit_ok [OF assms(1,2)] assms(3)
  by (auto simp: advances_def drop_take)

lemma advances_broadcast:
  assumes "node_wf n" "role n = Leader" "broadcast_append n = Some n'"
  shows "advances n n'"
  using broadcast_append_ok [of n] assms by (auto simp: node_wf_def advances_def)

lemma advances_start_election:
  assumes wf: "node_wf n" and r: "role n \<noteq> Leader" and e: "start_election clk n = Some n'"
  shows "advances n n'"
proof (cases "checked_add (current_term n) 1")
  case None
  then show ?thesis using e by (simp add: start_election_def advances_def)
next
  case (Some t)
  then have t: "current_term n < t" by (auto simp: checked_add_def split: if_splits)
  define n1 where "n1 = n\<lparr>current_term := t,
      timeout_jitter_ms := election_jitter clk (node_id n) t,
      role := Candidate, voted_for := Some (node_id n), leader_hint := None,
      votes_received := [node_id n], last_heartbeat_ms := now_ms clk,
      outbox := outbox n @ map (\<lambda>p. (p, RequestVote t (node_id n)
        (last_log_index n) (last_log_term n))) (peers n)\<rparr>"
  have "(if quorum n1 \<le> length (votes_received n1) then become_leader clk n1 else Some n1) = Some n'"
    using e unfolding start_election_def Some option.case Let_def n1_def by assumption
  moreover have "log_idx (log n1)" using wf by (simp add: n1_def node_wf_def)
  ultimately show ?thesis
    using become_leader_ok [of n1 clk] t r by (auto simp: advances_def n1_def split: if_splits)
qed

lemma advances_vote_resp:
  assumes wf: "node_wf n" and e: "step_vote_resp clk from t granted n = Some n'"
  shows "advances n n'"
proof -
  define n1 where "n1 = (if from \<in> set (votes_received n) then n
      else n\<lparr>votes_received := votes_received n @ [from]\<rparr>)"
  have "log_idx (log n1)" using wf by (simp add: n1_def node_wf_def)
  moreover have "advances n n1" by (auto simp: n1_def intro: advances_same)
  ultimately show ?thesis
    using become_leader_ok [of n1 clk] e advances_observe [of n t] advances_same [of n n]
    unfolding step_vote_resp_def Let_def n1_def [symmetric]
    by (auto simp: advances_def split: if_splits)
qed

lemma advances_request_vote:
  assumes e: "step_request_vote clk from t cand lli llt n = Some n'"
  shows "advances n n'"
  using e by (auto simp: step_request_vote_def advances_def observe_term_def push_out_def Let_def
      split: if_splits)

lemma advances_append:
  assumes wf: "node_wf n" and sh: "validate_shape (AppendEntries t l pli plt es lc)"
    and e: "step_append clk from t l pli plt es lc n = Some n'"
  shows "advances n n'"
proof (cases "from \<noteq> l \<or> from \<notin> set (peers n) \<or> t < current_term n")
  case True
  then show ?thesis
    using e by (auto simp: step_append_def push_out_def advances_def split: if_splits)
next
  case False
  define n1 where "n1 = (observe_term t n)\<lparr>role := Follower, leader_hint := Some l,
      last_heartbeat_ms := now_ms clk\<rparr>"
  have a1: "advances n n1" "role n1 = Follower" "log n1 = log n" "commit_index n1 = commit_index n"
    "last_applied n1 = commit_index n"
    using advances_observe [of n t] wf by (auto simp: n1_def advances_def observe_term_def node_wf_def)
  show ?thesis
  proof (cases "append_plan pli plt es n1")
    case None
    then have "n' = push_out from (AppendEntriesResp (current_term n1) False (last_log_index n1)) n1"
      using e False by (auto simp: step_append_def n1_def [symmetric] Let_def split: if_splits)
    then show ?thesis using a1 by (simp add: advances_def push_out_def)
  next
    case (Some ks)
    obtain keep skip where ks: "ks = (keep, skip)" by (cases ks)
    define L' where "L' = take keep (log n1) @ drop skip es"
    let ?c = "min lc (pli + length es)"
    have idx: "\<forall>j < length es. e_index (es ! j) = pli + j + 1"
      using sh entries_shape_props by auto
    have "L' = log n1 \<and> pli + length es \<le> length (log n1) \<or>
        L' = take pli (log n1) @ es \<and> (\<exists>s. commit_index n1 \<le> s \<and> take s L' = take s (log n1))"
      using append_plan_spec(3) [OF Some [unfolded ks] idx] unfolding L'_def by blast
    then have L: "take (commit_index n) L' = take (commit_index n) (log n)" "pli + length es \<le> length L'"
      using append_plan_spec(1) [OF Some [unfolded ks] idx] a1(3,4)
      by (auto intro: take_eq_mono)
    have "\<exists>n3. n' = push_out from (AppendEntriesResp (current_term n3) True (pli + length es)) n3 \<and>
      (if ?c > commit_index n1 then commit_to ?c (n1\<lparr>log := L'\<rparr>) else Some (n1\<lparr>log := L'\<rparr>)) = Some n3"
      using e False Some ks
      by (auto simp: step_append_def n1_def [symmetric] L'_def Let_def split: option.splits)
    then obtain n3 where
      n3: "n' = push_out from (AppendEntriesResp (current_term n3) True (pli + length es)) n3"
      "(if ?c > commit_index n1 then commit_to ?c (n1\<lparr>log := L'\<rparr>) else Some (n1\<lparr>log := L'\<rparr>)) = Some n3"
      by blast
    show ?thesis
    proof (cases "?c > commit_index n")
      case True
      then have "commit_to ?c (n1\<lparr>log := L'\<rparr>) = Some (n1\<lparr>log := L', commit_index := ?c,
          pending_apply := pending_apply n1 @ take (?c - commit_index n) (drop (commit_index n) L'),
          last_applied := ?c\<rparr>)"
        using a1 L(2) by (simp add: commit_to_def slice_def)
      then have "n3 = n1\<lparr>log := L', commit_index := ?c,
          pending_apply := pending_apply n1 @ take (?c - commit_index n) (drop (commit_index n) L'),
          last_applied := ?c\<rparr>" using n3(2) True a1(4) by simp
      then show ?thesis using a1 L True n3(1) by (simp add: advances_def push_out_def drop_take)
    next
      case c: False
      then have "n3 = n1\<lparr>log := L'\<rparr>" using n3(2) a1(4) by (auto split: if_splits)
      then show ?thesis using a1 L n3(1) by (simp add: advances_def push_out_def)
    qed
  qed
qed

lemma advances_append_resp:
  assumes wf: "node_wf n" and e: "step_append_resp from t success m n = Some n'"
  shows "advances n n'"
proof (cases "from \<notin> set (peers n) \<or> t > current_term n \<or> role n \<noteq> Leader \<or> t \<noteq> current_term n
    \<or> success \<and> m > last_log_index n
    \<or> success \<and> m > (case sent_upper n from of None \<Rightarrow> 0 | Some u \<Rightarrow> u)")
  case True
  then show ?thesis
    using e advances_observe [of n t] advances_same [of n n]
    by (auto simp: step_append_resp_def split: if_splits)
next
  case False
  define ni where "ni = (case next_index n from of None \<Rightarrow> 1 | Some v \<Rightarrow> v)"
  have nok: "next_ok n" using wf False by (simp add: node_wf_def)
  then have ni: "ni \<le> length (log n) + 1" by (auto simp: ni_def next_ok_def split: option.splits)
  show ?thesis
  proof (cases success)
    case True
    let ?n = "n\<lparr>match_index := (match_index n)(from \<mapsto> max (match_of n from) m),
             next_index := (next_index n)(from \<mapsto> max ni (saturating_add m 1))\<rparr>"
    have "m \<le> length (log n)" using False True by (simp add: last_log_index_def)
    then have "node_wf ?n"
      using wf nok ni saturating_add_le [of m 1] by (auto simp: node_wf_def next_ok_def)
    moreover have "advance_commit ?n = Some n'"
      using e False True by (auto simp: step_append_resp_def ni_def)
    ultimately show ?thesis using advances_advance_commit [of ?n n'] False by (simp add: advances_def)
  next
    case fail: False
    define retry where "retry = max (ni - 1) (saturating_add (match_of n from) 1)"
    have "step_append_resp from t success m n = (if ni \<le> retry then Some (n\<lparr>next_index := (next_index n)(from \<mapsto> ni)\<rparr>)
         else send_append from (n\<lparr>next_index := (next_index n)(from \<mapsto> retry)\<rparr>))"
      using False fail by (auto simp: step_append_resp_def ni_def retry_def Let_def)
    note eq = this [unfolded e]
    show ?thesis
    proof (cases "ni \<le> retry")
      case True
      then show ?thesis using eq by (auto intro: advances_same)
    next
      case r: False
      let ?n = "n\<lparr>next_index := (next_index n)(from \<mapsto> retry)\<rparr>"
      have "log_idx (log ?n)" "next_ok ?n" using wf nok ni r by (auto simp: node_wf_def next_ok_def)
      from send_append_ok [OF this, of "from"] obtain su m1 where
        "send_append from ?n = Some (?n\<lparr>sent_upper := su, outbox := outbox ?n @ [(from, m1)]\<rparr>)" by blast
      then show ?thesis using eq r by (auto intro: advances_same)
    qed
  qed
qed

lemma advances_step:
  assumes wf: "node_wf n" and e: "raft_step clk from m n = Some n'"
  shows "advances n n'"
proof (cases "validate_shape m")
  case False
  then show ?thesis
    using e by (auto simp: raft_step_def push_out_def intro!: advances_same split: if_splits option.splits)
next
  case True
  then show ?thesis
    using e advances_request_vote advances_vote_resp [OF wf] advances_append [OF wf]
      advances_append_resp [OF wf]
    by (cases m) (auto simp: raft_step_def simp del: validate_shape.simps)
qed

lemma advances_tick:
  assumes wf: "node_wf n" and e: "raft_tick clk n = Some n'"
  shows "advances n n'"
proof (cases "role n = Leader")
  case True
  then have "node_wf (n\<lparr>last_heartbeat_ms := now_ms clk\<rparr>)" using wf by simp
  from advances_broadcast [OF this] True e show ?thesis
    by (auto simp: raft_tick_def advances_def split: if_splits)
next
  case False
  then show ?thesis
    using e advances_start_election [OF wf False] advances_same [of n n]
    by (cases "role n") (auto simp: raft_tick_def split: if_splits)
qed

lemma advances_propose:
  assumes wf: "node_wf n" and t: "0 < current_term n" and e: "raft_propose cmd n = Some (r, n')"
  shows "advances n n'"
proof (cases "role n = Leader")
  case False
  then show ?thesis using e by (auto simp: raft_propose_def intro: advances_same)
next
  case True
  let ?e = "\<lparr>e_term = current_term n, e_index = length (log n) + 1, e_cmd = cmd\<rparr>"
  let ?n = "n\<lparr>log := log n @ [?e]\<rparr>"
  have k: "node_wf ?n"
    using wf t log_idx_snoc [of "log n" ?e] log_terms_snoc [of "current_term n" "log n" ?e] True
    by (auto simp: node_wf_def next_ok_def intro: le_SucI)
  then obtain su ms where b: "broadcast_append ?n = Some (?n\<lparr>sent_upper := su, outbox := outbox ?n @ ms\<rparr>)"
    using broadcast_append_ok [of ?n] True by (auto simp: node_wf_def)
  let ?n2 = "?n\<lparr>sent_upper := su, outbox := outbox ?n @ ms\<rparr>"
  have wf2: "node_wf ?n2" using k by simp
  have "advances n ?n2" using wf by (simp add: advances_def node_wf_def)
  moreover have "advances ?n2 n'"
    using e True b advances_advance_commit [OF wf2, of n'] advances_same [of ?n2 ?n2]
    by (auto simp: raft_propose_def Let_def split: if_splits option.splits)
  moreover have "role ?n2 = Leader" using True by simp
  ultimately show ?thesis by (auto simp: advances_def dest: append_prefixD)
qed

section \<open>Moves of the group\<close>

lemma reachable_leader_term:
  assumes "reachable c" and "i \<in> set (members c)" and "role (nodes c i) = Leader"
  shows "0 < current_term (nodes c i)"
proof -
  obtain g where g: "hist_inv (set (members c)) g" "node_inv (set (members c)) g i (nodes c i)"
    using reachable_node assms(1,2) by metis
  then have "leads g (current_term (nodes c i)) i" using assms(3) node_inv_leader(1) by blast
  then show ?thesis
    using g(1) leads_votes by (fastforce simp: hist_inv_def vote_inv_def leads_def)
qed

text \<open>The persistent part of a node moves forward, whatever happens to the group.\<close>

definition persists :: "raft_node \<Rightarrow> raft_node \<Rightarrow> bool" where
  "persists n n' \<longleftrightarrow>
     current_term n \<le> current_term n' \<and>
     (current_term n' = current_term n \<longrightarrow> voted_for n \<noteq> None \<longrightarrow> voted_for n' = voted_for n) \<and>
     commit_index n \<le> commit_index n' \<and>
     take (commit_index n) (log n') = take (commit_index n) (log n)"

lemma persists_refl [simp]: "persists n n"
  by (simp add: persists_def)

lemma persists_trans:
  assumes "persists n k" and "persists k m"
  shows "persists n m"
proof -
  have "take (commit_index k) (log m) = take (commit_index k) (log k)" "commit_index n \<le> commit_index k"
    using assms unfolding persists_def by blast+
  then have "take (commit_index n) (log m) = take (commit_index n) (log k)" by (rule take_eq_mono)
  moreover have "voted_for m = voted_for n" if t: "current_term m = current_term n" "voted_for n \<noteq> None"
  proof -
    have "current_term k = current_term n" "current_term m = current_term k"
      using assms t(1) by (auto simp: persists_def)
    then show ?thesis using assms t(2) by (simp add: persists_def)
  qed
  ultimately show ?thesis using assms by (simp add: persists_def)
qed

lemma advances_persists: "advances n n' \<Longrightarrow> persists n n'"
  by (simp add: advances_def persists_def)

lemma propose_advances:
  assumes "reachable c" and "i \<in> set (members c)" and "raft_propose cmd (nodes c i) = Some (r, n')"
  shows "advances (nodes c i) n'"
proof (cases "role (nodes c i) = Leader")
  case True
  then show ?thesis
    using advances_propose reachable_wf reachable_leader_term assms by blast
next
  case False
  then show ?thesis using assms(3) by (auto simp: raft_propose_def intro: advances_same)
qed

text \<open>
  An event moves at most one node; the others and the wire's past stay. \<open>moves\<close> says how.
\<close>

lemma cluster_step_node:
  assumes r: "reachable c" and en: "enabled e c" and st: "cluster_step e c = Some c'"
    and i: "i \<in> set (members c)"
  shows "(advances (nodes c i) (nodes c' i) \<and> applied c' i = applied c i) \<or>
    (nodes c' i = (nodes c i)\<lparr>pending_apply := []\<rparr> \<and>
       applied c' i = applied c i @ pending_apply (nodes c i)) \<or>
    (\<exists>clk. nodes c' i = restart_node clk (nodes c i) \<and> applied c' i = [])"
proof -
  have wf: "node_wf (nodes c j)" if "j \<in> set (members c)" for j using reachable_wf [OF r that] .
  have adv: ?thesis if "advances (nodes c j) n" "c' = set_node j n c" for j n
    using that advances_same [of "nodes c i" "nodes c i"] by (cases "i = j") (auto simp: set_node_def)
  show ?thesis
  proof (cases e)
    case (Tick j clk)
    then show ?thesis using st en advances_tick [OF wf] adv by fastforce
  next
    case (Deliver j k m clk)
    then show ?thesis using st en advances_step [OF wf] adv by fastforce
  next
    case (Propose j cmd)
    then show ?thesis using st en propose_advances [OF r] adv by fastforce
  next
    case (Send j)
    have "advances (nodes c i) (nodes c i)" "advances (nodes c i) ((nodes c i)\<lparr>outbox := []\<rparr>)"
      by (auto intro: advances_same)
    then show ?thesis using st Send by (cases "i = j") (auto simp: set_node_def raft_outbox_def)
  next
    case (Apply j)
    then show ?thesis
      using st advances_same [of "nodes c i" "nodes c i"] by (auto simp: set_node_def raft_committed_def)
  next
    case (Restart j clk)
    then show ?thesis
      using st advances_same [of "nodes c i" "nodes c i"] by (cases "i = j") (auto simp: set_node_def)
  qed
qed

lemma step_persists:
  assumes "reachable c" and "enabled e c" and "cluster_step e c = Some c'" and "i \<in> set (members c)"
  shows "persists (nodes c i) (nodes c' i)"
  using cluster_step_node [OF assms] advances_persists
  by (auto simp: persists_def restart_node_def raft_new_def)

lemma run_persists:
  "reachable c \<Longrightarrow> run es c = Some c' \<Longrightarrow> i \<in> set (members c) \<Longrightarrow> persists (nodes c i) (nodes c' i)"
proof (induction es arbitrary: c)
  case (Cons e es)
  then obtain d where d: "enabled e c" "cluster_step e c = Some d" "run es d = Some c'"
    by (auto split: if_splits option.splits)
  have "persists (nodes d i) (nodes c' i)"
    using Cons.IH [OF reach_step [OF Cons.prems(1) d(1,2)] d(3)] Cons.prems(3)
      cluster_step_members [OF d(2)] by simp
  then show ?case using persists_trans step_persists [OF Cons.prems(1) d(1,2) Cons.prems(3)] by blast
qed simp

definition applied_inv :: "cluster \<Rightarrow> node_name \<Rightarrow> bool" where
  "applied_inv c i \<longleftrightarrow>
     applied c i @ pending_apply (nodes c i) = take (commit_index (nodes c i)) (log (nodes c i))"

lemma applied_inv_step:
  assumes "reachable c" and "enabled e c" and "cluster_step e c = Some c'" and "i \<in> set (members c)"
    and inv: "applied_inv c i"
  shows "applied_inv c' i"
  using cluster_step_node [OF assms(1-4)]
proof (elim disjE)
  assume a: "advances (nodes c i) (nodes c' i) \<and> applied c' i = applied c i"
  let ?c = "commit_index (nodes c i)" and ?L = "take (commit_index (nodes c' i)) (log (nodes c' i))"
  have le: "?c \<le> commit_index (nodes c' i)"
    and tk: "take ?c (log (nodes c' i)) = take ?c (log (nodes c i))"
    and pd: "pending_apply (nodes c' i) = pending_apply (nodes c i) @ drop ?c ?L"
    using a by (auto simp: advances_def)
  have "take ?c ?L = take ?c (log (nodes c i))" using le tk by (simp add: min_def)
  then have "applied c i @ pending_apply (nodes c i) = take ?c ?L" using inv by (simp add: applied_inv_def)
  then have "applied c' i @ pending_apply (nodes c' i) = take ?c ?L @ drop ?c ?L"
    using a pd by (metis append.assoc)
  then show ?thesis by (simp only: applied_inv_def append_take_drop_id)
qed (use inv in \<open>auto simp: applied_inv_def restart_node_def raft_new_def\<close>)

lemma reachable_applied: "reachable c \<Longrightarrow> i \<in> set (members c) \<Longrightarrow> applied_inv c i"
proof (induction rule: reachable.induct)
  case (reach_init M clks)
  then show ?case by (simp add: init_cluster_def applied_inv_def raft_new_def)
next
  case (reach_step c e c')
  then show ?case using applied_inv_step cluster_step_members by metis
qed

section \<open>The guarantees\<close>

lemma reachable_commit_agree:
  assumes "reachable c" and "i \<in> set (members c)" and "j \<in> set (members c)"
    and "k \<le> commit_index (nodes c i)" and "k \<le> commit_index (nodes c j)"
  shows "take k (log (nodes c i)) = take k (log (nodes c j))"
proof -
  obtain g where g: "hist_inv (set (members c)) g"
    and n: "\<And>i. i \<in> set (members c) \<Longrightarrow> node_inv (set (members c)) g i (nodes c i)"
    using reachable_node [OF assms(1)] by blast
  then show ?thesis
    using commit_agree [OF g node_inv_commit [OF n] node_inv_commit [OF n]] assms by blast
qed

lemma demo_reachable: "run es demo_init = Some c \<Longrightarrow> reachable c"
  using run_reachable reach_init unfolding demo_init_def by blast

lemma demo_run:
  "\<exists>c. run (demo_election @ demo_commit) demo_init = Some c \<and> members c = [''a'', ''b'', ''c''] \<and>
     role (nodes c ''a'') = Leader \<and> current_term (nodes c ''a'') = 1 \<and>
     current_term (nodes c ''b'') = 1 \<and> current_term (nodes c ''c'') = 0 \<and>
     log (nodes c ''a'') = [demo_entry] \<and> log (nodes c ''b'') = [demo_entry] \<and>
     commit_index (nodes c ''a'') = 1 \<and> commit_index (nodes c ''b'') = 1 \<and>
     applied c ''a'' = [demo_entry] \<and> applied c ''b'' = [demo_entry] \<and> applied c ''c'' = []"
proof -
  have "case run (demo_election @ demo_commit) demo_init of None \<Rightarrow> False
    | Some c \<Rightarrow> members c = [''a'', ''b'', ''c''] \<and>
     role (nodes c ''a'') = Leader \<and> current_term (nodes c ''a'') = 1 \<and>
     current_term (nodes c ''b'') = 1 \<and> current_term (nodes c ''c'') = 0 \<and>
     log (nodes c ''a'') = [demo_entry] \<and> log (nodes c ''b'') = [demo_entry] \<and>
     commit_index (nodes c ''a'') = 1 \<and> commit_index (nodes c ''b'') = 1 \<and>
     applied c ''a'' = [demo_entry] \<and> applied c ''b'' = [demo_entry] \<and> applied c ''c'' = []"
    by code_simp
  then show ?thesis by (auto split: option.splits)
qed

text \<open>
  C1. State machine safety. In every reachable group, under any interleaving of ticks,
  deliveries, lost and duplicated messages, proposals and restarts, the committed prefixes of any
  two members agree entry by entry.
\<close>

theorem state_machine_safety:
  assumes "reachable c" and "i \<in> set (members c)" and "j \<in> set (members c)"
    and "k \<le> commit_index (nodes c i)" and "k \<le> commit_index (nodes c j)"
  shows "take k (log (nodes c i)) = take k (log (nodes c j)) \<and> k \<le> length (log (nodes c i))"
  using reachable_commit_agree [OF assms] reachable_wf [OF assms(1,2)] assms(4)
  by (simp add: node_wf_def)

theorem state_machine_safety_witness:
  "\<exists>c. run (demo_election @ demo_commit) demo_init = Some c \<and> commit_index (nodes c ''a'') = 1 \<and>
     commit_index (nodes c ''b'') = 1 \<and>
     take 1 (log (nodes c ''a'')) = take 1 (log (nodes c ''b'')) \<and> 1 \<le> length (log (nodes c ''a''))"
proof -
  obtain c where c: "run (demo_election @ demo_commit) demo_init = Some c"
    "members c = [''a'', ''b'', ''c'']" "commit_index (nodes c ''a'') = 1"
    "commit_index (nodes c ''b'') = 1" using demo_run by auto
  then show ?thesis
    using state_machine_safety [OF demo_reachable [OF c(1)], of "''a''" "''b''" 1] by auto
qed

lemma applied_comparable:
  assumes "reachable c" and "i \<in> set (members c)" and "j \<in> set (members c)"
  shows "prefix (applied c i) (applied c j) \<or> prefix (applied c j) (applied c i)"
proof -
  let ?ci = "commit_index (nodes c i)" and ?cj = "commit_index (nodes c j)"
  let ?Li = "take ?ci (log (nodes c i))" and ?Lj = "take ?cj (log (nodes c j))"
  have p: "prefix (applied c i) ?Li" "prefix (applied c j) ?Lj"
    using reachable_applied [OF assms(1)] assms(2,3) unfolding applied_inv_def by (metis prefixI)+
  have "take (min ?ci ?cj) (log (nodes c i)) = take (min ?ci ?cj) (log (nodes c j))"
    by (rule reachable_commit_agree [OF assms]) simp_all
  then have "prefix ?Li ?Lj \<or> prefix ?Lj ?Li"
    by (rule prefix_take_common)
  then show ?thesis using p prefix_order.trans prefix_same_cases by metis
qed

text \<open>What a replicated service relies on: the members deliver prefixes of one sequence.\<close>

locale total_order =
  fixes delivered :: "'c \<Rightarrow> 'n \<Rightarrow> 'e list" and live :: "'c \<Rightarrow> 'n \<Rightarrow> bool"
  assumes comparable:
    "live c i \<Longrightarrow> live c j \<Longrightarrow> prefix (delivered c i) (delivered c j) \<or> prefix (delivered c j) (delivered c i)"
begin

lemma same_length_same_state:
  assumes "live c i" and "live c j" and "length (delivered c i) = length (delivered c j)"
  shows "fold f (delivered c i) s = fold f (delivered c j) s"
  using comparable [OF assms(1,2)] assms(3) prefix_length_eq by metis

lemma catch_up:
  assumes "live c i" and "live c j" and "length (delivered c i) \<le> length (delivered c j)"
  shows "\<exists>rest. delivered c j = delivered c i @ rest \<and> fold f (delivered c j) s = fold f rest (fold f (delivered c i) s)"
proof -
  have "prefix (delivered c i) (delivered c j)"
    using comparable [OF assms(1,2)] assms(3) prefix_length_eq prefix_length_le by (metis le_antisym prefix_order.eq_refl)
  then show ?thesis by (auto simp: prefix_def)
qed

end

interpretation raft: total_order applied "\<lambda>c i. reachable c \<and> i \<in> set (members c)"
  by unfold_locales (use applied_comparable in blast)

text \<open>
  What the hosts apply is one sequence. For any two members, the entries applied so far by
  one are a prefix of those applied by the other.
\<close>

theorem applied_one_sequence:
  assumes "reachable c" and "i \<in> set (members c)" and "j \<in> set (members c)"
  shows "prefix (applied c i) (applied c j) \<or> prefix (applied c j) (applied c i)"
  using applied_comparable [OF assms] .

text \<open>
  No operation of a reachable group panics: every enabled event has a successor. In the model
  an out-of-range slice or index of the log is \<^term>\<open>None\<close>.
\<close>

theorem no_panic:
  assumes "reachable c" and "enabled e c"
  shows "\<exists>c'. cluster_step e c = Some c'"
  using reachable_inv [OF assms(1)] cluster_inv_step [OF _ assms(2)] by blast

text \<open>C4. Election safety: a term has at most one leader.\<close>

theorem election_safety:
  assumes "reachable c" and "i \<in> set (members c)" and "j \<in> set (members c)"
    and "role (nodes c i) = Leader" and "role (nodes c j) = Leader"
    and "current_term (nodes c i) = current_term (nodes c j)"
  shows "i = j"
proof -
  obtain g where g: "hist_inv (set (members c)) g"
    and n: "\<And>i. i \<in> set (members c) \<Longrightarrow> node_inv (set (members c)) g i (nodes c i)"
    using reachable_node [OF assms(1)] by blast
  have "leads g (current_term (nodes c i)) i" "leads g (current_term (nodes c j)) j"
    using node_inv_leader(1) [OF n [OF assms(2)] assms(4)] node_inv_leader(1) [OF n [OF assms(3)] assms(5)] .
  then show ?thesis unfolding leads_def assms(6) by (elim exE) simp
qed

theorem election_safety_witness:
  "\<exists>c. run (demo_election @ demo_commit) demo_init = Some c \<and> role (nodes c ''a'') = Leader \<and>
     (\<forall>j \<in> {''a'', ''b'', ''c''}. role (nodes c j) = Leader \<longrightarrow> current_term (nodes c j) = 1 \<longrightarrow> ''a'' = j)"
proof -
  obtain c where c: "run (demo_election @ demo_commit) demo_init = Some c"
    "members c = [''a'', ''b'', ''c'']" "role (nodes c ''a'') = Leader" "current_term (nodes c ''a'') = 1"
    using demo_run by auto
  have "\<forall>j \<in> {''a'', ''b'', ''c''}. role (nodes c j) = Leader \<longrightarrow> current_term (nodes c j) = 1 \<longrightarrow> ''a'' = j"
    using election_safety [OF demo_reachable [OF c(1)], of "''a''"] c(2-) by auto
  with c show ?thesis by blast
qed

text \<open>
  C5. Leader completeness: a leader's log holds everything that any member whose term is not
  ahead of the leader's has committed.
\<close>

theorem leader_holds_committed:
  assumes "reachable c" and "i \<in> set (members c)" and "j \<in> set (members c)"
    and "role (nodes c i) = Leader" and "current_term (nodes c j) \<le> current_term (nodes c i)"
  shows "prefix (take (commit_index (nodes c j)) (log (nodes c j))) (log (nodes c i))"
proof -
  let ?M = "set (members c)" and ?cj = "commit_index (nodes c j)"
  obtain g where g: "hist_inv ?M g" and n: "\<And>i. i \<in> ?M \<Longrightarrow> node_inv ?M g i (nodes c i)"
    using reachable_node [OF assms(1)] by blast
  note ni = n [OF assms(2)] and nj = n [OF assms(3)]
  show ?thesis
  proof (cases "?cj = 0")
    case False
    then obtain t k where c: "t \<le> current_term (nodes c j)" "committed ?M g t k" "?cj \<le> k"
      "take ?cj (log (nodes c j)) = take ?cj (llog g t)"
      using node_inv_commit [OF nj] by (auto simp: commit_ok_def)
    have "take k (log (nodes c i)) = take k (llog g t)"
      using committed_in_leader [OF g c(2), of "current_term (nodes c i)"] node_inv_leader(1,2) [OF ni assms(4)]
        c(1) assms(5) by (auto simp: leads_def)
    then have "take ?cj (log (nodes c j)) = take ?cj (log (nodes c i))"
      using c(3,4) take_eq_mono by metis
    then show ?thesis by (simp add: take_is_prefix)
  qed simp
qed

theorem leader_holds_committed_witness:
  "\<exists>c. run (demo_election @ demo_commit) demo_init = Some c \<and> role (nodes c ''a'') = Leader \<and>
     prefix (take (commit_index (nodes c ''b'')) (log (nodes c ''b''))) (log (nodes c ''a''))"
proof -
  obtain c where c: "run (demo_election @ demo_commit) demo_init = Some c"
    "members c = [''a'', ''b'', ''c'']" "role (nodes c ''a'') = Leader"
    "current_term (nodes c ''a'') = 1" "current_term (nodes c ''b'') = 1" using demo_run by auto
  then show ?thesis
    using leader_holds_committed [OF demo_reachable [OF c(1)], of "''a''" "''b''"] by auto
qed

text \<open>
  C6. Log matching: two logs of a reachable group that have an entry of the same term at one
  position are equal up to that position.
\<close>

theorem log_matching:
  assumes "reachable c" and "i \<in> set (members c)" and "j \<in> set (members c)"
    and "k < length (log (nodes c i))" and "k < length (log (nodes c j))"
    and "e_term (log (nodes c i) ! k) = e_term (log (nodes c j) ! k)"
  shows "take (Suc k) (log (nodes c i)) = take (Suc k) (log (nodes c j))"
proof -
  obtain g where g: "hist_inv (set (members c)) g"
    and n: "\<And>i. i \<in> set (members c) \<Longrightarrow> node_inv (set (members c)) g i (nodes c i)"
    using reachable_node [OF assms(1)] by blast
  show ?thesis using LP_matching [OF node_invD(6) [OF n] node_invD(6) [OF n]] assms by blast
qed

theorem log_matching_witness:
  "\<exists>c. run (demo_election @ demo_commit) demo_init = Some c \<and>
     log (nodes c ''a'') = [demo_entry] \<and> log (nodes c ''b'') = [demo_entry] \<and>
     take (Suc 0) (log (nodes c ''a'')) = take (Suc 0) (log (nodes c ''b''))"
proof -
  obtain c where c: "run (demo_election @ demo_commit) demo_init = Some c"
    "members c = [''a'', ''b'', ''c'']" "log (nodes c ''a'') = [demo_entry]"
    "log (nodes c ''b'') = [demo_entry]" using demo_run by auto
  then show ?thesis
    using log_matching [OF demo_reachable [OF c(1)], of "''a''" "''b''" 0] by auto
qed

text \<open>
  C7. What a member has persisted is never taken back, over any further run of the group with any
  number of crashes: its term does not fall, a vote is not changed within its term, the commit
  point does not fall and the committed entries stay as they are.
\<close>

theorem run_keeps_committed:
  assumes "reachable c" and "run es c = Some c'" and "i \<in> set (members c)"
  shows "current_term (nodes c i) \<le> current_term (nodes c' i) \<and>
     (current_term (nodes c' i) = current_term (nodes c i) \<longrightarrow> voted_for (nodes c i) \<noteq> None \<longrightarrow>
        voted_for (nodes c' i) = voted_for (nodes c i)) \<and>
     commit_index (nodes c i) \<le> commit_index (nodes c' i) \<and>
     take (commit_index (nodes c i)) (log (nodes c' i)) = take (commit_index (nodes c i)) (log (nodes c i))"
  using run_persists [OF assms] unfolding persists_def .

theorem run_keeps_committed_witness:
  "\<exists>c c'. run (demo_election @ demo_commit) demo_init = Some c \<and>
     run [Restart ''b'' (demo_clock 5000)] c = Some c' \<and> commit_index (nodes c ''b'') = 1 \<and>
     take 1 (log (nodes c' ''b'')) = take 1 (log (nodes c ''b''))"
proof -
  obtain c where c: "run (demo_election @ demo_commit) demo_init = Some c"
    "members c = [''a'', ''b'', ''c'']" "commit_index (nodes c ''b'') = 1" using demo_run by auto
  obtain c' where "run [Restart ''b'' (demo_clock 5000)] c = Some c'" using c(2) by auto
  then show ?thesis
    using run_keeps_committed [OF demo_reachable [OF c(1)], of "[Restart ''b'' (demo_clock 5000)]" c' "''b''"]
      c by (intro exI [of _ c] exI [of _ c']) (simp del: run.simps)
qed

text \<open>
  A leader is append-only: while a member stays leader, its term does not move and its log
  only grows at the end.
\<close>

theorem leader_append_only:
  assumes "reachable c" and "enabled e c" and "cluster_step e c = Some c'" and "i \<in> set (members c)"
    and "role (nodes c i) = Leader" and "role (nodes c' i) = Leader"
  shows "current_term (nodes c' i) = current_term (nodes c i) \<and> prefix (log (nodes c i)) (log (nodes c' i))"
  using cluster_step_node [OF assms(1-4)] assms(5,6)
  by (auto simp: advances_def restart_node_def raft_new_def)

end
