(* ===== verification/Raft_Rules.thy ===== *)
theory Raft_Rules
  imports Raft_Theorems
begin

text \<open>
  The rules of one node, branch by branch: what an accepted append leaves, that its defensive
  refusals never fire in a reachable group, what moves the commit point, how an election starts,
  what a malformed RPC may do, and the bound on a replication batch.
\<close>

section \<open>The append rule of the paper\<close>

text \<open>
  The rule as the Raft paper states it, for the section of a log that starts where the request's
  entries go: keep what agrees, drop the first entry of another term and all that follow it, and
  append what is missing.
\<close>

fun merge_log :: "entries \<Rightarrow> entries \<Rightarrow> entries" where
  "merge_log xs [] = xs"
| "merge_log [] es = es"
| "merge_log (x # xs) (e # es) =
     (if e_term x = e_term e then x # merge_log xs es else e # es)"

lemma merge_log_present: "take (length es) xs = es \<Longrightarrow> merge_log xs es = xs"
  by (induction xs es rule: merge_log.induct) auto

lemma merge_log_diverge:
  "take j xs = take j es \<Longrightarrow> j < length es \<Longrightarrow>
   length xs \<le> j \<or> e_term (xs ! j) \<noteq> e_term (es ! j) \<Longrightarrow> merge_log xs es = es"
proof (induction xs es arbitrary: j rule: merge_log.induct)
  case (3 x xs e es)
  show ?case
  proof (cases j)
    case 0
    then show ?thesis using 3 by simp
  next
    case (Suc i)
    then have "x = e" "take i xs = take i es" "i < length es"
      "length xs \<le> i \<or> e_term (xs ! i) \<noteq> e_term (es ! i)" using "3.prems" by auto
    then show ?thesis using "3.IH" by simp
  qed
qed auto

lemma take_append_eq: "take (b + k) L = take b L @ es \<Longrightarrow> length es = k \<Longrightarrow> b \<le> length L \<Longrightarrow>
    take k (drop b L) = es"
  by (metis append_eq_conv_conj append_take_drop_id length_take min.absorb2 take_add)

text \<open>
  C9. The one-pass plan of an append request computes the paper's rule: whenever the plan accepts,
  the log it leaves is the agreed prefix followed by the merge of the rest with the entries.
\<close>

theorem append_plan_is_merge:
  assumes "append_plan pli plt es n = Some (keep, skip)" and "entries_shape t pli plt es"
  shows "take keep (log n) @ drop skip es = take pli (log n) @ merge_log (drop pli (log n)) es"
proof -
  have idx: "\<forall>j < length es. e_index (es ! j) = pli + j + 1"
    using entries_shape_props [OF assms(2)] by simp
  define L' where "L' = take keep (log n) @ drop skip es"
  note sp = append_plan_spec [OF assms(1) idx, folded L'_def]
  from sp(3) consider
      "L' = log n" "take (pli + length es) (log n) = take pli (log n) @ es"
    | s where "L' = take pli (log n) @ es" "pli \<le> s" "s < pli + length es"
      "take s L' = take s (log n)" "length (log n) \<le> s \<or> e_term (log n ! s) \<noteq> e_term (L' ! s)"
    by blast
  then show ?thesis
  proof cases
    case 1
    then have "merge_log (drop pli (log n)) es = drop pli (log n)"
      using merge_log_present take_append_eq [OF 1(2) refl sp(1)] by metis
    then show ?thesis using 1(1) by (simp add: L'_def)
  next
    case 2
    let ?j = "s - pli" and ?D = "drop pli (log n)"
    have "drop pli (take s L') = drop pli (take s (log n))" using 2(4) by simp
    then have "take ?j ?D = take ?j es" using 2(1,2) sp(1) by (simp add: drop_take)
    moreover have "length ?D \<le> ?j \<or> e_term (?D ! ?j) \<noteq> e_term (es ! ?j)"
      using 2 sp(1) by (auto simp: nth_append)
    ultimately have "merge_log ?D es = es" using merge_log_diverge [of ?j ?D es] 2(2,3) by simp
    then show ?thesis using 2(1) by (simp add: L'_def)
  qed
qed

theorem append_plan_is_merge_witness:
  "append_plan 1 1 [\<lparr>e_term = 2, e_index = 2, e_cmd = []\<rparr>]
      ((raft_new (demo_clock 0) ''b'' [''a''])\<lparr>log := [demo_entry, \<lparr>e_term = 1, e_index = 2, e_cmd = [8]\<rparr>]\<rparr>)
     = Some (1, 0) \<and>
   take 1 [demo_entry, \<lparr>e_term = 1, e_index = 2, e_cmd = [8]\<rparr>] @ drop 0 [\<lparr>e_term = 2, e_index = 2, e_cmd = []\<rparr>]
     = take 1 [demo_entry, \<lparr>e_term = 1, e_index = 2, e_cmd = [8]\<rparr>] @
       merge_log (drop 1 [demo_entry, \<lparr>e_term = 1, e_index = 2, e_cmd = [8]\<rparr>])
         [\<lparr>e_term = 2, e_index = 2, e_cmd = []\<rparr>]"
proof -
  let ?n = "(raft_new (demo_clock 0) ''b'' [''a''])\<lparr>log := [demo_entry, \<lparr>e_term = 1, e_index = 2, e_cmd = [8]\<rparr>]\<rparr>"
  let ?es = "[\<lparr>e_term = 2, e_index = 2, e_cmd = []\<rparr>] :: entries"
  have a: "append_plan 1 1 ?es ?n = Some (1, 0)" by code_simp
  have "entries_shape 2 1 1 ?es" by code_simp
  with a show ?thesis using append_plan_is_merge [OF a] by simp
qed

section \<open>The defensive refusals never fire\<close>

lemma append_scan_total:
  assumes "\<And>j. j < length es \<Longrightarrow> e_index (es ! j) = b + j + 1"
    and "\<And>j. j < length es \<Longrightarrow> b + j < length lg \<Longrightarrow> e_term (lg ! (b + j)) = e_term (es ! j) \<Longrightarrow>
      lg ! (b + j) = es ! j"
    and "\<And>j. j < length es \<Longrightarrow> b + j < c \<Longrightarrow> get_at lg (b + j) = Some (es ! j)"
  shows "append_scan lg c ch off es \<noteq> None"
  using assms
proof (induction es arbitrary: b ch off)
  case (Cons e es)
  have e: "e_index e = b + 1" using Cons.prems(1) [of 0] by simp
  have 1: "b < length lg \<longrightarrow> e_term (lg ! b) = e_term e \<longrightarrow> lg ! b = e" "b < c \<longrightarrow> get_at lg b = Some e"
    using Cons.prems(2,3) [of 0] by auto
  have ih: "append_scan lg c ch off es \<noteq> None" for ch off
    using Cons.prems(1-3) [of "Suc j" for j] by (intro Cons.IH [of "Suc b"]) auto
  have "\<not> ((case get_at lg b of None \<Rightarrow> False | Some o1 \<Rightarrow> e_term o1 = e_term e \<and> o1 \<noteq> e)
             \<or> (e_index e \<le> c \<and> get_at lg b \<noteq> Some e))"
    using 1 e by (auto simp: get_at_def)
  then show ?case using ih e by (simp add: checked_sub_def Let_def)
qed simp

text \<open>
  What the leader of term \<open>t\<close> may send and a member whose term is not ahead: no entry clashes with
  the member's log, and none is missing below its commit point.
\<close>

lemma leader_entries_fit:
  assumes hist: "hist_inv M g" and inv: "node_inv M g j n" and ld: "ldr g t \<noteq> None"
    and t: "current_term n \<le> t" and k: "k < length (llog g t)"
  shows "k < length (log n) \<Longrightarrow> e_term (log n ! k) = e_term (llog g t ! k) \<Longrightarrow> log n ! k = llog g t ! k"
    and "k < commit_index n \<Longrightarrow> get_at (log n) k = Some (llog g t ! k)"
proof -
  have "LP g (llog g t)" using hist ld by (auto simp: hist_inv_def leader_inv_def llog_def)
  note m = LP_matching [OF node_invD(6) [OF inv] this]
  show "k < length (log n) \<Longrightarrow> e_term (log n ! k) = e_term (llog g t ! k) \<Longrightarrow> log n ! k = llog g t ! k"
    using m k by (metis lessI nth_take)
  show "get_at (log n) k = Some (llog g t ! k)" if c: "k < commit_index n"
  proof -
    let ?c = "commit_index n"
    obtain s i where s: "s \<le> current_term n" "committed M g s i" "?c \<le> i" "?c \<le> length (log n)"
      "take ?c (log n) = take ?c (llog g s)"
      using node_inv_commit [OF inv] c by (auto simp: commit_ok_def)
    have "take i (llog g t) = take i (llog g s)" using committed_in_leader [OF hist s(2) _ ld] s(1) t by simp
    then have "take ?c (llog g t) = take ?c (log n)" using s(3,5) take_eq_mono by metis
    then have "log n ! k = llog g t ! k" using c by (metis nth_take)
    then show ?thesis using c s(4) by (simp add: get_at_def)
  qed
qed

text \<open>
  In a reachable group an append request of a leader that is not behind is refused for one
  reason only, that the log has no entry of the announced term at the announced position: the
  checks against a second command for one position and against replacing a committed entry are
  defensive and never fire.
\<close>

lemma append_refused_only_on_mismatch:
  assumes "reachable c" and "(i, j, AppendEntries t l pli plt es lc) \<in> set (wire c)"
    and "j \<in> set (members c)" and "current_term (nodes c j) \<le> t"
    and "validate_shape (AppendEntries t l pli plt es lc)"
  shows "(append_plan pli plt es (nodes c j) = None) =
     (0 < pli \<and> (length (log (nodes c j)) < pli \<or> e_term (log (nodes c j) ! (pli - 1)) \<noteq> plt))"
proof -
  let ?M = "set (members c)" and ?n = "nodes c j"
  obtain g where g: "cluster_inv g c" using reachable_inv [OF assms(1)] by blast
  then have hist: "hist_inv ?M g" and inv: "node_inv ?M g j ?n"
    and msg: "msg_inv ?M g i j (AppendEntries t l pli plt es lc)"
    using assms(2,3) by (auto simp: cluster_inv_def wire_inv_def)
  have ld: "ldr g t \<noteq> None" and len: "pli + length es \<le> length (llog g t)"
    and es: "es = take (length es) (drop pli (llog g t))" using msg by (auto simp: leads_def)
  have idx: "\<forall>j < length es. e_index (es ! j) = pli + j + 1"
    using assms(5) entries_shape_props [of t pli plt es] by simp
  have nth: "es ! k = llog g t ! (pli + k)" if "k < length es" for k
    using that len by (subst es) simp
  note fit = leader_entries_fit [OF hist inv ld assms(4)]
  have "append_scan (log ?n) (commit_index ?n) None 0 es \<noteq> None"
    by (rule append_scan_total [of es pli]) (use idx fit nth len in auto)
  then show ?thesis by (auto simp: append_plan_def get_at_def split: option.splits)
qed

end
