(* ===== verification/Raft_Storage.thy ===== *)
theory Raft_Storage
  imports Raft_Cluster
begin

text \<open>
  The durable host of \<^verbatim>\<open>crates/parrot-remote/src/raft/storage.rs\<close>: a Raft node whose
  persistent part is written to \<^verbatim>\<open>raft.state\<close>, by way of \<^verbatim>\<open>raft.next\<close> and a rename,
  before its messages or committed entries may be taken.

  The binary codec and SHA-256 are arguments (\<open>enc\<close>, \<open>dec\<close>, \<open>sha\<close>). The file system is two file
  contents and, for each run of the publication, an \<open>io\<close> value that says how far it gets; the
  fields of \<open>fs_env\<close> say what the metadata of the directory are (nothing, when they cannot be read) and which of the
  checks and syncs of an opening succeed. The entries of the directory are regular files: the source refuses others
  as invalid, which is left out. Error messages are left out of the error values. \<open>me\<close> is the identity of the running process, which a fork changes.
\<close>

section \<open>Data\<close>

datatype storage_error = Storage | Invalid | Capacity | Closed | NotLeaderErr "node_name option"

record saved =
  s_version :: nat
  s_cluster :: string
  s_id :: node_name
  s_peers :: "node_name list"
  s_term :: nat
  s_vote :: "node_name option"
  s_log :: entries
  s_commit :: nat

record durable =
  d_node :: raft_node
  d_saved :: saved
  d_failed :: bool
  d_pid :: nat

record disk =
  state_file :: "byte list option"
  next_file :: "byte list option"

datatype io = IoOk | IoNoOpen | IoNoWrite "byte list" | IoNoRename | IoNoSync
  \<comment> \<open>success, or failure: to create the file, after writing some bytes, at the rename, at the sync after it\<close>

record fs_env =
  dir_stat :: "bool option"
  lockable :: bool
  readable :: bool
  removable :: bool
  syncable :: bool
  parent_ok :: bool
  pub_io :: io

record codec =
  enc :: "saved \<Rightarrow> byte list"
  dec :: "byte list \<Rightarrow> saved option"
  sha :: "byte list \<Rightarrow> byte list"

definition max_snapshot :: nat where "max_snapshot = 16 * 1024 * 1024"
definition max_entries :: nat where "max_entries = 65536"
definition max_command :: nat where "max_command = 1024 * 1024"

definition magic :: "byte list" where
  "magic = str_bytes ''PRAFT01'' @ [0]"

section \<open>Snapshots\<close>

definition snapshot :: "raft_node \<Rightarrow> string \<Rightarrow> saved" where
  "snapshot n cl = \<lparr>s_version = 1, s_cluster = cl, s_id = node_id n, s_peers = peers n,
     s_term = current_term n, s_vote = voted_for n, s_log = log n, s_commit = commit_index n\<rparr>"

fun validate_log :: "nat \<Rightarrow> nat \<Rightarrow> nat \<Rightarrow> entries \<Rightarrow> bool" where
  "validate_log t i previous_term [] = True"
| "validate_log t i previous_term (e # es) =
     (if e_index e \<noteq> i + 1 \<or> e_term e = 0 \<or> e_term e > t \<or> e_term e < previous_term then False
      else validate_log t (i + 1) (e_term e) es)"

definition validate :: "saved \<Rightarrow> storage_error + unit" where
  "validate s =
     (if length (s_log s) > max_entries \<or> (\<exists>e \<in> set (s_log s). length (e_cmd e) > max_command)
      then Inl Capacity
      else if s_commit s > length (s_log s) \<or> (s_term s = 0 \<and> s_vote s \<noteq> None)
           \<or> (case s_vote s of None \<Rightarrow> False | Some v \<Rightarrow> v \<noteq> s_id s \<and> v \<notin> set (s_peers s))
      then Inl Invalid
      else if \<not> validate_log (s_term s) 0 0 (s_log s) then Inl Invalid
      else Inr ())"

definition valid_id :: "string \<Rightarrow> bool" where
  "valid_id s \<longleftrightarrow> s \<noteq> [] \<and> length s \<le> 1024 \<and> \<not> has_control s"

section \<open>Publication\<close>

definition image :: "codec \<Rightarrow> saved \<Rightarrow> byte list" where
  "image cd s = magic @ sha cd (enc cd s) @ enc cd s"

text \<open>The byte counter admits an encoding of at most \<open>max_snapshot - 40\<close> bytes.\<close>

definition counter_ok :: "codec \<Rightarrow> saved \<Rightarrow> bool" where
  "counter_ok cd s \<longleftrightarrow> 40 + length (enc cd s) \<le> max_snapshot"

definition publish :: "codec \<Rightarrow> io \<Rightarrow> saved \<Rightarrow> disk \<Rightarrow> (storage_error + unit) \<times> disk" where
  "publish cd out s dk =
     (if \<not> counter_ok cd s then (Inl Capacity, dk)
      else if next_file dk \<noteq> None then (Inl Storage, dk)
      else case out of
          IoNoOpen \<Rightarrow> (Inl Storage, dk)
        | IoNoWrite part \<Rightarrow> (Inl Storage, dk\<lparr>next_file := Some part\<rparr>)
        | IoNoRename \<Rightarrow> (Inl Storage, dk\<lparr>next_file := Some (image cd s)\<rparr>)
        | IoNoSync \<Rightarrow> (Inl Storage, dk\<lparr>state_file := Some (image cd s)\<rparr>)
        | IoOk \<Rightarrow> (Inr (), dk\<lparr>state_file := Some (image cd s)\<rparr>))"

definition matches :: "saved \<Rightarrow> raft_node \<Rightarrow> bool" where
  "matches s n \<longleftrightarrow> s_term s = current_term n \<and> s_vote s = voted_for n \<and> s_log s = log n \<and>
     s_commit s = commit_index n"

type_synonym 'a outcome = "(storage_error + 'a) \<times> durable \<times> disk"

definition finish :: "codec \<Rightarrow> io \<Rightarrow> durable \<Rightarrow> disk \<Rightarrow> unit outcome" where
  "finish cd out d dk =
     (if matches (d_saved d) (d_node d) then (Inr (), d, dk)
      else
        let s = snapshot (d_node d) (s_cluster (d_saved d));
            (r, dk') = (case validate s of Inl e \<Rightarrow> (Inl e, dk) | Inr _ \<Rightarrow> publish cd out s dk)
        in case r of
             Inl e \<Rightarrow> (Inl e, d\<lparr>d_failed := True,
                               d_node := (d_node d)\<lparr>outbox := [], pending_apply := []\<rparr>\<rparr>, dk')
           | Inr _ \<Rightarrow> (Inr (), d\<lparr>d_saved := s\<rparr>, dk'))"

section \<open>Operations\<close>

definition is_closed :: "nat \<Rightarrow> durable \<Rightarrow> bool" where
  "is_closed me d \<longleftrightarrow> d_failed d \<or> d_pid d \<noteq> me"

definition longest_voter :: "saved \<Rightarrow> node_name" where
  "longest_voter s = fold (\<lambda>p best. if length best \<le> length p then p else best) (s_peers s) (s_id s)"

definition reserved :: "saved \<Rightarrow> entries \<Rightarrow> saved" where
  "reserved s lg = s\<lparr>s_term := u64_max, s_vote := Some (longest_voter s), s_log := lg, s_commit := u64_max\<rparr>"

definition check_log_capacity :: "codec \<Rightarrow> durable \<Rightarrow> entries \<Rightarrow> entries \<Rightarrow> bool" where
  "check_log_capacity cd d pre sfx \<longleftrightarrow>
     saturating_add (length pre) (length sfx) \<le> max_entries \<and>
     counter_ok cd (reserved (d_saved d) (pre @ sfx))"

definition with_node :: "codec \<Rightarrow> io \<Rightarrow> durable \<Rightarrow> disk \<Rightarrow> raft_node option \<Rightarrow> unit outcome option" where
  "with_node cd out d dk r = map_option (\<lambda>n. finish cd out (d\<lparr>d_node := n\<rparr>) dk) r"

definition durable_tick :: "codec \<Rightarrow> nat \<Rightarrow> clock \<Rightarrow> io \<Rightarrow> durable \<Rightarrow> disk \<Rightarrow> unit outcome option" where
  "durable_tick cd me clk out d dk =
     (if is_closed me d then Some (Inl Closed, d, dk)
      else with_node cd out d dk (raft_tick clk (d_node d)))"

text \<open>The sum of the commands' lengths, as \<^verbatim>\<open>try_fold\<close> with a checked addition.\<close>

definition commands_fit :: "entries \<Rightarrow> bool" where
  "commands_fit es \<longleftrightarrow>
     (case fold (\<lambda>e acc. case acc of None \<Rightarrow> None | Some k \<Rightarrow> checked_add k (length (e_cmd e))) es (Some 0)
      of None \<Rightarrow> False | Some k \<Rightarrow> k \<le> max_snapshot)"

definition append_admitted :: "codec \<Rightarrow> node_name \<Rightarrow> raft_rpc \<Rightarrow> durable \<Rightarrow> bool" where
  "append_admitted cd from rpc d =
     (case rpc of
        AppendEntries t ldr pli plt es lc \<Rightarrow>
          \<not> (length es > max_entries \<or> (\<exists>e \<in> set es. length (e_cmd e) > max_command)
             \<or> \<not> commands_fit es) \<and>
          (t \<ge> current_term (d_node d) \<and> ldr = from \<and> from \<in> set (peers (d_node d)) \<longrightarrow>
            (case append_plan pli plt es (d_node d) of
               None \<Rightarrow> True
             | Some (keep, skip) \<Rightarrow>
                 skip < length es \<longrightarrow>
                 check_log_capacity cd d (take keep (log (d_node d))) (drop skip es)))
      | _ \<Rightarrow> True)"

definition durable_step ::
  "codec \<Rightarrow> nat \<Rightarrow> clock \<Rightarrow> io \<Rightarrow> node_name \<Rightarrow> raft_rpc \<Rightarrow> durable \<Rightarrow> disk \<Rightarrow> unit outcome option" where
  "durable_step cd me clk out from rpc d dk =
     (if is_closed me d then Some (Inl Closed, d, dk)
      else if \<not> validate_shape rpc then Some (Inl Invalid, d, dk)
      else if \<not> append_admitted cd from rpc d then Some (Inl Capacity, d, dk)
      else with_node cd out d dk (raft_step clk from rpc (d_node d)))"

definition durable_propose ::
  "codec \<Rightarrow> nat \<Rightarrow> io \<Rightarrow> byte list \<Rightarrow> durable \<Rightarrow> disk \<Rightarrow> nat outcome option" where
  "durable_propose cd me out cmd d dk =
     (let n = d_node d in
      if is_closed me d then Some (Inl Closed, d, dk)
      else if length cmd > max_command \<or> length (log n) \<ge> max_entries then Some (Inl Capacity, d, dk)
      else if role n \<noteq> Leader then Some (Inl (NotLeaderErr (leader_hint n)), d, dk)
      else if \<not> check_log_capacity cd d (log n)
                  [\<lparr>e_term = current_term n, e_index = length (log n) + 1, e_cmd = cmd\<rparr>]
        then Some (Inl Capacity, d, dk)
      else case raft_propose cmd n of
             None \<Rightarrow> None
           | Some (Inl (NotLeader h), n') \<Rightarrow> Some (Inl (NotLeaderErr h), d\<lparr>d_node := n'\<rparr>, dk)
           | Some (Inr index, n') \<Rightarrow>
               (case finish cd out (d\<lparr>d_node := n'\<rparr>) dk of
                  (Inl e, d', dk') \<Rightarrow> Some (Inl e, d', dk')
                | (Inr _, d', dk') \<Rightarrow> Some (Inr index, d', dk')))"

definition durable_outbox :: "nat \<Rightarrow> durable \<Rightarrow> (storage_error + (node_name \<times> raft_rpc) list) \<times> durable" where
  "durable_outbox me d =
     (if is_closed me d then (Inl Closed, d)
      else (Inr (fst (raft_outbox (d_node d))), d\<lparr>d_node := snd (raft_outbox (d_node d))\<rparr>))"

definition durable_pending :: "nat \<Rightarrow> durable \<Rightarrow> storage_error + entries" where
  "durable_pending me d =
     (if is_closed me d then Inl Closed else Inr (raft_pending_committed (d_node d)))"

definition durable_committed :: "nat \<Rightarrow> durable \<Rightarrow> (storage_error + entries) \<times> durable" where
  "durable_committed me d =
     (if is_closed me d then (Inl Closed, d)
      else (Inr (fst (raft_committed (d_node d))), d\<lparr>d_node := snd (raft_committed (d_node d))\<rparr>))"

definition durable_role :: "nat \<Rightarrow> durable \<Rightarrow> role" where
  "durable_role me d = (if is_closed me d then Follower else role (d_node d))"

definition durable_leader_hint :: "nat \<Rightarrow> durable \<Rightarrow> node_name option" where
  "durable_leader_hint me d = (if is_closed me d then None else leader_hint (d_node d))"

section \<open>Opening\<close>

definition parse_image :: "codec \<Rightarrow> byte list \<Rightarrow> saved option" where
  "parse_image cd bs =
     (if length bs < 40 \<or> length bs > max_snapshot \<or> take 8 bs \<noteq> magic
         \<or> sha cd (drop 40 bs) \<noteq> take 32 (drop 8 bs)
      then None else dec cd (drop 40 bs))"

definition restore :: "saved \<Rightarrow> raft_node \<Rightarrow> raft_node" where
  "restore s n = n\<lparr>current_term := s_term s, voted_for := s_vote s, log := s_log s,
     commit_index := s_commit s, last_applied := s_commit s,
     pending_apply := take (s_commit s) (s_log s)\<rparr>"

definition open_existing ::
  "codec \<Rightarrow> fs_env \<Rightarrow> string \<Rightarrow> raft_node \<Rightarrow> (byte list \<Rightarrow> bool) \<Rightarrow> nat \<Rightarrow> byte list \<Rightarrow> disk
     \<Rightarrow> (storage_error + durable) \<times> disk" where
  "open_existing cd fs cl n ok me bs dk =
     (if \<not> readable fs then (Inl Storage, dk)
      else case parse_image cd bs of
        None \<Rightarrow> (Inl Invalid, dk)
      | Some s \<Rightarrow>
          if s_version s \<noteq> 1 \<or> s_cluster s \<noteq> cl \<or> s_id s \<noteq> node_id n \<or> s_peers s \<noteq> peers n
          then (Inl Invalid, dk)
          else (case validate s of
            Inl e \<Rightarrow> (Inl e, dk)
          | Inr _ \<Rightarrow>
              if \<not> (\<forall>e \<in> set (s_log s). ok (e_cmd e)) then (Inl Invalid, dk)
              else if next_file dk \<noteq> None \<and> \<not> removable fs then (Inl Storage, dk)
              else let dk' = dk\<lparr>next_file := None\<rparr> in
                if \<not> syncable fs \<or> \<not> parent_ok fs then (Inl Storage, dk')
                else (Inr \<lparr>d_node = restore s n, d_saved = s, d_failed = False, d_pid = me\<rparr>, dk')))"

definition open_fresh ::
  "codec \<Rightarrow> fs_env \<Rightarrow> string \<Rightarrow> raft_node \<Rightarrow> nat \<Rightarrow> disk \<Rightarrow> (storage_error + durable) \<times> disk" where
  "open_fresh cd fs cl n me dk =
     (if next_file dk \<noteq> None then (Inl Invalid, dk)
      else case publish cd (pub_io fs) (snapshot n cl) dk of
        (Inl e, dk') \<Rightarrow> (Inl e, dk')
      | (Inr _, dk') \<Rightarrow>
          if \<not> parent_ok fs then (Inl Storage, dk')
          else (Inr \<lparr>d_node = n, d_saved = snapshot n cl, d_failed = False, d_pid = me\<rparr>, dk'))"

definition open_validated ::
  "codec \<Rightarrow> fs_env \<Rightarrow> string \<Rightarrow> node_name \<Rightarrow> node_name list \<Rightarrow> clock \<Rightarrow> (byte list \<Rightarrow> bool) \<Rightarrow> nat \<Rightarrow> disk
     \<Rightarrow> (storage_error + durable) \<times> disk" where
  "open_validated cd fs cl i ps clk ok me dk =
     (if \<not> valid_id cl \<or> \<not> valid_id i \<or> length ps > 255 \<or> (\<exists>p \<in> set ps. \<not> valid_id p)
      then (Inl Invalid, dk)
      else if dir_stat fs = None then (Inl Storage, dk)
      else if dir_stat fs = Some False then (Inl Invalid, dk)
      else if \<not> lockable fs then (Inl Storage, dk)
      else case state_file dk of
             Some bs \<Rightarrow> open_existing cd fs cl (raft_new clk i ps) ok me bs dk
           | None \<Rightarrow> open_fresh cd fs cl (raft_new clk i ps) me dk)"

definition durable_open ::
  "codec \<Rightarrow> fs_env \<Rightarrow> string \<Rightarrow> node_name \<Rightarrow> node_name list \<Rightarrow> clock \<Rightarrow> nat \<Rightarrow> disk
     \<Rightarrow> (storage_error + durable) \<times> disk" where
  "durable_open cd fs cl i ps clk me dk = open_validated cd fs cl i ps clk (\<lambda>_. True) me dk"

section \<open>The host as a state machine\<close>

datatype host_op =
    HTick clock
  | HStep node_name raft_rpc clock
  | HPropose "byte list"
  | HOutbox
  | HCommitted

datatype host_out = Done | Index nat | Messages "(node_name \<times> raft_rpc) list" | Entries entries

definition out_of :: "('a \<Rightarrow> host_out) \<Rightarrow> 'a outcome \<Rightarrow> host_out outcome" where
  "out_of f r = (map_sum id f (fst r), snd r)"

fun host_step :: "codec \<Rightarrow> nat \<Rightarrow> host_op \<times> io \<Rightarrow> durable \<Rightarrow> disk \<Rightarrow> host_out outcome option" where
  "host_step cd me (HTick clk, out) d dk =
     map_option (out_of (\<lambda>_. Done)) (durable_tick cd me clk out d dk)"
| "host_step cd me (HStep from rpc clk, out) d dk =
     map_option (out_of (\<lambda>_. Done)) (durable_step cd me clk out from rpc d dk)"
| "host_step cd me (HPropose cmd, out) d dk =
     map_option (out_of Index) (durable_propose cd me out cmd d dk)"
| "host_step cd me (HOutbox, out) d dk =
     (case durable_outbox me d of (r, d') \<Rightarrow> Some (map_sum id Messages r, d', dk))"
| "host_step cd me (HCommitted, out) d dk =
     (case durable_committed me d of (r, d') \<Rightarrow> Some (map_sum id Entries r, d', dk))"

fun host_run :: "codec \<Rightarrow> nat \<Rightarrow> (host_op \<times> io) list \<Rightarrow> durable \<times> disk \<Rightarrow> (durable \<times> disk) option" where
  "host_run cd me [] s = Some s"
| "host_run cd me (x # xs) (d, dk) =
     (case host_step cd me x d dk of None \<Rightarrow> None | Some (r, d', dk') \<Rightarrow> host_run cd me xs (d', dk'))"

section \<open>Identity and membership never change\<close>

definition same_group :: "raft_node \<Rightarrow> raft_node \<Rightarrow> bool" where
  "same_group n n' \<longleftrightarrow> node_id n' = node_id n \<and> peers n' = peers n"

lemma same_group_refl [simp]: "same_group n n"
  by (simp add: same_group_def)

lemma same_group_trans: "same_group n k \<Longrightarrow> same_group k m \<Longrightarrow> same_group n m"
  by (simp add: same_group_def)

lemma same_group_update [simp]:
  "same_group n (n\<lparr>outbox := a\<rparr>)" "same_group n (n\<lparr>log := b\<rparr>)"
  "same_group n (n\<lparr>role := c\<rparr>)" "same_group n (push_out p m n)" "same_group n (observe_term t n)"
  by (simp_all add: same_group_def push_out_def observe_term_def)

lemma same_group_send: "send_append p n = Some n' \<Longrightarrow> same_group n n'"
  by (auto simp: send_append_def same_group_def push_out_def Let_def split: option.splits prod.splits)

lemma same_group_send_all: "send_all ps n = Some n' \<Longrightarrow> same_group n n'"
proof (induction ps arbitrary: n)
  case (Cons p ps)
  then show ?case by (auto split: option.splits dest: same_group_send intro: same_group_trans)
qed simp

lemma same_group_broadcast: "broadcast_append n = Some n' \<Longrightarrow> same_group n n'"
  unfolding broadcast_append_def by (rule same_group_send_all)

lemma same_group_leader: "become_leader clk n = Some n' \<Longrightarrow> same_group n n'"
  unfolding become_leader_def Let_def by (drule same_group_broadcast) (simp add: same_group_def)

lemma same_group_commit_to: "commit_to c n = Some n' \<Longrightarrow> same_group n n'"
  by (auto simp: commit_to_def same_group_def split: option.splits)

lemma same_group_advance: "advance_commit n = Some n' \<Longrightarrow> same_group n n'"
  by (auto simp: advance_commit_def split: option.splits if_splits
      dest!: same_group_commit_to same_group_broadcast intro: same_group_trans)

lemma same_group_election: "start_election clk n = Some n' \<Longrightarrow> same_group n n'"
  by (auto simp: start_election_def Let_def split: option.splits if_splits
      dest!: same_group_leader) (auto simp: same_group_def)

lemma same_group_tick: "raft_tick clk n = Some n' \<Longrightarrow> same_group n n'"
  by (auto simp: raft_tick_def split: role.splits if_splits
      dest!: same_group_election same_group_broadcast) (auto simp: same_group_def)

lemma same_group_append:
  assumes "step_append clk from t l pli plt es lc n = Some n'"
  shows "same_group n n'"
proof -
  have "same_group n ((observe_term t n)\<lparr>role := Follower, leader_hint := Some l,
      last_heartbeat_ms := now_ms clk, log := L\<rparr>)" for L
    by (simp add: same_group_def observe_term_def)
  with assms show ?thesis
    by (auto simp: step_append_def Let_def same_group_def push_out_def observe_term_def
        split: if_splits option.splits prod.splits dest!: same_group_commit_to)
qed

lemma same_group_append_resp:
  assumes "step_append_resp from t s m n = Some n'"
  shows "same_group n n'"
  using assms
  by (auto simp: step_append_resp_def Let_def split: if_splits
      dest!: same_group_advance same_group_send) (auto simp: same_group_def)

lemma same_group_step: "raft_step clk from rpc n = Some n' \<Longrightarrow> same_group n n'"
  by (cases rpc)
    (auto simp: raft_step_def step_request_vote_def step_vote_resp_def Let_def
      split: if_splits option.splits dest!: same_group_append same_group_append_resp same_group_leader,
      (auto simp: same_group_def push_out_def observe_term_def)+)

lemma same_group_propose: "raft_propose cmd n = Some (r, n') \<Longrightarrow> same_group n n'"
  by (auto simp: raft_propose_def Let_def split: if_splits option.splits
      dest!: same_group_broadcast same_group_advance) (auto simp: same_group_def)

lemmas same_group_ops = same_group_tick same_group_step same_group_propose

end
