(* ===== verification/Raft_Durability.thy ===== *)
theory Raft_Durability
  imports Raft_Storage Raft_Rules
begin

text \<open>
  What the durable host guarantees whatever the file system does: nothing leaves the host before
  the state it rests on is on disk, a failed publication fences the host for good, reopening gives
  the node the Raft group calls a restart, the snapshot of every reachable member passes the
  checks made before it is written, and space for later metadata is reserved on admission.
\<close>

section \<open>The invariant of an open host\<close>

text \<open>
  All that is asked of the codec and the digest: a digest has 32 bytes, and a snapshot that passes
  the checks and fits is read back as it was written.
\<close>

definition codec_ok :: "codec \<Rightarrow> bool" where
  "codec_ok cd \<longleftrightarrow> (\<forall>b. length (sha cd b) = 32) \<and>
     (\<forall>s. validate s = Inr () \<longrightarrow> counter_ok cd s \<longrightarrow> dec cd (enc cd s) = Some s)"

definition on_disk :: "codec \<Rightarrow> saved \<Rightarrow> disk \<Rightarrow> bool" where
  "on_disk cd s dk \<longleftrightarrow> (\<exists>bs. state_file dk = Some bs \<and> parse_image cd bs = Some s)"

lemma on_disk_image:
  assumes "codec_ok cd" and "validate s = Inr ()" and "counter_ok cd s"
    and "state_file dk = Some (image cd s)"
  shows "on_disk cd s dk"
proof -
  have m: "length magic = 8" by (simp add: magic_def str_bytes_def)
  have "length (sha cd (enc cd s)) = 32" "dec cd (enc cd s) = Some s"
    using assms by (auto simp: codec_ok_def)
  then have "parse_image cd (image cd s) = Some s"
    using assms(3) by (simp add: parse_image_def image_def counter_ok_def m)
  then show ?thesis using assms(4) by (simp add: on_disk_def)
qed

lemma on_disk_cong: "state_file dk' = state_file dk \<Longrightarrow> on_disk cd s dk' = on_disk cd s dk"
  by (simp add: on_disk_def)

definition host_inv :: "codec \<Rightarrow> string \<Rightarrow> raft_node \<Rightarrow> durable \<Rightarrow> disk \<Rightarrow> bool" where
  "host_inv cd cl n0 d dk \<longleftrightarrow>
     same_group n0 (d_node d) \<and> s_cluster (d_saved d) = cl \<and> s_id (d_saved d) = node_id n0 \<and>
     s_peers (d_saved d) = peers n0 \<and> s_version (d_saved d) = 1 \<and> validate (d_saved d) = Inr () \<and>
     (if d_failed d
      then outbox (d_node d) = [] \<and> pending_apply (d_node d) = [] \<and>
           (on_disk cd (d_saved d) dk \<or>
            on_disk cd (snapshot (d_node d) cl) dk \<and> validate (snapshot (d_node d) cl) = Inr ())
      else d_saved d = snapshot (d_node d) cl \<and> on_disk cd (d_saved d) dk \<and> next_file dk = None)"

lemma snapshot_update [simp]:
  "snapshot (n\<lparr>outbox := a\<rparr>) cl = snapshot n cl"
  "snapshot (n\<lparr>pending_apply := b\<rparr>) cl = snapshot n cl"
  by (simp_all add: snapshot_def)

lemma snapshot_sel [simp]:
  "s_cluster (snapshot n cl) = cl" "s_id (snapshot n cl) = node_id n" "s_peers (snapshot n cl) = peers n"
  "s_version (snapshot n cl) = 1" "s_log (snapshot n cl) = log n" "s_commit (snapshot n cl) = commit_index n"
  "s_term (snapshot n cl) = current_term n" "s_vote (snapshot n cl) = voted_for n"
  by (simp_all add: snapshot_def)

lemma publish_cases:
  assumes "publish cd out s dk = (r, dk')" and "next_file dk = None"
  obtains (ok) "r = Inr ()" "state_file dk' = Some (image cd s)" "next_file dk' = None" "counter_ok cd s"
    | (kept) e where "r = Inl e" "state_file dk' = state_file dk"
    | (replaced) e where "r = Inl e" "state_file dk' = Some (image cd s)" "counter_ok cd s"
  using assms by (auto simp: publish_def split: if_splits io.splits)

definition fence :: "durable \<Rightarrow> durable" where
  "fence d = d\<lparr>d_failed := True, d_node := (d_node d)\<lparr>outbox := [], pending_apply := []\<rparr>\<rparr>"

lemma finish_eq:
  "finish cd out d dk =
     (if matches (d_saved d) (d_node d) then (Inr (), d, dk)
      else case validate (snapshot (d_node d) (s_cluster (d_saved d))) of
          Inl e \<Rightarrow> (Inl e, fence d, dk)
        | Inr _ \<Rightarrow>
            (case publish cd out (snapshot (d_node d) (s_cluster (d_saved d))) dk of
               (Inl e, dk') \<Rightarrow> (Inl e, fence d, dk')
             | (Inr _, dk') \<Rightarrow> (Inr (), d\<lparr>d_saved := snapshot (d_node d) (s_cluster (d_saved d))\<rparr>, dk')))"
  by (simp add: finish_def fence_def Let_def split: sum.split prod.split)

lemma fence_inv:
  assumes "host_inv cd cl n0 d dk" and "\<not> d_failed d" and "same_group (d_node d) n"
    and "on_disk cd (d_saved d) dk' \<or> on_disk cd (snapshot n cl) dk' \<and> validate (snapshot n cl) = Inr ()"
  shows "host_inv cd cl n0 (fence (d\<lparr>d_node := n\<rparr>)) dk'"
proof -
  have "same_group n0 (n\<lparr>outbox := [], pending_apply := []\<rparr>)"
    using assms(1,3) by (simp add: host_inv_def same_group_def)
  then show ?thesis using assms(1,2,4) by (auto simp: host_inv_def fence_def same_group_def)
qed

lemma finish_inv:
  assumes cd: "codec_ok cd" and inv: "host_inv cd cl n0 d dk" and open0: "\<not> d_failed d"
    and g: "same_group (d_node d) n" and f: "finish cd out (d\<lparr>d_node := n\<rparr>) dk = (r, d', dk')"
  shows "host_inv cd cl n0 d' dk' \<and> (\<exists>e. r = Inl e) = d_failed d' \<and> (r = Inr () \<longrightarrow> d_node d' = n)"
proof -
  have i: "same_group n0 (d_node d)" "s_cluster (d_saved d) = cl" "d_saved d = snapshot (d_node d) cl"
    "next_file dk = None" "on_disk cd (d_saved d) dk" using inv open0 by (auto simp: host_inv_def)
  have gn: "same_group n0 n" using i(1) g by (rule same_group_trans)
  let ?s = "snapshot n cl" and ?d = "d\<lparr>d_node := n\<rparr>"
  show ?thesis
  proof (cases "matches (d_saved d) n")
    case True
    then have "?s = d_saved d" using g unfolding i(3) by (simp add: matches_def snapshot_def same_group_def)
    moreover have "r = Inr ()" "d' = ?d" "dk' = dk" using True f by (simp_all add: finish_eq)
    ultimately show ?thesis using inv open0 gn by (auto simp: host_inv_def same_group_def)
  next
    case False
    show ?thesis
    proof (cases "validate ?s")
      case (Inl e)
      then have "r = Inl e" "d' = fence ?d" "dk' = dk" using f False by (simp_all add: finish_eq i(2))
      then show ?thesis using fence_inv [OF inv open0 g] i(5) by (simp add: fence_def)
    next
      case (Inr u)
      obtain r1 dk1 where p: "publish cd out ?s dk = (r1, dk1)" by (cases "publish cd out ?s dk") auto
      from p i(4) show ?thesis
      proof (cases rule: publish_cases)
        case ok
        then have "r = Inr ()" "d' = ?d\<lparr>d_saved := ?s\<rparr>" "dk' = dk1"
          using f False Inr p by (simp_all add: finish_eq i(2))
        moreover have "on_disk cd ?s dk1" using on_disk_image [OF cd] ok Inr by simp
        ultimately show ?thesis using ok gn open0 Inr by (simp add: host_inv_def same_group_def)
      next
        case (kept e)
        then have "r = Inl e" "d' = fence ?d" "dk' = dk1"
          using f False Inr p by (simp_all add: finish_eq i(2))
        then show ?thesis
          using fence_inv [OF inv open0 g, of dk1] on_disk_cong [OF kept(2)] i(5) by (simp add: fence_def)
      next
        case (replaced e)
        then have "r = Inl e" "d' = fence ?d" "dk' = dk1"
          using f False Inr p by (simp_all add: finish_eq i(2))
        moreover have "on_disk cd ?s dk1" using on_disk_image [OF cd] replaced Inr by simp
        ultimately show ?thesis using fence_inv [OF inv open0 g, of dk1] Inr by (simp add: fence_def)
      qed
    qed
  qed
qed

lemma closed_step: "is_closed me d \<Longrightarrow> host_step cd me x d dk = Some (Inl Closed, d, dk)"
  by (cases "(cd, me, x, d, dk)" rule: host_step.cases)
    (auto simp: durable_tick_def durable_step_def durable_propose_def durable_outbox_def
      durable_committed_def out_of_def)

lemma with_node_inv:
  assumes cd: "codec_ok cd" and inv: "host_inv cd cl n0 d dk" and open0: "\<not> d_failed d"
    and w: "with_node cd out d dk x = Some (r, d', dk')" and g: "\<And>n. x = Some n \<Longrightarrow> same_group (d_node d) n"
  shows "host_inv cd cl n0 d' dk'"
  using w finish_inv [OF cd inv open0 g] by (auto simp: with_node_def)

lemma propose_inv_host:
  assumes cd: "codec_ok cd" and inv: "host_inv cd cl n0 d dk" and p: "durable_propose cd me out cmd d dk = Some (r, d', dk')"
  shows "host_inv cd cl n0 d' dk'"
proof (cases "d' = d \<and> dk' = dk")
  case False
  then have nc: "\<not> is_closed me d" and ld: "role (d_node d) = Leader"
    using p by (auto simp: durable_propose_def Let_def split: if_splits)
  obtain q n where q: "raft_propose cmd (d_node d) = Some (q, n)"
    using p False by (auto simp: durable_propose_def Let_def split: if_splits option.splits prod.splits)
  then obtain k where k: "q = Inr k"
    using ld by (auto simp: raft_propose_def Let_def split: option.splits if_splits)
  obtain r1 where "finish cd out (d\<lparr>d_node := n\<rparr>) dk = (r1, d', dk')"
    using p False q k
    by (auto simp: durable_propose_def Let_def split: if_splits sum.splits prod.splits)
  then show ?thesis
    using finish_inv [OF cd inv _ same_group_propose [OF q]] nc by (simp add: is_closed_def)
qed (use inv in simp)

lemma host_inv_clear:
  assumes "host_inv cd cl n0 d dk" and "\<not> d_failed d"
    and "n = (d_node d)\<lparr>outbox := []\<rparr> \<or> n = (d_node d)\<lparr>pending_apply := []\<rparr>"
  shows "host_inv cd cl n0 (d\<lparr>d_node := n\<rparr>) dk"
  using assms by (auto simp: host_inv_def same_group_def)

lemma host_step_inv:
  assumes cd: "codec_ok cd" and inv: "host_inv cd cl n0 d dk" and st: "host_step cd me x d dk = Some (r, d', dk')"
  shows "host_inv cd cl n0 d' dk'"
proof (cases "is_closed me d")
  case True
  then show ?thesis using closed_step [OF True] st inv by simp
next
  case False
  then have op: "\<not> d_failed d" by (simp add: is_closed_def)
  note wn = with_node_inv [OF cd inv op]
  obtain h out where x: "x = (h, out)" by (cases x)
  show ?thesis
  proof (cases h)
    case (HTick clk)
    then show ?thesis
      using st x False wn [OF _ same_group_tick] by (auto simp: durable_tick_def out_of_def)
  next
    case (HStep f rpc clk)
    then show ?thesis
      using st x False wn [OF _ same_group_step] inv
      by (auto simp: durable_step_def out_of_def split: if_splits)
  next
    case (HPropose cmd)
    then show ?thesis using st x propose_inv_host [OF cd inv] by (auto simp: out_of_def)
  next
    case HOutbox
    then show ?thesis
      using st x False host_inv_clear [OF inv op] by (auto simp: durable_outbox_def raft_outbox_def)
  next
    case HCommitted
    then show ?thesis
      using st x False host_inv_clear [OF inv op] by (auto simp: durable_committed_def raft_committed_def)
  qed
qed

lemma host_run_inv:
  "codec_ok cd \<Longrightarrow> host_inv cd cl n0 d dk \<Longrightarrow> host_run cd me xs (d, dk) = Some (d', dk') \<Longrightarrow> host_inv cd cl n0 d' dk'"
  by (induction xs arbitrary: d dk) (auto split: option.splits dest: host_step_inv)

section \<open>Opening establishes it\<close>

lemma validate_fresh: "validate (snapshot (raft_new clk i ps) cl) = Inr ()"
  by (simp add: validate_def raft_new_def)

lemma open_inv:
  assumes cd: "codec_ok cd" and op: "open_validated cd fs cl i ps clk ok me dk = (Inr d, dk')"
  shows "host_inv cd cl (raft_new clk i ps) d dk' \<and> d_failed d = False \<and> d_pid d = me"
proof (cases "state_file dk")
  case None
  then have f: "open_fresh cd fs cl (raft_new clk i ps) me dk = (Inr d, dk')"
    using op by (auto simp: open_validated_def split: if_splits)
  let ?s = "snapshot (raft_new clk i ps) cl"
  obtain u where n: "next_file dk = None" and p: "publish cd (pub_io fs) ?s dk = (Inr u, dk')"
    and d: "d = \<lparr>d_node = raft_new clk i ps, d_saved = ?s, d_failed = False, d_pid = me\<rparr>"
    using f by (auto simp: open_fresh_def split: if_splits prod.splits sum.splits)
  from p n show ?thesis
  proof (cases rule: publish_cases)
    case ok
    then have "on_disk cd ?s dk'" using on_disk_image [OF cd validate_fresh] by blast
    then show ?thesis using ok by (simp add: d host_inv_def validate_fresh)
  qed simp_all
next
  case (Some bs)
  then have "open_existing cd fs cl (raft_new clk i ps) ok me bs dk = (Inr d, dk')"
    using op by (auto simp: open_validated_def split: if_splits)
  then obtain s where s: "parse_image cd bs = Some s" "s_version s = 1" "s_cluster s = cl"
      "s_id s = i" "s_peers s = peers (raft_new clk i ps)" "validate s = Inr ()"
    and dk': "dk' = dk\<lparr>next_file := None\<rparr>"
    and d: "d = \<lparr>d_node = restore s (raft_new clk i ps), d_saved = s, d_failed = False, d_pid = me\<rparr>"
    by (auto simp: open_existing_def raft_new_def Let_def split: if_splits option.splits sum.splits)
  have "snapshot (restore s (raft_new clk i ps)) cl = s"
    using s by (simp add: snapshot_def restore_def raft_new_def)
  then show ?thesis
    using Some s by (auto simp: host_inv_def d dk' restore_def same_group_def on_disk_def raft_new_def)
qed

text \<open>Opening again: the node is the one restored from what is on disk.\<close>

definition healthy :: "fs_env \<Rightarrow> bool" where
  "healthy fs \<longleftrightarrow> dir_stat fs = Some True \<and> lockable fs \<and> readable fs \<and> removable fs \<and> syncable fs \<and> parent_ok fs"

definition valid_identity :: "string \<Rightarrow> node_name \<Rightarrow> node_name list \<Rightarrow> bool" where
  "valid_identity cl i ps \<longleftrightarrow> valid_id cl \<and> valid_id i \<and> length ps \<le> 255 \<and> (\<forall>p \<in> set ps. valid_id p)"

lemma open_on_disk:
  assumes "on_disk cd s dk" and "healthy fs" and "valid_identity cl i ps"
    and "s_version s = 1" and "s_cluster s = cl" and "s_id s = i" and "s_peers s = peers (raft_new clk i ps)"
    and "validate s = Inr ()" and "\<forall>e \<in> set (s_log s). ok (e_cmd e)"
  shows "open_validated cd fs cl i ps clk ok me dk =
    (Inr \<lparr>d_node = restore s (raft_new clk i ps), d_saved = s, d_failed = False, d_pid = me\<rparr>,
     dk\<lparr>next_file := None\<rparr>)"
proof -
  obtain bs where "state_file dk = Some bs" "parse_image cd bs = Some s"
    using assms(1) by (auto simp: on_disk_def)
  then show ?thesis
    using assms(2-) by (auto simp: open_validated_def open_existing_def healthy_def valid_identity_def raft_new_def)
qed

lemma canonical_peers: "peers (raft_new clk i (peers (raft_new clk' i ps))) = peers (raft_new clk' i ps)"
proof -
  let ?q = "remdups_adj (sort (filter (\<lambda>p. p \<noteq> i) ps))"
  have q: "sorted ?q" "distinct ?q" "i \<notin> set ?q"
    using remdups_adj_sort_props [of "filter (\<lambda>p. p \<noteq> i) ps"] by (auto simp: sorted_remdups_adj)
  have "filter (\<lambda>p. p \<noteq> i) ?q = ?q" using q(3) by (auto simp: filter_id_conv)
  then show ?thesis using q by (simp add: raft_new_def sorted_sort_id remdups_adj_distinct)
qed

lemma restore_restart:
  assumes "same_group (raft_new clk' i ps) n"
  shows "restore (snapshot n cl) (raft_new clk i ps) = restart_node clk n"
proof -
  have n: "node_id n = i" "peers n = peers (raft_new clk i ps)"
    using assms by (simp_all add: same_group_def raft_new_def)
  have "raft_new clk i (peers n) = raft_new clk i ps"
    using canonical_peers [of clk i clk ps] unfolding n(2) by (simp add: raft_new_def)
  then show ?thesis by (simp add: restore_def restart_node_def n(1))
qed

section \<open>A codec for concrete runs\<close>

text \<open>A codec that knows two snapshots, for the witnesses: it writes the number of the snapshot.\<close>

definition demo_node :: raft_node where
  "demo_node = raft_new (demo_clock 0) ''a'' [''b'']"

definition demo_candidate :: raft_node where
  "demo_candidate = (case start_election (demo_clock 1000) demo_node of None \<Rightarrow> demo_node | Some n \<Rightarrow> n)"

definition demo_codec :: codec where
  "demo_codec = \<lparr>
     enc = (\<lambda>s. if s = snapshot demo_node ''g'' then [0]
               else if s = snapshot demo_candidate ''g'' then [1] else replicate max_snapshot 0),
     dec = (\<lambda>b. if b = [0] then Some (snapshot demo_node ''g'')
               else if b = [1] then Some (snapshot demo_candidate ''g'') else None),
     sha = (\<lambda>b. replicate 32 0)\<rparr>"

definition demo_fs :: fs_env where
  "demo_fs = \<lparr>dir_stat = Some True, lockable = True, readable = True, removable = True, syncable = True,
     parent_ok = True, pub_io = IoOk\<rparr>"

definition demo_open :: "durable \<times> disk" where
  "demo_open = (case durable_open demo_codec demo_fs ''g'' ''a'' [''b''] (demo_clock 0) 7
       \<lparr>state_file = None, next_file = None\<rparr> of
     (Inr d, dk) \<Rightarrow> (d, dk)
   | (Inl e, dk) \<Rightarrow> (\<lparr>d_node = demo_node, d_saved = snapshot demo_node ''g'', d_failed = True, d_pid = 0\<rparr>, dk))"

lemma demo_codec_ok: "codec_ok demo_codec"
proof -
  have "length (replicate max_snapshot (0 :: byte)) \<noteq> length [x :: byte]" for x
    unfolding length_replicate by (simp add: max_snapshot_def)
  then have "replicate max_snapshot (0 :: byte) \<noteq> [x]" for x by metis
  moreover have "snapshot demo_node ''g'' \<noteq> snapshot demo_candidate ''g''" by code_simp
  ultimately show ?thesis by (auto simp: codec_ok_def demo_codec_def counter_ok_def)
qed

lemma demo_opened:
  "open_validated demo_codec demo_fs ''g'' ''a'' [''b''] (demo_clock 0) (\<lambda>_. True) 7
     \<lparr>state_file = None, next_file = None\<rparr> = (Inr (fst demo_open), snd demo_open)"
proof -
  have "\<not> isl (fst (durable_open demo_codec demo_fs ''g'' ''a'' [''b''] (demo_clock 0) 7
     \<lparr>state_file = None, next_file = None\<rparr>))" by code_simp
  then show ?thesis by (auto simp: demo_open_def durable_open_def isl_def split: prod.splits sum.splits)
qed

section \<open>The guarantees\<close>

text \<open>
  C11. Write-ahead. After any sequence of operations on a host that was opened, with any failures
  of the file system in between, a host that still accepts operations has its complete persistent
  state on disk, in a file that parses back to it; so what \<^verbatim>\<open>outbox\<close> or \<^verbatim>\<open>committed\<close> hand
  out rests on stored state only.
\<close>

theorem write_ahead:
  assumes "codec_ok cd" and "open_validated cd fs cl i ps clk ok me dk0 = (Inr d0, dk1)"
    and "host_run cd me xs (d0, dk1) = Some (d, dk)" and "\<not> is_closed me d"
  shows "\<exists>bs. state_file dk = Some bs \<and> parse_image cd bs = Some (snapshot (d_node d) cl) \<and>
     next_file dk = None"
proof -
  have "host_inv cd cl (raft_new clk i ps) d dk"
    using host_run_inv [OF assms(1) _ assms(3)] open_inv [OF assms(1,2)] by blast
  then show ?thesis using assms(4) by (auto simp: host_inv_def is_closed_def on_disk_def)
qed

theorem write_ahead_witness:
  "\<exists>d dk. host_run demo_codec 7 [(HTick (demo_clock 1000), IoOk), (HOutbox, IoOk)] demo_open = Some (d, dk) \<and>
     \<not> is_closed 7 d \<and> current_term (d_node d) = 1 \<and>
     (\<exists>bs. state_file dk = Some bs \<and> parse_image demo_codec bs = Some (snapshot (d_node d) ''g'') \<and>
       next_file dk = None)"
proof -
  have "case host_run demo_codec 7 [(HTick (demo_clock 1000), IoOk), (HOutbox, IoOk)] demo_open of
      None \<Rightarrow> False | Some p \<Rightarrow> \<not> is_closed 7 (fst p) \<and> current_term (d_node (fst p)) = 1"
    by code_simp
  from case_SomeD [OF this] obtain d dk where
    r: "host_run demo_codec 7 [(HTick (demo_clock 1000), IoOk), (HOutbox, IoOk)] demo_open = Some (d, dk)"
    "\<not> is_closed 7 d" "current_term (d_node d) = 1" by auto
  have "host_run demo_codec 7 [(HTick (demo_clock 1000), IoOk), (HOutbox, IoOk)]
      (fst demo_open, snd demo_open) = Some (d, dk)" using r(1) by simp
  from write_ahead [OF demo_codec_ok demo_opened this r(2)] r show ?thesis by blast
qed

text \<open>
  C12. A failed publication fences the host. When an operation that was let in ends in an error
  of the publication, the host holds no messages and no entries to hand out, and every later
  operation is refused with \<^verbatim>\<open>Closed\<close> and changes nothing, on disk or in memory.
\<close>

theorem failure_fences:
  assumes "finish cd out d dk = (Inl e, d', dk')"
  shows "is_closed me d' \<and> outbox (d_node d') = [] \<and> pending_apply (d_node d') = [] \<and>
     host_step cd me x d' dk' = Some (Inl Closed, d', dk') \<and> durable_role me d' = Follower \<and>
     durable_pending me d' = Inl Closed"
proof -
  have d': "d' = fence d"
    using assms by (auto simp: finish_eq split: if_splits sum.splits prod.splits)
  then have "is_closed me d'" by (simp add: is_closed_def fence_def)
  then show ?thesis
    using closed_step by (simp add: durable_role_def durable_pending_def) (simp add: d' fence_def)
qed

theorem failure_fences_witness:
  "\<exists>e d' dk'. finish demo_codec IoNoSync ((fst demo_open)\<lparr>d_node := demo_candidate\<rparr>) (snd demo_open) = (Inl e, d', dk') \<and>
     host_step demo_codec 7 (HOutbox, IoOk) d' dk' = Some (Inl Closed, d', dk')"
proof -
  have "fst (finish demo_codec IoNoSync ((fst demo_open)\<lparr>d_node := demo_candidate\<rparr>) (snd demo_open)) = Inl Storage"
    by code_simp
  then obtain d' dk' where
    "finish demo_codec IoNoSync ((fst demo_open)\<lparr>d_node := demo_candidate\<rparr>) (snd demo_open) = (Inl Storage, d', dk')"
    by (metis prod.collapse)
  then show ?thesis using failure_fences by blast
qed

text \<open>
  C13. Crash recovery. Whatever happened before, reopening on a working file system succeeds: a
  host that had not failed comes back as the restart of its own node, as the Raft group models it;
  one that failed comes back as the restart of the node before or of the node after the operation
  that failed, never as anything else.
\<close>

theorem reopen_is_restart:
  assumes cd: "codec_ok cd" and op: "open_validated cd fs cl i ps clk ok me dk0 = (Inr d0, dk1)"
    and run: "host_run cd me xs (d0, dk1) = Some (d, dk)"
    and env: "healthy fs'" "valid_identity cl i ps"
    and cmds: "\<forall>e \<in> set (s_log (d_saved d) @ log (d_node d)). ok' (e_cmd e)"
  shows "\<exists>d' dk'. open_validated cd fs' cl i ps clk' ok' me' dk = (Inr d', dk') \<and>
     (if d_failed d
      then d_node d' = restore (d_saved d) (raft_new clk' i ps) \<or> d_node d' = restart_node clk' (d_node d)
      else d_node d' = restart_node clk' (d_node d))"
proof -
  let ?n0 = "raft_new clk i ps"
  have inv: "host_inv cd cl ?n0 d dk" using host_run_inv [OF cd _ run] open_inv [OF cd op] by blast
  then have g: "same_group ?n0 (d_node d)" by (simp add: host_inv_def)
  have pe: "peers ?n0 = peers (raft_new clk' i ps)" "node_id ?n0 = i" by (simp_all add: raft_new_def)
  have sv: "s_version (d_saved d) = 1" "s_cluster (d_saved d) = cl" "s_id (d_saved d) = i"
    "s_peers (d_saved d) = peers (raft_new clk' i ps)" "validate (d_saved d) = Inr ()"
    using inv pe by (auto simp: host_inv_def)
  note open_saved = open_on_disk [OF _ env sv, where dk = dk and ok = ok' and me = me']
  have open_new: "open_validated cd fs' cl i ps clk' ok' me' dk =
      (Inr \<lparr>d_node = restart_node clk' (d_node d), d_saved = snapshot (d_node d) cl, d_failed = False, d_pid = me'\<rparr>,
       dk\<lparr>next_file := None\<rparr>)"
    if "on_disk cd (snapshot (d_node d) cl) dk" "validate (snapshot (d_node d) cl) = Inr ()"
    using open_on_disk [OF that(1) env, where clk = clk' and ok = ok' and me = me'] that(2) cmds g pe
    by (simp add: same_group_def restore_restart [OF g])
  show ?thesis
  proof (cases "d_failed d")
    case True
    then consider "on_disk cd (d_saved d) dk"
      | "on_disk cd (snapshot (d_node d) cl) dk" "validate (snapshot (d_node d) cl) = Inr ()"
      using inv by (auto simp: host_inv_def)
    then show ?thesis
      by cases (use open_saved open_new True cmds in auto)
  next
    case False
    then show ?thesis using inv open_new by (auto simp: host_inv_def)
  qed
qed

theorem reopen_is_restart_witness:
  "\<exists>d dk. host_run demo_codec 7 [(HTick (demo_clock 1000), IoOk)] demo_open = Some (d, dk) \<and> \<not> d_failed d \<and>
     (\<exists>d' dk'. open_validated demo_codec demo_fs ''g'' ''a'' [''b''] (demo_clock 2000) (\<lambda>_. True) 8 dk = (Inr d', dk') \<and>
       d_node d' = restart_node (demo_clock 2000) (d_node d))"
proof -
  have "case host_run demo_codec 7 [(HTick (demo_clock 1000), IoOk)] demo_open of
      None \<Rightarrow> False | Some p \<Rightarrow> \<not> d_failed (fst p)"
    by code_simp
  from case_SomeD [OF this] obtain d dk where
    r: "host_run demo_codec 7 [(HTick (demo_clock 1000), IoOk)] (fst demo_open, snd demo_open) = Some (d, dk)"
    "\<not> d_failed d" by auto
  have "healthy demo_fs" "valid_identity ''g'' ''a'' [''b'']" by code_simp+
  from reopen_is_restart [OF demo_codec_ok demo_opened r(1) this, of "\<lambda>_. True" "demo_clock 2000" 8] r
  show ?thesis by (auto simp: prod.collapse)
qed

section \<open>The checks before a publication\<close>

lemma validate_log_ok:
  assumes "\<forall>k < length L. e_index (L ! k) = i + k + 1" and "sorted (map e_term L)"
    and "\<forall>e \<in> set L. 0 < e_term e \<and> e_term e \<le> t \<and> p \<le> e_term e"
  shows "validate_log t i p L"
  using assms
proof (induction L arbitrary: i p)
  case (Cons e L)
  have "\<forall>k < length L. e_index (L ! k) = (i + 1) + k + 1" using Cons.prems(1) by force
  then show ?case using Cons.IH [of "i + 1" "e_term e"] Cons.prems by fastforce
qed simp

text \<open>
  The snapshot of every member of a reachable group, within the limits on entries and command
  sizes, passes validation: the check that stands before each publication, and each opening, never
  fences or refuses a host of a group that ran the protocol.
\<close>

theorem reachable_snapshot_valid:
  assumes "reachable c" and "i \<in> set (members c)" and "length (log (nodes c i)) \<le> max_entries"
    and "\<forall>e \<in> set (log (nodes c i)). length (e_cmd e) \<le> max_command"
  shows "validate (snapshot (nodes c i) cl) = Inr ()"
proof -
  let ?n = "nodes c i" and ?M = "set (members c)"
  obtain g where g: "hist_inv ?M g" and n: "\<And>i. i \<in> ?M \<Longrightarrow> node_inv ?M g i (nodes c i)"
    using reachable_node [OF assms(1)] by blast
  note inv = n [OF assms(2)]
  have v: "v \<in> ?M \<and> 0 < current_term ?n" if vf: "voted_for ?n = Some v" for v
  proof -
    obtain L where "votes g (current_term ?n) i = Some (v, L)"
      using node_invD(5) [OF inv] vf by (cases "votes g (current_term ?n) i") auto
    then show ?thesis using g unfolding hist_inv_def vote_inv_def by blast
  qed
  have wf: "log_idx (log ?n)" "log_terms (current_term ?n) (log ?n)" "commit_index ?n \<le> length (log ?n)"
    using node_inv_wf [OF inv] by (auto simp: node_wf_def)
  have "validate_log (current_term ?n) 0 0 (log ?n)"
    by (rule validate_log_ok) (use wf in \<open>auto simp: log_idx_def log_terms_def\<close>)
  moreover have "\<not> (case voted_for ?n of None \<Rightarrow> False | Some w \<Rightarrow> w \<noteq> node_id ?n \<and> w \<notin> set (peers ?n))"
    using v node_invD(2,3) [OF inv] by (auto split: option.splits)
  moreover have "\<not> (current_term ?n = 0 \<and> voted_for ?n \<noteq> None)" using v by (cases "voted_for ?n") auto
  ultimately show ?thesis
    using wf(3) assms(3,4) by (auto simp: validate_def not_less split: option.splits)
qed

section \<open>Reserved space\<close>

text \<open>
  What the source relies on in the encoding: with everything else equal, a smaller term, a smaller
  commit index and a vote of at most the same length do not make a snapshot longer.
\<close>

definition size_monotone :: "codec \<Rightarrow> bool" where
  "size_monotone cd \<longleftrightarrow> (\<forall>s t c v w. t \<le> s_term s \<longrightarrow> c \<le> s_commit s \<longrightarrow> s_vote s = Some w \<longrightarrow>
     (v = None \<or> (\<exists>x. v = Some x \<and> length x \<le> length w)) \<longrightarrow>
     length (enc cd (s\<lparr>s_term := t, s_commit := c, s_vote := v\<rparr>)) \<le> length (enc cd s))"

lemma longest_fold:
  "length b \<le> length (fold (\<lambda>p best. if length best \<le> length p then p else best) ps b) \<and>
   (\<forall>p \<in> set ps. length p \<le> length (fold (\<lambda>p best. if length best \<le> length p then p else best) ps b))"
  for b :: "'a list"
proof (induction ps arbitrary: b)
  case (Cons p ps)
  show ?case using Cons.IH [of "if length b \<le> length p then p else b"] by (auto split: if_splits)
qed simp

lemma longest_voter_longest: "v = s_id s \<or> v \<in> set (s_peers s) \<Longrightarrow> length v \<le> length (longest_voter s)"
  using longest_fold [of "s_id s" "s_peers s"] by (auto simp: longest_voter_def)

text \<open>
  C15. Space for later metadata is reserved when entries are admitted: if the capacity check
  admits a log, then every later snapshot with that log, whatever the term, the commit point and
  the vote for a member have become, is still within the byte limit.
\<close>

theorem admitted_log_stays_publishable:
  assumes "size_monotone cd" and "check_log_capacity cd d pre sfx" and "d_saved d = s"
    and "t \<le> u64_max" and "c \<le> u64_max" and "v \<in> insert None (Some ` insert (s_id s) (set (s_peers s)))"
  shows "counter_ok cd (s\<lparr>s_term := t, s_vote := v, s_log := pre @ sfx, s_commit := c\<rparr>)"
proof -
  let ?r = "reserved s (pre @ sfx)"
  have v: "v = None \<or> (\<exists>x. v = Some x \<and> length x \<le> length (longest_voter s))"
    using assms(6) longest_voter_longest [of _ s] by auto
  have "length (enc cd (?r\<lparr>s_term := t, s_commit := c, s_vote := v\<rparr>)) \<le> length (enc cd ?r)"
    using assms(1) [unfolded size_monotone_def, rule_format, of t ?r c "longest_voter s" v] assms(4,5) v
    by (simp add: reserved_def)
  moreover have "?r\<lparr>s_term := t, s_commit := c, s_vote := v\<rparr> =
      s\<lparr>s_term := t, s_vote := v, s_log := pre @ sfx, s_commit := c\<rparr>" by (simp add: reserved_def)
  moreover have "40 + length (enc cd ?r) \<le> max_snapshot"
    using assms(2,3) by (simp add: check_log_capacity_def counter_ok_def)
  ultimately show ?thesis by (simp add: counter_ok_def)
qed

text \<open>A codec whose snapshots have the size of their strings, for the witness.\<close>

definition sized_codec :: codec where
  "sized_codec = \<lparr>enc = (\<lambda>s. replicate (case s_vote s of None \<Rightarrow> 0 | Some v \<Rightarrow> length v) 0),
     dec = (\<lambda>_. None), sha = (\<lambda>_. [])\<rparr>"

theorem admitted_log_stays_publishable_witness:
  "counter_ok sized_codec ((snapshot demo_node ''g'')\<lparr>s_term := 5, s_vote := Some ''b'',
     s_log := [] @ [demo_entry], s_commit := 1\<rparr>)"
proof -
  let ?d = "\<lparr>d_node = demo_node, d_saved = snapshot demo_node ''g'', d_failed = False, d_pid = 0\<rparr>"
  have "size_monotone sized_codec"
    by (auto simp: size_monotone_def sized_codec_def)
  moreover have "check_log_capacity sized_codec ?d [] [demo_entry]" by code_simp
  moreover have "(5 :: nat) \<le> u64_max" "(1 :: nat) \<le> u64_max"
    "Some ''b'' \<in> insert None (Some ` insert (s_id (snapshot demo_node ''g'')) (set (s_peers (snapshot demo_node ''g''))))"
    by code_simp+
  ultimately show ?thesis
    using admitted_log_stays_publishable [of sized_codec ?d "[]" "[demo_entry]" _ 5 1 "Some ''b''"] by simp
qed

end
