(* ===== verification/Raft_Robust.thy ===== *)
theory Raft_Robust
  imports Raft_Theorems
begin

text \<open>
  One node against any peer: whatever RPCs arrive, from anyone, forged or not, a well-formed node
  stays well-formed, does not panic, and never takes back what it has persisted. The group's
  agreement theorems need honest members; these do not.
\<close>

definition node_ok :: "raft_node \<Rightarrow> bool" where
  "node_ok n \<longleftrightarrow> node_wf n \<and> (role n \<noteq> Follower \<longrightarrow> 0 < current_term n)"

lemma node_okD: "node_ok n \<Longrightarrow> node_wf n" "node_ok n \<Longrightarrow> role n = Leader \<Longrightarrow> 0 < current_term n"
  by (simp_all add: node_ok_def)

lemma node_ok_update [simp]:
  "node_ok (n\<lparr>leader_hint := a\<rparr>) = node_ok n"
  "node_ok (n\<lparr>last_heartbeat_ms := b\<rparr>) = node_ok n"
  "node_ok (n\<lparr>timeout_jitter_ms := c\<rparr>) = node_ok n"
  "node_ok (n\<lparr>sent_upper := d\<rparr>) = node_ok n"
  "node_ok (n\<lparr>pending_apply := e\<rparr>) = node_ok n"
  "node_ok (n\<lparr>outbox := f\<rparr>) = node_ok n"
  "node_ok (n\<lparr>voted_for := g\<rparr>) = node_ok n"
  "node_ok (push_out p m n) = node_ok n"
  by (simp_all add: node_ok_def node_wf_def next_ok_def push_out_def)

definition runs_ok :: "raft_node option \<Rightarrow> bool" where
  "runs_ok r \<longleftrightarrow> (\<exists>n. r = Some n \<and> node_ok n)"

lemma runs_ok_Some [simp]: "runs_ok (Some n) = node_ok n"
  by (simp add: runs_ok_def)

lemma node_ok_new: "node_ok (raft_new clk i ps)"
  using remdups_adj_sort_props [of "filter (\<lambda>p. p \<noteq> i) ps"]
  by (simp add: node_ok_def node_wf_def raft_new_def)

lemma node_ok_observe: "node_ok n \<Longrightarrow> node_ok (observe_term t n)"
  by (auto simp: node_ok_def node_wf_def observe_term_def next_ok_def intro: log_terms_mono)

lemma runs_ok_broadcast:
  assumes "node_ok n" and "role n = Leader"
  shows "runs_ok (broadcast_append n)"
proof -
  have "log_idx (log n)" "next_ok n" using assms by (auto simp: node_ok_def node_wf_def)
  from broadcast_append_ok [OF this] assms show ?thesis by (auto simp: runs_ok_def)
qed

lemma runs_ok_leader:
  assumes "node_ok n" and "0 < current_term n"
  shows "runs_ok (become_leader clk n)"
proof -
  have "log_idx (log n)" using assms by (simp add: node_ok_def node_wf_def)
  from become_leader_ok [OF this, of clk] assms show ?thesis
    by (auto simp: runs_ok_def node_ok_def node_wf_def next_ok_def)
qed

lemma runs_ok_election:
  assumes ok: "node_ok n"
  shows "runs_ok (start_election clk n)"
proof (cases "checked_add (current_term n) 1")
  case None
  then show ?thesis using ok by (simp add: start_election_def)
next
  case (Some t)
  then have t: "current_term n < t" by (auto simp: checked_add_def split: if_splits)
  define n1 where "n1 = n\<lparr>current_term := t,
      timeout_jitter_ms := election_jitter clk (node_id n) t,
      role := Candidate, voted_for := Some (node_id n), leader_hint := None,
      votes_received := [node_id n], last_heartbeat_ms := now_ms clk,
      outbox := outbox n @ map (\<lambda>p. (p, RequestVote t (node_id n)
        (last_log_index n) (last_log_term n))) (peers n)\<rparr>"
  have "start_election clk n =
      (if quorum n1 \<le> length (votes_received n1) then become_leader clk n1 else Some n1)"
    unfolding start_election_def Some option.case Let_def n1_def by (rule refl)
  moreover have "node_ok n1"
    using ok t by (auto simp: n1_def node_ok_def node_wf_def intro: log_terms_mono [OF _ less_imp_le])
  moreover have "0 < current_term n1" using t by (simp add: n1_def)
  ultimately show ?thesis using runs_ok_leader by simp
qed

lemma runs_ok_tick:
  assumes "node_ok n"
  shows "runs_ok (raft_tick clk n)"
  using assms runs_ok_election runs_ok_broadcast [of "n\<lparr>last_heartbeat_ms := now_ms clk\<rparr>"]
  by (cases "role n") (auto simp: raft_tick_def)

lemma runs_ok_request_vote: "node_ok n \<Longrightarrow> runs_ok (step_request_vote clk from t cand lli llt n)"
  by (simp add: step_request_vote_def Let_def node_ok_observe)

lemma runs_ok_vote_resp:
  assumes ok: "node_ok n"
  shows "runs_ok (step_vote_resp clk from t granted n)"
proof -
  define n1 where "n1 = (if from \<in> set (votes_received n) then n
      else n\<lparr>votes_received := votes_received n @ [from]\<rparr>)"
  have ok1: "node_ok n1" if "from \<in> set (peers n)"
    using ok that by (auto simp: n1_def node_ok_def node_wf_def next_ok_def)
  have t1: "0 < current_term n1" if "role n = Candidate" using ok that by (auto simp: n1_def node_ok_def)
  show ?thesis
    using ok ok1 t1 runs_ok_leader node_ok_observe
    unfolding step_vote_resp_def Let_def n1_def [symmetric] by simp
qed

lemma runs_ok_advance:
  assumes "node_ok n" and "role n = Leader"
  shows "runs_ok (advance_commit n)"
proof -
  have wf: "node_wf n" using assms by (simp add: node_ok_def)
  from advance_commit_ok [OF wf assms(2)] show ?thesis
    using assms by (auto simp: runs_ok_def node_ok_def node_wf_def next_ok_def)
qed

lemma runs_ok_append_resp:
  assumes ok: "node_ok n"
  shows "runs_ok (step_append_resp from t success m n)"
proof (cases "from \<notin> set (peers n) \<or> t > current_term n \<or> role n \<noteq> Leader \<or> t \<noteq> current_term n
    \<or> success \<and> m > last_log_index n
    \<or> success \<and> m > (case sent_upper n from of None \<Rightarrow> 0 | Some u \<Rightarrow> u)")
  case True
  then show ?thesis using ok node_ok_observe by (auto simp: step_append_resp_def)
next
  case False
  define ni where "ni = (case next_index n from of None \<Rightarrow> 1 | Some v \<Rightarrow> v)"
  have nok: "next_ok n" using ok False by (simp add: node_ok_def node_wf_def)
  then have ni: "ni \<le> length (log n) + 1" by (auto simp: ni_def next_ok_def split: option.splits)
  have upd: "node_ok (n\<lparr>match_index := mx, next_index := nx\<rparr>)" "node_ok (n\<lparr>next_index := nx\<rparr>)"
    if "\<forall>p v. nx p = Some v \<longrightarrow> v \<le> length (log n) + 1" for mx nx
    using ok that by (simp_all add: node_ok_def node_wf_def next_ok_def)
  show ?thesis
  proof (cases success)
    case True
    define nx where "nx = (next_index n)(from \<mapsto> max ni (saturating_add m 1))"
    have "m \<le> length (log n)" using False True by (simp add: last_log_index_def)
    then have "\<forall>p v. nx p = Some v \<longrightarrow> v \<le> length (log n) + 1"
      using nok ni saturating_add_le [of m 1] by (auto simp: nx_def next_ok_def)
    then have "node_ok (n\<lparr>match_index := (match_index n)(from \<mapsto> max (match_of n from) m), next_index := nx\<rparr>)"
      by (rule upd)
    moreover have "step_append_resp from t success m n =
        advance_commit (n\<lparr>match_index := (match_index n)(from \<mapsto> max (match_of n from) m), next_index := nx\<rparr>)"
      using False True by (auto simp: step_append_resp_def nx_def ni_def)
    ultimately show ?thesis using runs_ok_advance False by simp
  next
    case fail: False
    define retry where "retry = max (ni - 1) (saturating_add (match_of n from) 1)"
    have eq: "step_append_resp from t success m n =
        (if ni \<le> retry then Some (n\<lparr>next_index := (next_index n)(from \<mapsto> ni)\<rparr>)
         else send_append from (n\<lparr>next_index := (next_index n)(from \<mapsto> retry)\<rparr>))"
      using False fail by (auto simp: step_append_resp_def ni_def retry_def Let_def)
    have nx: "\<forall>p v. ((next_index n)(from \<mapsto> k)) p = Some v \<longrightarrow> v \<le> length (log n) + 1" if "k \<le> ni" for k
      using nok ni that by (auto simp: next_ok_def)
    show ?thesis
    proof (cases "ni \<le> retry")
      case True
      then show ?thesis unfolding eq using upd(2) [of "(next_index n)(from \<mapsto> ni)"] nx [of ni] by simp
    next
      case r: False
      let ?n = "n\<lparr>next_index := (next_index n)(from \<mapsto> retry)\<rparr>"
      have k: "node_ok ?n" using upd(2) [of "(next_index n)(from \<mapsto> retry)"] nx [of retry] r by simp
      then have "log_idx (log ?n)" "next_ok ?n" using False by (auto simp: node_ok_def node_wf_def)
      from send_append_ok [OF this, of "from"] k show ?thesis unfolding eq using r by (auto simp: runs_ok_def)
    qed
  qed
qed

text \<open>An accepted batch leaves a log that is in order, whoever sent it.\<close>

lemma append_log_ok:
  assumes wf: "log_idx (log n)" "log_terms t (log n)"
    and sh: "entries_shape t pli plt es" and plan: "append_plan pli plt es n = Some (keep, skip)"
  defines "L' \<equiv> take keep (log n) @ drop skip es"
  shows "log_idx L'" and "log_terms t L'"
proof -
  note p = entries_shape_props [OF sh]
  then have idx: "\<forall>j < length es. e_index (es ! j) = pli + j + 1" by blast
  note sp = append_plan_spec [OF plan idx, folded L'_def]
  have "log_idx L' \<and> log_terms t L'"
  proof (cases "L' = log n")
    case False
    then have L: "L' = take pli (log n) @ es" using sp(3) by blast
    have le: "e_term e \<le> plt" if "e \<in> set (take pli (log n))" for e
    proof -
      obtain k where k: "k < length (log n)" "k < pli" "e = log n ! k"
        using \<open>e \<in> set (take pli (log n))\<close> by (auto simp: in_set_conv_nth)
      then have "e_term (log n ! k) \<le> e_term (log n ! (pli - 1))"
        using sp(1) by (intro log_terms_nth_mono [OF wf(2)]) auto
      then show ?thesis using sp(2) k by simp
    qed
    have "sorted (map e_term (take pli (log n)))" using log_terms_take [OF wf(2)] by (simp add: log_terms_def)
    then have "sorted (map e_term (take pli (log n) @ es))"
      using p le by (auto simp: sorted_append) (meson le_trans)
    moreover have "\<forall>e \<in> set (take pli (log n) @ es). 0 < e_term e \<and> e_term e \<le> t"
      using p log_terms_take [OF wf(2), of pli] by (auto simp: log_terms_def)
    moreover have "log_idx (take pli (log n) @ es)"
      using wf(1) idx sp(1) by (auto simp: log_idx_def nth_append)
    ultimately show ?thesis by (simp add: L log_terms_def)
  qed (use wf in simp)
  then show "log_idx L'" "log_terms t L'" by auto
qed

lemma runs_ok_append:
  assumes ok: "node_ok n" and sh: "validate_shape (AppendEntries t l pli plt es lc)"
  shows "runs_ok (step_append clk from t l pli plt es lc n)"
proof (cases "from \<noteq> l \<or> from \<notin> set (peers n) \<or> t < current_term n")
  case True
  then show ?thesis using ok by (auto simp: step_append_def)
next
  case False
  define n1 where "n1 = (observe_term t n)\<lparr>role := Follower, leader_hint := Some l,
      last_heartbeat_ms := now_ms clk\<rparr>"
  have n1: "node_ok n1" "role n1 = Follower" "current_term n1 = t" "last_applied n1 = commit_index n1"
    using node_ok_observe [OF ok, of t] False
    by (auto simp: n1_def node_ok_def node_wf_def observe_term_def)
  have eq: "step_append clk from t l pli plt es lc n =
      (case append_plan pli plt es n1 of
          None \<Rightarrow> Some (push_out from
                    (AppendEntriesResp (current_term n1) False (last_log_index n1)) n1)
        | Some (keep, skip) \<Rightarrow>
            let matched = pli + length es;
                n2 = n1\<lparr>log := take keep (log n1) @ drop skip es\<rparr>;
                new_commit = min lc matched
            in case (if new_commit > commit_index n2 then commit_to new_commit n2 else Some n2) of
                 None \<Rightarrow> None
               | Some n3 \<Rightarrow>
                   Some (push_out from (AppendEntriesResp (current_term n3) True matched) n3))"
    using False unfolding step_append_def n1_def Let_def by auto
  show ?thesis
  proof (cases "append_plan pli plt es n1")
    case None
    then show ?thesis unfolding eq using n1 by simp
  next
    case (Some ks)
    obtain keep skip where ks: "ks = (keep, skip)" by (cases ks)
    define L' where "L' = take keep (log n1) @ drop skip es"
    have es: "entries_shape t pli plt es" using sh by simp
    have wf: "node_wf n1" using n1(1) by (simp add: node_ok_def)
    then have li: "log_idx L'" "log_terms t L'"
      using append_log_ok [of n1 t pli plt es keep skip] es Some ks n1(3) unfolding L'_def node_wf_def by auto
    have idx: "\<forall>j < length es. e_index (es ! j) = pli + j + 1" using entries_shape_props [OF es] by blast
    have "L' = log n1 \<and> pli + length es \<le> length (log n1) \<or>
        L' = take pli (log n1) @ es \<and> (\<exists>s. commit_index n1 \<le> s \<and> s < pli + length es)"
      using append_plan_spec(3) [OF Some [unfolded ks] idx] unfolding L'_def by blast
    then have len: "pli + length es \<le> length L'" "commit_index n1 \<le> length L'"
      using append_plan_spec(1) [OF Some [unfolded ks] idx] wf by (auto simp: node_wf_def)
    have ok2: "node_ok (n1\<lparr>log := L'\<rparr>)"
      using n1 li len(2) wf by (simp add: node_ok_def node_wf_def)
    let ?c = "min lc (pli + length es)"
    have "runs_ok (if ?c > commit_index n1 then commit_to ?c (n1\<lparr>log := L'\<rparr>) else Some (n1\<lparr>log := L'\<rparr>))"
      using ok2 len n1(2,4) by (auto simp: commit_to_def slice_def node_ok_def node_wf_def runs_ok_def)
    then obtain n3 where "(if ?c > commit_index n1 then commit_to ?c (n1\<lparr>log := L'\<rparr>) else Some (n1\<lparr>log := L'\<rparr>)) = Some n3"
      "node_ok n3" unfolding runs_ok_def by blast
    then show ?thesis unfolding eq Some ks option.case prod.case Let_def L'_def [symmetric] by simp
  qed
qed

lemma runs_ok_step: "node_ok n \<Longrightarrow> runs_ok (raft_step clk from m n)"
  using runs_ok_request_vote runs_ok_vote_resp runs_ok_append runs_ok_append_resp
  by (cases "validate_shape m"; cases m)
    (auto simp: raft_step_def split: option.split simp del: validate_shape.simps)

lemma runs_ok_propose:
  assumes ok: "node_ok n"
  shows "\<exists>r n'. raft_propose cmd n = Some (r, n') \<and> node_ok n'"
proof (cases "role n = Leader")
  case False
  then show ?thesis using ok by (simp add: raft_propose_def)
next
  case True
  let ?e = "\<lparr>e_term = current_term n, e_index = length (log n) + 1, e_cmd = cmd\<rparr>"
  let ?n = "n\<lparr>log := log n @ [?e]\<rparr>"
  have "node_ok ?n"
    using ok log_idx_snoc [of "log n" ?e] log_terms_snoc [of "current_term n" "log n" ?e] True
    by (auto simp: node_ok_def node_wf_def next_ok_def intro: le_SucI)
  then obtain n2 where b: "broadcast_append ?n = Some n2" and ok2: "node_ok n2"
    using runs_ok_broadcast [of ?n] True by (auto simp: runs_ok_def)
  have r2: "role n2 = Leader"
    using broadcast_append_ok [of ?n] b \<open>node_ok ?n\<close> True by (auto simp: node_ok_def node_wf_def)
  obtain n3 where "(if peers n2 = [] then advance_commit n2 else Some n2) = Some n3" "node_ok n3"
    using runs_ok_advance [OF ok2 r2] ok2 unfolding runs_ok_def by (cases "peers n2 = []") auto
  then show ?thesis using True b by (simp add: raft_propose_def Let_def)
qed

lemma node_ok_restart: "node_ok n \<Longrightarrow> node_ok (restart_node clk n)"
  using remdups_adj_sort_props [of "filter (\<lambda>p. p \<noteq> node_id n) (peers n)"]
  by (simp add: node_ok_def node_wf_def restart_node_def raft_new_def)

section \<open>Leadership within a term\<close>

text \<open>
  Within one term a node that is not a candidate keeps its role or becomes a follower: leadership that was lost
  does not come back in the same term.
\<close>

definition settles :: "raft_node \<Rightarrow> raft_node \<Rightarrow> bool" where
  "settles n n' \<longleftrightarrow> (current_term n' = current_term n \<and> role n \<noteq> Candidate \<longrightarrow> role n' = role n \<or> role n' = Follower)"

lemma send_append_role: "send_append p n = Some n' \<Longrightarrow> role n' = role n \<and> current_term n' = current_term n \<and> log n' = log n"
  by (auto simp: send_append_def push_out_def Let_def split: option.splits)

lemma send_all_role: "send_all ps n = Some n' \<Longrightarrow> role n' = role n \<and> current_term n' = current_term n \<and> log n' = log n"
  by (induction ps arbitrary: n) (fastforce dest: send_append_role split: option.splits)+

lemma broadcast_role: "broadcast_append n = Some n' \<Longrightarrow> role n' = role n \<and> current_term n' = current_term n \<and> log n' = log n"
  by (simp add: broadcast_append_def send_all_role)

lemma commit_to_role: "commit_to c n = Some n' \<Longrightarrow> role n' = role n \<and> current_term n' = current_term n \<and> log n' = log n"
  by (auto simp: commit_to_def split: option.splits)

lemma advance_commit_role: "advance_commit n = Some n' \<Longrightarrow> role n' = role n \<and> current_term n' = current_term n \<and> log n' = log n"
  by (fastforce simp: advance_commit_def dest: commit_to_role broadcast_role split: option.splits if_splits)

lemma start_election_term: "start_election clk n = Some n' \<Longrightarrow> n' = n \<or> current_term n < current_term n'"
  by (auto simp: start_election_def become_leader_def Let_def checked_add_def dest!: broadcast_role split: option.splits if_splits)

lemma settles_tick: "raft_tick clk n = Some n' \<Longrightarrow> settles n n'"
  by (cases "role n") (auto simp: raft_tick_def settles_def dest: broadcast_role start_election_term split: if_splits)

lemma settles_propose: "raft_propose cmd n = Some (r, n') \<Longrightarrow> settles n n'"
  by (auto simp: raft_propose_def settles_def Let_def dest!: broadcast_role advance_commit_role split: option.splits if_splits)

lemma propose_appends:
  assumes "raft_propose cmd n = Some (Inr k, n')"
  shows "role n = Leader \<and> role n' = Leader \<and> current_term n' = current_term n \<and> k = length (log n) + 1 \<and>
    log n' = log n @ [\<lparr>e_term = current_term n, e_index = k, e_cmd = cmd\<rparr>]"
  using assms by (auto simp: raft_propose_def Let_def dest!: broadcast_role advance_commit_role split: option.splits if_splits)

lemma settles_append: "step_append clk from t l pli plt es lc n = Some n' \<Longrightarrow> settles n n'"
  by (auto simp: step_append_def settles_def push_out_def Let_def dest!: commit_to_role split: option.splits if_splits)

lemma settles_append_resp: "step_append_resp from t success m n = Some n' \<Longrightarrow> settles n n'"
  by (auto simp: step_append_resp_def settles_def observe_term_def Let_def dest!: advance_commit_role send_append_role split: if_splits)

lemma settles_step:
  assumes "raft_step clk from m n = Some n'"
  shows "settles n n'"
proof (cases "validate_shape m")
  case False
  then show ?thesis using assms by (auto simp: raft_step_def settles_def push_out_def split: if_splits option.splits)
next
  case True
  then show ?thesis
    using assms settles_append settles_append_resp
    by (cases m) (auto simp: raft_step_def step_request_vote_def step_vote_resp_def settles_def push_out_def observe_term_def
        Let_def simp del: validate_shape.simps split: if_splits)
qed

section \<open>Any input\<close>

text \<open>What no input may take back.\<close>

definition keeps_committed :: "raft_node \<Rightarrow> raft_node \<Rightarrow> bool" where
  "keeps_committed n n' \<longleftrightarrow> current_term n \<le> current_term n' \<and> commit_index n \<le> commit_index n' \<and>
     take (commit_index n) (log n') = take (commit_index n) (log n)"

lemma advances_keeps: "advances n n' \<Longrightarrow> keeps_committed n n'"
  by (simp add: advances_def keeps_committed_def)

lemma propose_keeps: "node_ok n \<Longrightarrow> raft_propose cmd n = Some (r, n') \<Longrightarrow> keeps_committed n n'"
proof (cases "role n = Leader")
  case True
  then show "node_ok n \<Longrightarrow> raft_propose cmd n = Some (r, n') \<Longrightarrow> keeps_committed n n'"
    using advances_propose [OF node_okD(1) node_okD(2)] advances_keeps by blast
qed (auto simp: raft_propose_def keeps_committed_def)

text \<open>
  C22. A node survives any input. From a well-formed node every tick, every proposal and every
  RPC, from any sender and with any contents, has a result; after each of them the node is well-formed, its term
  and commit point did not fall and its committed entries are the same.
\<close>

theorem node_survives_any_rpc:
  assumes "node_ok n"
  shows "(\<exists>n'. raft_step clk from m n = Some n' \<and> node_ok n' \<and> keeps_committed n n') \<and>
     (\<exists>n'. raft_tick clk n = Some n' \<and> node_ok n' \<and> keeps_committed n n') \<and>
     (\<exists>r n'. raft_propose cmd n = Some (r, n') \<and> node_ok n' \<and> keeps_committed n n')"
proof -
  note wf = node_okD(1) [OF assms]
  obtain n1 where "raft_step clk from m n = Some n1" "node_ok n1" "keeps_committed n n1"
    using runs_ok_step [OF assms, of clk "from" m] advances_step [OF wf] advances_keeps by (force simp: runs_ok_def)
  moreover obtain n2 where "raft_tick clk n = Some n2" "node_ok n2" "keeps_committed n n2"
    using runs_ok_tick [OF assms, of clk] advances_tick [OF wf] advances_keeps by (force simp: runs_ok_def)
  ultimately show ?thesis using runs_ok_propose [OF assms, of cmd] propose_keeps [OF assms] by blast
qed

text \<open>A follower that has committed an entry, and a new leader that offers another one in its place.\<close>

definition demo_follower :: raft_node where
  "demo_follower = the (raft_step (demo_clock 5) ''b'' (AppendEntries 1 ''b'' 0 0 [demo_entry] 1)
     (raft_new (demo_clock 0) ''a'' [''b'', ''c'']))"

theorem node_survives_any_rpc_witness:
  "\<exists>n'. raft_step (demo_clock 9) ''c'' (AppendEntries 2 ''c'' 0 0 [demo_entry\<lparr>e_term := 2, e_cmd := [8]\<rparr>] 1) demo_follower = Some n' \<and>
     node_ok n' \<and> current_term n' = 2 \<and> commit_index demo_follower = 1 \<and> take 1 (log n') = [demo_entry]"
proof -
  let ?m = "AppendEntries 1 ''b'' 0 0 [demo_entry] 1" and ?n0 = "raft_new (demo_clock 0) ''a'' [''b'', ''c'']"
  let ?m' = "AppendEntries 2 ''c'' 0 0 [demo_entry\<lparr>e_term := 2, e_cmd := [8]\<rparr>] 1"
  obtain n1 where "raft_step (demo_clock 5) ''b'' ?m ?n0 = Some n1" "node_ok n1"
    using node_survives_any_rpc [OF node_ok_new [of "demo_clock 0" "''a''" "[''b'', ''c'']"]] by blast
  then have ok: "node_ok demo_follower" by (simp add: demo_follower_def)
  obtain n' where n': "raft_step (demo_clock 9) ''c'' ?m' demo_follower = Some n'" "node_ok n'" "keeps_committed demo_follower n'"
    using node_survives_any_rpc [OF ok] by blast
  have c: "commit_index demo_follower = 1 \<and> log demo_follower = [demo_entry]" by code_simp
  have "map_option current_term (raft_step (demo_clock 9) ''c'' ?m' demo_follower) = Some 2" by code_simp
  then show ?thesis using n' c by (simp add: keeps_committed_def)
qed

end
