(* ===== verification/Sharding.thy ===== *)
theory Sharding
  imports Prelude "HOL-Library.AList" "HOL-Library.Multiset"
begin

text \<open>
  Cluster sharding, \<^verbatim>\<open>crates/parrot-remote/src/sharding.rs\<close>: the consistent-hash ring with its
  hash, the per-node shard coordinator and the entity path. A \<^verbatim>\<open>HashMap\<close> is an association
  list in its iteration order. The ring is sorted by hash with \<^verbatim>\<open>sort_unstable_by_key\<close>, which leaves the order of two
  virtual nodes with the same hash open and may change it with the input; the sort is therefore an
  argument \<open>srt\<close> of the definitions, of which only \<open>sorts_by_hash\<close> is known. Locks are not modelled: each
  operation holds them for its whole effect.
\<close>

section \<open>The hash\<close>

definition fnv1a :: "byte list \<Rightarrow> u64w" where
  "fnv1a data =
     (let h = fnv_bytes fnv_offset data;
          z1 = h + 0x9e3779b97f4a7c15;
          z2 = (z1 XOR drop_bit 30 z1) * 0xbf58476d1ce4e5b9;
          z3 = (z2 XOR drop_bit 27 z2) * 0x94d049bb133111eb
      in z3 XOR drop_bit 31 z3)"

section \<open>The ring\<close>

type_synonym ring = "(u64w \<times> node_name) list"

definition vnode_name :: "node_name \<Rightarrow> nat \<Rightarrow> string" where
  "vnode_name n i = n @ ''#'' @ dec_str i"

type_synonym ring_sort = "ring \<Rightarrow> ring"

definition ring_vnodes :: "node_name list \<Rightarrow> nat \<Rightarrow> ring" where
  "ring_vnodes ns per_node = concat (map (\<lambda>n. map (\<lambda>i. (fnv1a (str_bytes (vnode_name n i)), n)) [0..<per_node]) ns)"

definition ring_new :: "ring_sort \<Rightarrow> node_name list \<Rightarrow> nat \<Rightarrow> ring" where
  "ring_new srt ns per_node = srt (ring_vnodes ns per_node)"

definition partition_point :: "('a \<Rightarrow> bool) \<Rightarrow> 'a list \<Rightarrow> nat" where
  "partition_point P xs = length (takeWhile P xs)"

definition ring_at :: "u64w \<Rightarrow> ring \<Rightarrow> node_name option" where
  "ring_at h r =
     (if r = [] then None
      else let idx = partition_point (\<lambda>(vh, _). vh < h) r;
               idx' = (if idx = length r then 0 else idx)
           in map_option snd (get_at r idx'))"

definition ring_node :: "string \<Rightarrow> ring \<Rightarrow> node_name option" where
  "ring_node key r = ring_at (fnv1a (str_bytes key)) r"

definition ring_nodes :: "ring \<Rightarrow> node_name list" where
  "ring_nodes r = remdups_adj (sort (map snd r))"

section \<open>The coordinator\<close>

datatype entity_status = Active | Migrating | Passivated

record entity_state =
  es_node :: node_name
  es_status :: entity_status

record coordinator =
  c_ring :: ring
  c_entities :: "(string \<times> entity_state) list"

definition coordinator_new :: "ring_sort \<Rightarrow> node_name list \<Rightarrow> coordinator" where
  "coordinator_new srt ns = \<lparr>c_ring = ring_new srt ns 256, c_entities = []\<rparr>"

definition new_home :: "ring \<Rightarrow> string \<Rightarrow> node_name" where
  "new_home r key = (case ring_node key r of None \<Rightarrow> [] | Some n \<Rightarrow> n)"

fun rebalance_entities ::
  "ring \<Rightarrow> (string \<times> entity_state) list \<Rightarrow> (string \<times> node_name) list \<times> (string \<times> entity_state) list" where
  "rebalance_entities r [] = ([], [])"
| "rebalance_entities r ((key, st) # rest) =
     (let (moves, rest') = rebalance_entities r rest; n = new_home r key in
      if n \<noteq> [] \<and> n \<noteq> es_node st
      then ((key, n) # moves, (key, \<lparr>es_node = n, es_status = Migrating\<rparr>) # rest')
      else (moves, (key, st) # rest'))"

definition rebalance :: "ring_sort \<Rightarrow> node_name list \<Rightarrow> coordinator \<Rightarrow> (string \<times> node_name) list \<times> coordinator" where
  "rebalance srt alive c =
     (let r = ring_new srt alive 256; (moves, es) = rebalance_entities r (c_entities c)
      in (moves, \<lparr>c_ring = r, c_entities = es\<rparr>))"

definition shard_route :: "string \<Rightarrow> coordinator \<Rightarrow> node_name option" where
  "shard_route key c = ring_node key (c_ring c)"

definition activated :: "string \<Rightarrow> node_name \<Rightarrow> coordinator \<Rightarrow> coordinator" where
  "activated key n c =
     c\<lparr>c_entities := AList.update key \<lparr>es_node = n, es_status = Active\<rparr> (c_entities c)\<rparr>"

definition passivated :: "string \<Rightarrow> coordinator \<Rightarrow> coordinator" where
  "passivated key c =
     (case map_of (c_entities c) key of
        None \<Rightarrow> c
      | Some st \<Rightarrow> c\<lparr>c_entities := AList.update key (st\<lparr>es_status := Passivated\<rparr>) (c_entities c)\<rparr>)"

section \<open>Entity paths\<close>

text \<open>\<^verbatim>\<open>rsplit_once\<close>: the part after the last occurrence of the separator.\<close>

fun after_last :: "string \<Rightarrow> string \<Rightarrow> string option" where
  "after_last sep [] = (if sep = [] then Some [] else None)"
| "after_last sep (c # cs) =
     (case after_last sep cs of
        Some k \<Rightarrow> Some k
      | None \<Rightarrow> if prefix sep (c # cs) then Some (drop (length sep) (c # cs)) else None)"

definition entity_key_of :: "string \<Rightarrow> string option" where
  "entity_key_of path = after_last ''/entity-'' path"

section \<open>Placement: what a client of the ring relies on\<close>

text \<open>
  A placement assigns keys to members. It uses a member when there is one, and a key whose member
  stays is not moved when another member leaves.
\<close>

locale placement =
  fixes place :: "'k \<Rightarrow> 'n list \<Rightarrow> 'n option"
  assumes place_total: "ns \<noteq> [] \<Longrightarrow> \<exists>n \<in> set ns. place k ns = Some n"
    and place_none: "place k [] = None"
    and place_leave: "place k ns = Some n \<Longrightarrow> n \<noteq> x \<Longrightarrow> place k (removeAll x ns) = Some n"
begin

lemma place_member: "place k ns = Some n \<Longrightarrow> n \<in> set ns"
  using place_total [of ns k] place_none by (cases "ns = []") auto

lemma moved_only_from_leaver:
  assumes "place k (removeAll x ns) \<noteq> place k ns"
  shows "place k ns = Some x"
proof (cases "place k ns")
  case None
  then have "ns = []" using place_total [of ns k] by auto
  then show ?thesis using assms by simp
next
  case (Some n)
  then show ?thesis using place_leave [OF Some, of x] assms by auto
qed

lemma moved_only_to_joiner:
  assumes "removeAll x ms = ns" and "place k ms \<noteq> place k ns"
  shows "place k ms = Some x"
  using moved_only_from_leaver [of k x ms] assms by simp

end

section \<open>The ring is a placement\<close>

lemma ring_at_dropWhile:
  "ring_at h r = (if r = [] then None else
     case dropWhile (\<lambda>(vh, _). vh < h) r of [] \<Rightarrow> Some (snd (hd r)) | v # vs \<Rightarrow> Some (snd v))"
proof (cases "r = []")
  case False
  let ?P = "\<lambda>(vh, _). vh < h"
  have len: "length (takeWhile ?P r) + length (dropWhile ?P r) = length r"
    by (metis length_append takeWhile_dropWhile_id)
  show ?thesis
  proof (cases "dropWhile ?P r")
    case Nil
    then show ?thesis
      using False len by (simp add: ring_at_def partition_point_def get_at_def hd_conv_nth del: dropWhile_eq_Nil_conv)
  next
    case (Cons v vs)
    have "r ! length (takeWhile ?P r) = v"
      by (metis Cons nth_append_length takeWhile_dropWhile_id)
    then show ?thesis
      using False len Cons by (simp add: ring_at_def partition_point_def get_at_def)
  qed
qed (simp add: ring_at_def)

lemma dropWhile_filter_hit:
  "dropWhile P xs = v # vs \<Longrightarrow> Q v \<Longrightarrow> \<exists>ws. dropWhile P (filter Q xs) = v # ws"
  by (induction xs) (auto split: if_splits)

lemma ring_at_filter:
  assumes "ring_at h r = Some n" and "n \<noteq> x"
  shows "ring_at h (filter (\<lambda>v. snd v \<noteq> x) r) = Some n"
proof -
  let ?P = "\<lambda>(vh, _). vh < h" and ?Q = "\<lambda>v. snd v \<noteq> x"
  have ne: "r \<noteq> []" using assms(1) by (auto simp: ring_at_def)
  show ?thesis
  proof (cases "dropWhile ?P r")
    case Nil
    then have hd: "snd (hd r) = n"
      using assms(1) ne by (simp add: ring_at_dropWhile del: dropWhile_eq_Nil_conv)
    then have "filter ?Q r \<noteq> [] \<and> hd (filter ?Q r) = hd r" using ne assms(2) by (cases r) auto
    moreover have "dropWhile ?P (filter ?Q r) = []" using Nil by auto
    ultimately show ?thesis using hd by (simp add: ring_at_dropWhile del: dropWhile_eq_Nil_conv)
  next
    case (Cons v vs)
    then have v: "snd v = n" using assms(1) ne by (simp add: ring_at_dropWhile)
    then have "?Q v" using assms(2) by simp
    from dropWhile_filter_hit [where Q = ?Q, OF Cons this] obtain ws where "dropWhile ?P (filter ?Q r) = v # ws" ..
    moreover from this have "filter ?Q r \<noteq> []" by auto
    ultimately show ?thesis using v by (simp add: ring_at_dropWhile)
  qed
qed

lemma ring_at_cases:
  assumes "r \<noteq> []"
  obtains v where "v \<in> set r" and "ring_at h r = Some (snd v)"
proof (cases "dropWhile (\<lambda>(vh, _). vh < h) r")
  case Nil
  then have "ring_at h r = Some (snd (hd r))"
    using assms by (simp add: ring_at_dropWhile del: dropWhile_eq_Nil_conv)
  then show ?thesis using that [of "hd r"] assms by simp
next
  case (Cons v vs)
  then have "v \<in> set r" by (metis list.set_intros(1) set_dropWhileD)
  moreover have "ring_at h r = Some (snd v)" using assms Cons by (simp add: ring_at_dropWhile)
  ultimately show ?thesis using that by blast
qed

lemma filter_eq_replicate: "filter ((=) v) ws = replicate (count (mset ws) v) v"
  by (induction ws) auto

lemma set_ring_vnodes: "snd ` set (ring_vnodes ns k) = (if k = 0 then {} else set ns)"
  by (force simp: ring_vnodes_def)

lemma ring_vnodes_removeAll: "ring_vnodes (removeAll x ns) k = filter (\<lambda>v. snd v \<noteq> x) (ring_vnodes ns k)"
  unfolding ring_vnodes_def by (induction ns) (auto simp: filter_map comp_def)

text \<open>With a stable sort the ring is a placement, whatever the hashes.\<close>

lemma stable_ring_removeAll:
  "ring_new (sort_key fst) (removeAll x ns) k = filter (\<lambda>v. snd v \<noteq> x) (ring_new (sort_key fst) ns k)"
  by (simp add: ring_new_def ring_vnodes_removeAll filter_sort)

lemma ring_member:
  assumes "set (ring_new srt ns k) = set (ring_vnodes ns k)" and "ns \<noteq> []" and "0 < k"
  shows "\<exists>n \<in> set ns. ring_node key (ring_new srt ns k) = Some n"
proof -
  have members: "snd ` set (ring_new srt ns k) = set ns" using assms(1,3) set_ring_vnodes [of ns k] by simp
  then have "ring_new srt ns k \<noteq> []" using assms(2) by auto
  then obtain v where "v \<in> set (ring_new srt ns k)" "ring_node key (ring_new srt ns k) = Some (snd v)"
    unfolding ring_node_def by (rule ring_at_cases)
  then show ?thesis using members by blast
qed

interpretation ring: placement "\<lambda>key ns. ring_node key (ring_new (sort_key fst) ns (Suc k))" for k
proof
  fix key :: string and ns :: "node_name list" and n x
  show "\<exists>n \<in> set ns. ring_node key (ring_new (sort_key fst) ns (Suc k)) = Some n" if "ns \<noteq> []"
    by (rule ring_member) (use that in \<open>simp_all add: ring_new_def\<close>)
  show "ring_node key (ring_new (sort_key fst) [] (Suc k)) = None" by (simp add: ring_node_def ring_new_def ring_vnodes_def ring_at_def)
  show "ring_node key (ring_new (sort_key fst) (removeAll x ns) (Suc k)) = Some n"
    if "ring_node key (ring_new (sort_key fst) ns (Suc k)) = Some n" "n \<noteq> x"
    using that ring_at_filter unfolding ring_node_def stable_ring_removeAll by blast
qed

text \<open>
  What is known of the sort of the source, and when that fixes its result: when no two different members have
  virtual nodes with the same hash.
\<close>

definition sorts_by_hash :: "ring_sort \<Rightarrow> bool" where
  "sorts_by_hash srt \<longleftrightarrow> (\<forall>vs. mset (srt vs) = mset vs \<and> sorted (map fst (srt vs)))"

definition collision_free :: "node_name list \<Rightarrow> nat \<Rightarrow> bool" where
  "collision_free ns k \<longleftrightarrow> (\<forall>v \<in> set (ring_vnodes ns k). \<forall>w \<in> set (ring_vnodes ns k). fst v = fst w \<longrightarrow> snd v = snd w)"

lemma collision_free_removeAll: "collision_free ns k \<Longrightarrow> collision_free (removeAll x ns) k"
  unfolding collision_free_def ring_vnodes_removeAll set_filter by blast

lemma distinct_collision_free: "distinct (map fst (ring_vnodes ns k)) \<Longrightarrow> collision_free ns k"
  unfolding collision_free_def by (metis distinct_map inj_onD)

lemma filter_same_hash:
  assumes "\<forall>w \<in> set ws. fst w = fst v \<longrightarrow> snd w = snd v"
  shows "filter (\<lambda>w. fst v = fst w) ws = replicate (count (mset ws) v) v"
proof -
  have "filter (\<lambda>w. fst v = fst w) ws = filter ((=) v) ws"
  proof (rule filter_cong [OF refl])
    fix w assume "w \<in> set ws"
    then show "fst v = fst w \<longleftrightarrow> v = w" using assms by (metis prod_eq_iff)
  qed
  then show ?thesis by (simp add: filter_eq_replicate)
qed

lemma ring_new_unique:
  assumes "sorts_by_hash srt" and "collision_free ns k"
  shows "ring_new srt ns k = ring_new (sort_key fst) ns k"
proof -
  let ?vs = "ring_vnodes ns k"
  have srt: "mset (srt ?vs) = mset ?vs" "sorted (map fst (srt ?vs))" using assms(1) unfolding sorts_by_hash_def by blast+
  note set = mset_eq_setD [OF srt(1)]
  have "filter (\<lambda>w. fst v = fst w) (srt ?vs) = filter (\<lambda>w. fst v = fst w) ?vs" if "v \<in> set (srt ?vs)" for v
  proof -
    have "\<forall>w \<in> set ?vs. fst w = fst v \<longrightarrow> snd w = snd v" using assms(2) that set unfolding collision_free_def by blast
    then show ?thesis using filter_same_hash [of "srt ?vs" v] filter_same_hash [of ?vs v] unfolding set srt(1) by metis
  qed
  then have "sort_key fst ?vs = srt ?vs" by (intro properties_for_sort_key [OF srt(1) _ srt(2)])
  then show ?thesis unfolding ring_new_def by (rule sym)
qed

section \<open>Rebalancing\<close>

lemma rebalance_entities_keys: "map fst (snd (rebalance_entities r es)) = map fst es"
  by (induction es) (auto simp: Let_def split: prod.splits)

lemma rebalance_entities_lookup:
  "map_of (snd (rebalance_entities r es)) key =
     map_option (\<lambda>st. if new_home r key \<noteq> [] \<and> new_home r key \<noteq> es_node st
       then \<lparr>es_node = new_home r key, es_status = Migrating\<rparr> else st) (map_of es key)"
  by (induction es) (auto simp: Let_def split: prod.splits)

lemma rebalance_entities_moves:
  "(key, n) \<in> set (fst (rebalance_entities r es)) \<longleftrightarrow>
     (\<exists>st. (key, st) \<in> set es \<and> n = new_home r key \<and> n \<noteq> [] \<and> n \<noteq> es_node st)"
  by (induction es) (auto simp: Let_def split: prod.splits if_splits)

text \<open>
  C16. Placement on the ring is stable under membership changes. Whatever the unstable sort does, every key has a
  member when there is one. If no two members have virtual nodes with the same hash, the ring built without
  a member sends every key that member did not own to the same node as before, so a member that leaves
  displaces its own keys only, to members that stay, and a member that joins takes keys only for itself.
\<close>

theorem ring_leave_moves_only_leaver:
  assumes "sorts_by_hash srt" and "0 < k"
  shows "(ns \<noteq> [] \<longrightarrow> (\<exists>n \<in> set ns. ring_node key (ring_new srt ns k) = Some n)) \<and>
    (collision_free ns k \<and> ring_node key (ring_new srt (removeAll x ns) k) \<noteq> ring_node key (ring_new srt ns k) \<longrightarrow>
      ring_node key (ring_new srt ns k) = Some x)"
proof -
  have "set (ring_new srt ns k) = set (ring_vnodes ns k)"
    using assms(1) mset_eq_setD unfolding sorts_by_hash_def ring_new_def by blast
  then have total: "ns \<noteq> [] \<longrightarrow> (\<exists>n \<in> set ns. ring_node key (ring_new srt ns k) = Some n)"
    using ring_member [of srt ns k key] assms(2) by blast
  have "ring_node key (ring_new srt ns k) = Some x"
    if free: "collision_free ns k" and "ring_node key (ring_new srt (removeAll x ns) k) \<noteq> ring_node key (ring_new srt ns k)"
  proof -
    have "ring_new srt ns k = ring_new (sort_key fst) ns k"
      "ring_new srt (removeAll x ns) k = ring_new (sort_key fst) (removeAll x ns) k"
      using ring_new_unique [OF assms(1)] free collision_free_removeAll by blast+
    then show ?thesis using that(2) ring.moved_only_from_leaver [of key x ns "k - 1"] assms(2) by simp
  qed
  then show ?thesis using total by blast
qed

lemma demo_ring_vnodes:
  "ring_vnodes [''a'', ''b'', ''c''] 1 =
     [(599493276533224484, ''a''), (2580768461792020123, ''b''), (3572148131348502240, ''c'')]"
proof -
  have names: "str_bytes (vnode_name ''a'' 0) = [97, 35, 48]" "str_bytes (vnode_name ''b'' 0) = [98, 35, 48]"
    "str_bytes (vnode_name ''c'' 0) = [99, 35, 48]" by code_simp+
  have "fnv1a [97, 35, 48] = 599493276533224484" "fnv1a [98, 35, 48] = 2580768461792020123"
    "fnv1a [99, 35, 48] = 3572148131348502240"
    by (simp_all add: fnv1a_def fnv_bytes_def fnv_byte_def fnv_prime_def fnv_offset_def Let_def)
  then show ?thesis by (simp add: ring_vnodes_def names)
qed

theorem ring_leave_moves_only_leaver_witness:
  "ring_node ''k1'' (ring_new (sort_key fst) [''a'', ''b'', ''c''] 1) = Some ''a'' \<and>
   ring_node ''k1'' (ring_new (sort_key fst) (removeAll ''b'' [''a'', ''b'', ''c'']) 1) = Some ''a'' \<and>
   (\<exists>n \<in> {''a'', ''b'', ''c''}. ring_node ''k2'' (ring_new (sort_key fst) [''a'', ''b'', ''c''] 1) = Some n)"
proof -
  have sorts: "sorts_by_hash (sort_key fst)" unfolding sorts_by_hash_def using mset_sort sorted_sort_key by blast
  have "collision_free [''a'', ''b'', ''c''] 1" by (rule distinct_collision_free) (unfold demo_ring_vnodes, simp)
  moreover have "str_bytes ''k1'' = [107, 49]" by code_simp
  then have "fnv1a (str_bytes ''k1'') = 10684529077969042352"
    by (simp add: fnv1a_def fnv_bytes_def fnv_byte_def fnv_prime_def fnv_offset_def Let_def)
  then have "ring_node ''k1'' (ring_new (sort_key fst) [''a'', ''b'', ''c''] 1) = Some ''a''"
    unfolding ring_new_def demo_ring_vnodes by (simp add: ring_node_def ring_at_def partition_point_def get_at_def)
  ultimately show ?thesis
    using ring_leave_moves_only_leaver [OF sorts, of 1 "[''a'', ''b'', ''c'']" "''k1''" "''b''"]
      ring_leave_moves_only_leaver [OF sorts, of 1 "[''a'', ''b'', ''c'']" "''k2''" "''b''"] by auto
qed

text \<open>
  A rebalance moves exactly the entities whose home changed: the reported moves are the
  entities that were elsewhere, each of them is marked as migrating at its new home, all others
  keep their state, no entity is lost, and afterwards every entity with a non-empty home is placed
  where the new ring routes it.
\<close>

theorem rebalance_moves_displaced:
  assumes "rebalance srt alive c = (moves, c')"
  shows "shard_route key c' = ring_node key (ring_new srt alive 256) \<and>
     ((key, n) \<in> set moves \<longleftrightarrow>
        (\<exists>st. (key, st) \<in> set (c_entities c) \<and> n = new_home (ring_new srt alive 256) key \<and>
              n \<noteq> [] \<and> n \<noteq> es_node st)) \<and>
     map_of (c_entities c') key =
       map_option (\<lambda>st. let h = new_home (ring_new srt alive 256) key in
           if h \<noteq> [] \<and> h \<noteq> es_node st then \<lparr>es_node = h, es_status = Migrating\<rparr> else st)
         (map_of (c_entities c) key) \<and>
     map fst (c_entities c') = map fst (c_entities c)"
proof -
  have c': "c' = \<lparr>c_ring = ring_new srt alive 256, c_entities = snd (rebalance_entities (ring_new srt alive 256) (c_entities c))\<rparr>"
    and mv: "moves = fst (rebalance_entities (ring_new srt alive 256) (c_entities c))"
    using assms by (auto simp: rebalance_def Let_def split: prod.splits)
  show ?thesis
    unfolding c' mv
    by (simp add: shard_route_def rebalance_entities_moves rebalance_entities_lookup rebalance_entities_keys Let_def)
qed

lemma after_last_none: "c \<notin> set ys \<Longrightarrow> after_last (c # sep) ys = None"
  by (induction ys) auto

lemma after_last_append: "after_last sep ys = Some k \<Longrightarrow> after_last sep (xs @ ys) = Some k"
  by (induction xs) auto

text \<open>
  Entity paths: the key of a path built from a key without a slash, under any parent path
  (which may itself name an entity), is that key; a path without a slash names no entity.
\<close>

lemma entity_key_roundtrip:
  "(CHR ''/'' \<notin> set key \<longrightarrow> entity_key_of (parent @ ''/entity-'' @ key) = Some key) \<and>
   (CHR ''/'' \<notin> set key \<longrightarrow> entity_key_of key = None)"
proof (intro conjI impI)
  assume k: "CHR ''/'' \<notin> set key"
  then have "after_last ''/entity-'' (''entity-'' @ key) = None" by (intro after_last_none) simp
  then have "after_last ''/entity-'' (''/entity-'' @ key) = Some key" by simp
  then show "entity_key_of (parent @ ''/entity-'' @ key) = Some key"
    unfolding entity_key_of_def by (rule after_last_append)
  show "entity_key_of key = None" using k unfolding entity_key_of_def by (rule after_last_none)
qed

end
