(* ===== verification/Directory.thy ===== *)
theory Directory
  imports Sharding Raft_Cluster
begin

text \<open>
  The directory's replicated state machine, \<^verbatim>\<open>roles/directory.rs\<close> and
  \<^verbatim>\<open>roles/directory/command.rs\<close>: the commands and their bounds, decoding and applying them,
  the queries, and the single-replica wrapper around a Raft node. The binary codec is an argument
  (\<open>c_enc\<close>, \<open>c_dec\<close>). A \<^verbatim>\<open>HashMap\<close> is an association list in its iteration order, which the
  theorems show not to matter. Error messages are left out of the error values.
\<close>

section \<open>Data\<close>

record dir_entry =
  endpoints :: "string list"
  de_version :: nat
  ttl_s :: nat

datatype dir_cmd =
    Upsert node_name "string list"
  | Remove node_name
  | BorderDeclare string node_name
  | KeyAggregate string "node_name list"

datatype dir_query = Resolve string | BorderFor string | NodesForKey string

datatype apply_error = ApInvalid | ApCapacity | ApRevisionExhausted

record directory_sm =
  sm_nodes :: "(node_name \<times> dir_entry) list"
  sm_borders :: "(string \<times> node_name) list"
  sm_keys :: "(string \<times> node_name list) list"
  sm_version :: nat

record cmd_codec =
  c_enc :: "dir_cmd \<Rightarrow> byte list"
  c_dec :: "byte list \<Rightarrow> dir_cmd option"

definition max_command_bytes :: nat where "max_command_bytes = 1024 * 1024"
definition max_members :: nat where "max_members = 4096"

section \<open>Commands\<close>

definition text_ok :: "nat \<Rightarrow> string \<Rightarrow> bool" where
  "text_ok mx s \<longleftrightarrow> s \<noteq> [] \<and> length s \<le> mx \<and> \<not> has_control s"

definition check_text :: "nat \<Rightarrow> string \<Rightarrow> apply_error + unit" where
  "check_text mx s = (if text_ok mx s then Inr () else Inl ApInvalid)"

definition check_members :: "nat \<Rightarrow> string list \<Rightarrow> apply_error + unit" where
  "check_members mx items =
     (if length items > max_members then Inl ApCapacity
      else if \<forall>s \<in> set items. text_ok mx s then Inr () else Inl ApInvalid)"

definition and_then :: "'e + unit \<Rightarrow> 'e + 'a \<Rightarrow> 'e + 'a" where
  "and_then a b = (case a of Inl e \<Rightarrow> Inl e | Inr _ \<Rightarrow> b)"

fun validate_cmd :: "dir_cmd \<Rightarrow> apply_error + unit" where
  "validate_cmd (Upsert n es) = and_then (check_text 1024 n) (check_members 4096 es)"
| "validate_cmd (Remove n) = check_text 1024 n"
| "validate_cmd (BorderDeclare p n) = and_then (check_text 1024 p) (check_text 1024 n)"
| "validate_cmd (KeyAggregate k ns) = and_then (check_text 1024 k) (check_members 1024 ns)"

definition encode_cmd :: "cmd_codec \<Rightarrow> dir_cmd \<Rightarrow> apply_error + byte list" where
  "encode_cmd cc cmd =
     and_then (validate_cmd cmd)
       (if length (c_enc cc cmd) > max_command_bytes then Inl ApCapacity else Inr (c_enc cc cmd))"

definition decode_cmd :: "cmd_codec \<Rightarrow> byte list \<Rightarrow> apply_error + dir_cmd" where
  "decode_cmd cc bs =
     (if length bs > max_command_bytes then Inl ApCapacity
      else case c_dec cc bs of
             None \<Rightarrow> Inl ApInvalid
           | Some cmd \<Rightarrow> and_then (validate_cmd cmd) (Inr cmd))"

definition validate_query :: "dir_query \<Rightarrow> apply_error + nat" where
  "validate_query q =
     (let t = (case q of Resolve p \<Rightarrow> p | BorderFor p \<Rightarrow> p | NodesForKey k \<Rightarrow> k) in
      if length t > 4096 then Inl ApCapacity else Inr (length t))"

section \<open>The state machine\<close>

definition sm_default :: directory_sm where
  "sm_default = \<lparr>sm_nodes = [], sm_borders = [], sm_keys = [], sm_version = 0\<rparr>"

fun apply_validated :: "dir_cmd \<Rightarrow> directory_sm \<Rightarrow> directory_sm" where
  "apply_validated (Upsert n es) sm =
     (let v = sm_version sm + 1;
          e = (case map_of (sm_nodes sm) n of None \<Rightarrow> \<lparr>endpoints = [], de_version = 0, ttl_s = 3600\<rparr> | Some e \<Rightarrow> e)
      in sm\<lparr>sm_version := v,
            sm_nodes := AList.update n (e\<lparr>endpoints := es, de_version := v\<rparr>) (sm_nodes sm)\<rparr>)"
| "apply_validated (Remove n) sm =
     sm\<lparr>sm_version := sm_version sm + 1,
        sm_nodes := AList.delete n (sm_nodes sm),
        sm_borders := filter (\<lambda>(p, b). b \<noteq> n) (sm_borders sm),
        sm_keys := filter (\<lambda>(k, ns). ns \<noteq> []) (map (\<lambda>(k, ns). (k, filter (\<lambda>x. x \<noteq> n) ns)) (sm_keys sm))\<rparr>"
| "apply_validated (BorderDeclare p n) sm =
     sm\<lparr>sm_version := sm_version sm + 1, sm_borders := AList.update p n (sm_borders sm)\<rparr>"
| "apply_validated (KeyAggregate k ns) sm =
     sm\<lparr>sm_version := sm_version sm + 1, sm_keys := AList.update k ns (sm_keys sm)\<rparr>"

definition sm_apply :: "cmd_codec \<Rightarrow> byte list \<Rightarrow> directory_sm \<Rightarrow> apply_error + directory_sm" where
  "sm_apply cc bs sm =
     (case decode_cmd cc bs of
        Inl e \<Rightarrow> Inl e
      | Inr cmd \<Rightarrow>
          (case checked_add (sm_version sm) 1 of
             None \<Rightarrow> Inl ApRevisionExhausted
           | Some _ \<Rightarrow> Inr (apply_validated cmd sm)))"

text \<open>\<^verbatim>\<open>collect\<close> of results: the first error, or all values.\<close>

fun collect :: "('e + 'a) list \<Rightarrow> 'e + 'a list" where
  "collect [] = Inr []"
| "collect (r # rs) =
     (case r of Inl e \<Rightarrow> Inl e
      | Inr x \<Rightarrow> (case collect rs of Inl e \<Rightarrow> Inl e | Inr xs \<Rightarrow> Inr (x # xs)))"

definition prepare :: "cmd_codec \<Rightarrow> entries \<Rightarrow> directory_sm \<Rightarrow> apply_error + dir_cmd list" where
  "prepare cc es sm =
     (case checked_add (sm_version sm) (length es) of
        None \<Rightarrow> Inl ApRevisionExhausted
      | Some _ \<Rightarrow> collect (map (\<lambda>e. decode_cmd cc (e_cmd e)) es))"

section \<open>Queries\<close>

definition node_url :: "node_name \<Rightarrow> string" where
  "node_url n = ''parrot://'' @ n"

text \<open>\<^verbatim>\<open>max_by_key\<close> with the length of the key: the last of the longest.\<close>

fun longest_border :: "(string \<times> node_name) list \<Rightarrow> (string \<times> node_name) option" where
  "longest_border [] = None"
| "longest_border (b # bs) =
     (case longest_border bs of
        None \<Rightarrow> Some b
      | Some c \<Rightarrow> if length (fst b) > length (fst c) then Some b else Some c)"

fun sm_query :: "dir_query \<Rightarrow> directory_sm \<Rightarrow> dir_entry option" where
  "sm_query (Resolve p) sm = map_of (sm_nodes sm) p"
| "sm_query (BorderFor p) sm =
     map_option (\<lambda>(q, n). \<lparr>endpoints = [node_url n], de_version = sm_version sm, ttl_s = 60\<rparr>)
       (longest_border (filter (\<lambda>(q, n). prefix q p) (sm_borders sm)))"
| "sm_query (NodesForKey k) sm =
     map_option (\<lambda>ns. \<lparr>endpoints = map node_url ns, de_version = sm_version sm, ttl_s = 30\<rparr>)
       (map_of (sm_keys sm) k)"

section \<open>A replica\<close>

record replica =
  r_raft :: raft_node
  r_sm :: directory_sm

datatype write_error =
    WCommand apply_error
  | WNoShards
  | WUnavailable string
  | WNotLeader string "node_name option"

definition replica_new :: "clock \<Rightarrow> node_name \<Rightarrow> node_name list \<Rightarrow> replica" where
  "replica_new clk i ps = \<lparr>r_raft = raft_new clk i ps, r_sm = sm_default\<rparr>"

definition replica_propose :: "cmd_codec \<Rightarrow> dir_cmd \<Rightarrow> replica \<Rightarrow> ((write_error + nat) \<times> replica) option" where
  "replica_propose cc cmd r =
     (case encode_cmd cc cmd of
        Inl e \<Rightarrow> Some (Inl (WCommand e), r)
      | Inr bs \<Rightarrow>
          (case raft_propose bs (r_raft r) of
             None \<Rightarrow> None
           | Some (Inl (NotLeader h), n) \<Rightarrow> Some (Inl (WNotLeader (node_id n) h), r\<lparr>r_raft := n\<rparr>)
           | Some (Inr i, n) \<Rightarrow> Some (Inr i, r\<lparr>r_raft := n\<rparr>)))"

definition replica_apply_committed :: "cmd_codec \<Rightarrow> replica \<Rightarrow> (apply_error + nat) \<times> replica" where
  "replica_apply_committed cc r =
     (case prepare cc (raft_pending_committed (r_raft r)) (r_sm r) of
        Inl e \<Rightarrow> (Inl e, r)
      | Inr cmds \<Rightarrow>
          (Inr (length cmds),
           r\<lparr>r_raft := snd (raft_committed (r_raft r)), r_sm := fold apply_validated cmds (r_sm r)\<rparr>))"

definition replica_query :: "dir_query \<Rightarrow> replica \<Rightarrow> dir_entry option" where
  "replica_query q r = sm_query q (r_sm r)"

section \<open>Well-formed state\<close>

definition sm_wf :: "directory_sm \<Rightarrow> bool" where
  "sm_wf sm \<longleftrightarrow>
     distinct (map fst (sm_nodes sm)) \<and> distinct (map fst (sm_borders sm)) \<and> distinct (map fst (sm_keys sm)) \<and>
     (\<forall>(n, e) \<in> set (sm_nodes sm). 0 < de_version e \<and> de_version e \<le> sm_version sm)"

lemma distinct_fst_filter: "distinct (map fst xs) \<Longrightarrow> distinct (map fst (filter P xs))"
  by (induction xs) auto

lemma map_fst_map_snd: "map fst (map (\<lambda>(k, v). (k, f k v)) xs) = map fst xs"
  by (induction xs) auto

lemma set_alist_update:
  "(k', v') \<in> set (AList.update k v xs) \<Longrightarrow> (k', v') = (k, v) \<or> (k', v') \<in> set xs"
  by (induction xs) (auto split: if_splits)

lemma set_alist_delete: "(k', v') \<in> set (AList.delete k xs) \<longleftrightarrow> (k', v') \<in> set xs \<and> k' \<noteq> k"
  by (auto simp: AList.delete_eq)

lemma sm_wf_default [simp]: "sm_wf sm_default"
  by (simp add: sm_wf_def sm_default_def)

lemma apply_validated_version [simp]: "sm_version (apply_validated cmd sm) = sm_version sm + 1"
  by (cases cmd) (simp_all add: Let_def)

lemma fold_apply_version: "sm_version (fold apply_validated cmds sm) = sm_version sm + length cmds"
  by (induction cmds arbitrary: sm) simp_all

lemma sm_wf_apply:
  assumes "sm_wf sm"
  shows "sm_wf (apply_validated cmd sm)"
proof (cases cmd)
  case (Upsert n es)
  then show ?thesis
    using assms
    by (fastforce simp: sm_wf_def Let_def AList.distinct_update dest!: set_alist_update)
next
  case (Remove n)
  have "distinct (map fst (AList.delete n (sm_nodes sm)))" using assms by (simp add: sm_wf_def AList.distinct_delete)
  moreover have "distinct (map fst (filter (\<lambda>(k, ns). ns \<noteq> [])
      (map (\<lambda>(k, ns). (k, filter (\<lambda>x. x \<noteq> n) ns)) (sm_keys sm))))"
    using assms by (intro distinct_fst_filter) (simp only: map_fst_map_snd sm_wf_def)
  ultimately show ?thesis
    using assms Remove by (fastforce simp: sm_wf_def distinct_fst_filter set_alist_delete)
next
  case (BorderDeclare p n)
  then show ?thesis using assms by (fastforce simp: sm_wf_def AList.distinct_update)
next
  case (KeyAggregate k ns)
  then show ?thesis using assms by (fastforce simp: sm_wf_def AList.distinct_update)
qed

lemma sm_wf_fold: "sm_wf sm \<Longrightarrow> sm_wf (fold apply_validated cmds sm)"
  by (induction cmds arbitrary: sm) (simp_all add: sm_wf_apply)

section \<open>The longest declared border\<close>

text \<open>
  The specification does not depend on an iteration order: try the query text itself, then its
  prefixes from the longest to the empty one.
\<close>

fun declared_up_to :: "(string \<Rightarrow> node_name option) \<Rightarrow> string \<Rightarrow> nat \<Rightarrow> node_name option" where
  "declared_up_to m p 0 = m []"
| "declared_up_to m p (Suc k) =
     (case m (take (Suc k) p) of Some n \<Rightarrow> Some n | None \<Rightarrow> declared_up_to m p k)"

definition longest_declared :: "(string \<Rightarrow> node_name option) \<Rightarrow> string \<Rightarrow> node_name option" where
  "longest_declared m p = declared_up_to m p (length p)"

lemma declared_up_to_hit:
  "m (take k p) = Some n \<Longrightarrow> k \<le> K \<Longrightarrow> (\<And>j. k < j \<Longrightarrow> j \<le> K \<Longrightarrow> m (take j p) = None) \<Longrightarrow>
   declared_up_to m p K = Some n"
proof (induction K)
  case (Suc K)
  show ?case
  proof (cases "k = Suc K")
    case False
    then have "m (take (Suc K) p) = None" using Suc.prems(2,3) by simp
    then show ?thesis using Suc False by simp
  qed (use Suc.prems in simp)
qed simp

lemma declared_up_to_none: "(\<And>j. j \<le> K \<Longrightarrow> m (take j p) = None) \<Longrightarrow> declared_up_to m p K = None"
proof (induction K)
  case 0
  then show ?case using 0 [of 0] by simp
next
  case (Suc K)
  then show ?case using Suc.prems [of "Suc K"] by simp
qed

lemma longest_border_Some:
  "longest_border bs = Some b \<Longrightarrow> b \<in> set bs \<and> (\<forall>c \<in> set bs. length (fst c) \<le> length (fst b))"
proof (induction bs arbitrary: b)
  case (Cons a bs)
  show ?case
  proof (cases "longest_border bs")
    case None
    then have "bs = []" by (cases bs) (auto split: option.splits if_splits)
    then show ?thesis using Cons.prems by simp
  next
    case (Some c)
    then have c: "c \<in> set bs" "\<forall>d \<in> set bs. length (fst d) \<le> length (fst c)" using Cons.IH by blast+
    show ?thesis
    proof (cases "length (fst a) > length (fst c)")
      case True
      then have "b = a" using Cons.prems Some by simp
      moreover have "\<forall>d \<in> set bs. length (fst d) \<le> length (fst a)" using c(2) True by (meson less_imp_le le_trans)
      ultimately show ?thesis by simp
    next
      case False
      then have "b = c" using Cons.prems Some by simp
      then show ?thesis using c False by simp
    qed
  qed
qed simp

lemma longest_border_None [simp]: "longest_border bs = None \<longleftrightarrow> bs = []"
  by (induction bs) (auto split: option.splits)

lemma longest_border_declared:
  assumes d: "distinct (map fst bs)"
  shows "map_option snd (longest_border (filter (\<lambda>(q, n). prefix q p) bs)) = longest_declared (map_of bs) p"
proof (cases "longest_border (filter (\<lambda>(q, n). prefix q p) bs)")
  case None
  have "map_of bs (take j p) = None" for j
  proof (rule ccontr)
    assume "map_of bs (take j p) \<noteq> None"
    then obtain n where "(take j p, n) \<in> set bs" by (auto dest: map_of_SomeD)
    then have "(take j p, n) \<in> set (filter (\<lambda>(q, n). prefix q p) bs)" by (simp add: take_is_prefix)
    then show False using None by (metis empty_iff list.set(1) longest_border_None)
  qed
  then have "longest_declared (map_of bs) p = None" unfolding longest_declared_def by (intro declared_up_to_none)
  with None show ?thesis by simp
next
  case (Some b)
  obtain q n where b: "b = (q, n)" by (cases b)
  from longest_border_Some [OF Some] b have q: "(q, n) \<in> set bs" "prefix q p"
    and mx: "\<And>q' n'. (q', n') \<in> set bs \<Longrightarrow> prefix q' p \<Longrightarrow> length q' \<le> length q" by auto
  have tk: "take (length q) p = q" using q(2) by (auto simp: prefix_def)
  have "declared_up_to (map_of bs) p (length p) = Some n"
  proof (rule declared_up_to_hit [where k = "length q"])
    show "map_of bs (take (length q) p) = Some n" using q(1) d by (simp add: tk)
    show "length q \<le> length p" using q(2) by (rule prefix_length_le)
    show "map_of bs (take j p) = None" if "length q < j" "j \<le> length p" for j
    proof (rule ccontr)
      assume "map_of bs (take j p) \<noteq> None"
      then obtain m where "(take j p, m) \<in> set bs" by (auto dest: map_of_SomeD)
      from mx [OF this take_is_prefix] that show False by simp
    qed
  qed
  with Some b show ?thesis by (simp add: longest_declared_def)
qed

section \<open>Replaying a log\<close>

text \<open>Applying committed entries one at a time, as the state machine's own \<^verbatim>\<open>apply\<close> does.\<close>

fun replay :: "cmd_codec \<Rightarrow> entries \<Rightarrow> directory_sm \<Rightarrow> apply_error + directory_sm" where
  "replay cc [] sm = Inr sm"
| "replay cc (e # es) sm = (case sm_apply cc (e_cmd e) sm of Inl x \<Rightarrow> Inl x | Inr sm' \<Rightarrow> replay cc es sm')"

lemma replay_collect:
  "replay cc es sm = Inr sm' \<longleftrightarrow>
     (es = [] \<or> sm_version sm + length es \<le> u64_max) \<and>
     (\<exists>cmds. collect (map (\<lambda>e. decode_cmd cc (e_cmd e)) es) = Inr cmds \<and> sm' = fold apply_validated cmds sm)"
proof (induction es arbitrary: sm)
  case (Cons e es)
  show ?case
  proof (cases "decode_cmd cc (e_cmd e)")
    case (Inl x)
    then show ?thesis by (simp add: sm_apply_def)
  next
    case (Inr cmd)
    have "sm_version sm + 1 \<le> u64_max" if "replay cc (e # es) sm = Inr sm'"
      using that Inr by (auto simp: sm_apply_def checked_add_Some split: option.splits)
    then have "replay cc (e # es) sm = Inr sm' \<longleftrightarrow>
        sm_version sm + 1 \<le> u64_max \<and> replay cc es (apply_validated cmd sm) = Inr sm'"
      using Inr by (auto simp: sm_apply_def checked_add_def split: option.splits)
    then show ?thesis
      using Inr Cons.IH [of "apply_validated cmd sm"] by (cases "es = []") (auto split: sum.splits)
  qed
qed auto

section \<open>The guarantees of the state machine\<close>

text \<open>
  Removing a node removes every reference to it: after the command is applied the node is in
  no entry, no border and no service key, no key is left without nodes, the directory stays
  well-formed, every other node's entry is as it was, and the revision has grown by one.
\<close>

theorem remove_cascades:
  assumes "sm_wf sm"
  shows "let sm' = apply_validated (Remove n) sm in
     sm_wf sm' \<and> sm_version sm' = sm_version sm + 1 \<and>
     sm_query (Resolve n) sm' = None \<and> n \<notin> snd ` set (sm_borders sm') \<and>
     (\<forall>(k, ns) \<in> set (sm_keys sm'). n \<notin> set ns \<and> ns \<noteq> []) \<and>
     (\<forall>x. x \<noteq> n \<longrightarrow> sm_query (Resolve x) sm' = sm_query (Resolve x) sm)"
  using sm_wf_apply [OF assms, of "Remove n"]
  by (auto simp: Let_def AList.delete_conv)

text \<open>
  The border of a text is the node of the longest declared prefix, whatever the iteration
  order of the hash map: the search over the map equals the search from the whole text down to the
  empty prefix.
\<close>

theorem border_is_longest_declared:
  assumes "sm_wf sm"
  shows "sm_query (BorderFor p) sm =
     map_option (\<lambda>n. \<lparr>endpoints = [node_url n], de_version = sm_version sm, ttl_s = 60\<rparr>)
       (longest_declared (map_of (sm_borders sm)) p)"
proof -
  have "distinct (map fst (sm_borders sm))" using assms by (simp add: sm_wf_def)
  from longest_border_declared [OF this, of p, symmetric] show ?thesis
    by (cases "longest_border (filter (\<lambda>(q, n). prefix q p) (sm_borders sm))") auto
qed

text \<open>
  Committed entries are applied all or not at all, and in the way the state machine applies
  them one by one: the batch succeeds exactly when applying each entry in turn does, with the same
  state; when it fails, neither the state nor the pending entries change.
\<close>

theorem apply_committed_is_replay:
  assumes "sm_version (r_sm r) \<le> u64_max" and "replica_apply_committed cc r = (res, r')"
  shows "(\<forall>sm'. replay cc (pending_apply (r_raft r)) (r_sm r) = Inr sm' \<longleftrightarrow>
            isl res = False \<and> r_sm r' = sm') \<and>
     (isl res \<longrightarrow> r' = r) \<and>
     (\<not> isl res \<longrightarrow> pending_apply (r_raft r') = [] \<and>
        sm_version (r_sm r') = sm_version (r_sm r) + length (pending_apply (r_raft r)))"
proof -
  let ?es = "pending_apply (r_raft r)"
  have vs: "(?es = [] \<or> sm_version (r_sm r) + length ?es \<le> u64_max) =
      (checked_add (sm_version (r_sm r)) (length ?es) \<noteq> None)"
    using assms(1) by (cases ?es) (auto simp: checked_add_def)
  have len: "collect xs = Inr ys \<Longrightarrow> length ys = length xs" for xs :: "(apply_error + dir_cmd) list" and ys
    by (induction xs arbitrary: ys) (auto split: sum.splits)
  show ?thesis
  proof (cases "prepare cc ?es (r_sm r)")
    case (Inl e)
    then have "res = Inl e" "r' = r"
      using assms(2) by (auto simp: replica_apply_committed_def raft_pending_committed_def)
    moreover have "\<not> (checked_add (sm_version (r_sm r)) (length ?es) \<noteq> None \<and>
        (\<exists>cmds. collect (map (\<lambda>e. decode_cmd cc (e_cmd e)) ?es) = Inr cmds))"
      using Inl by (auto simp: prepare_def split: option.splits)
    ultimately show ?thesis unfolding replay_collect vs by auto
  next
    case (Inr cmds)
    then have r: "res = Inr (length cmds)"
      "r' = r\<lparr>r_raft := snd (raft_committed (r_raft r)), r_sm := fold apply_validated cmds (r_sm r)\<rparr>"
      using assms(2) by (auto simp: replica_apply_committed_def raft_pending_committed_def)
    have "checked_add (sm_version (r_sm r)) (length ?es) \<noteq> None"
      "collect (map (\<lambda>e. decode_cmd cc (e_cmd e)) ?es) = Inr cmds"
      using Inr by (auto simp: prepare_def split: option.splits)
    then show ?thesis
      unfolding replay_collect vs using len
      by (auto simp: r raft_committed_def fold_apply_version)
  qed
qed

definition demo_cmd_codec :: cmd_codec where
  "demo_cmd_codec = \<lparr>c_enc = (\<lambda>_. [0]), c_dec = (\<lambda>bs. if bs = [7] then Some (Remove ''n1'') else None)\<rparr>"

end
