(* ===== verification/Durable_Directory.thy ===== *)
theory Durable_Directory
  imports Directory Raft_Storage
begin

text \<open>
  The disk-backed directory group, \<^verbatim>\<open>roles/directory/durable.rs\<close> and
  \<^verbatim>\<open>roles/directory/request.rs\<close>: one owner for the durable Raft host and the state machine,
  persistent request identities with their statuses, and linear reads by a barrier entry. The
  codecs and SHA-256 are arguments. The identity of a live host, which the source compares by
  pointer, is a number that an opening is given. \<^term>\<open>None\<close> is a panic, as in the Raft theories.
\<close>

section \<open>Request envelopes\<close>

record request =
  rq_client :: string
  rq_id :: string
  rq_command :: dir_cmd

datatype stored_command = ReadBarrier | Plain dir_cmd | Request request

datatype request_status =
    Unknown
  | ReqPending nat nat
  | ReqApplied nat nat nat
  | Conflict

record dir_codec =
  dc_cmd :: cmd_codec
  dc_enc :: "request \<Rightarrow> byte list"
  dc_dec :: "byte list \<Rightarrow> request option"
  dc_sha :: "byte list \<Rightarrow> byte list"

definition request_magic :: "byte list" where
  "request_magic = [255, 68, 73, 82, 1]"

definition read_barrier :: "byte list" where
  "read_barrier = [255, 68, 73, 82, 2]"

definition identity :: "string \<Rightarrow> string \<Rightarrow> apply_error + unit" where
  "identity client i =
     (if \<not> validate_node_id client then Inl ApInvalid
      else if length client > 1024 \<or> i = [] \<or> length i > 128 \<or> has_control i then Inl ApInvalid
      else Inr ())"

definition command_digest :: "dir_codec \<Rightarrow> dir_cmd \<Rightarrow> apply_error + byte list" where
  "command_digest dc cmd = map_sum id (dc_sha dc) (encode_cmd (dc_cmd dc) cmd)"

definition encode_request :: "dir_codec \<Rightarrow> string \<Rightarrow> string \<Rightarrow> dir_cmd \<Rightarrow> apply_error + byte list" where
  "encode_request dc client i cmd =
     and_then (identity client i)
       (case encode_cmd (dc_cmd dc) cmd of
          Inl e \<Rightarrow> Inl e
        | Inr _ \<Rightarrow>
            let body = dc_enc dc \<lparr>rq_client = client, rq_id = i, rq_command = cmd\<rparr> in
            if length request_magic + length body > max_command_bytes then Inl ApCapacity
            else Inr (request_magic @ body))"

definition decode_stored :: "dir_codec \<Rightarrow> byte list \<Rightarrow> apply_error + stored_command" where
  "decode_stored dc bs =
     (if bs = read_barrier then Inr ReadBarrier
      else if length bs > max_command_bytes then Inl ApCapacity
      else if prefix request_magic bs then
        (case dc_dec dc (drop (length request_magic) bs) of
           None \<Rightarrow> Inl ApInvalid
         | Some r \<Rightarrow>
             and_then (identity (rq_client r) (rq_id r))
               (case encode_cmd (dc_cmd dc) (rq_command r) of Inl e \<Rightarrow> Inl e | Inr _ \<Rightarrow> Inr (Request r)))
      else map_sum id Plain (decode_cmd (dc_cmd dc) bs))"

section \<open>The group owner\<close>

type_synonym request_table = "((string \<times> string) \<times> (byte list \<times> request_status)) list"

record directory_host =
  dd_raft :: durable
  dd_sm :: directory_sm
  dd_applied :: nat
  dd_failed :: bool
  dd_peers :: "node_name list"
  dd_identity :: nat
  dd_requests :: request_table

datatype dd_error = DStorage storage_error | DCommand apply_error | DClosed

record receipt =
  rc_index :: nat
  rc_term :: nat
  rc_digest :: "byte list"
  rc_identity :: nat

datatype dd_status = StPending | StApplied | StConflict | StForeign

record read_ticket =
  tk_receipt :: receipt
  tk_query :: dir_query
  tk_complete :: bool

record directory_read =
  rd_entry :: "dir_entry option"
  rd_barrier :: nat
  rd_applied :: nat
  rd_term :: nat

definition dd_is_closed :: "nat \<Rightarrow> directory_host \<Rightarrow> bool" where
  "dd_is_closed me h \<longleftrightarrow> dd_failed h \<or> is_closed me (dd_raft h)"

section \<open>Applying committed entries\<close>

definition changes :: "request_table \<Rightarrow> (string \<times> string) list \<Rightarrow> stored_command \<Rightarrow> bool" where
  "changes reqs new cmd =
     (case cmd of
        ReadBarrier \<Rightarrow> False
      | Plain _ \<Rightarrow> True
      | Request r \<Rightarrow> map_of reqs (rq_client r, rq_id r) = None \<and> (rq_client r, rq_id r) \<notin> set new)"

fun count_changes :: "request_table \<Rightarrow> (string \<times> string) list \<Rightarrow> stored_command list \<Rightarrow> nat" where
  "count_changes reqs new [] = 0"
| "count_changes reqs new (cmd # cmds) =
     (if changes reqs new cmd
      then Suc (count_changes reqs
             (case cmd of Request r \<Rightarrow> (rq_client r, rq_id r) # new | _ \<Rightarrow> new) cmds)
      else count_changes reqs new cmds)"

definition prepare_requests :: "dir_codec \<Rightarrow> nat \<Rightarrow> directory_host \<Rightarrow> dd_error + stored_command list" where
  "prepare_requests dc me h =
     (case durable_pending me (dd_raft h) of
        Inl e \<Rightarrow> Inl (DStorage e)
      | Inr es \<Rightarrow>
          (case collect (map (\<lambda>e. decode_stored dc (e_cmd e)) es) of
             Inl e \<Rightarrow> Inl (DCommand e)
           | Inr cmds \<Rightarrow>
               (case checked_add (sm_version (dd_sm h)) (count_changes (dd_requests h) [] cmds) of
                  None \<Rightarrow> Inl (DCommand ApRevisionExhausted)
                | Some _ \<Rightarrow> Inr cmds)))"

fun apply_stored ::
  "dir_codec \<Rightarrow> log_entry \<times> stored_command \<Rightarrow> directory_sm \<times> request_table
     \<Rightarrow> apply_error + directory_sm \<times> request_table" where
  "apply_stored dc (e, ReadBarrier) (sm, reqs) = Inr (sm, reqs)"
| "apply_stored dc (e, Plain cmd) (sm, reqs) = Inr (apply_validated cmd sm, reqs)"
| "apply_stored dc (e, Request r) (sm, reqs) =
     (if map_of reqs (rq_client r, rq_id r) \<noteq> None then Inr (sm, reqs)
      else case command_digest dc (rq_command r) of
             Inl x \<Rightarrow> Inl x
           | Inr dg \<Rightarrow>
               let sm' = apply_validated (rq_command r) sm in
               Inr (sm', AList.update (rq_client r, rq_id r)
                     (dg, ReqApplied (e_index e) (e_term e) (sm_version sm')) reqs))"

fun apply_all ::
  "dir_codec \<Rightarrow> (log_entry \<times> stored_command) list \<Rightarrow> directory_sm \<times> request_table
     \<Rightarrow> apply_error option \<times> directory_sm \<times> request_table" where
  "apply_all dc [] s = (None, s)"
| "apply_all dc (x # xs) s =
     (case apply_stored dc x s of Inl e \<Rightarrow> (Some e, s) | Inr s' \<Rightarrow> apply_all dc xs s')"

definition apply_pending :: "dir_codec \<Rightarrow> nat \<Rightarrow> directory_host \<Rightarrow> (dd_error + unit) \<times> directory_host" where
  "apply_pending dc me h =
     (case prepare_requests dc me h of
        Inl e \<Rightarrow> (Inl e, h\<lparr>dd_failed := True\<rparr>)
      | Inr cmds \<Rightarrow>
          (case durable_committed me (dd_raft h) of
             (Inl e, d) \<Rightarrow> (Inl (DStorage e), h\<lparr>dd_raft := d\<rparr>)
           | (Inr es, d) \<Rightarrow>
               (case apply_all dc (zip es cmds) (dd_sm h, dd_requests h) of
                  (Some e, sm, reqs) \<Rightarrow>
                    (Inl (DCommand e), h\<lparr>dd_raft := d, dd_sm := sm, dd_requests := reqs\<rparr>)
                | (None, sm, reqs) \<Rightarrow>
                    (Inr (), h\<lparr>dd_raft := d, dd_sm := sm, dd_requests := reqs,
                               dd_applied := (if es = [] then dd_applied h else e_index (last es))\<rparr>))))"

section \<open>Operations\<close>

type_synonym 'a dd_outcome = "(dd_error + 'a) \<times> directory_host \<times> disk"

definition after_raft ::
  "dir_codec \<Rightarrow> nat \<Rightarrow> directory_host \<Rightarrow> 'a outcome option \<Rightarrow> ('a \<Rightarrow> directory_host \<Rightarrow> 'b) \<Rightarrow> 'b dd_outcome option" where
  "after_raft dc me h r k =
     (case r of
        None \<Rightarrow> None
      | Some (Inl e, d, dk) \<Rightarrow> Some (Inl (DStorage e), h\<lparr>dd_raft := d\<rparr>, dk)
      | Some (Inr x, d, dk) \<Rightarrow>
          (case apply_pending dc me (h\<lparr>dd_raft := d\<rparr>) of
             (Inl e, h') \<Rightarrow> Some (Inl e, h', dk)
           | (Inr _, h') \<Rightarrow> Some (Inr (k x h'), h', dk)))"

definition dd_tick ::
  "dir_codec \<Rightarrow> codec \<Rightarrow> nat \<Rightarrow> clock \<Rightarrow> io \<Rightarrow> directory_host \<Rightarrow> disk \<Rightarrow> unit dd_outcome option" where
  "dd_tick dc cd me clk out h dk =
     (if dd_is_closed me h then Some (Inl DClosed, h, dk)
      else after_raft dc me h (durable_tick cd me clk out (dd_raft h) dk) (\<lambda>_ _. ()))"

definition entries_admitted :: "dir_codec \<Rightarrow> raft_rpc \<Rightarrow> apply_error + unit" where
  "entries_admitted dc rpc =
     (case rpc of
        AppendEntries t l pli plt es lc \<Rightarrow>
          if length es > 65536 \<or> \<not> commands_fit es then Inl ApCapacity
          else map_sum id (\<lambda>_. ()) (collect (map (\<lambda>e. decode_stored dc (e_cmd e)) es))
      | _ \<Rightarrow> Inr ())"

definition dd_step ::
  "dir_codec \<Rightarrow> codec \<Rightarrow> nat \<Rightarrow> clock \<Rightarrow> io \<Rightarrow> node_name \<Rightarrow> raft_rpc \<Rightarrow> directory_host \<Rightarrow> disk
     \<Rightarrow> unit dd_outcome option" where
  "dd_step dc cd me clk out from rpc h dk =
     (if dd_is_closed me h then Some (Inl DClosed, h, dk)
      else if from \<notin> set (dd_peers h) then Some (Inr (), h, dk)
      else case entries_admitted dc rpc of
             Inl e \<Rightarrow> Some (Inl (DCommand e), h, dk)
           | Inr _ \<Rightarrow> after_raft dc me h (durable_step cd me clk out from rpc (dd_raft h) dk) (\<lambda>_ _. ()))"

definition dd_receipt :: "dir_codec \<Rightarrow> byte list \<Rightarrow> nat \<Rightarrow> directory_host \<Rightarrow> receipt" where
  "dd_receipt dc bs i h =
     \<lparr>rc_index = i, rc_term = s_term (d_saved (dd_raft h)), rc_digest = dc_sha dc bs, rc_identity = dd_identity h\<rparr>"

definition dd_propose ::
  "dir_codec \<Rightarrow> codec \<Rightarrow> nat \<Rightarrow> io \<Rightarrow> dir_cmd \<Rightarrow> directory_host \<Rightarrow> disk \<Rightarrow> receipt dd_outcome option" where
  "dd_propose dc cd me out cmd h dk =
     (if dd_is_closed me h then Some (Inl DClosed, h, dk)
      else case encode_cmd (dc_cmd dc) cmd of
             Inl e \<Rightarrow> Some (Inl (DCommand e), h, dk)
           | Inr bs \<Rightarrow> after_raft dc me h (durable_propose cd me out bs (dd_raft h) dk) (dd_receipt dc bs))"

definition dd_outbox ::
  "nat \<Rightarrow> directory_host \<Rightarrow> (dd_error + (node_name \<times> raft_rpc) list) \<times> directory_host" where
  "dd_outbox me h =
     (if dd_is_closed me h then (Inl DClosed, h)
      else case durable_outbox me (dd_raft h) of
             (Inl e, d) \<Rightarrow> (Inl (DStorage e), h\<lparr>dd_raft := d\<rparr>)
           | (Inr ms, d) \<Rightarrow> (Inr ms, h\<lparr>dd_raft := d\<rparr>))"

section \<open>Request status\<close>

fun scan_pending ::
  "dir_codec \<Rightarrow> string \<Rightarrow> string \<Rightarrow> byte list \<Rightarrow> request_status \<Rightarrow> entries \<Rightarrow> apply_error + request_status" where
  "scan_pending dc client i dg pending [] = Inr pending"
| "scan_pending dc client i dg pending (e # es) =
     (case decode_stored dc (e_cmd e) of
        Inl x \<Rightarrow> Inl x
      | Inr (Request r) \<Rightarrow>
          if rq_client r = client \<and> rq_id r = i then
            (case command_digest dc (rq_command r) of
               Inl x \<Rightarrow> Inl x
             | Inr d \<Rightarrow>
                 if d = dg then scan_pending dc client i dg (ReqPending (e_index e) (e_term e)) es
                 else if pending = Unknown then Inr Conflict
                 else scan_pending dc client i dg pending es)
          else scan_pending dc client i dg pending es
      | Inr _ \<Rightarrow> scan_pending dc client i dg pending es)"

definition dd_request_status ::
  "dir_codec \<Rightarrow> nat \<Rightarrow> string \<Rightarrow> string \<Rightarrow> byte list \<Rightarrow> directory_host \<Rightarrow> (dd_error + request_status) option" where
  "dd_request_status dc me client i dg h =
     (if dd_is_closed me h then Some (Inl DClosed)
      else case identity client i of
             Inl e \<Rightarrow> Some (Inl (DCommand e))
           | Inr _ \<Rightarrow>
               (case map_of (dd_requests h) (client, i) of
                  Some (d, st) \<Rightarrow> Some (Inr (if d = dg then st else Conflict))
                | None \<Rightarrow>
                    map_option (\<lambda>es. map_sum DCommand id (scan_pending dc client i dg Unknown es))
                      (slice_from (s_log (d_saved (dd_raft h))) (dd_applied h))))"

definition dd_role :: "nat \<Rightarrow> directory_host \<Rightarrow> role" where
  "dd_role me h = (if dd_is_closed me h then Follower else durable_role me (dd_raft h))"

definition dd_leader_hint :: "nat \<Rightarrow> directory_host \<Rightarrow> node_name option" where
  "dd_leader_hint me h = (if dd_is_closed me h then None else durable_leader_hint me (dd_raft h))"

definition dd_current_term :: "directory_host \<Rightarrow> nat" where
  "dd_current_term h = s_term (d_saved (dd_raft h))"

definition submit_new ::
  "dir_codec \<Rightarrow> codec \<Rightarrow> nat \<Rightarrow> io \<Rightarrow> string \<Rightarrow> string \<Rightarrow> byte list \<Rightarrow> byte list \<Rightarrow> directory_host \<Rightarrow> disk
     \<Rightarrow> request_status dd_outcome option" where
  "submit_new dc cd me out client i bs dg h dk =
     (case after_raft dc me h (durable_propose cd me out bs (dd_raft h) dk) (\<lambda>_ _. ()) of
        None \<Rightarrow> None
      | Some (Inl e, h', dk') \<Rightarrow> Some (Inl e, h', dk')
      | Some (Inr _, h', dk') \<Rightarrow>
          map_option (\<lambda>st. (st, h', dk')) (dd_request_status dc me client i dg h'))"

definition dd_submit_request ::
  "dir_codec \<Rightarrow> codec \<Rightarrow> nat \<Rightarrow> io \<Rightarrow> string \<Rightarrow> string \<Rightarrow> dir_cmd \<Rightarrow> directory_host \<Rightarrow> disk
     \<Rightarrow> request_status dd_outcome option" where
  "dd_submit_request dc cd me out client i cmd h dk =
     (if dd_is_closed me h then Some (Inl DClosed, h, dk)
      else case encode_request dc client i cmd of
        Inl e \<Rightarrow> Some (Inl (DCommand e), h, dk)
      | Inr bs \<Rightarrow>
          (case command_digest dc cmd of
             Inl e \<Rightarrow> Some (Inl (DCommand e), h, dk)
           | Inr dg \<Rightarrow>
               (case dd_request_status dc me client i dg h of
                  None \<Rightarrow> None
                | Some (Inl e) \<Rightarrow> Some (Inl e, h, dk)
                | Some (Inr st) \<Rightarrow>
                    (case st of
                       ReqApplied _ _ _ \<Rightarrow> Some (Inr st, h, dk)
                     | Conflict \<Rightarrow> Some (Inr st, h, dk)
                     | ReqPending _ t \<Rightarrow>
                         if dd_role me h \<noteq> Leader
                         then Some (Inl (DStorage (NotLeaderErr (dd_leader_hint me h))), h, dk)
                         else if t = dd_current_term h then Some (Inr st, h, dk)
                         else submit_new dc cd me out client i bs dg h dk
                     | Unknown \<Rightarrow> submit_new dc cd me out client i bs dg h dk))))"

section \<open>Reads\<close>

definition dd_query_local :: "nat \<Rightarrow> dir_query \<Rightarrow> directory_host \<Rightarrow> dd_error + dir_entry option" where
  "dd_query_local me q h = (if dd_is_closed me h then Inl DClosed else Inr (sm_query q (dd_sm h)))"

definition dd_begin_linear_read ::
  "dir_codec \<Rightarrow> codec \<Rightarrow> nat \<Rightarrow> io \<Rightarrow> dir_query \<Rightarrow> directory_host \<Rightarrow> disk \<Rightarrow> read_ticket dd_outcome option" where
  "dd_begin_linear_read dc cd me out q h dk =
     (if dd_is_closed me h then Some (Inl DClosed, h, dk)
      else case validate_query q of
             Inl e \<Rightarrow> Some (Inl (DCommand e), h, dk)
           | Inr _ \<Rightarrow>
               after_raft dc me h (durable_propose cd me out read_barrier (dd_raft h) dk)
                 (\<lambda>i h'. \<lparr>tk_receipt = dd_receipt dc read_barrier i h', tk_query = q, tk_complete = False\<rparr>))"

definition dd_proposal_status :: "dir_codec \<Rightarrow> nat \<Rightarrow> receipt \<Rightarrow> directory_host \<Rightarrow> dd_error + dd_status" where
  "dd_proposal_status dc me rc h =
     (if dd_is_closed me h then Inl DClosed
      else if rc_identity rc \<noteq> dd_identity h then Inr StForeign
      else case get_at (s_log (d_saved (dd_raft h))) (rc_index rc - 1) of
             None \<Rightarrow> Inr StConflict
           | Some e \<Rightarrow>
               if e_term e \<noteq> rc_term rc \<or> dc_sha dc (e_cmd e) \<noteq> rc_digest rc then Inr StConflict
               else Inr (if dd_applied h \<ge> rc_index rc then StApplied else StPending))"

definition dd_poll_linear_read ::
  "dir_codec \<Rightarrow> nat \<Rightarrow> read_ticket \<Rightarrow> directory_host \<Rightarrow> (dd_error + directory_read option) \<times> read_ticket" where
  "dd_poll_linear_read dc me tk h =
     (if dd_is_closed me h then (Inl DClosed, tk)
      else if tk_complete tk \<or> rc_identity (tk_receipt tk) \<noteq> dd_identity h
        then (Inl (DCommand ApInvalid), tk)
      else if dd_role me h \<noteq> Leader \<or> dd_current_term h \<noteq> rc_term (tk_receipt tk)
        then (Inl (DStorage (NotLeaderErr (dd_leader_hint me h))), tk\<lparr>tk_complete := True\<rparr>)
      else case dd_proposal_status dc me (tk_receipt tk) h of
             Inl e \<Rightarrow> (Inl e, tk)
           | Inr StApplied \<Rightarrow>
               (Inr (Some \<lparr>rd_entry = sm_query (tk_query tk) (dd_sm h), rd_barrier = rc_index (tk_receipt tk),
                           rd_applied = dd_applied h, rd_term = rc_term (tk_receipt tk)\<rparr>),
                tk\<lparr>tk_complete := True\<rparr>)
           | Inr StPending \<Rightarrow> (Inr None, tk)
           | Inr _ \<Rightarrow> (Inl (DCommand ApInvalid), tk\<lparr>tk_complete := True\<rparr>))"

section \<open>Opening\<close>

definition dd_open ::
  "dir_codec \<Rightarrow> codec \<Rightarrow> fs_env \<Rightarrow> string \<Rightarrow> node_name \<Rightarrow> node_name list \<Rightarrow> clock \<Rightarrow> nat \<Rightarrow> nat \<Rightarrow> disk
     \<Rightarrow> (dd_error + directory_host) \<times> disk" where
  "dd_open dc cd fs cl i ps clk me ident dk =
     (if cl = [] \<or> has_control cl then (Inl (DCommand ApInvalid), dk)
      else case open_validated cd fs (''directory-v1:'' @ cl) i ps clk
                  (\<lambda>bs. \<not> isl (decode_stored dc bs)) me dk of
        (Inl e, dk') \<Rightarrow> (Inl (DStorage e), dk')
      | (Inr d, dk') \<Rightarrow>
          (case apply_pending dc me
                  \<lparr>dd_raft = d, dd_sm = sm_default, dd_applied = 0, dd_failed = False,
                   dd_peers = remdups_adj (sort (filter (\<lambda>p. p \<noteq> i) ps)), dd_identity = ident,
                   dd_requests = []\<rparr> of
             (Inl e, h) \<Rightarrow> (Inl e, dk')
           | (Inr _, h) \<Rightarrow> (Inr h, dk')))"

end
