(* ===== verification/Directory_Durability.thy ===== *)
theory Directory_Durability
  imports Durable_Directory Raft_Durability Raft_Robust
begin

text \<open>
  What the disk-backed directory guarantees: the state machine and the request table are always
  the replay of the durable committed log, so reopening rebuilds them; a request identity runs its
  business command once however often it is in the log; and a linear read reports the state at a
  committed barrier of the reader's own term.
\<close>

section \<open>Requests run once\<close>

text \<open>The commands that change the directory: of the entries of one identity only the first.\<close>

definition request_key :: "request \<Rightarrow> string \<times> string" where
  "request_key r = (rq_client r, rq_id r)"

fun effective :: "(string \<times> string) set \<Rightarrow> stored_command list \<Rightarrow> dir_cmd list" where
  "effective seen [] = []"
| "effective seen (ReadBarrier # xs) = effective seen xs"
| "effective seen (Plain cmd # xs) = cmd # effective seen xs"
| "effective seen (Request r # xs) =
     (if request_key r \<in> seen then effective seen xs
      else rq_command r # effective (insert (request_key r) seen) xs)"

fun stored_keys :: "stored_command list \<Rightarrow> (string \<times> string) set" where
  "stored_keys [] = {}"
| "stored_keys (Request r # xs) = insert (request_key r) (stored_keys xs)"
| "stored_keys (_ # xs) = stored_keys xs"

lemma stored_keys_member: "Request r \<in> set xs \<Longrightarrow> request_key r \<in> stored_keys xs"
  by (induction xs rule: stored_keys.induct) auto

definition digestible :: "dir_codec \<Rightarrow> stored_command \<Rightarrow> bool" where
  "digestible dc cmd \<longleftrightarrow> (case cmd of Request r \<Rightarrow> \<not> isl (command_digest dc (rq_command r)) | _ \<Rightarrow> True)"

lemma decode_digestible: "decode_stored dc bs = Inr cmd \<Longrightarrow> digestible dc cmd"
  by (auto simp: decode_stored_def digestible_def command_digest_def and_then_def map_sum_def
      split: if_splits option.splits sum.splits)

lemma collect_set: "collect rs = Inr xs \<Longrightarrow> x \<in> set xs \<Longrightarrow> Inr x \<in> set rs"
  by (induction rs arbitrary: xs) (auto split: sum.splits)

lemma collect_length: "collect rs = Inr xs \<Longrightarrow> length xs = length rs"
  by (induction rs arbitrary: xs) (auto split: sum.splits)

lemma collect_append:
  "collect rs = Inr xs \<Longrightarrow> collect qs = Inr ys \<Longrightarrow> collect (rs @ qs) = Inr (xs @ ys)"
  by (induction rs arbitrary: xs) (auto split: sum.splits)

lemma apply_all_effective:
  assumes "\<forall>x \<in> set xs. digestible dc (snd x)"
  shows "\<exists>reqs'. apply_all dc xs (sm, reqs) =
      (None, fold apply_validated (effective (dom (map_of reqs)) (map snd xs)) sm, reqs') \<and>
      dom (map_of reqs') = dom (map_of reqs) \<union> stored_keys (map snd xs) \<and>
      (\<forall>k v. map_of reqs k = Some v \<longrightarrow> map_of reqs' k = Some v)"
  using assms
proof (induction xs arbitrary: sm reqs)
  case (Cons x xs)
  obtain e cmd where x: "x = (e, cmd)" by (cases x)
  have d: "\<forall>x \<in> set xs. digestible dc (snd x)" using Cons.prems by simp
  show ?case
  proof (cases cmd)
    case ReadBarrier
    then show ?thesis using Cons.IH [OF d, of sm reqs] x by simp
  next
    case (Plain c)
    then show ?thesis using Cons.IH [OF d, of "apply_validated c sm" reqs] x by simp
  next
    case (Request r)
    show ?thesis
    proof (cases "map_of reqs (request_key r) = None")
      case False
      then show ?thesis using Cons.IH [OF d, of sm reqs] x Request by (auto simp: request_key_def)
    next
      case True
      obtain dg where dg: "command_digest dc (rq_command r) = Inr dg"
        using Cons.prems x Request by (cases "command_digest dc (rq_command r)") (auto simp: digestible_def)
      let ?sm = "apply_validated (rq_command r) sm"
      let ?reqs = "AList.update (request_key r) (dg, ReqApplied (e_index e) (e_term e) (sm_version ?sm)) reqs"
      have "dom (map_of ?reqs) = insert (request_key r) (dom (map_of reqs))" by (simp add: AList.update_conv')
      moreover have "apply_all dc (x # xs) (sm, reqs) = apply_all dc xs (?sm, ?reqs)"
        using True dg x Request by (simp add: request_key_def Let_def)
      moreover have "\<forall>k v. map_of reqs k = Some v \<longrightarrow> map_of ?reqs k = Some v"
        using True by (auto simp: AList.update_conv')
      ultimately show ?thesis
        using Cons.IH [OF d, of ?sm ?reqs] x Request True by (auto simp: domIff)
    qed
  qed
qed auto

text \<open>
  The answer to a request identity that was not seen before: that of its first entry \<open>j\<close>, with the digest of the
  command it ran and the revision, which counts from \<open>v\<close> the commands that had run by then.
\<close>

definition answers ::
  "dir_codec \<Rightarrow> (string \<times> string) set \<Rightarrow> nat \<Rightarrow> (log_entry \<times> stored_command) list \<Rightarrow> string \<times> string \<Rightarrow> byte list \<times> request_status \<Rightarrow> bool" where
  "answers dc seen v xs k a \<longleftrightarrow>
     (\<exists>j r dg. j < length xs \<and> snd (xs ! j) = Request r \<and> request_key r = k \<and> k \<notin> stored_keys (map snd (take j xs)) \<and>
        command_digest dc (rq_command r) = Inr dg \<and>
        a = (dg, ReqApplied (e_index (fst (xs ! j))) (e_term (fst (xs ! j)))
               (v + length (effective seen (map snd (take (Suc j) xs))))))"

lemma answers_later:
  assumes "answers dc seen1 v1 xs k a" and "\<And>cs. k \<in> stored_keys (snd x # cs) \<Longrightarrow> k \<in> stored_keys cs"
    and "\<And>cs. v1 + length (effective seen1 cs) = v + length (effective seen (snd x # cs))"
  shows "answers dc seen v (x # xs) k a"
proof -
  obtain j r dg where j: "j < length xs" "snd (xs ! j) = Request r" "request_key r = k" "k \<notin> stored_keys (map snd (take j xs))"
    "command_digest dc (rq_command r) = Inr dg"
    "a = (dg, ReqApplied (e_index (fst (xs ! j))) (e_term (fst (xs ! j))) (v1 + length (effective seen1 (map snd (take (Suc j) xs)))))"
    using assms(1) unfolding answers_def by blast
  have "k \<notin> stored_keys (map snd (take (Suc j) (x # xs)))" using j(4) assms(2) [of "map snd (take j xs)"] by auto
  then show ?thesis
    unfolding answers_def using j assms(3) [of "map snd (take (Suc j) xs)"]
    by (intro exI [of _ "Suc j"] exI [of _ r] exI [of _ dg]) simp
qed

lemma apply_all_keeps:
  assumes "\<forall>x \<in> set xs. digestible dc (snd x)" and "apply_all dc xs (sm, reqs) = (None, sm', reqs')" and "map_of reqs k = Some a"
  shows "map_of reqs' k = Some a"
proof -
  obtain reqs1 where r1: "apply_all dc xs (sm, reqs) = (None, fold apply_validated (effective (dom (map_of reqs)) (map snd xs)) sm, reqs1)"
    and keep: "\<forall>k v. map_of reqs k = Some v \<longrightarrow> map_of reqs1 k = Some v"
    using apply_all_effective [OF assms(1), of sm reqs] by blast
  have "reqs1 = reqs'" using r1 unfolding assms(2) by simp
  then show ?thesis using keep assms(3) by blast
qed

lemma apply_all_answers:
  assumes "\<forall>x \<in> set xs. digestible dc (snd x)" and "apply_all dc xs (sm, reqs) = (None, sm', reqs')"
    and "map_of reqs k = None" and "map_of reqs' k = Some a"
  shows "answers dc (dom (map_of reqs)) (sm_version sm) xs k a"
  using assms
proof (induction xs arbitrary: sm reqs)
  case (Cons x xs)
  obtain e cmd where x: "x = (e, cmd)" by (cases x)
  have d: "\<forall>x \<in> set xs. digestible dc (snd x)" using Cons.prems by simp
  note IH = Cons.IH [OF d _ _ Cons.prems(4)]
  show ?case
  proof (cases cmd)
    case ReadBarrier
    then show ?thesis using IH [of sm reqs] Cons.prems(2,3) x by (auto intro: answers_later)
  next
    case (Plain c)
    then show ?thesis using IH [of "apply_validated c sm" reqs] Cons.prems(2,3) x by (auto intro: answers_later)
  next
    case (Request r)
    obtain dg where dg: "command_digest dc (rq_command r) = Inr dg"
      using Cons.prems x Request by (cases "command_digest dc (rq_command r)") (auto simp: digestible_def)
    let ?sm = "apply_validated (rq_command r) sm"
    let ?a = "(dg, ReqApplied (e_index e) (e_term e) (sm_version ?sm))"
    let ?reqs = "AList.update (request_key r) ?a reqs"
    consider "map_of reqs (request_key r) \<noteq> None" | "map_of reqs (request_key r) = None" "request_key r \<noteq> k" | "request_key r = k"
      by blast
    then show ?thesis
    proof cases
      case 1
      then show ?thesis
        using IH [of sm reqs] Cons.prems(2,3) x Request by (intro answers_later) (auto simp: request_key_def)
    next
      case 2
      then have "apply_all dc xs (?sm, ?reqs) = (None, sm', reqs')" "map_of ?reqs k = None"
        using Cons.prems(2,3) dg x Request by (simp_all add: request_key_def Let_def AList.update_conv')
      moreover have "dom (map_of ?reqs) = insert (request_key r) (dom (map_of reqs))" by (simp add: AList.update_conv')
      ultimately have "answers dc (insert (request_key r) (dom (map_of reqs))) (sm_version ?sm) xs k a"
        using IH [of ?sm ?reqs] by simp
      then show ?thesis by (rule answers_later) (use x Request 2 in \<open>auto simp: domIff\<close>)
    next
      case 3
      then have "apply_all dc xs (?sm, ?reqs) = (None, sm', reqs')" "map_of ?reqs k = Some ?a"
        using Cons.prems(2,3) dg x Request by (simp_all add: request_key_def Let_def AList.update_conv')
      then have "a = ?a" using apply_all_keeps [OF d] Cons.prems(4) by (metis option.inject)
      then show ?thesis
        unfolding answers_def using 3 dg x Request Cons.prems(3)
        by (intro exI [of _ 0] exI [of _ r] exI [of _ dg]) (auto simp: domIff)
    qed
  qed
qed simp

lemma apply_all_append:
  "apply_all dc xs s = (None, s') \<Longrightarrow> apply_all dc (xs @ ys) s = apply_all dc ys s'"
  by (induction xs arbitrary: s) (auto split: sum.splits)

lemma count_changes_effective:
  "count_changes reqs new cmds = length (effective (dom (map_of reqs) \<union> set new) cmds)"
  by (induction cmds arbitrary: new)
    (auto simp: changes_def request_key_def domIff insert_commute split: stored_command.split)

section \<open>The state is the replay of the committed log\<close>

definition replayed :: "dir_codec \<Rightarrow> entries \<Rightarrow> directory_sm \<Rightarrow> request_table \<Rightarrow> bool" where
  "replayed dc es sm reqs \<longleftrightarrow>
     (\<exists>cmds. collect (map (\<lambda>e. decode_stored dc (e_cmd e)) es) = Inr cmds \<and>
        apply_all dc (zip es cmds) (sm_default, []) = (None, sm, reqs))"

lemma replayed_append:
  assumes "replayed dc es sm reqs" and "collect (map (\<lambda>e. decode_stored dc (e_cmd e)) fs) = Inr cmds"
    and "apply_all dc (zip fs cmds) (sm, reqs) = (None, sm', reqs')"
  shows "replayed dc (es @ fs) sm' reqs'"
proof -
  obtain cs where cs: "collect (map (\<lambda>e. decode_stored dc (e_cmd e)) es) = Inr cs"
    "apply_all dc (zip es cs) (sm_default, []) = (None, sm, reqs)"
    using assms(1) by (auto simp: replayed_def)
  have "length cs = length es" using collect_length [OF cs(1)] by simp
  then have "zip (es @ fs) (cs @ cmds) = zip es cs @ zip fs cmds" by simp
  then show ?thesis
    using collect_append [OF cs(1) assms(2)] apply_all_append [OF cs(2)] assms(3)
    unfolding replayed_def by (intro exI [of _ "cs @ cmds"]) simp
qed

definition dd_inv :: "dir_codec \<Rightarrow> directory_host \<Rightarrow> bool" where
  "dd_inv dc h \<longleftrightarrow> dd_failed h \<or> d_failed (dd_raft h) \<or>
     (let n = d_node (dd_raft h) in
        node_ok n \<and> matches (d_saved (dd_raft h)) n \<and> pending_apply n = [] \<and>
        dd_applied h = commit_index n \<and>
        replayed dc (take (commit_index n) (log n)) (dd_sm h) (dd_requests h))"

text \<open>Between the Raft operation and the application of what it committed.\<close>

definition dd_mid :: "dir_codec \<Rightarrow> directory_host \<Rightarrow> bool" where
  "dd_mid dc h \<longleftrightarrow>
     (let n = d_node (dd_raft h); a = dd_applied h in
        node_ok n \<and> matches (d_saved (dd_raft h)) n \<and> a \<le> commit_index n \<and>
        pending_apply n = drop a (take (commit_index n) (log n)) \<and>
        replayed dc (take a (log n)) (dd_sm h) (dd_requests h))"

lemma last_pending_index:
  assumes "node_ok n" and "drop a (take (commit_index n) (log n)) \<noteq> []"
  shows "e_index (last (drop a (take (commit_index n) (log n)))) = commit_index n"
proof -
  have w: "log_idx (log n)" "commit_index n \<le> length (log n)"
    using assms(1) by (auto simp: node_ok_def node_wf_def)
  let ?T = "take (commit_index n) (log n)"
  have ne: "?T \<noteq> []" using assms(2) by auto
  have "a < length ?T" using assms(2) by (metis drop_eq_Nil not_le)
  then have "last (drop a ?T) = last ?T" by (rule last_drop)
  also have "last ?T = log n ! (commit_index n - 1)" using ne w(2) by (simp add: last_conv_nth)
  finally show ?thesis using w ne by (auto simp: log_idx_def)
qed

lemma apply_pending_mid:
  assumes mid: "dd_mid dc h" and ap: "apply_pending dc me h = (r, h')"
  shows "dd_inv dc h'"
proof -
  let ?n = "d_node (dd_raft h)" and ?a = "dd_applied h"
  let ?c = "commit_index ?n" and ?L = "log ?n"
  let ?es = "drop ?a (take ?c ?L)"
  have m: "node_ok ?n" "matches (d_saved (dd_raft h)) ?n" "?a \<le> ?c" "pending_apply ?n = ?es"
    "replayed dc (take ?a ?L) (dd_sm h) (dd_requests h)"
    using mid by (auto simp: dd_mid_def Let_def)
  show ?thesis
  proof (cases "prepare_requests dc me h")
    case (Inl e)
    then show ?thesis using ap by (auto simp: apply_pending_def dd_inv_def)
  next
    case (Inr cmds)
    have nc: "\<not> is_closed me (dd_raft h)"
      using Inr by (auto simp: prepare_requests_def durable_pending_def split: if_splits)
    have cs: "collect (map (\<lambda>e. decode_stored dc (e_cmd e)) ?es) = Inr cmds"
      using Inr nc m(4)
      by (auto simp: prepare_requests_def durable_pending_def raft_pending_committed_def
          split: sum.splits option.splits)
    have "\<forall>x \<in> set (zip ?es cmds). digestible dc (snd x)"
      using collect_set [OF cs] decode_digestible by (fastforce dest: set_zip_rightD)
    from apply_all_effective [OF this] obtain sm reqs where
      al: "apply_all dc (zip ?es cmds) (dd_sm h, dd_requests h) = (None, sm, reqs)" by blast
    have dc: "durable_committed me (dd_raft h) = (Inr ?es, (dd_raft h)\<lparr>d_node := ?n\<lparr>pending_apply := []\<rparr>\<rparr>)"
      using nc m(4) by (simp add: durable_committed_def raft_committed_def)
    have h': "h' = h\<lparr>dd_raft := (dd_raft h)\<lparr>d_node := ?n\<lparr>pending_apply := []\<rparr>\<rparr>, dd_sm := sm, dd_requests := reqs,
        dd_applied := (if ?es = [] then ?a else e_index (last ?es))\<rparr>"
      using ap Inr dc al by (simp add: apply_pending_def)
    have app: "(if ?es = [] then ?a else e_index (last ?es)) = ?c"
    proof (cases "?es = []")
      case True
      have "?c \<le> length ?L" using m(1) by (simp add: node_ok_def node_wf_def)
      then show ?thesis using True m(3) by simp
    next
      case False
      then show ?thesis using last_pending_index [OF m(1) False] by simp
    qed
    have "take ?a ?L @ ?es = take ?c ?L"
      using m(3) by (metis append_take_drop_id min.absorb1 take_take)
    then have "replayed dc (take ?c ?L) sm reqs" using replayed_append [OF m(5) cs al] by simp
    then show ?thesis
      using m(1,2) app unfolding h' dd_inv_def by (simp add: matches_def)
  qed
qed

section \<open>Every operation keeps it\<close>

lemma finish_ok:
  assumes "finish cd out d dk = (r, d', dk')"
  shows "d_failed d' \<or> (\<not> isl r \<and> d_node d' = d_node d \<and> matches (d_saved d') (d_node d') \<and> d_failed d' = d_failed d)"
proof (cases "matches (d_saved d) (d_node d)")
  case True
  then show ?thesis using assms by (auto simp: finish_eq)
next
  case False
  let ?s = "snapshot (d_node d) (s_cluster (d_saved d))"
  show ?thesis
  proof (cases "validate ?s")
    case (Inl e)
    then show ?thesis using assms False by (auto simp: finish_eq fence_def)
  next
    case (Inr u)
    obtain r1 dk1 where p: "publish cd out ?s dk = (r1, dk1)" by fastforce
    show ?thesis
    proof (cases r1)
      case (Inl e)
      then show ?thesis using assms False Inr p by (auto simp: finish_eq fence_def)
    next
      case (Inr w)
      have "r = Inr ()" "d' = d\<lparr>d_saved := ?s\<rparr>"
        using assms False \<open>validate ?s = Inr u\<close> p Inr by (simp_all add: finish_eq)
      then show ?thesis by (simp add: matches_def)
    qed
  qed
qed

text \<open>What an operation of the durable host may do to it.\<close>

definition host_moves :: "durable \<Rightarrow> storage_error + 'a \<Rightarrow> durable \<Rightarrow> bool" where
  "host_moves d r d' \<longleftrightarrow> d' = d \<or> d_failed d' \<or>
     (node_ok (d_node d') \<and> advances (d_node d) (d_node d') \<and> settles (d_node d) (d_node d') \<and>
      matches (d_saved d') (d_node d') \<and> \<not> isl r)"

lemma finish_moves:
  assumes "finish cd out (d\<lparr>d_node := n\<rparr>) dk = (r, d', dk')" and "node_ok n" and "advances (d_node d) n" and "settles (d_node d) n"
  shows "host_moves d r d'"
  using finish_ok [OF assms(1)] assms(2-4) by (auto simp: host_moves_def)

lemma tick_moves:
  assumes "durable_tick cd me clk out d dk = Some (r, d', dk')" and ok: "node_ok (d_node d)"
  shows "host_moves d r d'"
proof (cases "is_closed me d")
  case True
  then show ?thesis using assms(1) by (simp add: durable_tick_def host_moves_def)
next
  case False
  obtain n where n: "raft_tick clk (d_node d) = Some n" "node_ok n"
    using runs_ok_tick [OF ok, of clk] by (auto simp: runs_ok_def)
  then have "finish cd out (d\<lparr>d_node := n\<rparr>) dk = (r, d', dk')"
    using assms(1) False by (simp add: durable_tick_def with_node_def)
  then show ?thesis using finish_moves n(2) advances_tick [OF node_okD(1) [OF ok] n(1)] settles_tick [OF n(1)] by blast
qed

lemma step_moves:
  assumes "durable_step cd me clk out from rpc d dk = Some (r, d', dk')" and ok: "node_ok (d_node d)"
  shows "host_moves d r d'"
proof (cases "is_closed me d \<or> \<not> validate_shape rpc \<or> \<not> append_admitted cd from rpc d")
  case True
  then show ?thesis using assms(1) by (auto simp: durable_step_def host_moves_def split: if_splits)
next
  case False
  obtain n where n: "raft_step clk from rpc (d_node d) = Some n" "node_ok n"
    using runs_ok_step [OF ok, of clk "from" rpc] by (auto simp: runs_ok_def)
  then have "finish cd out (d\<lparr>d_node := n\<rparr>) dk = (r, d', dk')"
    using assms(1) False by (simp add: durable_step_def with_node_def)
  then show ?thesis using finish_moves n(2) advances_step [OF node_okD(1) [OF ok] n(1)] settles_step [OF n(1)] by blast
qed

lemma propose_moves:
  assumes "durable_propose cd me out cmd d dk = Some (r, d', dk')" and ok: "node_ok (d_node d)"
  shows "host_moves d r d'"
proof (cases "d' = d")
  case False
  then have nc: "\<not> is_closed me d" and ld: "role (d_node d) = Leader"
    using assms(1) by (auto simp: durable_propose_def Let_def split: if_splits)
  obtain q n where q: "raft_propose cmd (d_node d) = Some (q, n)" "node_ok n"
    using runs_ok_propose [OF ok] by blast
  then obtain k where k: "q = Inr k"
    using ld by (auto simp: raft_propose_def Let_def split: option.splits if_splits)
  obtain r1 where f: "finish cd out (d\<lparr>d_node := n\<rparr>) dk = (r1, d', dk')" and "isl r1 = isl r"
    using assms(1) False q k
    by (auto simp: durable_propose_def Let_def split: if_splits sum.splits prod.splits)
  moreover have "advances (d_node d) n"
    using advances_propose [OF node_okD(1) [OF ok] node_okD(2) [OF ok ld] q(1)] .
  ultimately show ?thesis using finish_moves [OF f q(2)] settles_propose [OF q(1)] by (simp add: host_moves_def)
qed (simp add: host_moves_def)

text \<open>What lasts in a host over an operation, as long as it has not failed: a leader of a term only extends its log.\<close>

definition dd_broken :: "directory_host \<Rightarrow> bool" where
  "dd_broken h \<longleftrightarrow> dd_failed h \<or> d_failed (dd_raft h)"

definition lasting :: "raft_node \<Rightarrow> raft_node \<Rightarrow> bool" where
  "lasting n n' \<longleftrightarrow> current_term n \<le> current_term n' \<and> settles n n' \<and>
     (role n = Leader \<and> role n' = Leader \<longrightarrow> prefix (log n) (log n'))"

definition lasts :: "directory_host \<Rightarrow> directory_host \<Rightarrow> bool" where
  "lasts h h' \<longleftrightarrow> h' = h \<or> dd_broken h' \<or> (\<not> dd_broken h \<and> lasting (d_node (dd_raft h)) (d_node (dd_raft h')))"

lemma lasting_refl [simp]: "lasting n n"
  by (simp add: lasting_def settles_def)

lemma lasts_refl: "lasts h h"
  by (simp add: lasts_def)

lemma lasting_advances: "advances n n' \<Longrightarrow> settles n n' \<Longrightarrow> lasting n n'"
  by (auto simp: lasting_def advances_def)

lemma lasting_update [simp]: "lasting n (n'\<lparr>pending_apply := x\<rparr>) = lasting n n'" "lasting n (n'\<lparr>outbox := y\<rparr>) = lasting n n'"
  by (simp_all add: lasting_def settles_def)

lemma apply_pending_node:
  "apply_pending dc me h = (r, h') \<Longrightarrow>
     \<exists>ps. d_node (dd_raft h') = (d_node (dd_raft h))\<lparr>pending_apply := ps\<rparr> \<and> d_saved (dd_raft h') = d_saved (dd_raft h)"
  by (auto simp: apply_pending_def durable_committed_def raft_committed_def
      intro: exI [of _ "pending_apply (d_node (dd_raft h))"] split: sum.splits prod.splits option.splits if_splits)

lemma mid_moves:
  assumes inv: "dd_inv dc h" and op: "\<not> dd_failed h" "\<not> d_failed (dd_raft h)"
    and mv: "host_moves (dd_raft h) r d'" and r: "\<not> isl r" and nf: "\<not> d_failed d'"
  shows "dd_mid dc (h\<lparr>dd_raft := d'\<rparr>)"
proof -
  let ?n = "d_node (dd_raft h)" and ?n' = "d_node d'"
  have i: "node_ok ?n" "matches (d_saved (dd_raft h)) ?n" "pending_apply ?n = []" "dd_applied h = commit_index ?n"
    "replayed dc (take (commit_index ?n) (log ?n)) (dd_sm h) (dd_requests h)"
    using inv op by (auto simp: dd_inv_def Let_def)
  show ?thesis
  proof (cases "d' = dd_raft h")
    case True
    then show ?thesis using i by (simp add: dd_mid_def)
  next
    case False
    then have "node_ok ?n'" "advances ?n ?n'" "matches (d_saved d') ?n'"
      using mv nf by (auto simp: host_moves_def)
    then show ?thesis using i by (simp add: dd_mid_def advances_def)
  qed
qed

lemma after_raft_inv:
  assumes inv: "dd_inv dc h" and op: "\<not> dd_failed h" "\<not> d_failed (dd_raft h)"
    and mv: "\<And>r d' dk'. x = Some (r, d', dk') \<Longrightarrow> host_moves (dd_raft h) r d'"
    and a: "after_raft dc me h x k = Some (res, h', dk')"
  shows "dd_inv dc h' \<and> lasts h h'"
proof -
  obtain r d dk where x: "x = Some (r, d, dk)" using a by (cases x) (auto simp: after_raft_def)
  note m = mv [OF x]
  show ?thesis
  proof (cases "isl r \<or> d_failed d")
    case True
    show ?thesis
    proof (cases "d_failed d")
      case True
      have "d_failed (dd_raft h')"
        using a x True
        by (auto simp: after_raft_def apply_pending_def prepare_requests_def durable_pending_def
            durable_committed_def is_closed_def split: sum.splits prod.splits option.splits)
      then show ?thesis by (simp add: dd_inv_def lasts_def dd_broken_def)
    next
      case False
      then have l: "isl r" using True by blast
      then have "d = dd_raft h" using m False by (auto simp: host_moves_def)
      moreover have "h' = h\<lparr>dd_raft := d\<rparr>" using a x l by (auto simp: after_raft_def isl_def)
      ultimately show ?thesis using inv by (simp add: lasts_def)
    qed
  next
    case False
    then have mid: "dd_mid dc (h\<lparr>dd_raft := d\<rparr>)" using mid_moves [OF inv op m] by blast
    obtain y where y: "r = Inr y" using False by (cases r) auto
    obtain q h2 where "apply_pending dc me (h\<lparr>dd_raft := d\<rparr>) = (q, h2)" by fastforce
    moreover from this have "h' = h2" using a x y by (auto simp: after_raft_def split: sum.splits)
    moreover from calculation obtain ps where "d_node (dd_raft h') = (d_node d)\<lparr>pending_apply := ps\<rparr>"
      using apply_pending_node by fastforce
    moreover have "lasting (d_node (dd_raft h)) (d_node d)"
      using m False lasting_advances by (auto simp: host_moves_def)
    ultimately show ?thesis using apply_pending_mid [OF mid] op by (simp add: lasts_def dd_broken_def)
  qed
qed

section \<open>Runs of a directory host\<close>

datatype dd_event =
    DTick clock
  | DStep node_name raft_rpc clock
  | DPropose dir_cmd
  | DSubmit string string dir_cmd
  | DBeginRead dir_query
  | DOutbox

definition state_of :: "'a dd_outcome option \<Rightarrow> (directory_host \<times> disk) option" where
  "state_of x = map_option snd x"

fun dd_exec :: "dir_codec \<Rightarrow> codec \<Rightarrow> nat \<Rightarrow> dd_event \<times> io \<Rightarrow> directory_host \<Rightarrow> disk \<Rightarrow> (directory_host \<times> disk) option" where
  "dd_exec dc cd me (DTick clk, out) h dk = state_of (dd_tick dc cd me clk out h dk)"
| "dd_exec dc cd me (DStep f rpc clk, out) h dk = state_of (dd_step dc cd me clk out f rpc h dk)"
| "dd_exec dc cd me (DPropose cmd, out) h dk = state_of (dd_propose dc cd me out cmd h dk)"
| "dd_exec dc cd me (DSubmit cl i cmd, out) h dk = state_of (dd_submit_request dc cd me out cl i cmd h dk)"
| "dd_exec dc cd me (DBeginRead q, out) h dk = state_of (dd_begin_linear_read dc cd me out q h dk)"
| "dd_exec dc cd me (DOutbox, out) h dk = Some (snd (dd_outbox me h), dk)"

fun dd_run :: "dir_codec \<Rightarrow> codec \<Rightarrow> nat \<Rightarrow> (dd_event \<times> io) list \<Rightarrow> directory_host \<times> disk \<Rightarrow> (directory_host \<times> disk) option" where
  "dd_run dc cd me [] s = Some s"
| "dd_run dc cd me (e # es) (h, dk) =
     (case dd_exec dc cd me e h dk of None \<Rightarrow> None | Some s \<Rightarrow> dd_run dc cd me es s)"

lemma dd_inv_node: "dd_inv dc h \<Longrightarrow> \<not> dd_failed h \<Longrightarrow> \<not> d_failed (dd_raft h) \<Longrightarrow> node_ok (d_node (dd_raft h))"
  by (simp add: dd_inv_def Let_def)

lemma submit_new_inv:
  assumes inv: "dd_inv dc h" and op: "\<not> dd_failed h" "\<not> d_failed (dd_raft h)"
    and s: "submit_new dc cd me out cl i bs dg h dk = Some (r, h', dk')"
  shows "dd_inv dc h' \<and> lasts h h'"
proof -
  obtain r1 where "after_raft dc me h (durable_propose cd me out bs (dd_raft h) dk) (\<lambda>_ _. ()) = Some (r1, h', dk')"
    using s by (auto simp: submit_new_def split: option.splits sum.splits)
  then show ?thesis
    by (rule after_raft_inv [OF inv op, rotated]) (rule propose_moves [OF _ dd_inv_node [OF inv op]])
qed

lemma submit_cases:
  assumes s: "dd_submit_request dc cd me out cl i cmd h dk = Some (r, h', dk')"
  shows "h' = h \<or> (\<exists>bs dg. submit_new dc cd me out cl i bs dg h dk = Some (r, h', dk'))"
proof (cases "dd_is_closed me h")
  case True
  then show ?thesis using s by (simp add: dd_submit_request_def)
next
  case False
  note s = s [unfolded dd_submit_request_def if_not_P [OF False]]
  show ?thesis
  proof (cases "encode_request dc cl i cmd")
    case (Inl e)
    then show ?thesis using s by simp
  next
    case bs: (Inr bs)
    show ?thesis
    proof (cases "command_digest dc cmd")
      case (Inl e)
      then show ?thesis using s bs by simp
    next
      case dg: (Inr dg)
      obtain x where x: "dd_request_status dc me cl i dg h = Some x"
        using s bs dg by (cases "dd_request_status dc me cl i dg h") auto
      show ?thesis
      proof (cases x)
        case (Inl e)
        then show ?thesis using s bs dg x by simp
      next
        case (Inr st)
        then show ?thesis using s bs dg x by (cases st) (auto split: if_splits)
      qed
    qed
  qed
qed

lemma dd_exec_inv:
  assumes inv: "dd_inv dc h" and ex: "dd_exec dc cd me e h dk = Some (h', dk')"
  shows "dd_inv dc h' \<and> lasts h h'"
proof (cases "dd_is_closed me h")
  case True
  then show ?thesis
    using inv ex
    by (cases "(dc, cd, me, e, h, dk)" rule: dd_exec.cases)
      (auto simp: state_of_def dd_tick_def dd_step_def dd_propose_def dd_submit_request_def
        dd_begin_linear_read_def dd_outbox_def lasts_def)
next
  case False
  then have op: "\<not> dd_failed h" "\<not> d_failed (dd_raft h)" and nc: "\<not> is_closed me (dd_raft h)"
    by (auto simp: dd_is_closed_def is_closed_def)
  note ok = dd_inv_node [OF inv op]
  note ar = after_raft_inv [OF inv op]
  obtain ev out where e: "e = (ev, out)" by (cases e)
  show ?thesis
  proof (cases ev)
    case (DTick clk)
    then obtain r where "after_raft dc me h (durable_tick cd me clk out (dd_raft h) dk) (\<lambda>_ _. ()) = Some (r, h', dk')"
      using ex e False by (auto simp: state_of_def dd_tick_def)
    then show ?thesis by (rule ar [rotated]) (rule tick_moves [OF _ ok])
  next
    case (DStep f rpc clk)
    show ?thesis
    proof (cases "f \<notin> set (dd_peers h) \<or> isl (entries_admitted dc rpc)")
      case True
      then show ?thesis
        using ex e False DStep inv by (auto simp: state_of_def dd_step_def isl_def lasts_def split: sum.splits if_splits)
    next
      case adm: False
      then obtain u where "entries_admitted dc rpc = Inr u" by (cases "entries_admitted dc rpc") auto
      then obtain r where
        "after_raft dc me h (durable_step cd me clk out f rpc (dd_raft h) dk) (\<lambda>_ _. ()) = Some (r, h', dk')"
        using ex e False DStep adm by (auto simp: state_of_def dd_step_def)
      then show ?thesis by (rule ar [rotated]) (rule step_moves [OF _ ok])
    qed
  next
    case (DPropose cmd)
    show ?thesis
    proof (cases "encode_cmd (dc_cmd dc) cmd")
      case (Inl x)
      then show ?thesis using ex e False DPropose inv by (auto simp: state_of_def dd_propose_def lasts_def)
    next
      case (Inr bs)
      then obtain r where
        "after_raft dc me h (durable_propose cd me out bs (dd_raft h) dk) (dd_receipt dc bs) = Some (r, h', dk')"
        using ex e False DPropose by (auto simp: state_of_def dd_propose_def)
      then show ?thesis by (rule ar [rotated]) (rule propose_moves [OF _ ok])
    qed
  next
    case (DSubmit cl i cmd)
    obtain r where s: "dd_submit_request dc cd me out cl i cmd h dk = Some (r, h', dk')"
      using ex e DSubmit by (auto simp: state_of_def)
    have "h' = h \<or> (\<exists>bs dg. submit_new dc cd me out cl i bs dg h dk = Some (r, h', dk'))"
      using submit_cases [OF s] .
    then show ?thesis using inv submit_new_inv [OF inv op] lasts_refl by blast
  next
    case (DBeginRead q)
    show ?thesis
    proof (cases "validate_query q")
      case (Inl x)
      then show ?thesis using ex e False DBeginRead inv by (auto simp: state_of_def dd_begin_linear_read_def lasts_def)
    next
      case (Inr u)
      then obtain r where
        "after_raft dc me h (durable_propose cd me out read_barrier (dd_raft h) dk)
          (\<lambda>i h'. \<lparr>tk_receipt = dd_receipt dc read_barrier i h', tk_query = q, tk_complete = False\<rparr>) = Some (r, h', dk')"
        using ex e False DBeginRead by (auto simp: state_of_def dd_begin_linear_read_def)
      then show ?thesis by (rule ar [rotated]) (rule propose_moves [OF _ ok])
    qed
  next
    case DOutbox
    then have "h' = h\<lparr>dd_raft := (dd_raft h)\<lparr>d_node := (d_node (dd_raft h))\<lparr>outbox := []\<rparr>\<rparr>\<rparr>"
      using ex e False nc by (auto simp: dd_outbox_def durable_outbox_def raft_outbox_def)
    then show ?thesis using inv op by (auto simp: dd_inv_def Let_def matches_def lasts_def dd_broken_def)
  qed
qed

lemma dd_run_inv: "dd_inv dc h \<Longrightarrow> dd_run dc cd me es (h, dk) = Some (h', dk') \<Longrightarrow> dd_inv dc h'"
proof (induction es arbitrary: h dk)
  case (Cons e es)
  obtain h1 dk1 where "dd_exec dc cd me e h dk = Some (h1, dk1)" "dd_run dc cd me es (h1, dk1) = Some (h', dk')"
    using Cons.prems(2) by (auto split: option.splits)
  then show ?case using Cons.IH dd_exec_inv [OF Cons.prems(1), THEN conjunct1] by blast
qed simp

section \<open>Opening rebuilds it\<close>

lemma validate_log_props:
  assumes "validate_log t i p L"
  shows "(\<forall>k < length L. e_index (L ! k) = i + k + 1) \<and> sorted (p # map e_term L) \<and>
     (\<forall>e \<in> set L. 0 < e_term e \<and> e_term e \<le> t)"
  using assms
proof (induction L arbitrary: i p)
  case (Cons e L)
  then have e: "e_index e = i + 1" "0 < e_term e" "e_term e \<le> t" "p \<le> e_term e"
    and sh: "validate_log t (i + 1) (e_term e) L" by (auto split: if_splits)
  from Cons.IH [OF sh] e show ?case by (auto simp: nth_Cons' less_Suc_eq_0_disj)
qed simp

lemma node_ok_restore:
  assumes "validate s = Inr ()"
  shows "node_ok (restore s (raft_new clk i ps))"
proof -
  have "s_commit s \<le> length (s_log s)" "validate_log (s_term s) 0 0 (s_log s)"
    using assms by (auto simp: validate_def split: if_splits)
  with validate_log_props [OF this(2)] node_ok_new [of clk i ps] show ?thesis
    by (simp add: node_ok_def node_wf_def restore_def raft_new_def log_idx_def log_terms_def)
qed

lemma open_ready:
  assumes "open_validated cd fs cl i ps clk ok me dk = (Inr d, dk')"
  shows "node_ok (d_node d) \<and> matches (d_saved d) (d_node d) \<and>
     pending_apply (d_node d) = take (commit_index (d_node d)) (log (d_node d)) \<and> \<not> d_failed d"
proof (cases "state_file dk")
  case None
  then have "d = \<lparr>d_node = raft_new clk i ps, d_saved = snapshot (raft_new clk i ps) cl, d_failed = False, d_pid = me\<rparr>"
    using assms by (auto simp: open_validated_def open_fresh_def split: if_splits prod.splits sum.splits)
  then show ?thesis using node_ok_new by (simp add: matches_def) (simp add: raft_new_def)
next
  case (Some bs)
  then obtain s where "validate s = Inr ()"
    and "d = \<lparr>d_node = restore s (raft_new clk i ps), d_saved = s, d_failed = False, d_pid = me\<rparr>"
    using assms by (auto simp: open_validated_def open_existing_def Let_def split: if_splits option.splits sum.splits)
  then show ?thesis using node_ok_restore by (simp add: matches_def restore_def)
qed

lemma dd_open_inv:
  assumes "dd_open dc cd fs cl i ps clk me ident dk = (Inr h, dk')"
  shows "dd_inv dc h"
proof -
  obtain d where o: "open_validated cd fs (''directory-v1:'' @ cl) i ps clk (\<lambda>bs. \<not> isl (decode_stored dc bs)) me dk = (Inr d, dk')"
    and a: "apply_pending dc me \<lparr>dd_raft = d, dd_sm = sm_default, dd_applied = 0, dd_failed = False,
       dd_peers = remdups_adj (sort (filter (\<lambda>p. p \<noteq> i) ps)), dd_identity = ident, dd_requests = []\<rparr> = (Inr (), h)"
    using assms by (auto simp: dd_open_def split: if_splits prod.splits sum.splits)
  show ?thesis
    by (rule apply_pending_mid [OF _ a]) (use open_ready [OF o] in \<open>simp add: dd_mid_def replayed_def\<close>)
qed

section \<open>The guarantees\<close>

lemma replayed_effective:
  assumes "replayed dc es sm reqs"
  shows "\<exists>cmds. collect (map (\<lambda>e. decode_stored dc (e_cmd e)) es) = Inr cmds \<and>
     sm = fold apply_validated (effective {} cmds) sm_default \<and> dom (map_of reqs) = stored_keys cmds \<and>
     (\<forall>k a. map_of reqs k = Some a \<longrightarrow> answers dc {} 0 (zip es cmds) k a)"
proof -
  obtain cmds where c: "collect (map (\<lambda>e. decode_stored dc (e_cmd e)) es) = Inr cmds"
    "apply_all dc (zip es cmds) (sm_default, []) = (None, sm, reqs)"
    using assms by (auto simp: replayed_def)
  have d: "\<forall>x \<in> set (zip es cmds). digestible dc (snd x)"
    using collect_set [OF c(1)] decode_digestible by (fastforce dest: set_zip_rightD)
  have "answers dc {} 0 (zip es cmds) k a" if "map_of reqs k = Some a" for k a
    using apply_all_answers [OF d c(2) _ that] by (simp add: sm_default_def)
  moreover have "map snd (zip es cmds) = cmds" using collect_length [OF c(1)] by simp
  ultimately show ?thesis
    using apply_all_effective [OF d, of sm_default "[]"] c by fastforce
qed

lemma answers_stored: "answers dc seen v xs k a \<Longrightarrow> k \<in> stored_keys (map snd xs)"
  unfolding answers_def using stored_keys_member by (metis in_set_conv_nth length_map nth_map)

text \<open>The answer to an identity is unique.\<close>

lemma answers_unique:
  assumes "answers dc seen v xs k a" and "answers dc seen v xs k b"
  shows "a = b"
proof -
  have first: "\<not> i < j" if "i < length xs" "snd (xs ! i) = Request r" "request_key r = k" "k \<notin> stored_keys (map snd (take j xs))" for i j r
  proof
    assume "i < j"
    then have "take j xs ! i = xs ! i" "i < length (take j xs)" using that(1) by simp_all
    then have "Request r \<in> set (map snd (take j xs))" using that(2) by (metis image_eqI nth_mem set_map)
    then have "k \<in> stored_keys (map snd (take j xs))" using that(3) stored_keys_member by blast
    then show False using that(4) by blast
  qed
  obtain i r dg where i: "i < length xs" "snd (xs ! i) = Request r" "request_key r = k" "k \<notin> stored_keys (map snd (take i xs))"
    "command_digest dc (rq_command r) = Inr dg"
    "a = (dg, ReqApplied (e_index (fst (xs ! i))) (e_term (fst (xs ! i))) (v + length (effective seen (map snd (take (Suc i) xs)))))"
    using assms(1) unfolding answers_def by blast
  obtain j q eg where j: "j < length xs" "snd (xs ! j) = Request q" "request_key q = k" "k \<notin> stored_keys (map snd (take j xs))"
    "command_digest dc (rq_command q) = Inr eg"
    "b = (eg, ReqApplied (e_index (fst (xs ! j))) (e_term (fst (xs ! j))) (v + length (effective seen (map snd (take (Suc j) xs)))))"
    using assms(2) unfolding answers_def by blast
  have "i = j" using first [OF i(1-3) j(4)] first [OF j(1-3) i(4)] by simp
  then show ?thesis using i j by simp
qed

text \<open>
  Concrete codecs for a group of one member: they know one command and one request.
\<close>

definition solo_request :: request where
  "solo_request = \<lparr>rq_client = ''cli'', rq_id = ''r1'', rq_command = Upsert ''n1'' [''tcp://a'']\<rparr>"

definition solo_dir_codec :: dir_codec where
  "solo_dir_codec = \<lparr>dc_cmd = \<lparr>c_enc = (\<lambda>_. [1]), c_dec = (\<lambda>_. Some (rq_command solo_request))\<rparr>,
     dc_enc = (\<lambda>_. [2]), dc_dec = (\<lambda>_. Some solo_request), dc_sha = (\<lambda>b. b)\<rparr>"

definition solo_codec :: codec where
  "solo_codec = \<lparr>enc = (\<lambda>_. [0]), dec = (\<lambda>_. None), sha = (\<lambda>_. replicate 32 0)\<rparr>"

definition solo_open :: "(dd_error + directory_host) \<times> disk" where
  "solo_open = dd_open solo_dir_codec solo_codec demo_fs ''g'' ''a'' [] (demo_clock 0) 7 3
     \<lparr>state_file = None, next_file = None\<rparr>"

definition solo_events :: "(dd_event \<times> io) list" where
  "solo_events = [(DTick (demo_clock 1000), IoOk),
     (DSubmit ''cli'' ''r1'' (rq_command solo_request), IoOk), (DPropose (rq_command solo_request), IoOk),
     (DSubmit ''cli'' ''r1'' (rq_command solo_request), IoOk), (DBeginRead (Resolve ''n1''), IoOk)]"

lemma opened_runD:
  assumes "case x of (r, dk0) \<Rightarrow> case r of Inl _ \<Rightarrow> False | Inr h0 \<Rightarrow>
      (case f (h0, dk0) of None \<Rightarrow> False | Some p \<Rightarrow> P (fst p))"
  shows "\<exists>h0 dk0 h dk. x = (Inr h0, dk0) \<and> f (h0, dk0) = Some (h, dk) \<and> P h"
proof -
  obtain r dk0 where x: "x = (r, dk0)" by (cases x)
  with assms obtain h0 where r: "r = Inr h0" by (cases r) auto
  with assms x obtain p where "f (h0, dk0) = Some p" "P (fst p)" by (auto split: option.splits)
  with x r show ?thesis by (cases p) auto
qed

lemma solo_run:
  "\<exists>h0 dk0 h dk. solo_open = (Inr h0, dk0) \<and> dd_run solo_dir_codec solo_codec 7 solo_events (h0, dk0) = Some (h, dk) \<and>
     \<not> dd_is_closed 7 h \<and> sm_version (dd_sm h) = 2 \<and> dd_applied h = 3 \<and>
     dd_request_status solo_dir_codec 7 ''cli'' ''r1'' [1] h = Some (Inr (ReqApplied 1 1 1))"
proof -
  have "case solo_open of (r, dk0) \<Rightarrow> case r of Inl _ \<Rightarrow> False | Inr h0 \<Rightarrow>
      (case dd_run solo_dir_codec solo_codec 7 solo_events (h0, dk0) of None \<Rightarrow> False
       | Some p \<Rightarrow> (\<lambda>h. \<not> dd_is_closed 7 h \<and> sm_version (dd_sm h) = 2 \<and> dd_applied h = 3 \<and>
            dd_request_status solo_dir_codec 7 ''cli'' ''r1'' [1] h = Some (Inr (ReqApplied 1 1 1))) (fst p))"
    by code_simp
  from opened_runD [OF this] show ?thesis .
qed

text \<open>The entries a directory has applied, as its disk has them.\<close>

definition applied_entries :: "directory_host \<Rightarrow> entries" where
  "applied_entries h = take (s_commit (d_saved (dd_raft h))) (s_log (d_saved (dd_raft h)))"

lemma open_host_replayed:
  assumes "dd_inv dc h" and "\<not> dd_is_closed me h"
  shows "dd_applied h = s_commit (d_saved (dd_raft h)) \<and> replayed dc (applied_entries h) (dd_sm h) (dd_requests h) \<and>
    matches (d_saved (dd_raft h)) (d_node (dd_raft h)) \<and> node_ok (d_node (dd_raft h)) \<and> \<not> dd_broken h"
  using assms by (auto simp: dd_inv_def dd_is_closed_def is_closed_def Let_def matches_def applied_entries_def dd_broken_def)

text \<open>
  C23. The directory is the replay of its durable log. After any sequence of operations on an
  opened directory, with any disk failures, a directory that still answers has applied exactly the
  committed prefix of the log it has on disk. Its content is that of running, from the empty
  directory, the commands of that prefix in which each request identity counts once; its request table has
  exactly the identities of that prefix, each with the digest, the position and the revision of its first entry.
\<close>

theorem directory_is_replay:
  assumes "dd_open dc cd fs cl i ps clk me ident dk0 = (Inr h0, dk1)"
    and "dd_run dc cd me es (h0, dk1) = Some (h, dk)" and "\<not> dd_is_closed me h"
  shows "dd_applied h = s_commit (d_saved (dd_raft h)) \<and>
     (\<exists>cmds. collect (map (\<lambda>e. decode_stored dc (e_cmd e)) (applied_entries h)) = Inr cmds \<and>
        dd_sm h = fold apply_validated (effective {} cmds) sm_default \<and>
        sm_version (dd_sm h) = length (effective {} cmds) \<and>
        dom (map_of (dd_requests h)) = stored_keys cmds \<and>
        (\<forall>k a. map_of (dd_requests h) k = Some a \<longleftrightarrow> answers dc {} 0 (zip (applied_entries h) cmds) k a))"
proof -
  have inv: "dd_inv dc h" using dd_run_inv [OF dd_open_inv [OF assms(1)] assms(2)] .
  note o = open_host_replayed [OF inv assms(3)]
  obtain cmds where c: "collect (map (\<lambda>e. decode_stored dc (e_cmd e)) (applied_entries h)) = Inr cmds"
    "dd_sm h = fold apply_validated (effective {} cmds) sm_default" "dom (map_of (dd_requests h)) = stored_keys cmds"
    "\<forall>k a. map_of (dd_requests h) k = Some a \<longrightarrow> answers dc {} 0 (zip (applied_entries h) cmds) k a"
    using replayed_effective o by blast
  have "map_of (dd_requests h) k = Some a" if a: "answers dc {} 0 (zip (applied_entries h) cmds) k a" for k a
  proof -
    have "k \<in> stored_keys cmds" using answers_stored [OF a] collect_length [OF c(1)] by simp
    then show ?thesis using c(3,4) answers_unique [OF a] by (metis domD)
  qed
  then have "\<forall>k a. map_of (dd_requests h) k = Some a \<longleftrightarrow> answers dc {} 0 (zip (applied_entries h) cmds) k a" using c(4) by blast
  moreover have "sm_version (dd_sm h) = length (effective {} cmds)" unfolding c(2) by (simp add: fold_apply_version sm_default_def)
  ultimately show ?thesis using o c(1-3) by blast
qed

theorem directory_is_replay_witness:
  "\<exists>h0 dk0 h dk. solo_open = (Inr h0, dk0) \<and> dd_run solo_dir_codec solo_codec 7 solo_events (h0, dk0) = Some (h, dk) \<and>
     sm_version (dd_sm h) = 2 \<and> dd_applied h = s_commit (d_saved (dd_raft h))"
proof -
  obtain h0 dk0 h dk where r: "solo_open = (Inr h0, dk0)"
    "dd_run solo_dir_codec solo_codec 7 solo_events (h0, dk0) = Some (h, dk)" "\<not> dd_is_closed 7 h"
    "sm_version (dd_sm h) = 2" using solo_run by auto
  from directory_is_replay [OF r(1) [unfolded solo_open_def] r(2,3)]
  have "dd_applied h = s_commit (d_saved (dd_raft h))" by blast
  with r show ?thesis by blast
qed

lemma answers_applied: "answers dc seen v xs k a \<Longrightarrow> \<exists>i t n. snd a = ReqApplied i t n"
  by (auto simp: answers_def)

lemma scan_pending_not_applied:
  "scan_pending dc client i dg pending es = Inr st \<Longrightarrow> (\<forall>a b c. pending \<noteq> ReqApplied a b c) \<Longrightarrow> st \<noteq> ReqApplied a b c"
  by (induction es arbitrary: pending) (auto split: sum.splits stored_command.splits if_splits)

lemma unapplied_status:
  assumes "\<not> dd_is_closed me h" and "identity client rid = Inr ()" and "map_of (dd_requests h) (client, rid) = None"
  shows "\<forall>st n t v. dd_request_status dc me client rid dg h = Some (Inr st) \<longrightarrow> st \<noteq> ReqApplied n t v"
proof (intro allI impI)
  fix st n t v assume "dd_request_status dc me client rid dg h = Some (Inr st)"
  then obtain es where "map_sum DCommand id (scan_pending dc client rid dg Unknown es) = Inr st"
    using assms by (auto simp: dd_request_status_def)
  then have "scan_pending dc client rid dg Unknown es = Inr st"
    by (cases "scan_pending dc client rid dg Unknown es") auto
  from scan_pending_not_applied [OF this] show "st \<noteq> ReqApplied n t v" by simp
qed

lemma encode_request_identity: "encode_request dc client i cmd = Inr bs \<Longrightarrow> identity client i = Inr ()"
  by (auto simp: encode_request_def and_then_def split: sum.splits)

text \<open>
  C24. Requests run once. After any sequence of operations on an opened directory that still answers, its content
  is that of the commands in which each request identity counts once. A request whose identity has been
  applied is answered from then on with the position and revision of the first entry of that identity, or with a conflict
  if it carries another command, and submitting it again changes nothing. A request whose identity has not
  been applied is never reported as applied.
\<close>

theorem requests_run_once:
  assumes "dd_open dc cd fs cl i ps clk me ident dk0 = (Inr h0, dk1)"
    and "dd_run dc cd me es (h0, dk1) = Some (h, dk)" and "\<not> dd_is_closed me h"
    and "encode_request dc client rid cmd = Inr bs" and "command_digest dc cmd = Inr dg"
  shows "\<exists>cmds. collect (map (\<lambda>e. decode_stored dc (e_cmd e)) (applied_entries h)) = Inr cmds \<and>
    dd_sm h = fold apply_validated (effective {} cmds) sm_default \<and>
    (if (client, rid) \<in> stored_keys cmds
     then \<exists>d a. answers dc {} 0 (zip (applied_entries h) cmds) (client, rid) (d, a) \<and>
       (let st = (if d = dg then a else Conflict) in
        dd_request_status dc me client rid dg h = Some (Inr st) \<and>
        (\<forall>out dk'. dd_submit_request dc cd me out client rid cmd h dk' = Some (Inr st, h, dk')))
     else \<forall>st n t v. dd_request_status dc me client rid dg h = Some (Inr st) \<longrightarrow> st \<noteq> ReqApplied n t v)"
proof -
  have inv: "dd_inv dc h" using dd_run_inv [OF dd_open_inv [OF assms(1)] assms(2)] .
  obtain cmds where c: "collect (map (\<lambda>e. decode_stored dc (e_cmd e)) (applied_entries h)) = Inr cmds"
    "dd_sm h = fold apply_validated (effective {} cmds) sm_default" "dom (map_of (dd_requests h)) = stored_keys cmds"
    "\<forall>k a. map_of (dd_requests h) k = Some a \<longrightarrow> answers dc {} 0 (zip (applied_entries h) cmds) k a"
    using replayed_effective open_host_replayed [OF inv assms(3)] by blast
  note id = encode_request_identity [OF assms(4)]
  show ?thesis
  proof (cases "(client, rid) \<in> stored_keys cmds")
    case True
    then obtain d a where m: "map_of (dd_requests h) (client, rid) = Some (d, a)" using c(3) by fastforce
    then have ans: "answers dc {} 0 (zip (applied_entries h) cmds) (client, rid) (d, a)" using c(4) by blast
    then obtain n t v where a: "a = ReqApplied n t v" using answers_applied by fastforce
    have st: "dd_request_status dc me client rid dg h = Some (Inr (if d = dg then a else Conflict))"
      using assms(3) id m by (simp add: dd_request_status_def)
    then have "dd_submit_request dc cd me out client rid cmd h dk' = Some (Inr (if d = dg then a else Conflict), h, dk')" for out dk'
      using assms(3-5) a by (simp add: dd_submit_request_def)
    then show ?thesis using True c(1,2) ans st by (auto simp: Let_def)
  next
    case False
    then have "map_of (dd_requests h) (client, rid) = None" using c(3) by blast
    from unapplied_status [OF assms(3) id this, of dc dg] show ?thesis using False c(1,2) by simp
  qed
qed

theorem requests_run_once_witness:
  "\<exists>h0 dk0 h dk st. solo_open = (Inr h0, dk0) \<and> dd_run solo_dir_codec solo_codec 7 solo_events (h0, dk0) = Some (h, dk) \<and>
     (\<forall>out dk'. dd_submit_request solo_dir_codec solo_codec 7 out ''cli'' ''r1'' (rq_command solo_request) h dk' = Some (Inr st, h, dk')) \<and>
     st = ReqApplied 1 1 1"
proof -
  obtain h0 dk0 h dk where r: "solo_open = (Inr h0, dk0)"
    "dd_run solo_dir_codec solo_codec 7 solo_events (h0, dk0) = Some (h, dk)" "\<not> dd_is_closed 7 h"
    and st: "dd_request_status solo_dir_codec 7 ''cli'' ''r1'' [1] h = Some (Inr (ReqApplied 1 1 1))"
    using solo_run by blast
  have enc: "encode_request solo_dir_codec ''cli'' ''r1'' (rq_command solo_request) = Inr (request_magic @ [2])"
    and dg: "command_digest solo_dir_codec (rq_command solo_request) = Inr [1]" by code_simp+
  from requests_run_once [OF r(1) [unfolded solo_open_def] r(2,3) enc dg] st
  have "\<forall>out dk'. dd_submit_request solo_dir_codec solo_codec 7 out ''cli'' ''r1'' (rq_command solo_request) h dk' =
      Some (Inr (ReqApplied 1 1 1), h, dk')"
    by (auto simp: Let_def split: if_splits)
  with r show ?thesis by blast
qed

text \<open>
  What remains of a leader of term \<open>T\<close> with log \<open>L\<close>: as long as it leads that term, its log extends \<open>L\<close>.
\<close>

definition led :: "nat \<Rightarrow> entries \<Rightarrow> directory_host \<Rightarrow> bool" where
  "led T L h \<longleftrightarrow> dd_broken h \<or>
     (let n = d_node (dd_raft h) in
      T < current_term n \<or> current_term n = T \<and> (role n = Follower \<or> role n = Leader \<and> prefix L (log n)))"

lemma led_lasts: "led T L h \<Longrightarrow> lasts h h' \<Longrightarrow> led T L h'"
  by (auto simp: led_def lasts_def lasting_def settles_def Let_def dest: prefix_order.trans)

lemma led_run:
  assumes "dd_inv dc h" and "led T L h" and "dd_run dc cd me es (h, dk) = Some (h', dk')"
  shows "led T L h'"
  using assms
proof (induction es arbitrary: h dk)
  case (Cons e es)
  obtain h1 dk1 where "dd_exec dc cd me e h dk = Some (h1, dk1)" "dd_run dc cd me es (h1, dk1) = Some (h', dk')"
    using Cons.prems(3) by (auto split: option.splits)
  then show ?case using Cons.IH Cons.prems(1,2) dd_exec_inv led_lasts by blast
qed simp

lemma broken_lasts: "dd_exec dc cd me e h dk = Some (h', dk') \<Longrightarrow> dd_broken h \<Longrightarrow> dd_broken h'"
  by (cases "(dc, cd, me, e, h, dk)" rule: dd_exec.cases)
    (auto simp: state_of_def dd_tick_def dd_step_def dd_propose_def dd_submit_request_def dd_begin_linear_read_def dd_outbox_def
      dd_broken_def dd_is_closed_def is_closed_def)

lemma broken_run: "dd_run dc cd me es (h, dk) = Some (h', dk') \<Longrightarrow> dd_broken h \<Longrightarrow> dd_broken h'"
  by (induction es arbitrary: h dk) (auto dest: broken_lasts split: option.splits)

lemma durable_propose_appends:
  assumes "durable_propose cd me out bs d dk = Some (Inr k, d', dk')"
  shows "k = length (log (d_node d)) + 1 \<and> d_failed d' \<or>
    k = length (log (d_node d)) + 1 \<and> role (d_node d') = Leader \<and> current_term (d_node d') = current_term (d_node d) \<and>
    log (d_node d') = log (d_node d) @ [\<lparr>e_term = current_term (d_node d), e_index = k, e_cmd = bs\<rparr>] \<and>
    matches (d_saved d') (d_node d')"
proof -
  obtain n where n: "raft_propose bs (d_node d) = Some (Inr k, n)" and f: "finish cd out (d\<lparr>d_node := n\<rparr>) dk = (Inr (), d', dk')"
    using assms by (auto simp: durable_propose_def Let_def split: if_splits option.splits sum.splits prod.splits not_leader.splits)
  show ?thesis using finish_ok [OF f] propose_appends [OF n] by auto
qed

lemma begin_read:
  assumes inv: "dd_inv dc h1" and b: "dd_begin_linear_read dc cd me out q h1 dk = Some (Inr tk, h2, dk')"
  shows "\<not> dd_is_closed me h1 \<and> tk_query tk = q \<and> rc_index (tk_receipt tk) = length (s_log (d_saved (dd_raft h1))) + 1 \<and>
    led (s_term (d_saved (dd_raft h1))) (s_log (d_saved (dd_raft h1)) @
      [\<lparr>e_term = s_term (d_saved (dd_raft h1)), e_index = rc_index (tk_receipt tk), e_cmd = read_barrier\<rparr>]) h2 \<and>
    (\<not> dd_broken h2 \<longrightarrow> rc_term (tk_receipt tk) = s_term (d_saved (dd_raft h1))) \<and> dd_inv dc h2"
proof -
  have open1: "\<not> dd_is_closed me h1" using b by (auto simp: dd_begin_linear_read_def)
  obtain r where "after_raft dc me h1 r (\<lambda>i h'. \<lparr>tk_receipt = dd_receipt dc read_barrier i h', tk_query = q, tk_complete = False\<rparr>) =
      Some (Inr tk, h2, dk')" and r: "r = durable_propose cd me out read_barrier (dd_raft h1) dk"
    using b open1 by (auto simp: dd_begin_linear_read_def split: sum.splits)
  then obtain k d where p: "durable_propose cd me out read_barrier (dd_raft h1) dk = Some (Inr k, d, dk')"
    and a: "apply_pending dc me (h1\<lparr>dd_raft := d\<rparr>) = (Inr (), h2)"
    and tk: "tk = \<lparr>tk_receipt = dd_receipt dc read_barrier k h2, tk_query = q, tk_complete = False\<rparr>"
    by (auto simp: after_raft_def split: option.splits sum.splits prod.splits)
  have m1: "matches (d_saved (dd_raft h1)) (d_node (dd_raft h1))" using open_host_replayed [OF inv open1] by blast
  obtain ps where node: "d_node (dd_raft h2) = (d_node d)\<lparr>pending_apply := ps\<rparr>" "d_saved (dd_raft h2) = d_saved d"
    using apply_pending_node [OF a] by auto
  have "dd_exec dc cd me (DBeginRead q, out) h1 dk = Some (h2, dk')" using b by (simp add: state_of_def)
  then have inv2: "dd_inv dc h2" using dd_exec_inv [OF inv] by blast
  have failed: "dd_broken h2" if "d_failed d"
    using a that by (auto simp: apply_pending_def prepare_requests_def durable_pending_def durable_committed_def is_closed_def
        dd_broken_def split: sum.splits prod.splits option.splits)
  show ?thesis
    using durable_propose_appends [OF p] failed open1 inv2 m1 node
    by (auto simp: tk dd_receipt_def led_def Let_def matches_def)
qed

text \<open>
  C25. A linear read reports everything that came before it. When a read that was begun on a directory
  is answered, after any operations in between and with any disk failures, then the host has led one term all the
  time; everything that its log held when the read began, committed or not, and the barrier of the read right after it
  are still there and are committed and applied; and the reported entry is that of the replay of what has been applied. The
  ticket is used up.
\<close>

theorem linear_read_sound:
  assumes "dd_open dc cd fs cl i ps clk me ident dk0 = (Inr h0, dk1)"
    and "dd_run dc cd me es (h0, dk1) = Some (h1, dk2)"
    and "dd_begin_linear_read dc cd me out q h1 dk2 = Some (Inr tk, h2, dk3)"
    and "dd_run dc cd me es' (h2, dk3) = Some (h, dk)"
    and "dd_poll_linear_read dc me tk h = (Inr (Some rd), tk')"
  shows "let s1 = d_saved (dd_raft h1); s = d_saved (dd_raft h) in
     dd_role me h = Leader \<and> tk_complete tk' \<and> rd_term rd = s_term s1 \<and> s_term s = s_term s1 \<and>
     rd_barrier rd = length (s_log s1) + 1 \<and> s_commit s1 < rd_barrier rd \<and> rd_applied rd = s_commit s \<and>
     prefix (s_log s1 @ [\<lparr>e_term = s_term s1, e_index = rd_barrier rd, e_cmd = read_barrier\<rparr>]) (applied_entries h) \<and>
     (\<exists>cmds. collect (map (\<lambda>e. decode_stored dc (e_cmd e)) (applied_entries h)) = Inr cmds \<and>
        rd_entry rd = sm_query q (fold apply_validated (effective {} cmds) sm_default))"
proof -
  let ?s1 = "d_saved (dd_raft h1)" and ?s = "d_saved (dd_raft h)" and ?rc = "tk_receipt tk"
  let ?L = "s_log ?s1 @ [\<lparr>e_term = s_term ?s1, e_index = rc_index ?rc, e_cmd = read_barrier\<rparr>]"
  have inv1: "dd_inv dc h1" using dd_run_inv [OF dd_open_inv [OF assms(1)] assms(2)] .
  note b = begin_read [OF inv1 assms(3)]
  then have inv: "dd_inv dc h" and led: "led (s_term ?s1) ?L h" using dd_run_inv led_run assms(4) by blast+
  have nc: "\<not> dd_is_closed me h" using assms(5) by (auto simp: dd_poll_linear_read_def)
  note o = open_host_replayed [OF inv nc] and o1 = open_host_replayed [OF inv1 conjunct1 [OF b]]
  have p: "dd_role me h = Leader" "dd_current_term h = rc_term ?rc"
    "dd_proposal_status dc me ?rc h = Inr StApplied" "tk' = tk\<lparr>tk_complete := True\<rparr>"
    "rd = \<lparr>rd_entry = sm_query (tk_query tk) (dd_sm h), rd_barrier = rc_index ?rc, rd_applied = dd_applied h, rd_term = rc_term ?rc\<rparr>"
    using assms(5) by (auto simp: dd_poll_linear_read_def split: if_splits sum.splits dd_status.splits)
  have at: "rc_index ?rc \<le> s_commit ?s" using p(3) nc o by (auto simp: dd_proposal_status_def split: if_splits option.splits)
  have tm: "rc_term ?rc = s_term ?s1" using b broken_run [OF assms(4)] o by blast
  have node: "role (d_node (dd_raft h)) = Leader" "current_term (d_node (dd_raft h)) = s_term ?s1" "log (d_node (dd_raft h)) = s_log ?s"
    using p(1,2) o nc tm by (auto simp: dd_role_def durable_role_def dd_is_closed_def dd_current_term_def matches_def)
  then have "prefix ?L (s_log ?s)" using led o by (simp add: led_def Let_def)
  moreover have "length ?L \<le> length (applied_entries h)"
    using at b o node(3) by (simp add: applied_entries_def node_ok_def node_wf_def matches_def)
  ultimately have "prefix ?L (applied_entries h)"
    using prefix_length_prefix take_is_prefix unfolding applied_entries_def by blast
  moreover have "s_commit ?s1 < rc_index ?rc" using b o1 by (auto simp: node_ok_def node_wf_def matches_def)
  ultimately show ?thesis
    using p b o tm node replayed_effective [of dc "applied_entries h" "dd_sm h" "dd_requests h"]
    by (auto simp: Let_def dd_current_term_def)
qed

text \<open>A read that is begun before another command and answered after it.\<close>

definition solo_read :: "directory_host \<times> disk \<Rightarrow> bool" where
  "solo_read s =
     (case dd_run solo_dir_codec solo_codec 7 solo_events s of
        None \<Rightarrow> False
      | Some (h1, dk1) \<Rightarrow>
          (case dd_begin_linear_read solo_dir_codec solo_codec 7 IoOk (Resolve ''n1'') h1 dk1 of
             Some (Inr tk, h2, dk2) \<Rightarrow>
               (case dd_run solo_dir_codec solo_codec 7 [(DPropose (rq_command solo_request), IoOk)] (h2, dk2) of
                  None \<Rightarrow> False
                | Some (h, dk) \<Rightarrow>
                    (case dd_poll_linear_read solo_dir_codec 7 tk h of
                       (Inr (Some rd), _) \<Rightarrow> length (s_log (d_saved (dd_raft h1))) = 3 \<and> s_commit (d_saved (dd_raft h)) = 5
                     | _ \<Rightarrow> False))
           | _ \<Rightarrow> False))"

theorem linear_read_sound_witness:
  "\<exists>h0 dk0 h1 dk1 tk h2 dk2 h dk rd tk'. solo_open = (Inr h0, dk0) \<and>
     dd_run solo_dir_codec solo_codec 7 solo_events (h0, dk0) = Some (h1, dk1) \<and>
     dd_begin_linear_read solo_dir_codec solo_codec 7 IoOk (Resolve ''n1'') h1 dk1 = Some (Inr tk, h2, dk2) \<and>
     dd_run solo_dir_codec solo_codec 7 [(DPropose (rq_command solo_request), IoOk)] (h2, dk2) = Some (h, dk) \<and>
     dd_poll_linear_read solo_dir_codec 7 tk h = (Inr (Some rd), tk') \<and> rd_barrier rd = 4 \<and> rd_applied rd = 5"
proof -
  have "case solo_open of (Inr h0, dk0) \<Rightarrow> solo_read (h0, dk0) | _ \<Rightarrow> False" by code_simp
  then obtain h0 dk0 where o: "solo_open = (Inr h0, dk0)" and s: "solo_read (h0, dk0)" by (auto split: prod.splits sum.splits)
  obtain h1 dk1 where r1: "dd_run solo_dir_codec solo_codec 7 solo_events (h0, dk0) = Some (h1, dk1)"
    using s by (auto simp: solo_read_def split: option.split_asm)
  note s = s [unfolded solo_read_def r1 option.case prod.case]
  obtain tk h2 dk2 where r2: "dd_begin_linear_read solo_dir_codec solo_codec 7 IoOk (Resolve ''n1'') h1 dk1 = Some (Inr tk, h2, dk2)"
    using s by (auto split: option.split_asm prod.split_asm sum.split_asm)
  note s = s [unfolded r2 option.case prod.case sum.case]
  obtain h dk where r3: "dd_run solo_dir_codec solo_codec 7 [(DPropose (rq_command solo_request), IoOk)] (h2, dk2) = Some (h, dk)"
    using s by (auto split: option.split_asm simp del: dd_run.simps)
  note s = s [unfolded r3 option.case prod.case]
  obtain rd tk' where r4: "dd_poll_linear_read solo_dir_codec 7 tk h = (Inr (Some rd), tk')"
    using s by (auto split: prod.split_asm sum.split_asm option.split_asm)
  note r = r1 r2 r3 r4 and len = s [unfolded r4 prod.case sum.case option.case]
  from linear_read_sound [OF o [unfolded solo_open_def] r1 r2 r3 r4] len
  have "rd_barrier rd = 4 \<and> rd_applied rd = 5" by (simp add: Let_def)
  with o r show ?thesis by blast
qed

end
