(* ===== verification/Directory_Shards.thy ===== *)
theory Directory_Shards
  imports Directory Raft_Robust "HOL-Library.Product_Lexorder"
begin




datatype read_error = RNoShards | RUnavailable string | RVersionOverflow

record dir_shards =
  sh_shards :: "(string \<times> replica) list"
  sh_ring :: ring
  sh_ids :: "string list"
  sh_identity :: nat

definition shard_id :: "nat \<Rightarrow> string" where
  "shard_id i = ''dir-s'' @ dec_str i"

definition shards_new :: "ring_sort \<Rightarrow> nat \<Rightarrow> clock \<Rightarrow> nat \<Rightarrow> dir_shards" where
  "shards_new srt k clk ident =
     (let ids = map shard_id [0..<k] in
      \<lparr>sh_shards = map (\<lambda>i. (i, replica_new clk i [])) ids, sh_ring = ring_new srt ids 256, sh_ids = ids,
       sh_identity = ident\<rparr>)"

definition shards_route :: "string \<Rightarrow> dir_shards \<Rightarrow> string option" where
  "shards_route key s = ring_node key (sh_ring s)"








definition apply_committed_all :: "cmd_codec \<Rightarrow> dir_shards \<Rightarrow> (apply_error + nat) \<times> dir_shards" where
  "apply_committed_all cc s =
     (case collect (map (\<lambda>(i, r). map_sum id (Pair i) (prepare cc (raft_pending_committed (r_raft r)) (r_sm r))) (sh_shards s)) of
        Inl e \<Rightarrow> (Inl e, s)
      | Inr prepared \<Rightarrow>
          (Inr (sum_list (map (\<lambda>(i, cmds). length cmds) prepared)),
           s\<lparr>sh_shards := map2 (\<lambda>(i, r) (_, cmds).
               (i, r\<lparr>r_raft := snd (raft_committed (r_raft r)), r_sm := fold apply_validated cmds (r_sm r)\<rparr>))
             (sh_shards s) prepared\<rparr>))"

section \<open>Queries\<close>

definition read_owner :: "string \<Rightarrow> dir_shards \<Rightarrow> read_error + replica" where
  "read_owner key s =
     (case shards_route key s of
        None \<Rightarrow> Inl RNoShards
      | Some i \<Rightarrow> (case map_of (sh_shards s) i of None \<Rightarrow> Inl (RUnavailable i) | Some r \<Rightarrow> Inr r))"

definition better_border ::
  "dir_shards \<Rightarrow> string \<Rightarrow> string \<Rightarrow> string \<times> node_name \<Rightarrow> (string \<times> node_name) option \<Rightarrow> (string \<times> node_name) option" where
  "better_border s i text b best =
     (if prefix (fst b) text \<and> shards_route (''border:'' @ fst b) s = Some i \<and>
         (case best of None \<Rightarrow> True | Some old \<Rightarrow> length (fst b) > length (fst old))
      then Some b else best)"

fun scan_borders ::
  "dir_shards \<Rightarrow> string \<Rightarrow> string list \<Rightarrow> (string \<times> node_name) option \<Rightarrow> nat
     \<Rightarrow> read_error + (string \<times> node_name) option \<times> nat" where
  "scan_borders s text [] best v = Inr (best, v)"
| "scan_borders s text (i # is) best v =
     (case map_of (sh_shards s) i of
        None \<Rightarrow> Inl (RUnavailable i)
      | Some r \<Rightarrow>
          (case checked_add v (sm_version (r_sm r)) of
             None \<Rightarrow> Inl RVersionOverflow
           | Some v' \<Rightarrow> scan_borders s text is (fold (better_border s i text) (sm_borders (r_sm r)) best) v'))"

definition query_checked :: "dir_query \<Rightarrow> dir_shards \<Rightarrow> read_error + dir_entry option" where
  "query_checked q s =
     (if sh_ids s = [] then Inl RNoShards
      else case q of
          Resolve p \<Rightarrow> map_sum id (replica_query q) (read_owner p s)
        | NodesForKey k \<Rightarrow> map_sum id (replica_query q) (read_owner (''key:'' @ k) s)
        | BorderFor p \<Rightarrow>
            map_sum id (\<lambda>(best, v). map_option
                (\<lambda>(_, n). \<lparr>endpoints = [node_url n], de_version = v, ttl_s = 60\<rparr>) best)
              (scan_borders s p (sh_ids s) None 0))"

definition shards_query :: "dir_query \<Rightarrow> dir_shards \<Rightarrow> dir_entry option" where
  "shards_query q s = (case query_checked q s of Inl _ \<Rightarrow> None | Inr x \<Rightarrow> x)"

definition shard_sizes :: "dir_shards \<Rightarrow> (string \<times> nat) list" where
  "shard_sizes s = sort (map (\<lambda>(i, r). (i, length (sm_nodes (r_sm r)))) (sh_shards s))"

definition total_nodes :: "dir_shards \<Rightarrow> nat" where
  "total_nodes s = sum_list (map (\<lambda>(i, r). length (sm_nodes (r_sm r))) (sh_shards s))"

section \<open>Admission\<close>













end
