(* ===== verification/Once.thy ===== *)
theory Once
  imports Prelude
begin

text \<open>
  The contract of a component that admits each key at most once: \<open>offer\<close> answers with the key it admitted,
  if any, and \<open>seen\<close> is the set of keys that are spent. In the exact form a key is spent only by its
  admission.
\<close>

locale at_most_once =
  fixes inv :: "'t \<Rightarrow> bool" and seen :: "'t \<Rightarrow> 'k set" and offer :: "'o \<Rightarrow> 't \<Rightarrow> ('k option \<times> 't) option"
  assumes total: "inv t \<Longrightarrow> offer x t \<noteq> None"
    and admits: "inv t \<Longrightarrow> offer x t = Some (Some k, t') \<Longrightarrow> inv t' \<and> k \<notin> seen t \<and> insert k (seen t) \<subseteq> seen t'"
    and ignores: "inv t \<Longrightarrow> offer x t = Some (None, t') \<Longrightarrow> inv t' \<and> seen t \<subseteq> seen t'"
begin

fun offers :: "'o list \<Rightarrow> 't \<Rightarrow> ('k list \<times> 't) option" where
  "offers [] t = Some ([], t)"
| "offers (x # xs) t =
     (case offer x t of
        None \<Rightarrow> None
      | Some (k, t') \<Rightarrow>
          map_option (\<lambda>(ks, t''). (case k of None \<Rightarrow> ks | Some y \<Rightarrow> y # ks, t'')) (offers xs t'))"

lemma offers_once:
  assumes "inv t"
  shows "\<exists>ks t'. offers xs t = Some (ks, t') \<and> inv t' \<and> distinct ks \<and> set ks \<inter> seen t = {} \<and> seen t \<union> set ks \<subseteq> seen t'"
  using assms
proof (induction xs arbitrary: t)
  case (Cons x xs)
  obtain k t1 where o: "offer x t = Some (k, t1)" using total [OF Cons.prems] by fastforce
  then have t1: "inv t1" "seen t \<subseteq> seen t1"
    using admits [OF Cons.prems] ignores [OF Cons.prems] by (cases k; fastforce)+
  obtain ks t' where ks: "offers xs t1 = Some (ks, t')" "inv t'" "distinct ks" "set ks \<inter> seen t1 = {}"
    "seen t1 \<union> set ks \<subseteq> seen t'"
    using Cons.IH [OF t1(1)] by blast
  show ?case
  proof (cases k)
    case None
    then show ?thesis using o ks t1 by auto
  next
    case (Some y)
    then have "y \<notin> seen t" "y \<in> seen t1" using o admits [OF Cons.prems] by auto
    then show ?thesis using o ks t1 Some by auto
  qed
qed simp

end

locale exactly_once = at_most_once +
  assumes admits_exact: "inv t \<Longrightarrow> offer x t = Some (Some k, t') \<Longrightarrow> seen t' = insert k (seen t)"
    and ignores_exact: "inv t \<Longrightarrow> offer x t = Some (None, t') \<Longrightarrow> seen t' = seen t"
begin

lemma offers_exact:
  assumes "inv t"
  shows "\<exists>ks t'. offers xs t = Some (ks, t') \<and> inv t' \<and> distinct ks \<and> set ks \<inter> seen t = {} \<and> seen t' = seen t \<union> set ks"
proof -
  obtain ks t' where o: "offers xs t = Some (ks, t')" "inv t'" "distinct ks" "set ks \<inter> seen t = {}"
    using offers_once [OF assms] by blast
  have "seen t' = seen t \<union> set ks" using assms o(1)
  proof (induction xs arbitrary: t ks)
    case (Cons x xs)
    obtain k t1 where k: "offer x t = Some (k, t1)" using total [OF Cons.prems(1)] by fastforce
    obtain ks1 where ks1: "offers xs t1 = Some (ks1, t')" "ks = (case k of None \<Rightarrow> ks1 | Some y \<Rightarrow> y # ks1)"
      using Cons.prems(2) k by auto
    have "inv t1" using k admits [OF Cons.prems(1)] ignores [OF Cons.prems(1)] by (cases k) auto
    then have "seen t' = seen t1 \<union> set ks1" using Cons.IH ks1(1) by blast
    then show ?case
      using k ks1(2) admits_exact [OF Cons.prems(1)] ignores_exact [OF Cons.prems(1)] by (cases k) auto
  qed simp
  then show ?thesis using o by blast
qed

end

end
