(* ===== verification/Dedup.thy ===== *)
theory Dedup
  imports Tables Once
begin

text \<open>
  The receiver's deduplication table, \<^verbatim>\<open>durable/dedup.rs\<close>: per sender the highest contiguous completed
  sequence and the completed sequences above it. A permit borrows the table, so its holder is the only
  one who can use it; dropping a permit only returns spare capacity. The hash set of gaps is a list
  without duplicates. Whether an allocation succeeds is an argument.
\<close>

record dedup_limits =
  max_senders :: nat
  max_pending_sequences :: nat
  max_sender_bytes :: nat
  max_sender_length :: nat

definition dedup_limits_default :: dedup_limits where
  "dedup_limits_default =
     \<lparr>max_senders = 4096, max_pending_sequences = 65536, max_sender_bytes = 1024 * 1024, max_sender_length = 1024\<rparr>"

datatype dedup_error =
    InvalidLimits | EmptySender | ZeroSequence | SenderTooLong | SenderLimit | SenderBytesLimit
  | SequenceLimit | Allocation

record dedup_stats =
  ds_senders :: nat
  ds_pending_sequences :: nat
  ds_sender_bytes :: nat

record sender_state =
  watermark :: nat
  gaps :: "nat list"

record dedup_table =
  dt_limits :: dedup_limits
  dt_senders :: "(string \<times> sender_state) list"
  dt_pending :: nat
  dt_bytes :: nat

record dedup_permit =
  p_sender :: string
  p_seq :: nat
  p_fresh :: "(string \<times> sender_state) option"
  p_reserved_gap :: bool

datatype dedup_decision = Duplicate nat | Process dedup_permit

datatype reservation = ForKey | ForGap | ForSender

definition isize_max :: nat where
  "isize_max = 2 ^ 63 - 1"

definition with_limits :: "dedup_limits \<Rightarrow> dedup_error + dedup_table" where
  "with_limits l =
     (if (\<exists>n \<in> set [max_senders l, max_pending_sequences l, max_sender_bytes l, max_sender_length l].
            n = 0 \<or> n \<ge> isize_max) \<or> max_sender_length l > max_sender_bytes l
      then Inl InvalidLimits
      else Inr \<lparr>dt_limits = l, dt_senders = [], dt_pending = 0, dt_bytes = 0\<rparr>)"

definition dedup_stats_of :: "dedup_table \<Rightarrow> dedup_stats" where
  "dedup_stats_of t =
     \<lparr>ds_senders = length (dt_senders t), ds_pending_sequences = dt_pending t, ds_sender_bytes = dt_bytes t\<rparr>"

definition dedup_watermark :: "string \<Rightarrow> dedup_table \<Rightarrow> nat option" where
  "dedup_watermark s t = map_option watermark (map_of (dt_senders t) s)"

definition reserve_all :: "(reservation \<Rightarrow> bool) \<Rightarrow> bool \<Rightarrow> bool \<Rightarrow> bool" where
  "reserve_all alloc new_sender reserved_gap \<longleftrightarrow>
     (new_sender \<longrightarrow> alloc ForKey) \<and> (reserved_gap \<longrightarrow> alloc ForGap) \<and> (new_sender \<longrightarrow> alloc ForSender)"

definition dedup_begin ::
  "(reservation \<Rightarrow> bool) \<Rightarrow> string \<Rightarrow> nat \<Rightarrow> dedup_table \<Rightarrow> dedup_error + dedup_decision" where
  "dedup_begin alloc sender sq t =
     (let existing = map_of (dt_senders t) sender;
          wm = (case existing of None \<Rightarrow> 0 | Some st \<Rightarrow> watermark st);
          new_sender = (existing = None);
          reserved_gap = (checked_add wm 1 \<noteq> Some sq)
      in if sender = [] then Inl EmptySender
      else if sq = 0 then Inl ZeroSequence
      else if length sender > max_sender_length (dt_limits t) then Inl SenderTooLong
      else if sq \<le> wm \<or> (case existing of None \<Rightarrow> False | Some st \<Rightarrow> sq \<in> set (gaps st))
        then Inr (Duplicate wm)
      else if new_sender \<and> length (dt_senders t) = max_senders (dt_limits t) then Inl SenderLimit
      else if new_sender \<and> (case checked_add (dt_bytes t) (length sender) of
                               None \<Rightarrow> True | Some n \<Rightarrow> n > max_sender_bytes (dt_limits t))
        then Inl SenderBytesLimit
      else if reserved_gap \<and> dt_pending t = max_pending_sequences (dt_limits t) then Inl SequenceLimit
      else if \<not> reserve_all alloc new_sender reserved_gap then Inl Allocation
      else Inr (Process \<lparr>p_sender = sender, p_seq = sq,
                         p_fresh = (if new_sender then Some (sender, \<lparr>watermark = 0, gaps = []\<rparr>) else None),
                         p_reserved_gap = reserved_gap\<rparr>))"

text \<open>The loop of \<^verbatim>\<open>commit\<close>: the watermark swallows the gaps it reaches.\<close>

function advance :: "nat \<Rightarrow> nat list \<Rightarrow> nat \<Rightarrow> (nat \<times> nat list \<times> nat) option" where
  "advance wm gs pend =
     (case checked_add wm 1 of
        None \<Rightarrow> Some (wm, gs, pend)
      | Some next \<Rightarrow>
          if next \<notin> set gs then Some (wm, gs, pend)
          else (case checked_sub pend 1 of
                  None \<Rightarrow> None
                | Some p \<Rightarrow> advance next (removeAll next gs) p))"
  by pat_completeness auto

termination advance
  by (relation "measure (\<lambda>(wm, gs, pend). length gs)") (auto intro: length_removeAll_less)

declare advance.simps [simp del]

definition dedup_commit :: "dedup_permit \<Rightarrow> dedup_table \<Rightarrow> (nat \<times> dedup_table) option" where
  "dedup_commit p t =
     (let t1 = (case p_fresh p of
                  None \<Rightarrow> t
                | Some (k, st) \<Rightarrow> t\<lparr>dt_bytes := dt_bytes t + length k,
                                    dt_senders := AList.update k st (dt_senders t)\<rparr>)
      in case map_of (dt_senders t1) (p_sender p) of
           None \<Rightarrow> None
         | Some st \<Rightarrow>
             if p_reserved_gap p
             then Some (watermark st,
                        t1\<lparr>dt_senders := AList.update (p_sender p)
                             (st\<lparr>gaps := List.insert (p_seq p) (gaps st)\<rparr>) (dt_senders t1),
                           dt_pending := dt_pending t1 + 1\<rparr>)
             else (case advance (p_seq p) (gaps st) (dt_pending t1) of
                     None \<Rightarrow> None
                   | Some (wm, gs, pend) \<Rightarrow>
                       Some (wm, t1\<lparr>dt_senders := AList.update (p_sender p)
                                      (st\<lparr>watermark := wm, gaps := gs\<rparr>) (dt_senders t1),
                                    dt_pending := pend\<rparr>)))"

definition dedup_filter ::
  "(reservation \<Rightarrow> bool) \<Rightarrow> string \<Rightarrow> nat \<Rightarrow> dedup_table \<Rightarrow> ((dedup_error + bool) \<times> dedup_table) option" where
  "dedup_filter alloc sender sq t =
     (case dedup_begin alloc sender sq t of
        Inl e \<Rightarrow> Some (Inl e, t)
      | Inr (Duplicate _) \<Rightarrow> Some (Inr False, t)
      | Inr (Process p) \<Rightarrow> map_option (\<lambda>(_, t'). (Inr True, t')) (dedup_commit p t))"

section \<open>The table as a set of completed sequences\<close>

definition completed :: "sender_state \<Rightarrow> nat set" where
  "completed st = {1..watermark st} \<union> set (gaps st)"

definition done_by :: "dedup_table \<Rightarrow> string \<Rightarrow> nat set" where
  "done_by t s = (case map_of (dt_senders t) s of None \<Rightarrow> {} | Some st \<Rightarrow> completed st)"

definition state_ok :: "sender_state \<Rightarrow> bool" where
  "state_ok st \<longleftrightarrow> distinct (gaps st) \<and> watermark st \<le> u64_max \<and>
     (\<forall>g \<in> set (gaps st). watermark st + 1 < g \<and> g \<le> u64_max)"

definition dedup_wf :: "dedup_table \<Rightarrow> bool" where
  "dedup_wf t \<longleftrightarrow> distinct (map fst (dt_senders t)) \<and> (\<forall>(s, st) \<in> set (dt_senders t). state_ok st) \<and>
     dt_pending t = (\<Sum>(s, st) \<leftarrow> dt_senders t. length (gaps st)) \<and>
     dt_bytes t = (\<Sum>(s, st) \<leftarrow> dt_senders t. length s) \<and>
     length (dt_senders t) \<le> max_senders (dt_limits t) \<and>
     dt_pending t \<le> max_pending_sequences (dt_limits t) \<and> dt_bytes t \<le> max_sender_bytes (dt_limits t)"

text \<open>The loop moves the watermark to the end of the run of completed sequences.\<close>

lemma advance_spec:
  assumes "distinct gs" and "\<forall>g \<in> set gs. wm < g \<and> g \<le> u64_max" and "length gs \<le> pend" and "wm \<le> u64_max"
  shows "\<exists>wm' gs' pend'. advance wm gs pend = Some (wm', gs', pend') \<and>
     state_ok \<lparr>watermark = wm', gaps = gs'\<rparr> \<and>
     completed \<lparr>watermark = wm', gaps = gs'\<rparr> = completed \<lparr>watermark = wm, gaps = gs\<rparr> \<and>
     pend' + length gs = pend + length gs'"
  using assms
proof (induction wm gs pend rule: advance.induct)
  case (1 wm gs pend)
  show ?case
  proof (cases "wm + 1 \<in> set gs")
    case False
    then have "advance wm gs pend = Some (wm, gs, pend)"
      by (subst advance.simps) (auto simp: opt_iffs split: option.split)
    moreover have "\<forall>g \<in> set gs. wm + 1 < g" using 1(3) False
      by (metis Suc_eq_plus1 Suc_lessI)
    ultimately show ?thesis using 1 by (auto simp: state_ok_def)
  next
    case True
    let ?gs = "removeAll (wm + 1) gs"
    have len: "length gs = length ?gs + 1" using True "1.prems"(1)
      by (metis One_nat_def Suc_pred add.commute distinct_remove1_removeAll length_pos_if_in_set length_remove1 plus_1_eq_Suc)
    have c: "checked_add wm 1 = Some (wm + 1)" "checked_sub pend 1 = Some (pend - 1)"
      using True 1 len by (auto simp: checked_add_def checked_sub_def)
    have adv: "advance wm gs pend = advance (wm + 1) ?gs (pend - 1)"
      using c True by (subst advance.simps) simp
    have pre: "distinct ?gs" "\<forall>g \<in> set ?gs. wm + 1 < g \<and> g \<le> u64_max" "length ?gs \<le> pend - 1" "wm + 1 \<le> u64_max"
      using 1 True len by (auto simp: distinct_removeAll intro: Suc_lessI)
    obtain wm' gs' pend' where IH: "advance (wm + 1) ?gs (pend - 1) = Some (wm', gs', pend')"
      "state_ok \<lparr>watermark = wm', gaps = gs'\<rparr>"
      "completed \<lparr>watermark = wm', gaps = gs'\<rparr> = completed \<lparr>watermark = wm + 1, gaps = ?gs\<rparr>"
      "pend' + length ?gs = pend - 1 + length gs'"
      using 1(1) [OF c(1) _ c(2) pre] True by auto
    moreover have "completed \<lparr>watermark = wm + 1, gaps = ?gs\<rparr> = completed \<lparr>watermark = wm, gaps = gs\<rparr>"
      using True by (auto simp: completed_def le_Suc_eq)
    ultimately show ?thesis using adv len 1 by auto
  qed
qed

section \<open>Admission and completion\<close>

lemma stateD: "dedup_wf t \<Longrightarrow> map_of (dt_senders t) s = Some st \<Longrightarrow> state_ok st"
  by (auto simp: dedup_wf_def dest: map_of_SomeD)

lemma dedup_wf_new: "with_limits l = Inr t \<Longrightarrow> dedup_wf t"
  by (auto simp: with_limits_def dedup_wf_def split: if_splits)

text \<open>A watermark is the end of the run of completed sequences from one on.\<close>

lemma watermark_contiguous:
  assumes "state_ok st"
  shows "{1..n} \<subseteq> completed st \<longleftrightarrow> n \<le> watermark st"
proof
  assume sub: "{1..n} \<subseteq> completed st"
  show "n \<le> watermark st"
  proof (rule ccontr)
    assume "\<not> n \<le> watermark st"
    then have "watermark st + 1 \<in> completed st" using sub by auto
    then show False using assms by (auto simp: completed_def state_ok_def)
  qed
qed (auto simp: completed_def)

lemma begin_duplicate:
  "(\<exists>wm. dedup_begin alloc s q t = Inr (Duplicate wm)) \<longleftrightarrow>
     s \<noteq> [] \<and> length s \<le> max_sender_length (dt_limits t) \<and> q \<in> done_by t s - {0}"
  by (auto simp: dedup_begin_def Let_def done_by_def completed_def split: option.splits)

lemma begin_process:
  assumes "dedup_begin alloc s q t = Inr (Process p)"
  shows "p_sender p = s" "p_seq p = q" "0 < q" "q \<notin> done_by t s"
    "p_fresh p = (if map_of (dt_senders t) s = None then Some (s, \<lparr>watermark = 0, gaps = []\<rparr>) else None)"
    "p_reserved_gap p \<longleftrightarrow> checked_add (case map_of (dt_senders t) s of None \<Rightarrow> 0 | Some st \<Rightarrow> watermark st) 1 \<noteq> Some q"
    "map_of (dt_senders t) s = None \<Longrightarrow> length (dt_senders t) \<noteq> max_senders (dt_limits t) \<and>
       dt_bytes t + length s \<le> max_sender_bytes (dt_limits t)"
    "p_reserved_gap p \<Longrightarrow> dt_pending t \<noteq> max_pending_sequences (dt_limits t)"
  using assms
  by (auto simp: dedup_begin_def Let_def done_by_def completed_def opt_iffs split: option.splits if_splits)

text \<open>The table with the reserved sender in place.\<close>

definition with_sender :: "dedup_permit \<Rightarrow> dedup_table \<Rightarrow> dedup_table" where
  "with_sender p t = (case p_fresh p of
      None \<Rightarrow> t
    | Some (k, st) \<Rightarrow> t\<lparr>dt_bytes := dt_bytes t + length k, dt_senders := AList.update k st (dt_senders t)\<rparr>)"

lemma with_sender_ok:
  assumes wf: "dedup_wf t" and b: "dedup_begin alloc s q t = Inr (Process p)"
  obtains st where "map_of (dt_senders (with_sender p t)) s = Some st" and "state_ok st"
    and "dedup_wf (with_sender p t)" and "done_by (with_sender p t) = done_by t"
    and "dt_limits (with_sender p t) = dt_limits t" and "dt_pending (with_sender p t) = dt_pending t"
    and "watermark st = (case map_of (dt_senders t) s of None \<Rightarrow> 0 | Some st \<Rightarrow> watermark st)"
proof (cases "map_of (dt_senders t) s")
  case (Some st)
  then show ?thesis using that [of st] begin_process(5) [OF b] stateD [OF wf] wf by (simp add: with_sender_def)
next
  case None
  let ?st = "\<lparr>watermark = 0, gaps = []\<rparr> :: sender_state"
  have t1: "with_sender p t =
      t\<lparr>dt_bytes := dt_bytes t + length s, dt_senders := dt_senders t @ [(s, ?st)]\<rparr>"
    using None begin_process(5) [OF b] by (simp add: with_sender_def update_new)
  have "state_ok ?st" by (simp add: state_ok_def)
  moreover have "s \<notin> fst ` set (dt_senders t)" using None by (simp add: map_of_eq_None_iff)
  moreover have "length (dt_senders t) < max_senders (dt_limits t)"
    using begin_process(7) [OF b None] wf by (simp add: dedup_wf_def)
  ultimately have "dedup_wf (with_sender p t)"
    using wf begin_process(7) [OF b None] by (auto simp: t1 dedup_wf_def)
  moreover have "done_by (with_sender p t) = done_by t"
    using None by (auto simp: t1 done_by_def completed_def map_add_def fun_eq_iff split: option.split)
  ultimately show ?thesis using that [of ?st] None \<open>state_ok ?st\<close> by (simp add: t1 map_add_def)
qed

lemma replace_state_wf:
  assumes "dedup_wf t" and "map_of (dt_senders t) s = Some st" and "state_ok st'"
    and "pend + length (gaps st) = dt_pending t + length (gaps st')" and "pend \<le> max_pending_sequences (dt_limits t)"
  shows "dedup_wf (t\<lparr>dt_senders := AList.update s st' (dt_senders t), dt_pending := pend\<rparr>)"
proof -
  have "pend = (\<Sum>(s, st) \<leftarrow> AList.update s st' (dt_senders t). length (gaps st))"
    using sum_update [OF assms(2), of "\<lambda>(s, st). length (gaps st)" st'] assms(1,4) by (simp add: dedup_wf_def)
  moreover have "dt_bytes t = (\<Sum>(s, st) \<leftarrow> AList.update s st' (dt_senders t). length s)"
    using sum_update [OF assms(2), of "\<lambda>(s, st). length s" st'] assms(1) by (simp add: dedup_wf_def)
  moreover have "\<forall>(k, v) \<in> set (AList.update s st' (dt_senders t)). state_ok v"
    using assms(1,3) by (auto simp: dedup_wf_def dest!: update_entries)
  ultimately show ?thesis
    using assms(1,2,5) by (simp add: dedup_wf_def table_simps AList.distinct_update)
qed

lemma done_by_replace:
  "done_by (t\<lparr>dt_senders := AList.update s st (dt_senders t), dt_pending := p\<rparr>) = (done_by t)(s := completed st)"
  by (auto simp: done_by_def table_simps fun_eq_iff)

lemma commit_unfold:
  "dedup_commit p t =
     (case map_of (dt_senders (with_sender p t)) (p_sender p) of
        None \<Rightarrow> None
      | Some st \<Rightarrow>
          if p_reserved_gap p
          then Some (watermark st, (with_sender p t)
                 \<lparr>dt_senders := AList.update (p_sender p)
                     (st\<lparr>gaps := List.insert (p_seq p) (gaps st)\<rparr>) (dt_senders (with_sender p t)),
                  dt_pending := dt_pending (with_sender p t) + 1\<rparr>)
          else (case advance (p_seq p) (gaps st) (dt_pending (with_sender p t)) of
                  None \<Rightarrow> None
                | Some (wm, gs, pend) \<Rightarrow>
                    Some (wm, (with_sender p t)\<lparr>dt_senders := AList.update (p_sender p)
                           (st\<lparr>watermark := wm, gaps := gs\<rparr>) (dt_senders (with_sender p t)),
                         dt_pending := pend\<rparr>)))"
  unfolding dedup_commit_def with_sender_def Let_def by (rule refl)

lemma pending_at_least:
  assumes "dedup_wf t" and "map_of (dt_senders t) s = Some st"
  shows "length (gaps st) \<le> dt_pending t"
proof -
  have "length (gaps st) \<in> set (map (\<lambda>(s, st). length (gaps st)) (dt_senders t))"
    using map_of_SomeD [OF assms(2)] by force
  then have "length (gaps st) \<le> (\<Sum>(s, st) \<leftarrow> dt_senders t. length (gaps st))"
    by (rule member_le_sum_list) simp
  then show ?thesis using assms(1) by (simp add: dedup_wf_def)
qed

text \<open>Completing a permitted sequence adds it to the sender's history and nothing else.\<close>

lemma commit_ok:
  assumes wf: "dedup_wf t" and b: "dedup_begin alloc s q t = Inr (Process p)" and q: "q \<le> u64_max"
  obtains t' st where "dedup_commit p t = Some (watermark st, t')" and "dedup_wf t'"
    and "done_by t' = (done_by t)(s := insert q (done_by t s))" and "dt_limits t' = dt_limits t"
    and "map_of (dt_senders t') s = Some st"
proof -
  let ?t = "with_sender p t"
  obtain st where st: "map_of (dt_senders ?t) s = Some st" "state_ok st" "dedup_wf ?t" "done_by ?t = done_by t"
    "dt_limits ?t = dt_limits t" "dt_pending ?t = dt_pending t"
    "watermark st = (case map_of (dt_senders t) s of None \<Rightarrow> 0 | Some st \<Rightarrow> watermark st)"
    using with_sender_ok [OF wf b] by blast
  have d: "done_by t s = completed st" using st(1,4) by (metis done_by_def option.simps(5))
  note p = begin_process [OF b]
  have new: "watermark st < q" "q \<notin> set (gaps st)" using p(3,4) d by (auto simp: completed_def)
  show ?thesis
  proof (cases "p_reserved_gap p")
    case True
    let ?st = "st\<lparr>gaps := List.insert q (gaps st)\<rparr>"
    have ne: "q \<noteq> watermark st + 1" using p(6) True st(2,7) q by (auto simp: checked_add_def)
    have "state_ok ?st" using st(2) new ne q by (auto simp: state_ok_def List.insert_def)
    moreover have "dt_pending t + 1 \<le> max_pending_sequences (dt_limits t)"
      using p(8) [OF True] wf by (simp add: dedup_wf_def)
    ultimately have "dedup_wf (?t\<lparr>dt_senders := AList.update s ?st (dt_senders ?t), dt_pending := dt_pending t + 1\<rparr>)"
      using replace_state_wf [OF st(3,1), of ?st "dt_pending t + 1"] st(5,6) new(2) by (simp add: List.insert_def)
    moreover have "completed ?st = insert q (completed st)" by (auto simp: completed_def)
    ultimately show ?thesis
      using that [of ?st] True st d p(1,2) by (simp add: commit_unfold done_by_replace table_simps)
  next
    case False
    then have q1: "q = watermark st + 1" using p(6) st(7) by (auto simp: opt_iffs)
    obtain wm gs pend where a: "advance q (gaps st) (dt_pending ?t) = Some (wm, gs, pend)"
      "state_ok \<lparr>watermark = wm, gaps = gs\<rparr>"
      "completed \<lparr>watermark = wm, gaps = gs\<rparr> = completed \<lparr>watermark = q, gaps = gaps st\<rparr>"
      "pend + length (gaps st) = dt_pending ?t + length gs"
      using advance_spec [of "gaps st" q "dt_pending ?t"] st(2) q1 q pending_at_least [OF st(3,1)]
      by (auto simp: state_ok_def)
    let ?st = "st\<lparr>watermark := wm, gaps := gs\<rparr>"
    have "{1..q} = insert q {1..watermark st}" using q1 by auto
    then have c: "completed ?st = insert q (completed st)" using a(3) by (simp add: completed_def)
    have "length gs \<le> length (gaps st)"
    proof -
      have "wm + 1 > q" using a(2,3) watermark_contiguous [of "\<lparr>watermark = wm, gaps = gs\<rparr>" q] by (auto simp: completed_def)
      moreover have "\<forall>x \<in> set gs. wm < x" using a(2) by (auto simp: state_ok_def)
      moreover have "set gs \<subseteq> {1..q} \<union> set (gaps st)" using a(3) by (auto simp: completed_def)
      ultimately have "set gs \<subseteq> set (gaps st)" by fastforce
      moreover have "distinct gs" "distinct (gaps st)" using a(2) st(2) by (simp_all add: state_ok_def)
      ultimately show ?thesis by (metis card_mono distinct_card finite_set)
    qed
    then have "dedup_wf (?t\<lparr>dt_senders := AList.update s ?st (dt_senders ?t), dt_pending := pend\<rparr>)"
      using replace_state_wf [OF st(3,1), of ?st pend] a(2,4) st(3) by (simp add: state_ok_def dedup_wf_def)
    then show ?thesis
      using that [of ?st] False st d p(1,2) a(1) c by (simp add: commit_unfold done_by_replace table_simps)
  qed
qed

section \<open>At most once\<close>

definition done_pairs :: "dedup_table \<Rightarrow> (string \<times> nat) set" where
  "done_pairs t = {(s, q). q \<in> done_by t s}"

fun dedup_offer ::
  "(reservation \<Rightarrow> bool) \<times> string \<times> nat \<Rightarrow> dedup_table \<Rightarrow> ((string \<times> nat) option \<times> dedup_table) option" where
  "dedup_offer (alloc, s, q) t =
     (if q \<le> u64_max
      then map_option (\<lambda>(r, t'). (if r = Inr True then Some (s, q) else None, t')) (dedup_filter alloc s q t)
      else Some (None, t))"

lemma filter_cases:
  assumes "dedup_wf t" and "q \<le> u64_max"
  shows "\<exists>r t'. dedup_filter alloc s q t = Some (r, t') \<and> dedup_wf t' \<and> dt_limits t' = dt_limits t \<and>
     (if r = Inr True then q \<notin> done_by t s \<and> done_by t' = (done_by t)(s := insert q (done_by t s)) else t' = t)"
proof (cases "dedup_begin alloc s q t")
  case (Inl e)
  then show ?thesis using assms(1) by (simp add: dedup_filter_def)
next
  case (Inr d)
  show ?thesis
  proof (cases d)
    case (Duplicate wm)
    then show ?thesis using Inr assms(1) by (simp add: dedup_filter_def)
  next
    case (Process p)
    then have b: "dedup_begin alloc s q t = Inr (Process p)" using Inr by simp
    obtain t' st where c: "dedup_commit p t = Some (watermark st, t')" "dedup_wf t'"
      "done_by t' = (done_by t)(s := insert q (done_by t s))" "dt_limits t' = dt_limits t"
      "map_of (dt_senders t') s = Some st"
      by (rule commit_ok [OF assms(1) b assms(2)])
    have "dedup_filter alloc s q t = Some (Inr True, t')" using b c(1) by (simp add: dedup_filter_def)
    with c(2-4) begin_process(4) [OF b] show ?thesis by (intro exI [of _ "Inr True"] exI [of _ t']) simp
  qed
qed

lemma offer_cases:
  assumes "dedup_wf t"
  shows "\<exists>k t'. dedup_offer x t = Some (k, t') \<and> dedup_wf t' \<and>
    (case k of None \<Rightarrow> done_pairs t' = done_pairs t
             | Some y \<Rightarrow> y \<notin> done_pairs t \<and> done_pairs t' = insert y (done_pairs t))"
proof -
  obtain alloc s q where x: "x = (alloc, s, q)" by (cases x) auto
  show ?thesis
  proof (cases "q \<le> u64_max")
    case True
    obtain r t' where f: "dedup_filter alloc s q t = Some (r, t')" "dedup_wf t'"
      "if r = Inr True then q \<notin> done_by t s \<and> done_by t' = (done_by t)(s := insert q (done_by t s)) else t' = t"
      using filter_cases [OF assms True] by blast
    have "done_pairs t' = insert (s, q) (done_pairs t)" if "r = Inr True"
      using f(3) that by (auto simp: done_pairs_def split: if_splits)
    then show ?thesis using x True f by (auto simp: done_pairs_def)
  qed (use x assms in simp)
qed

interpretation dedup: exactly_once dedup_wf done_pairs dedup_offer
proof unfold_locales
  fix t t' :: dedup_table and k :: "string \<times> nat" and x :: "(reservation \<Rightarrow> bool) \<times> string \<times> nat"
  assume "dedup_wf t"
  from offer_cases [OF this, of x] obtain k0 t0 where c: "dedup_offer x t = Some (k0, t0)" "dedup_wf t0"
    "case k0 of None \<Rightarrow> done_pairs t0 = done_pairs t
              | Some y \<Rightarrow> y \<notin> done_pairs t \<and> done_pairs t0 = insert y (done_pairs t)" by blast
  show "dedup_offer x t \<noteq> None" using c(1) by simp
  show "dedup_wf t' \<and> k \<notin> done_pairs t \<and> insert k (done_pairs t) \<subseteq> done_pairs t'"
    and "done_pairs t' = insert k (done_pairs t)"
    if "dedup_offer x t = Some (Some k, t')" using c that by auto
  show "dedup_wf t' \<and> done_pairs t \<subseteq> done_pairs t'" and "done_pairs t' = done_pairs t" if "dedup_offer x t = Some (None, t')" using c that by auto
qed

fun filter_run ::
  "((reservation \<Rightarrow> bool) \<times> string \<times> nat) list \<Rightarrow> dedup_table \<Rightarrow> ((string \<times> nat) list \<times> dedup_table) option" where
  "filter_run [] t = Some ([], t)"
| "filter_run ((alloc, s, q) # xs) t =
     (case dedup_filter alloc s q t of
        None \<Rightarrow> None
      | Some (r, t') \<Rightarrow> map_option (\<lambda>(ks, t''). (if r = Inr True then (s, q) # ks else ks, t'')) (filter_run xs t'))"

lemma filter_run_offers:
  "\<forall>(alloc, s, q) \<in> set xs. q \<le> u64_max \<Longrightarrow> filter_run xs t = dedup.offers xs t"
  by (induction xs t rule: filter_run.induct) (auto split: option.splits)

text \<open>
  C27. Deduplication is at most once. Over any sequence of offers to a table made by \<open>with_limits\<close>, with
  any sequences, repetitions and allocation failures, no operation panics, no pair of sender and
  sequence is accepted twice, and the history of the table is exactly the set of accepted pairs.
\<close>

theorem accepted_at_most_once:
  assumes "with_limits l = Inr t" and "\<forall>(alloc, s, q) \<in> set xs. q \<le> u64_max"
  shows "\<exists>ks t'. filter_run xs t = Some (ks, t') \<and> distinct ks \<and> done_pairs t' = set ks"
proof -
  have "done_pairs t = {}" using assms(1) by (auto simp: with_limits_def done_pairs_def done_by_def split: if_splits)
  then show ?thesis
    using dedup.offers_exact [OF dedup_wf_new [OF assms(1)], of xs] filter_run_offers [OF assms(2)] by auto
qed

definition demo_table :: dedup_table where
  "demo_table = \<lparr>dt_limits = \<lparr>max_senders = 2, max_pending_sequences = 1, max_sender_bytes = 8, max_sender_length = 4\<rparr>,
                 dt_senders = [], dt_pending = 0, dt_bytes = 0\<rparr>"

definition demo_offers :: "((reservation \<Rightarrow> bool) \<times> string \<times> nat) list" where
  "demo_offers = map (\<lambda>(s, q). (\<lambda>_. True, s, q))
     [(''a'', 2), (''a'', 2), (''a'', 3), (''a'', 1), (''a'', 2), (''b'', 1)]"

lemma demo_table_new: "with_limits (dt_limits demo_table) = Inr demo_table"
  by (simp add: with_limits_def demo_table_def isize_max_def)

theorem accepted_at_most_once_witness:
  "\<exists>ks t'. filter_run demo_offers demo_table = Some (ks, t') \<and>
     ks = [(''a'', 2), (''a'', 1), (''b'', 1)] \<and> distinct ks \<and> done_pairs t' = set ks"
proof -
  have "map_option fst (filter_run demo_offers demo_table) = Some [(''a'', 2), (''a'', 1), (''b'', 1)]"
    by code_simp
  moreover have "\<forall>(alloc, s, q) \<in> set demo_offers. q \<le> u64_max" by (simp add: demo_offers_def u64_max_eq)
  ultimately show ?thesis using accepted_at_most_once [OF demo_table_new, of demo_offers] by auto
qed

text \<open>
  The decision and the watermark are exact. On a well-formed table an offer is answered as a
  duplicate exactly when the sequence is in the sender's history. When a permit is given, its commit
  succeeds, adds that sequence to the history of that sender and nothing else, keeps every budget of the
  limits, and returns the largest \<open>n\<close> such that all of \<open>1..n\<close> are completed.
\<close>

theorem permit_commits_exactly:
  assumes "dedup_wf t" and "dedup_begin alloc s q t = Inr (Process p)" and "q \<le> u64_max"
  shows "q \<notin> done_by t s \<and>
    (\<exists>wm t'. dedup_commit p t = Some (wm, t') \<and> dedup_watermark s t' = Some wm \<and>
       done_by t' = (done_by t)(s := insert q (done_by t s)) \<and>
       (\<forall>n. n \<le> wm \<longleftrightarrow> {1..n} \<subseteq> done_by t' s) \<and>
       ds_senders (dedup_stats_of t') \<le> max_senders (dt_limits t) \<and>
       ds_pending_sequences (dedup_stats_of t') \<le> max_pending_sequences (dt_limits t) \<and>
       ds_sender_bytes (dedup_stats_of t') \<le> max_sender_bytes (dt_limits t) \<and>
       dedup_begin alloc' s q t' = Inr (Duplicate wm))"
proof -
  obtain t' st where c: "dedup_commit p t = Some (watermark st, t')" "dedup_wf t'"
    "done_by t' = (done_by t)(s := insert q (done_by t s))" "dt_limits t' = dt_limits t"
    "map_of (dt_senders t') s = Some st"
    by (rule commit_ok [OF assms])
  have "done_by t' s = completed st" using c(5) by (simp add: done_by_def)
  then have contig: "\<forall>n. n \<le> watermark st \<longleftrightarrow> {1..n} \<subseteq> done_by t' s"
    using watermark_contiguous stateD [OF c(2,5)] by metis
  have "s \<noteq> [] \<and> length s \<le> max_sender_length (dt_limits t) \<and> 0 < q"
    using assms(2) by (auto simp: dedup_begin_def Let_def split: if_splits)
  then have "\<exists>wm. dedup_begin alloc' s q t' = Inr (Duplicate wm)"
    using c(3,4) by (simp add: begin_duplicate)
  then have "dedup_begin alloc' s q t' = Inr (Duplicate (watermark st))"
    using c(5) by (auto simp: dedup_begin_def Let_def split: if_splits)
  then show ?thesis
    using c contig begin_process(4) [OF assms(2)] by (auto simp: dedup_watermark_def dedup_stats_of_def dedup_wf_def)
qed

end
