(* ===== verification/Swim.thy ===== *)
theory Swim
  imports Tables "HOL-Library.Product_Lexorder"
begin

text \<open>
  Cluster membership, \<^verbatim>\<open>swim.rs\<close>: the membership table with its merge rule, expiry and refutation, the
  digest and the gossip handler, and the driver loop as a step function over its ticks. The table is
  an association list in the iteration order of the hash map. A duration is a number of nanoseconds.
  The encoding of gossip on the wire is an argument.
\<close>

type_synonym duration = nat

definition from_millis :: "nat \<Rightarrow> duration" where
  "from_millis n = n * 1000000"

definition as_millis :: "duration \<Rightarrow> nat" where
  "as_millis d = min (d div 1000000) u64_max"

datatype member_status = Alive | Suspect | Dead

fun status_rank :: "member_status \<Rightarrow> nat" where
  "status_rank Alive = 0"
| "status_rank Suspect = 1"
| "status_rank Dead = 2"

record node_addr_wire =
  wa_node_id :: string
  wa_scheme :: string
  wa_host :: string
  wa_port :: "16 word"

record member =
  m_node_id :: string
  m_addr :: node_addr_wire
  m_status :: member_status
  incarnation :: nat
  status_until_ms :: nat
  m_metadata :: "byte list"

datatype member_event = EvUpsert member | EvRemove string

record membership_gossip =
  g_events :: "member_event list"
  g_seen_from :: string
  g_digest :: u64w
  g_full_sync :: "member list option"

datatype gossip_mode = GossipAuto | GossipFull | GossipDigest

record swim_config =
  probe_interval :: duration
  probe_timeout :: duration
  indirect_probes :: nat
  suspect_timeout :: duration
  gossip_interval :: duration
  gossip_fanout :: nat
  dead_retention :: duration
  cfg_gossip_mode :: gossip_mode

definition digest_threshold :: nat where
  "digest_threshold = 200"

definition swim_config_default :: swim_config where
  "swim_config_default =
     \<lparr>probe_interval = from_millis 500, probe_timeout = from_millis 500, indirect_probes = 3,
      suspect_timeout = from_millis 3000, gossip_interval = from_millis 200, gossip_fanout = 3,
      dead_retention = from_millis (24 * 3600 * 1000), cfg_gossip_mode = GossipAuto\<rparr>"

definition effective_mode :: "nat \<Rightarrow> swim_config \<Rightarrow> gossip_mode" where
  "effective_mode n cfg =
     (case cfg_gossip_mode cfg of
        GossipAuto \<Rightarrow> if n > digest_threshold then GossipDigest else GossipFull
      | md \<Rightarrow> md)"

section \<open>The membership table\<close>

record membership =
  members :: "(string \<times> member) list"
  ms_now :: nat
  ms_suspect_timeout :: duration
  ms_dead_retention :: duration
  ms_owner :: "member option"

definition membership_new :: "nat \<Rightarrow> membership" where
  "membership_new now =
     \<lparr>members = [], ms_now = now, ms_suspect_timeout = suspect_timeout swim_config_default,
      ms_dead_retention = dead_retention swim_config_default, ms_owner = None\<rparr>"

definition put :: "member \<Rightarrow> membership \<Rightarrow> membership" where
  "put m ms = ms\<lparr>members := AList.update (m_node_id m) m (members ms)\<rparr>"

definition publish_local :: "node_addr_wire \<Rightarrow> membership \<Rightarrow> membership" where
  "publish_local a ms =
     (let m = \<lparr>m_node_id = wa_node_id a, m_addr = a, m_status = Alive, incarnation = 1,
               status_until_ms = 0, m_metadata = []\<rparr>
      in put m (ms\<lparr>ms_owner := Some m\<rparr>))"

text \<open>The caller of \<^verbatim>\<open>merge_owner\<close> has found an owner, which is passed on.\<close>

definition merge_owner :: "member \<Rightarrow> member \<Rightarrow> membership \<Rightarrow> bool \<times> membership" where
  "merge_owner ow incoming ms =
     (let current = map_of (members ms) (m_node_id ow);
          inc = (case current of None \<Rightarrow> incarnation ow | Some m \<Rightarrow> max (incarnation m) (incarnation ow));
          conflict = (m_status incoming \<noteq> Alive \<or> m_addr incoming \<noteq> m_addr ow \<or> m_metadata incoming \<noteq> m_metadata ow)
      in if incarnation incoming < inc then (False, ms)
         else (case (if conflict then checked_add (incarnation incoming) 1 else Some (incarnation incoming)) of
                 None \<Rightarrow> (False, ms)
               | Some next \<Rightarrow>
                   let ow' = ow\<lparr>incarnation := next\<rparr>
                   in if current \<noteq> Some ow' then (True, put ow' (ms\<lparr>ms_owner := Some ow'\<rparr>)) else (False, ms)))"

definition set_clock :: "nat \<Rightarrow> membership \<Rightarrow> membership" where
  "set_clock now ms = ms\<lparr>ms_now := now\<rparr>"

definition membership_mode :: "membership \<Rightarrow> gossip_mode" where
  "membership_mode ms = effective_mode (length (members ms)) swim_config_default"

definition local_member :: "member \<Rightarrow> membership \<Rightarrow> member" where
  "local_member m ms =
     (case m_status m of
        Alive \<Rightarrow> m\<lparr>status_until_ms := 0\<rparr>
      | Suspect \<Rightarrow> m\<lparr>status_until_ms := saturating_add (ms_now ms) (as_millis (ms_suspect_timeout ms))\<rparr>
      | Dead \<Rightarrow> m\<lparr>status_until_ms := saturating_add (ms_now ms) (as_millis (ms_dead_retention ms))\<rparr>)"

definition member_key :: "member \<Rightarrow> nat \<times> nat" where
  "member_key m = (incarnation m, status_rank (m_status m))"

definition owner_is :: "string \<Rightarrow> membership \<Rightarrow> bool" where
  "owner_is i ms \<longleftrightarrow> (case ms_owner ms of None \<Rightarrow> False | Some ow \<Rightarrow> m_node_id ow = i)"

definition merge_peer :: "member \<Rightarrow> membership \<Rightarrow> bool \<times> membership" where
  "merge_peer m ms =
     (case map_of (members ms) (m_node_id m) of
        Some cur \<Rightarrow> if member_key m > member_key cur then (True, put (local_member m ms) ms) else (False, ms)
      | None \<Rightarrow> (True, put (local_member m ms) ms))"

fun merge_event :: "member_event \<Rightarrow> membership \<Rightarrow> bool \<times> membership" where
  "merge_event (EvUpsert m) ms =
     (case (if owner_is (m_node_id m) ms then ms_owner ms else None) of
        Some ow \<Rightarrow> merge_owner ow m ms
      | None \<Rightarrow> merge_peer m ms)"
| "merge_event (EvRemove i) ms =
     (if owner_is i ms then (False, ms)
      else (map_of (members ms) i \<noteq> None, ms\<lparr>members := AList.delete i (members ms)\<rparr>))"

text \<open>One pass over the table: the entry that stays, if any, the change and the removal.\<close>

definition tick_entry :: "nat \<Rightarrow> nat \<Rightarrow> member \<Rightarrow> member option" where
  "tick_entry now retention_ms m =
     (if m_status m = Suspect \<and> now \<ge> status_until_ms m
      then Some (m\<lparr>m_status := Dead, status_until_ms := saturating_add now retention_ms\<rparr>)
      else if m_status m = Dead \<and> now \<ge> status_until_ms m then None
      else Some m)"

definition tick_with_retention :: "duration \<Rightarrow> membership \<Rightarrow> (member list \<times> string list) \<times> membership" where
  "tick_with_retention ret ms =
     (let r = as_millis ret;
          visit = map (\<lambda>(i, m). (i, m, tick_entry (ms_now ms) r m)) (members ms)
      in ((List.map_filter (\<lambda>(i, m, m'). if m' \<noteq> Some m then m' else None) visit,
           List.map_filter (\<lambda>(i, m, m'). if m' = None then Some i else None) visit),
          ms\<lparr>members := List.map_filter (\<lambda>(i, m, m'). map_option (Pair i) m') visit\<rparr>))"

definition membership_tick :: "membership \<Rightarrow> (member list \<times> string list) \<times> membership" where
  "membership_tick ms = tick_with_retention (from_millis (24 * 3600 * 1000)) ms"

definition mark_suspect_with_timeout :: "string \<Rightarrow> duration \<Rightarrow> membership \<Rightarrow> bool \<times> membership" where
  "mark_suspect_with_timeout i timeout ms =
     (case map_of (members ms) i of
        None \<Rightarrow> (False, ms)
      | Some m \<Rightarrow>
          if m_status m = Alive
          then (True, ms\<lparr>members := AList.update i (m\<lparr>m_status := Suspect,
                   status_until_ms := saturating_add (ms_now ms) (as_millis timeout)\<rparr>) (members ms)\<rparr>)
          else (False, ms))"

definition mark_suspect :: "string \<Rightarrow> membership \<Rightarrow> bool \<times> membership" where
  "mark_suspect i ms = mark_suspect_with_timeout i (from_millis 3000) ms"

definition refute :: "string \<Rightarrow> membership \<Rightarrow> member option \<times> membership" where
  "refute i ms =
     (case map_of (members ms) i of
        None \<Rightarrow> (None, ms)
      | Some m \<Rightarrow>
          if m_status m = Alive then (None, ms)
          else (case checked_add (incarnation m) 1 of
                  None \<Rightarrow> (None, ms)
                | Some inc \<Rightarrow>
                    let m1 = m\<lparr>incarnation := inc, m_status := Alive, status_until_ms := 0\<rparr>
                    in case ms_owner ms of
                         Some ow \<Rightarrow>
                           if m_node_id ow = i
                           then let m2 = m1\<lparr>m_addr := m_addr ow, m_metadata := m_metadata ow\<rparr>
                                in (Some m2, ms\<lparr>members := AList.update i m2 (members ms), ms_owner := Some m2\<rparr>)
                           else (Some m1, ms\<lparr>members := AList.update i m1 (members ms)\<rparr>)
                       | None \<Rightarrow> (Some m1, ms\<lparr>members := AList.update i m1 (members ms)\<rparr>)))"

definition fxhash :: "string \<Rightarrow> u64w" where
  "fxhash s = fnv_bytes fnv_offset (str_bytes s)"

definition member_hash :: "string \<times> member \<Rightarrow> u64w" where
  "member_hash e =
     (case e of (i, m) \<Rightarrow>
        fxhash i XOR fxhash (dec_str (incarnation m)) XOR push_bit 56 (of_nat (status_rank (m_status m))) XOR
        fxhash (wa_host (m_addr m)) XOR (ucast (wa_port (m_addr m)) * 0x9e3779b97f4a7c15) XOR
        fxhash (wa_scheme (m_addr m)))"

definition membership_digest :: "membership \<Rightarrow> u64w" where
  "membership_digest ms = fold (\<lambda>e d. d XOR member_hash e) (members ms) 0"

definition alive_nodes :: "membership \<Rightarrow> string list" where
  "alive_nodes ms = map fst (filter (\<lambda>(i, m). m_status m \<noteq> Dead) (members ms))"

section \<open>Gossip\<close>

definition gossip_tag :: byte where
  "gossip_tag = 0x10"

definition encode_gossip :: "(membership_gossip \<Rightarrow> byte list) \<Rightarrow> membership_gossip \<Rightarrow> byte list" where
  "encode_gossip enc g = gossip_tag # enc g"

definition merge_all :: "member_event list \<Rightarrow> membership \<Rightarrow> membership" where
  "merge_all evs ms = fold (\<lambda>ev ms. snd (merge_event ev ms)) evs ms"

definition handle_gossip :: "membership_gossip \<Rightarrow> membership \<Rightarrow> bool \<times> membership" where
  "handle_gossip g ms =
     (let ms1 = merge_all (g_events g) ms
      in case g_full_sync g of
           Some full \<Rightarrow> (False, merge_all (map EvUpsert full) ms1)
         | None \<Rightarrow> (g_digest g \<noteq> membership_digest ms1, ms1))"

section \<open>The driver loop\<close>

record swim =
  sw_config :: swim_config
  sw_membership :: membership
  sw_self :: string
  probe_cursor :: nat
  gossip_cursor :: nat
  in_flight :: "member option"

datatype swim_event =
    ProbeTick
  | ProbeDone nat bool
  | MaintenanceTick nat
  | GossipTick

datatype swim_output =
    Quiet
  | StartProbe string
  | GossipOut membership_gossip "string list"

definition wrapping_add :: "nat \<Rightarrow> nat \<Rightarrow> nat" where
  "wrapping_add a b = (a + b) mod (u64_max + 1)"

definition swim_start :: "swim_config \<Rightarrow> string \<Rightarrow> membership \<Rightarrow> swim" where
  "swim_start cfg self ms =
     \<lparr>sw_config = cfg,
      sw_membership = ms\<lparr>ms_suspect_timeout := suspect_timeout cfg, ms_dead_retention := dead_retention cfg\<rparr>,
      sw_self = self, probe_cursor = 0, gossip_cursor = 0, in_flight = None\<rparr>"

definition probe_targets :: "string \<Rightarrow> membership \<Rightarrow> member list" where
  "probe_targets self ms =
     sort_key m_node_id (filter (\<lambda>m. m_status m \<noteq> Dead \<and> m_node_id m \<noteq> self) (map snd (members ms)))"

definition gossip_targets :: "string \<Rightarrow> nat \<Rightarrow> nat \<Rightarrow> membership \<Rightarrow> string list" where
  "gossip_targets self cursor fanout ms =
     (let ts = sort (filter (\<lambda>i. i \<noteq> self) (map fst (members ms)))
      in take fanout (if ts = [] then ts else rotate (cursor mod length ts) ts))"

fun swim_step :: "swim_event \<Rightarrow> swim \<Rightarrow> swim_output \<times> swim" where
  "swim_step ProbeTick s =
     (let ts = probe_targets (sw_self s) (sw_membership s)
      in if in_flight s \<noteq> None \<or> ts = [] then (Quiet, s)
         else let target = ts ! (probe_cursor s mod length ts)
              in (StartProbe (m_node_id target),
                  s\<lparr>probe_cursor := wrapping_add (probe_cursor s) 1, in_flight := Some target\<rparr>))"
| "swim_step (ProbeDone now good) s =
     (case in_flight s of
        None \<Rightarrow> (Quiet, s)
      | Some target \<Rightarrow>
          let ms = set_clock now (sw_membership s)
          in (Quiet, s\<lparr>in_flight := None,
                sw_membership :=
                  (if \<not> good \<and> map_of (members ms) (m_node_id target) = Some target
                   then snd (mark_suspect_with_timeout (m_node_id target) (suspect_timeout (sw_config s)) ms)
                   else ms)\<rparr>))"
| "swim_step (MaintenanceTick now) s =
     (let ms1 = set_clock now (sw_membership s);
          ms2 = snd (refute (sw_self s) ms1);
          ms3 = snd (tick_with_retention (dead_retention (sw_config s)) ms2)
      in (Quiet, s\<lparr>sw_membership := ms3\<rparr>))"
| "swim_step GossipTick s =
     (let ms = sw_membership s;
          events = (if effective_mode (length (members ms)) (sw_config s) = GossipDigest then []
                    else map (EvUpsert \<circ> snd) (members ms));
          empty = (filter (\<lambda>i. i \<noteq> sw_self s) (map fst (members ms)) = [])
      in (GossipOut \<lparr>g_events = events, g_seen_from = sw_self s, g_digest = membership_digest ms, g_full_sync = None\<rparr>
            (gossip_targets (sw_self s) (gossip_cursor s) (gossip_fanout (sw_config s)) ms),
          if empty then s else s\<lparr>gossip_cursor := wrapping_add (gossip_cursor s) (gossip_fanout (sw_config s))\<rparr>))"

end
