(* ===== verification/Newest.thy ===== *)
theory Newest
  imports Main
begin

text \<open>
  A replicated view in which every merge keeps the statement of higher rank. \<open>peer\<close> tells for which keys
  the replica follows the rule; for the others it is authoritative itself.
\<close>

locale newest_wins =
  fixes peer :: "'s \<Rightarrow> 'k \<Rightarrow> bool" and view :: "'s \<Rightarrow> 'k \<Rightarrow> 'v option" and rank :: "'v \<Rightarrow> 'r::linorder"
    and merge :: "'e \<Rightarrow> 's \<Rightarrow> 's" and about :: "'e \<Rightarrow> 'k" and val :: "'e \<Rightarrow> 'v"
  assumes merge_peers: "peer s (about e) \<Longrightarrow> view (merge e s) (about e) =
      (case view s (about e) of
         None \<Rightarrow> Some (val e)
       | Some v \<Rightarrow> if rank v < rank (val e) then Some (val e) else Some v)"
    and merge_others: "k \<noteq> about e \<Longrightarrow> view (merge e s) k = view s k"
    and peer_stable: "peer (merge e s) k = peer s k"
begin

definition heard :: "'s \<Rightarrow> 'e list \<Rightarrow> 'k \<Rightarrow> 'v set" where
  "heard s es k = set_option (view s k) \<union> val ` {e \<in> set es. about e = k}"

lemma heard_Nil: "heard s [] k = set_option (view s k)"
  by (simp add: heard_def)

lemma merge_newest:
  assumes "peer s k"
  shows "case view (fold merge es s) k of
     None \<Rightarrow> heard s es k = {}
   | Some v \<Rightarrow> v \<in> heard s es k \<and> (\<forall>w \<in> heard s es k. rank w \<le> rank v)"
  using assms
proof (induction es arbitrary: s)
  case Nil
  then show ?case by (simp add: heard_Nil split: option.split)
next
  case (Cons e es)
  show ?case
  proof (cases "about e = k")
    case False
    then have "heard s (e # es) k = heard (merge e s) es k" using merge_others by (auto simp: heard_def)
    then show ?thesis using Cons.IH [of "merge e s"] Cons.prems peer_stable by (simp split: option.splits)
  next
    case True
    note v = merge_peers [of s e, unfolded True, OF Cons.prems]
    have "heard s (e # es) k = insert (val e) (set_option (view s k) \<union> heard (merge e s) es k)"
      using True v by (auto simp: heard_def split: option.splits if_splits)
    moreover obtain x where x: "view (merge e s) k = Some x" "x = val e \<or> view s k = Some x"
        "rank (val e) \<le> rank x" "\<forall>w. view s k = Some w \<longrightarrow> rank w \<le> rank x"
      using v by (cases "view s k") (auto split: if_splits)
    moreover have "x \<in> heard (merge e s) es k" using x(1) by (simp add: heard_def)
    moreover have "case view (fold merge es (merge e s)) k of
         None \<Rightarrow> heard (merge e s) es k = {}
       | Some v \<Rightarrow> v \<in> heard (merge e s) es k \<and> (\<forall>w \<in> heard (merge e s) es k. rank w \<le> rank v)"
      using Cons.IH [of "merge e s"] Cons.prems peer_stable by simp
    ultimately show ?thesis by (auto split: option.splits intro: order_trans)
  qed
qed

lemma merges_converge:
  assumes "peer s k" and "peer s' k" and "heard s es k = heard s' es' k" and "inj_on rank (heard s es k)"
  shows "view (fold merge es s) k = view (fold merge es' s') k"
proof -
  have "v = w" if "view (fold merge es s) k = Some v" and "view (fold merge es' s') k = Some w" for v w
    using merge_newest [OF assms(1), of es] merge_newest [OF assms(2), of es'] assms(3) that
    by (intro inj_onD [OF assms(4)]) (auto intro: order_antisym)
  then show ?thesis
    using merge_newest [OF assms(1), of es] merge_newest [OF assms(2), of es'] assms(3)
    by (auto split: option.splits)
qed

end

end
