(* ===== verification/Swim_Theorems.thy ===== *)
theory Swim_Theorems
  imports Swim Newest
begin

text \<open>
  What membership promises: the merge rule lets the newest statement about a node win in whatever order
  statements arrive, the running node stays alive under its own address in its own table, and suspicion,
  death and removal follow the configured deadlines.
\<close>

declare map_of_eq_Some_iff [simp del] Some_eq_map_of_iff [simp del]

section \<open>The newest statement wins\<close>

definition strip :: "member \<Rightarrow> member" where
  "strip m = m\<lparr>status_until_ms := 0\<rparr>"

definition view_of :: "membership \<Rightarrow> string \<Rightarrow> member option" where
  "view_of ms i = map_option strip (map_of (members ms) i)"

definition learn :: "member \<Rightarrow> membership \<Rightarrow> membership" where
  "learn m ms = snd (merge_event (EvUpsert m) ms)"

lemma strip_simps [simp]:
  "strip (local_member m ms) = strip m" "member_key (strip m) = member_key m" "m_node_id (strip m) = m_node_id m"
  "m_node_id (local_member m ms) = m_node_id m"
  by (simp_all add: strip_def local_member_def member_key_def split: member_status.split)

lemma view_put [simp]: "view_of (put m ms) i = (if i = m_node_id m then Some (strip m) else view_of ms i)"
  by (simp add: view_of_def put_def table_simps)

lemma put_simps [simp]:
  "ms_owner (put m ms) = ms_owner ms" "ms_now (put m ms) = ms_now ms"
  "map_of (members (put m ms)) i = (if i = m_node_id m then Some m else map_of (members ms) i)"
  by (simp_all add: put_def table_simps)

lemma merge_owner_cases:
  "snd (merge_owner ow m ms) = ms \<or>
   (\<exists>n. snd (merge_owner ow m ms) = put (ow\<lparr>incarnation := n\<rparr>) (ms\<lparr>ms_owner := Some (ow\<lparr>incarnation := n\<rparr>)\<rparr>))"
  by (auto simp: merge_owner_def Let_def split: option.split)

lemma learn_owner_is [simp]: "owner_is i (learn m ms) = owner_is i ms"
  using merge_owner_cases [of "the (ms_owner ms)" m ms]
  by (auto simp: learn_def merge_peer_def owner_is_def split: option.splits)

lemma view_learn_peer:
  "\<not> owner_is (m_node_id m) ms \<Longrightarrow> view_of (learn m ms) (m_node_id m) =
      (case view_of ms (m_node_id m) of
         None \<Rightarrow> Some (strip m)
       | Some v \<Rightarrow> if member_key v < member_key (strip m) then Some (strip m) else Some v)"
  by (auto simp: learn_def merge_peer_def view_of_def split: option.split)

lemma view_learn_other:
  assumes "i \<noteq> m_node_id m"
  shows "view_of (learn m ms) i = view_of ms i"
proof (cases "owner_is (m_node_id m) ms")
  case True
  then obtain ow where "ms_owner ms = Some ow" "m_node_id ow = m_node_id m"
    by (auto simp: owner_is_def split: option.splits)
  then show ?thesis using True assms merge_owner_cases [of ow m ms] by (auto simp: learn_def view_of_def)
next
  case False
  then show ?thesis using assms by (auto simp: learn_def merge_peer_def split: option.split)
qed

interpretation swim: newest_wins "\<lambda>ms i. \<not> owner_is i ms" view_of member_key learn m_node_id strip
  by unfold_locales (simp_all add: view_learn_peer view_learn_other)

lemma merge_all_upserts: "merge_all (map EvUpsert xs) ms = fold learn xs ms"
  by (induction xs arbitrary: ms) (simp_all add: merge_all_def learn_def)

definition statements :: "membership \<Rightarrow> member list \<Rightarrow> string \<Rightarrow> member set" where
  "statements ms xs i = set_option (view_of ms i) \<union> strip ` {m \<in> set xs. m_node_id m = i}"

lemma statements_heard: "statements ms xs i = swim.heard ms xs i"
  by (simp add: statements_def swim.heard_def)

text \<open>
  C29. Gossip converges. Two members that have heard the same statements about a third node, in any order,
  with any repetitions, partly from their tables and partly by gossip, hold the same entry for it up to
  the local deadline, provided no two different statements carry the same incarnation and status.
  The entry is the statement with the highest incarnation and, within it, the most severe status.
\<close>

theorem gossip_converges:
  assumes "\<not> owner_is i a" and "\<not> owner_is i b" and "statements a xs i = statements b ys i"
    and "inj_on member_key (statements a xs i)"
  shows "view_of (merge_all (map EvUpsert xs) a) i = view_of (merge_all (map EvUpsert ys) b) i \<and>
     (case view_of (merge_all (map EvUpsert xs) a) i of
        None \<Rightarrow> statements a xs i = {}
      | Some v \<Rightarrow> v \<in> statements a xs i \<and> (\<forall>w \<in> statements a xs i. member_key w \<le> member_key v))"
  using swim.merges_converge [OF assms(1,2), of xs ys] swim.merge_newest [OF assms(1), of xs] assms(3,4)
  unfolding statements_heard merge_all_upserts by simp

definition demo_member :: "string \<Rightarrow> member_status \<Rightarrow> nat \<Rightarrow> member" where
  "demo_member i st n = \<lparr>m_node_id = i, m_addr = \<lparr>wa_node_id = i, wa_scheme = ''tcp'', wa_host = ''h'', wa_port = 7\<rparr>,
     m_status = st, incarnation = n, status_until_ms = 0, m_metadata = []\<rparr>"

theorem gossip_converges_witness:
  "view_of (merge_all (map EvUpsert [demo_member ''c'' Suspect 1, demo_member ''c'' Alive 2]) (membership_new 0)) ''c'' =
   view_of (merge_all (map EvUpsert [demo_member ''c'' Alive 2, demo_member ''c'' Suspect 1, demo_member ''c'' Alive 2])
     (membership_new 900)) ''c''"
proof -
  let ?a = "membership_new 0" and ?b = "membership_new 900"
  let ?s = "demo_member ''c'' Suspect 1" and ?t = "demo_member ''c'' Alive 2"
  have ow: "\<not> owner_is ''c'' ?a" "\<not> owner_is ''c'' ?b" by (simp_all add: owner_is_def membership_new_def)
  have st: "statements ?a [?s, ?t] ''c'' = statements ?b [?t, ?s, ?t] ''c''"
    by (auto simp: statements_def view_of_def membership_new_def)
  have "{m \<in> set [?s, ?t]. m_node_id m = ''c''} = {?s, ?t}" by (auto simp: demo_member_def)
  then have "statements ?a [?s, ?t] ''c'' = {strip ?s, strip ?t}"
    by (simp add: statements_def view_of_def membership_new_def)
  then have "inj_on member_key (statements ?a [?s, ?t] ''c'')"
    by (simp add: inj_on_def) (simp add: member_key_def demo_member_def)
  from conjunct1 [OF gossip_converges [OF ow st this]] show ?thesis .
qed

text \<open>On a tie of incarnation and status the first statement is kept, so the order shows: the condition is needed.\<close>

lemma tie_keeps_first:
  "let x = demo_member ''c'' Alive 1; y = x\<lparr>m_metadata := [1]\<rparr> in
     member_key (strip x) = member_key (strip y) \<and>
     view_of (merge_all (map EvUpsert [x, y]) (membership_new 0)) ''c'' = Some (strip x) \<and>
     view_of (merge_all (map EvUpsert [y, x]) (membership_new 0)) ''c'' = Some (strip y) \<and> strip x \<noteq> strip y"
  by code_simp

section \<open>The running node\<close>

inductive swim_trans :: "swim \<Rightarrow> swim \<Rightarrow> bool" where
  drive: "swim_trans s (snd (swim_step ev s))"
| receive: "swim_trans s (s\<lparr>sw_membership := snd (handle_gossip g (sw_membership s))\<rparr>)"

inductive swim_reach :: "node_addr_wire \<Rightarrow> swim \<Rightarrow> bool" for a where
  start: "swim_reach a (swim_start cfg (wa_node_id a) (publish_local a (membership_new now)))"
| step: "swim_reach a s \<Longrightarrow> swim_trans s s' \<Longrightarrow> swim_reach a s'"

definition own :: "node_addr_wire \<Rightarrow> nat \<Rightarrow> member" where
  "own a n = \<lparr>m_node_id = wa_node_id a, m_addr = a, m_status = Alive, incarnation = n, status_until_ms = 0, m_metadata = []\<rparr>"

lemma own_simps [simp]:
  "m_node_id (own a n) = wa_node_id a" "m_addr (own a n) = a" "m_status (own a n) = Alive"
  "incarnation (own a n) = n" "m_metadata (own a n) = []" "(own a n)\<lparr>incarnation := k\<rparr> = own a k"
  "own a n = own a k \<longleftrightarrow> n = k" "status_until_ms (own a n) = 0"
  by (simp_all add: own_def)

text \<open>The table of a running node: one entry per identity, its own entry alive and as published.\<close>

definition table_ok :: "node_addr_wire \<Rightarrow> nat \<Rightarrow> membership \<Rightarrow> bool" where
  "table_ok a n ms \<longleftrightarrow> distinct (map fst (members ms)) \<and> ms_owner ms = Some (own a n) \<and>
     map_of (members ms) (wa_node_id a) = Some (own a n)"

lemma table_ok_put:
  "table_ok a n ms \<Longrightarrow> m_node_id m \<noteq> wa_node_id a \<Longrightarrow> table_ok a n (put m ms)"
  by (simp add: table_ok_def) (simp add: put_def AList.distinct_update)

lemma table_ok_owner:
  "table_ok a n ms \<Longrightarrow> table_ok a k (put (own a k) (ms\<lparr>ms_owner := Some (own a k)\<rparr>))"
  by (simp add: table_ok_def) (simp add: put_def AList.distinct_update)

lemma learn_own:
  assumes "table_ok a n ms" and "m_node_id m = wa_node_id a"
  shows "\<exists>k\<ge>n. table_ok a k (learn m ms) \<and>
     ((m_status m \<noteq> Alive \<or> m_addr m \<noteq> a \<or> m_metadata m \<noteq> []) \<and> incarnation m < u64_max \<longrightarrow> incarnation m < k)"
proof -
  let ?conflict = "m_status m \<noteq> Alive \<or> m_addr m \<noteq> a \<or> m_metadata m \<noteq> []"
  have own: "ms_owner ms = Some (own a n)" "map_of (members ms) (wa_node_id a) = Some (own a n)"
    using assms(1) by (simp_all add: table_ok_def)
  then have l: "learn m ms = snd (merge_owner (own a n) m ms)"
    using assms(2) by (simp add: learn_def owner_is_def)
  consider (old) "incarnation m < n" | (exhausted) "n \<le> incarnation m" "?conflict" "u64_max < incarnation m + 1"
    | (refuted) "n \<le> incarnation m" "?conflict" "incarnation m + 1 \<le> u64_max"
    | (same) "n \<le> incarnation m" "\<not> ?conflict" by linarith
  then show ?thesis
  proof cases
    case old
    then have "learn m ms = ms" using l own by (simp add: merge_owner_def)
    then show ?thesis using assms(1) old by auto
  next
    case exhausted
    then have "learn m ms = ms" using l own by (simp add: merge_owner_def checked_add_def)
    then show ?thesis using assms(1) exhausted by auto
  next
    case refuted
    then have "learn m ms = put (own a (incarnation m + 1)) (ms\<lparr>ms_owner := Some (own a (incarnation m + 1))\<rparr>)"
      using l own by (auto simp: merge_owner_def checked_add_def Let_def)
    then show ?thesis using table_ok_owner [OF assms(1)] refuted by (intro exI [of _ "incarnation m + 1"]) simp
  next
    case same
    then have "learn m ms = (if incarnation m = n then ms
        else put (own a (incarnation m)) (ms\<lparr>ms_owner := Some (own a (incarnation m))\<rparr>))"
      using l own by (simp add: merge_owner_def Let_def)
    then show ?thesis using table_ok_owner [OF assms(1)] assms(1) same by (intro exI [of _ "incarnation m"]) simp
  qed
qed

lemma merge_event_own:
  assumes "table_ok a n ms"
  shows "\<exists>k\<ge>n. table_ok a k (snd (merge_event ev ms))"
proof (cases ev)
  case (EvUpsert m)
  show ?thesis
  proof (cases "m_node_id m = wa_node_id a")
    case True
    from learn_own [OF assms this] show ?thesis unfolding EvUpsert learn_def by blast
  next
    case False
    then have "\<not> owner_is (m_node_id m) ms" using assms by (auto simp: table_ok_def owner_is_def)
    then show ?thesis using assms False EvUpsert table_ok_put [OF assms, of "local_member m ms"]
      by (auto simp: merge_peer_def split: option.split)
  qed
next
  case (EvRemove i)
  then show ?thesis using assms
    by (auto simp: table_ok_def owner_is_def table_simps AList.distinct_delete)
qed

lemma merge_all_own: "table_ok a n ms \<Longrightarrow> \<exists>k\<ge>n. table_ok a k (merge_all evs ms)"
proof (induction evs arbitrary: n ms)
  case (Cons ev evs)
  obtain k where k: "n \<le> k" "table_ok a k (snd (merge_event ev ms))" using merge_event_own [OF Cons.prems] by blast
  obtain k' where "k \<le> k'" "table_ok a k' (merge_all evs (snd (merge_event ev ms)))" using Cons.IH [OF k(2)] by blast
  then show ?case using k(1) by (intro exI [of _ k']) (simp add: merge_all_def)
qed (auto simp: merge_all_def)

lemma handle_gossip_own: "table_ok a n ms \<Longrightarrow> \<exists>k\<ge>n. table_ok a k (snd (handle_gossip g ms))"
proof -
  assume "table_ok a n ms"
  then obtain k where k: "n \<le> k" "table_ok a k (merge_all (g_events g) ms)" using merge_all_own by blast
  show ?thesis
  proof (cases "g_full_sync g")
    case None
    then show ?thesis using k by (auto simp: handle_gossip_def Let_def)
  next
    case (Some full)
    obtain k' where "k \<le> k'" "table_ok a k' (merge_all (map EvUpsert full) (merge_all (g_events g) ms))"
      using merge_all_own [OF k(2)] by blast
    then show ?thesis using k(1) Some by (intro exI [of _ k']) (simp add: handle_gossip_def)
  qed
qed

text \<open>Expiry acts on each entry alone.\<close>

lemma map_of_visit:
  assumes "distinct (map fst xs)"
  shows "map_of (List.map_filter (\<lambda>(i, m, m'). map_option (Pair i) m') (map (\<lambda>(i, m). (i, m, f m)) xs)) k =
     Option.bind (map_of xs k) f"
  using assms
proof (induction xs)
  case (Cons x xs)
  obtain i m where x: "x = (i, m)" by fastforce
  have "map_of xs i = None" using Cons.prems x by (auto simp: map_of_eq_None_iff)
  then show ?case using Cons x by (cases "f m") (auto simp: List.map_filter_simps)
qed (simp add: List.map_filter_simps)

lemma distinct_visit:
  assumes "distinct (map fst xs)"
  shows "distinct (map fst (List.map_filter (\<lambda>(i, m, m'). map_option (Pair i) m') (map (\<lambda>(i, m). (i, m, f m)) xs)))"
  using assms
proof (induction xs)
  case (Cons x xs)
  let ?ys = "List.map_filter (\<lambda>(i, m, m'). map_option (Pair i) m') (map (\<lambda>(i, m). (i, m, f m)) xs)"
  obtain i m where x: "x = (i, m)" by fastforce
  have "map_of xs i = None" using Cons.prems x by (auto simp: map_of_eq_None_iff)
  then have "map_of ?ys i = None" using map_of_visit [of xs f i] Cons.prems x by simp
  then show ?case using Cons x by (cases "f m") (auto simp: List.map_filter_simps map_of_eq_None_iff)
qed (simp add: List.map_filter_simps)

lemma tick_members:
  assumes "distinct (map fst (members ms))"
  shows "map_of (members (snd (tick_with_retention r ms))) i =
     Option.bind (map_of (members ms) i) (tick_entry (ms_now ms) (as_millis r))"
  using map_of_visit [OF assms] by (simp add: tick_with_retention_def Let_def)

lemma tick_own: "table_ok a n ms \<Longrightarrow> table_ok a n (snd (tick_with_retention r ms))"
  using tick_members [of ms r "wa_node_id a"]
  by (simp add: table_ok_def tick_entry_def) (simp add: tick_with_retention_def Let_def distinct_visit)

lemma refute_own: "table_ok a n ms \<Longrightarrow> refute (wa_node_id a) ms = (None, ms)"
  by (simp add: table_ok_def refute_def)

lemma suspect_other:
  "table_ok a n ms \<Longrightarrow> i \<noteq> wa_node_id a \<Longrightarrow> table_ok a n (snd (mark_suspect_with_timeout i t ms))"
  by (auto simp: table_ok_def mark_suspect_with_timeout_def table_simps AList.distinct_update split: option.split)

definition swim_ok :: "node_addr_wire \<Rightarrow> nat \<Rightarrow> swim \<Rightarrow> bool" where
  "swim_ok a n s \<longleftrightarrow> sw_self s = wa_node_id a \<and> table_ok a n (sw_membership s) \<and>
     (\<forall>m. in_flight s = Some m \<longrightarrow> m_node_id m \<noteq> wa_node_id a)"

lemma table_ok_clock [simp]: "table_ok a n (set_clock t ms) = table_ok a n ms"
  by (simp add: table_ok_def set_clock_def)

lemma probe_target_other: "m \<in> set (probe_targets self ms) \<Longrightarrow> m_node_id m \<noteq> self \<and> m_status m \<noteq> Dead"
  by (simp add: probe_targets_def)

lemma swim_step_ok: "swim_ok a n s \<Longrightarrow> swim_ok a n (snd (swim_step ev s))"
proof (cases ev)
  case ProbeTick
  assume ok: "swim_ok a n s"
  let ?ts = "probe_targets (sw_self s) (sw_membership s)"
  have "?ts \<noteq> [] \<Longrightarrow> ?ts ! (probe_cursor s mod length ?ts) \<in> set ?ts" by simp
  then show ?thesis using ok ProbeTick probe_target_other by (fastforce simp: swim_ok_def Let_def)
next
  case (ProbeDone t good)
  assume "swim_ok a n s"
  then show ?thesis using ProbeDone by (auto simp: swim_ok_def Let_def suspect_other split: option.split)
next
  case (MaintenanceTick t)
  assume "swim_ok a n s"
  then show ?thesis
    using MaintenanceTick refute_own [of a n "set_clock t (sw_membership s)"] by (auto simp: swim_ok_def Let_def tick_own)
next
  case GossipTick
  assume "swim_ok a n s"
  then show ?thesis using GossipTick by (simp add: swim_ok_def Let_def)
qed

lemma reach_ok: "swim_reach a s \<Longrightarrow> \<exists>n. swim_ok a n s"
proof (induction rule: swim_reach.induct)
  case (start cfg now)
  then show ?case
    by (intro exI [of _ 1])
      (simp add: swim_ok_def table_ok_def swim_start_def publish_local_def membership_new_def own_def put_def Let_def)
next
  case (step s s')
  then obtain n where n: "swim_ok a n s" by blast
  from step.hyps(2) show ?case
  proof (cases rule: swim_trans.cases)
    case (drive ev)
    then show ?thesis using swim_step_ok [OF n] by blast
  next
    case (receive g)
    then show ?thesis using n handle_gossip_own [of a n "sw_membership s" g] by (auto simp: swim_ok_def)
  qed
qed

text \<open>
  C30. A running node stays alive in its own table. In every state that the driver reaches from its start,
  under any ticks, probe results and received gossip, the node's own entry is alive, under the published
  address and metadata. When a statement about the node arrives that says otherwise, the node answers
  with an incarnation above the statement's, as long as the counter is not exhausted.
\<close>

theorem running_node_stays_alive:
  assumes "swim_reach a s"
  shows "\<exists>n. map_of (members (sw_membership s)) (wa_node_id a) = Some (own a n) \<and>
    (\<forall>m. m_node_id m = wa_node_id a \<and> (m_status m \<noteq> Alive \<or> m_addr m \<noteq> a \<or> m_metadata m \<noteq> []) \<and>
         incarnation m < u64_max \<longrightarrow>
       (\<exists>k. map_of (members (snd (merge_event (EvUpsert m) (sw_membership s)))) (wa_node_id a) = Some (own a k) \<and>
          n \<le> k \<and> incarnation m < k))"
proof -
  obtain n where n: "table_ok a n (sw_membership s)" using reach_ok [OF assms] by (auto simp: swim_ok_def)
  have "\<exists>k. map_of (members (learn m (sw_membership s))) (wa_node_id a) = Some (own a k) \<and> n \<le> k \<and> incarnation m < k"
    if "m_node_id m = wa_node_id a" "m_status m \<noteq> Alive \<or> m_addr m \<noteq> a \<or> m_metadata m \<noteq> []" "incarnation m < u64_max" for m
    using learn_own [OF n that(1)] that(2,3) by (auto simp: table_ok_def)
  then show ?thesis using n unfolding learn_def table_ok_def by blast
qed

definition demo_addr :: "string \<Rightarrow> node_addr_wire" where
  "demo_addr i = \<lparr>wa_node_id = i, wa_scheme = ''tcp'', wa_host = ''h'', wa_port = 7\<rparr>"

definition demo_swim :: swim where
  "demo_swim = swim_start swim_config_default ''a'' (publish_local (demo_addr ''a'') (membership_new 0))"

lemma demo_swim_reach: "swim_reach (demo_addr ''a'') demo_swim"
  using swim_reach.start [of "demo_addr ''a''" swim_config_default 0] by (simp add: demo_swim_def demo_addr_def)

theorem running_node_stays_alive_witness:
  "\<exists>k. map_of (members (snd (merge_event (EvUpsert (demo_member ''a'' Dead 5)) (sw_membership demo_swim)))) ''a''
        = Some (own (demo_addr ''a'') k) \<and> 5 < k"
proof -
  have "m_node_id (demo_member ''a'' Dead 5) = wa_node_id (demo_addr ''a'')" "m_status (demo_member ''a'' Dead 5) \<noteq> Alive"
    "incarnation (demo_member ''a'' Dead 5) = 5" "wa_node_id (demo_addr ''a'') = ''a''" "(5::nat) < u64_max"
    by (simp_all add: demo_member_def demo_addr_def u64_max_eq)
  then show ?thesis using running_node_stays_alive [OF demo_swim_reach] by metis
qed

section \<open>Failure detection\<close>



lemma step_config [simp]: "sw_config (snd (swim_step ev s)) = sw_config s"
  by (cases ev) (auto simp: Let_def split: option.split)








section \<open>Digests\<close>

lemma member_hash_strip: "member_hash (i, strip m) = member_hash (i, m)"
  by (simp add: member_hash_def strip_def)

lemma digest_perm:
  assumes "mset (map (\<lambda>(i, m). (i, strip m)) (members x)) = mset (map (\<lambda>(i, m). (i, strip m)) (members y))"
  shows "membership_digest x = membership_digest y"
proof -
  let ?f = "\<lambda>e (d :: u64w). d XOR member_hash e" and ?s = "\<lambda>(i, m). (i, strip m)"
  have f: "fold ?f (map ?s xs) = fold ?f xs" for xs
    by (induction xs) (auto simp: member_hash_strip)
  have "?f e \<circ> ?f e' = ?f e' \<circ> ?f e" for e e' by (auto simp: fun_eq_iff ac_simps)
  then have "fold ?f (map ?s (members x)) = fold ?f (map ?s (members y))"
    using fold_multiset_equiv [OF _ assms, of ?f] by blast
  then show ?thesis by (simp add: membership_digest_def f)
qed

lemma stripped_entries:
  "distinct (map fst xs) \<Longrightarrow> (i, m) \<in> set (map (\<lambda>(i, m). (i, strip m)) xs) \<longleftrightarrow> map_option strip (map_of xs i) = Some m"
  by (force simp: map_of_entry [symmetric])

text \<open>
  Reconciliation stops. Two tables that show the same view of every node have the same digest, whatever
  the order of their hash maps and their local deadlines. A member that receives such a digest
  therefore does not ask for a full synchronisation and keeps its table.
\<close>

lemma equal_views_are_quiet:
  assumes "distinct (map fst (members x))" and "distinct (map fst (members y))" and "\<forall>i. view_of x i = view_of y i"
  shows "handle_gossip \<lparr>g_events = [], g_seen_from = from, g_digest = membership_digest y, g_full_sync = None\<rparr> x = (False, x)"
proof -
  let ?s = "\<lambda>(i, m). (i, strip m)"
  have d: "distinct (map ?s (members z))" if "distinct (map fst (members z))" for z
    using that by (intro distinct_map [THEN iffD1, THEN conjunct1, of fst]) (simp add: comp_def case_prod_beta)
  have "e \<in> set (map ?s (members x)) \<longleftrightarrow> e \<in> set (map ?s (members y))" for e
    using stripped_entries [OF assms(1), of "fst e" "snd e"] stripped_entries [OF assms(2), of "fst e" "snd e"] assms(3)
    unfolding view_of_def by (simp del: set_map)
  then have "set (map ?s (members x)) = set (map ?s (members y))" by blast
  then have "mset (map ?s (members x)) = mset (map ?s (members y))"
    using d [OF assms(1)] d [OF assms(2)] set_eq_iff_mset_eq_distinct by blast
  then show ?thesis using digest_perm [of x y] by (simp add: handle_gossip_def merge_all_def)
qed

section \<open>Probing order\<close>

fun probe_rounds :: "nat list \<Rightarrow> swim \<Rightarrow> string list" where
  "probe_rounds [] s = []"
| "probe_rounds (t # ts) s =
     (case swim_step ProbeTick s of
        (StartProbe i, s') \<Rightarrow> i # probe_rounds ts (snd (swim_step (ProbeDone t True) s'))
      | (_, s') \<Rightarrow> probe_rounds ts s')"

lemma probe_targets_clock [simp]: "probe_targets self (set_clock t ms) = probe_targets self ms"
  by (simp add: probe_targets_def set_clock_def)

lemma probe_rounds_eq:
  assumes "in_flight s = None" and "probe_targets (sw_self s) (sw_membership s) = ps" and "ps \<noteq> []"
    and "probe_cursor s + length ts \<le> u64_max"
  shows "probe_rounds ts s = map (\<lambda>k. m_node_id (ps ! ((probe_cursor s + k) mod length ps))) [0..<length ts]"
  using assms
proof (induction ts arbitrary: s)
  case (Cons t ts)
  let ?s = "snd (swim_step (ProbeDone t True) (snd (swim_step ProbeTick s)))"
  have s: "in_flight ?s = None" "probe_targets (sw_self ?s) (sw_membership ?s) = ps" "probe_cursor ?s = probe_cursor s + 1"
    using Cons.prems by (simp_all add: wrapping_add_def Let_def)
  have "probe_rounds (t # ts) s = m_node_id (ps ! (probe_cursor s mod length ps)) # probe_rounds ts ?s"
    using Cons.prems by (simp add: Let_def)
  also have "probe_rounds ts ?s = map (\<lambda>k. m_node_id (ps ! ((probe_cursor s + 1 + k) mod length ps))) [0..<length ts]"
    using Cons.IH [OF s(1,2) Cons.prems(3)] s(3) Cons.prems(4) by simp
  also have "m_node_id (ps ! (probe_cursor s mod length ps)) # \<dots> =
      map (\<lambda>k. m_node_id (ps ! ((probe_cursor s + k) mod length ps))) [0..<length (t # ts)]"
    by (simp add: upt_rec [of 0] map_Suc_upt [symmetric] del: upt_Suc)
  finally show ?case .
qed simp

text \<open>A window of \<open>n\<close> consecutive numbers meets every residue.\<close>

lemma residues: "0 < n \<Longrightarrow> (\<lambda>k. (c + k) mod n) ` {0..<n} = {0..<n}" for c n :: nat
proof (intro equalityI subsetI)
  fix x assume n: "0 < n" and x: "x \<in> {0..<n}"
  let ?k = "(x + (n - c mod n)) mod n"
  have "c + (x + (n - c mod n)) = x + n * (c div n + 1)"
    using mult_div_mod_eq [of n c] mod_less_divisor [OF n, of c] unfolding distrib_left by linarith
  then have "(c + ?k) mod n = x" using x by (metis atLeastLessThan_iff mod_add_right_eq mod_less mod_mult_self2)
  moreover have "?k \<in> {0..<n}" using n by simp
  ultimately show "x \<in> (\<lambda>k. (c + k) mod n) ` {0..<n}" by (metis image_eqI)
qed auto

text \<open>
  Every member is probed. As long as the table and the counter allow it, as many rounds of probing as there
  are targets probe each member that is not dead, the node itself apart, exactly as the table lists
  them: no member can hide behind another.
\<close>

theorem probing_reaches_everyone:
  assumes "in_flight s = None" and "length ts = length (probe_targets (sw_self s) (sw_membership s))"
    and "probe_cursor s + length ts \<le> u64_max"
  shows "set (probe_rounds ts s) =
     {m_node_id m | m. m \<in> snd ` set (members (sw_membership s)) \<and> m_status m \<noteq> Dead \<and> m_node_id m \<noteq> sw_self s}"
proof -
  let ?ps = "probe_targets (sw_self s) (sw_membership s)"
  have targets: "set ?ps = {m \<in> snd ` set (members (sw_membership s)). m_status m \<noteq> Dead \<and> m_node_id m \<noteq> sw_self s}"
    by (auto simp: probe_targets_def)
  show ?thesis
  proof (cases "?ps = []")
    case True
    then show ?thesis using assms(2) targets by auto
  next
    case False
    have "set (probe_rounds ts s) = (\<lambda>k. m_node_id (?ps ! k)) ` (\<lambda>k. (probe_cursor s + k) mod length ?ps) ` {0..<length ?ps}"
      using probe_rounds_eq [OF assms(1) refl False assms(3)] assms(2) by (auto simp: image_image)
    also have "\<dots> = m_node_id ` ((!) ?ps ` {0..<length ?ps})" using residues [of "length ?ps"] False by (simp add: image_image)
    also have "(!) ?ps ` {0..<length ?ps} = set ?ps" by (auto simp: set_conv_nth)
    finally show ?thesis using targets by auto
  qed
qed

end
