(* ===== verification/Probe.thy ===== *)
theory Probe
  imports Swim Once Durable_Directory
begin

text \<open>
  Correlated membership probes, \<^verbatim>\<open>swim/probe.rs\<close>: the control messages with their validation and
  encoding, and the table of requests that wait for an answer. A connection is a number, which
  \<^verbatim>\<open>same_connection\<close> compares; the serialization of a message body is an argument. The table is
  used under its lock, so its operations are atomic.
\<close>

definition max_probe_ms :: nat where "max_probe_ms = 10000"

definition max_body :: nat where "max_body = 65535 + 64"

definition max_pending :: nat where "max_pending = 128"

record probe_request =
  pq_request_id :: nat
  pq_target :: string
  pq_budget_ms :: nat

datatype probe_outcome = Reachable | Failed | Unavailable

record probe_reply =
  pp_request_id :: nat
  pp_target :: string
  pp_outcome :: probe_outcome

datatype probe_event = Ping probe_request | PingReq probe_request | Pong probe_reply | PingReqAck probe_reply

datatype probe_error = ProbeInvalid | ProbeEncode | ProbeTooLarge | ProbeDecode | ProbeUnknownTag

record probe_codec =
  enc_request :: "probe_request \<Rightarrow> byte list option"
  enc_reply :: "probe_reply \<Rightarrow> byte list option"
  dec_request :: "byte list \<Rightarrow> probe_request option"
  dec_reply :: "byte list \<Rightarrow> probe_reply option"

fun probe_request_id :: "probe_event \<Rightarrow> nat" where
  "probe_request_id (Ping r) = pq_request_id r"
| "probe_request_id (PingReq r) = pq_request_id r"
| "probe_request_id (Pong r) = pp_request_id r"
| "probe_request_id (PingReqAck r) = pp_request_id r"

fun probe_target :: "probe_event \<Rightarrow> string" where
  "probe_target (Ping r) = pq_target r"
| "probe_target (PingReq r) = pq_target r"
| "probe_target (Pong r) = pp_target r"
| "probe_target (PingReqAck r) = pp_target r"

fun budget_valid :: "probe_event \<Rightarrow> bool" where
  "budget_valid (Ping r) \<longleftrightarrow> 1 \<le> pq_budget_ms r \<and> pq_budget_ms r \<le> max_probe_ms"
| "budget_valid (PingReq r) \<longleftrightarrow> 1 \<le> pq_budget_ms r \<and> pq_budget_ms r \<le> max_probe_ms"
| "budget_valid _ \<longleftrightarrow> True"

definition probe_validate :: "probe_event \<Rightarrow> bool" where
  "probe_validate ev \<longleftrightarrow>
     budget_valid ev \<and> probe_request_id ev \<noteq> 0 \<and> length (probe_target ev) \<le> 65535 \<and> validate_node_id (probe_target ev)"

fun tag_and_body :: "probe_codec \<Rightarrow> probe_event \<Rightarrow> byte \<times> byte list option" where
  "tag_and_body c (Ping r) = (0x11, enc_request c r)"
| "tag_and_body c (PingReq r) = (0x12, enc_request c r)"
| "tag_and_body c (Pong r) = (0x13, enc_reply c r)"
| "tag_and_body c (PingReqAck r) = (0x14, enc_reply c r)"

definition probe_encode :: "probe_codec \<Rightarrow> probe_event \<Rightarrow> probe_error + byte list" where
  "probe_encode c ev =
     (if \<not> probe_validate ev then Inl ProbeInvalid
      else case tag_and_body c ev of
             (tag, None) \<Rightarrow> Inl ProbeEncode
           | (tag, Some body) \<Rightarrow> Inr (tag # body))"

definition parse_event :: "probe_codec \<Rightarrow> byte \<Rightarrow> byte list \<Rightarrow> probe_error + probe_event" where
  "parse_event c tag body =
     (if tag = 0x11 then (case dec_request c body of None \<Rightarrow> Inl ProbeDecode | Some r \<Rightarrow> Inr (Ping r))
      else if tag = 0x12 then (case dec_request c body of None \<Rightarrow> Inl ProbeDecode | Some r \<Rightarrow> Inr (PingReq r))
      else if tag = 0x13 then (case dec_reply c body of None \<Rightarrow> Inl ProbeDecode | Some r \<Rightarrow> Inr (Pong r))
      else if tag = 0x14 then (case dec_reply c body of None \<Rightarrow> Inl ProbeDecode | Some r \<Rightarrow> Inr (PingReqAck r))
      else Inl ProbeUnknownTag)"

definition probe_decode :: "probe_codec \<Rightarrow> byte \<Rightarrow> byte list \<Rightarrow> probe_error + probe_event" where
  "probe_decode c tag body =
     (if length body > max_body then Inl ProbeTooLarge
      else case parse_event c tag body of
             Inl e \<Rightarrow> Inl e
           | Inr ev \<Rightarrow> if probe_validate ev then Inr ev else Inl ProbeInvalid)"

section \<open>Requests in flight\<close>

record probe_slot =
  sl_source :: nat
  sl_target :: string
  sl_indirect :: bool

record probe_state =
  ps_next :: nat
  ps_closed :: bool
  ps_pending :: "(nat \<times> probe_slot) list"

definition probe_state_default :: probe_state where
  "probe_state_default = \<lparr>ps_next = 1, ps_closed = False, ps_pending = []\<rparr>"

definition probe_register :: "nat \<Rightarrow> bool \<Rightarrow> string \<Rightarrow> bool \<Rightarrow> probe_state \<Rightarrow> nat option \<times> probe_state" where
  "probe_register source source_closed target indirect st =
     (if ps_closed st \<or> length (ps_pending st) \<ge> max_pending \<or> source_closed then (None, st)
      else case checked_add (ps_next st) 1 of
             None \<Rightarrow> (None, st)
           | Some next \<Rightarrow>
               (Some (ps_next st),
                st\<lparr>ps_next := next, ps_pending := AList.update (ps_next st)
                     \<lparr>sl_source = source, sl_target = target, sl_indirect = indirect\<rparr> (ps_pending st)\<rparr>))"

text \<open>Dropping the guard of a request.\<close>

definition probe_release :: "nat \<Rightarrow> probe_state \<Rightarrow> probe_state" where
  "probe_release i st = st\<lparr>ps_pending := AList.delete i (ps_pending st)\<rparr>"

definition probe_complete :: "probe_reply \<Rightarrow> bool \<Rightarrow> nat \<Rightarrow> probe_state \<Rightarrow> bool \<times> probe_state" where
  "probe_complete reply indirect source st =
     (let ok = (case map_of (ps_pending st) (pp_request_id reply) of
                  None \<Rightarrow> False
                | Some slot \<Rightarrow> sl_indirect slot = indirect \<and> sl_target slot = pp_target reply \<and> sl_source slot = source)
      in if \<not> ok then (False, st)
         else (True, st\<lparr>ps_pending := AList.delete (pp_request_id reply) (ps_pending st)\<rparr>))"

definition probe_close :: "probe_state \<Rightarrow> probe_state" where
  "probe_close st = st\<lparr>ps_closed := True, ps_pending := []\<rparr>"

text \<open>
  An exchange: registration, the request that goes out, and the answer from what ends the wait. The guard is
  released on every path. Whether the frame could be queued is an argument.
\<close>

definition remote_budget :: "bool \<Rightarrow> duration \<Rightarrow> nat" where
  "remote_budget indirect budget =
     max 1 (min ((if indirect then budget div 2 else budget) div 1000000) max_probe_ms)"

definition exchange_start ::
  "probe_codec \<Rightarrow> bool \<Rightarrow> bool \<Rightarrow> nat \<Rightarrow> bool \<Rightarrow> string \<Rightarrow> bool \<Rightarrow> duration \<Rightarrow> probe_state
     \<Rightarrow> (nat \<times> byte list) option \<times> probe_state" where
  "exchange_start c stopped queued source source_closed target indirect budget st =
     (if stopped \<or> budget = 0 then (None, st)
      else case probe_register source source_closed target indirect st of
             (None, st1) \<Rightarrow> (None, st1)
           | (Some i, st1) \<Rightarrow>
               let r = \<lparr>pq_request_id = i, pq_target = target, pq_budget_ms = remote_budget indirect budget\<rparr>
               in case probe_encode c (if indirect then PingReq r else Ping r) of
                    Inl _ \<Rightarrow> (None, probe_release i st1)
                  | Inr frame \<Rightarrow> if queued then (Some (i, frame), st1) else (None, probe_release i st1))"

datatype wake = Stopped | Answered "probe_outcome option" | SourceClosed | Elapsed

fun exchange_finish :: "bool \<Rightarrow> nat \<Rightarrow> wake \<Rightarrow> probe_state \<Rightarrow> probe_outcome \<times> probe_state" where
  "exchange_finish indirect i Stopped st = (Unavailable, probe_release i st)"
| "exchange_finish indirect i (Answered r) st = (case r of None \<Rightarrow> Unavailable | Some out \<Rightarrow> out, probe_release i st)"
| "exchange_finish indirect i SourceClosed st = (if indirect then Unavailable else Failed, probe_release i st)"
| "exchange_finish indirect i Elapsed st = (if indirect then Unavailable else Failed, probe_release i st)"

section \<open>Messages\<close>

text \<open>What the serializer is documented to do: a body it wrote reads back as the value.\<close>

definition codec_inverse :: "probe_codec \<Rightarrow> bool" where
  "codec_inverse c \<longleftrightarrow> (\<forall>r b. enc_request c r = Some b \<longrightarrow> dec_request c b = Some r) \<and>
     (\<forall>r b. enc_reply c r = Some b \<longrightarrow> dec_reply c b = Some r)"

text \<open>
  Probe messages round-trip and are always valid. What \<open>probe_encode\<close> writes is a tag and a body that
  \<open>probe_decode\<close> reads back as the same event, unless the body is over the size limit; and whatever
  bytes arrive, an event that decodes is valid: its budget is between one millisecond and the maximum
  and its target is a node identity.
\<close>

theorem probe_roundtrip:
  assumes "codec_inverse c"
  shows "(\<forall>bs. probe_encode c ev = Inr bs \<and> length bs \<le> max_body + 1 \<longrightarrow>
            (\<exists>tag body. bs = tag # body \<and> probe_decode c tag body = Inr ev)) \<and>
         (\<forall>tag body ev'. probe_decode c tag body = Inr ev' \<longrightarrow>
            probe_validate ev' \<and> budget_valid ev' \<and> probe_encode c ev' \<noteq> Inl ProbeInvalid)"
proof -
  have parse: "parse_event c tag body = Inr ev" if "tag_and_body c ev = (tag, Some body)" for tag body
    using assms that by (cases ev) (auto simp: codec_inverse_def parse_event_def)
  have "\<exists>tag body. bs = tag # body \<and> probe_decode c tag body = Inr ev"
    if e: "probe_encode c ev = Inr bs" and l: "length bs \<le> max_body + 1" for bs
  proof -
    obtain tag body where "bs = tag # body" "tag_and_body c ev = (tag, Some body)" "probe_validate ev"
      using e by (auto simp: probe_encode_def split: if_splits option.splits prod.splits)
    then show ?thesis using parse l by (simp add: probe_decode_def)
  qed
  moreover have "probe_validate ev'" if "probe_decode c tag body = Inr ev'" for tag body ev'
    using that by (auto simp: probe_decode_def split: if_splits sum.splits)
  moreover have "budget_valid ev' \<and> probe_encode c ev' \<noteq> Inl ProbeInvalid" if "probe_validate ev'" for ev'
    using that by (auto simp: probe_validate_def probe_encode_def split: prod.splits option.splits)
  ultimately show ?thesis by blast
qed

section \<open>Correlation\<close>

definition probe_wf :: "probe_state \<Rightarrow> bool" where
  "probe_wf st \<longleftrightarrow> distinct (map fst (ps_pending st)) \<and> (\<forall>i \<in> fst ` set (ps_pending st). i < ps_next st) \<and>
     length (ps_pending st) \<le> max_pending \<and> (ps_closed st \<longrightarrow> ps_pending st = [])"

definition spent :: "probe_state \<Rightarrow> nat set" where
  "spent st = {i. i < ps_next st \<and> i \<notin> fst ` set (ps_pending st)}"

datatype probe_op =
    DoRegister nat bool string bool
  | DoComplete probe_reply bool nat
  | DoRelease nat
  | DoClose

fun probe_op_step :: "probe_op \<Rightarrow> probe_state \<Rightarrow> nat option \<times> probe_state" where
  "probe_op_step (DoRegister source cl target indirect) st = (None, snd (probe_register source cl target indirect st))"
| "probe_op_step (DoComplete reply indirect source) st =
     (case probe_complete reply indirect source st of (ok, st') \<Rightarrow> (if ok then Some (pp_request_id reply) else None, st'))"
| "probe_op_step (DoRelease i) st = (None, probe_release i st)"
| "probe_op_step DoClose st = (None, probe_close st)"

lemma delete_keys: "fst ` set (AList.delete i xs) = fst ` set xs - {i}"
  by (force simp: AList.delete_eq)

lemma probe_wf_delete: "probe_wf st \<Longrightarrow> probe_wf (st\<lparr>ps_pending := AList.delete i (ps_pending st)\<rparr>)"
  using length_delete_le [of i "ps_pending st"]
  by (auto simp: probe_wf_def delete_keys AList.distinct_delete)

lemma spent_delete:
  "i \<in> fst ` set (ps_pending st) \<Longrightarrow> probe_wf st \<Longrightarrow>
     spent (st\<lparr>ps_pending := AList.delete i (ps_pending st)\<rparr>) = insert i (spent st) \<and> i \<notin> spent st"
  by (auto simp: spent_def delete_keys probe_wf_def)

lemma register_cases:
  assumes "probe_wf st"
  shows "probe_wf (snd (probe_register source cl target indirect st)) \<and>
     spent (snd (probe_register source cl target indirect st)) = spent st"
proof (cases "ps_closed st \<or> length (ps_pending st) \<ge> max_pending \<or> cl \<or> u64_max < ps_next st + 1")
  case True
  then have "probe_register source cl target indirect st = (None, st)" by (auto simp: probe_register_def checked_add_def)
  then show ?thesis using assms by simp
next
  case False
  have "map_of (ps_pending st) (ps_next st) = None" using assms by (auto simp: probe_wf_def map_of_eq_None_iff)
  then have "snd (probe_register source cl target indirect st) =
      st\<lparr>ps_next := ps_next st + 1, ps_pending := ps_pending st @
         [(ps_next st, \<lparr>sl_source = source, sl_target = target, sl_indirect = indirect\<rparr>)]\<rparr>"
    using False by (simp add: probe_register_def update_new checked_add_def)
  then show ?thesis using assms False by (auto simp: probe_wf_def spent_def)
qed

lemma complete_cases:
  assumes "probe_wf st"
  shows "if fst (probe_complete reply indirect source st)
     then probe_wf (snd (probe_complete reply indirect source st)) \<and> pp_request_id reply \<notin> spent st \<and>
       spent (snd (probe_complete reply indirect source st)) = insert (pp_request_id reply) (spent st)
     else snd (probe_complete reply indirect source st) = st"
proof (cases "map_of (ps_pending st) (pp_request_id reply)")
  case (Some slot)
  then have "pp_request_id reply \<in> fst ` set (ps_pending st)" by (force dest: map_of_SomeD)
  then show ?thesis
    using probe_wf_delete [OF assms] spent_delete [OF _ assms] by (simp add: probe_complete_def Let_def)
qed (simp add: probe_complete_def)

lemma spent_release: "spent st \<subseteq> spent (probe_release i st)"
  by (auto simp: spent_def probe_release_def delete_keys)

interpretation probes: at_most_once probe_wf spent "\<lambda>op st. Some (probe_op_step op st)"
proof unfold_locales
  fix st st' :: probe_state and x :: probe_op and k :: nat
  assume wf: "probe_wf st"
  show "probe_wf st' \<and> k \<notin> spent st \<and> insert k (spent st) \<subseteq> spent st'"
    if "Some (probe_op_step x st) = Some (Some k, st')"
  proof (cases x)
    case (DoComplete reply indirect source)
    then show ?thesis using that complete_cases [OF wf, of reply indirect source] by (auto split: prod.splits if_splits)
  qed (use that in simp_all)
  show "probe_wf st' \<and> spent st \<subseteq> spent st'" if "Some (probe_op_step x st) = Some (None, st')"
  proof (cases x)
    case (DoRegister source cl target indirect)
    then show ?thesis using that register_cases [OF wf] by auto
  next
    case (DoComplete reply indirect source)
    then show ?thesis using that wf complete_cases [OF wf, of reply indirect source] by (auto split: prod.splits if_splits)
  next
    case (DoRelease i)
    then show ?thesis using that probe_wf_delete [OF wf] spent_release by (auto simp: probe_release_def)
  next
    case DoClose
    then show ?thesis using that wf by (auto simp: probe_close_def probe_wf_def spent_def)
  qed
qed simp

text \<open>A run with its log: the requests registered and the replies accepted, in order.\<close>

type_synonym probe_record = "nat \<times> nat \<times> string \<times> bool"

fun registered_by :: "probe_op \<Rightarrow> probe_state \<Rightarrow> probe_record list" where
  "registered_by (DoRegister source cl target indirect) st =
     (case fst (probe_register source cl target indirect st) of None \<Rightarrow> [] | Some i \<Rightarrow> [(i, source, target, indirect)])"
| "registered_by _ st = []"

fun accepted_by :: "probe_op \<Rightarrow> probe_state \<Rightarrow> probe_record list" where
  "accepted_by (DoComplete reply indirect source) st =
     (if fst (probe_complete reply indirect source st)
      then [(pp_request_id reply, source, pp_target reply, indirect)] else [])"
| "accepted_by _ st = []"

fun probe_log :: "probe_op list \<Rightarrow> probe_state \<Rightarrow> probe_record list \<times> probe_record list \<times> probe_state" where
  "probe_log [] st = ([], [], st)"
| "probe_log (op # ops) st =
     (case probe_log ops (snd (probe_op_step op st)) of
        (regs, accs, st') \<Rightarrow> (registered_by op st @ regs, accepted_by op st @ accs, st'))"

definition waiting :: "probe_state \<Rightarrow> probe_record set" where
  "waiting st = (\<lambda>(i, slot). (i, sl_source slot, sl_target slot, sl_indirect slot)) ` set (ps_pending st)"

lemma probe_op_wf: "probe_wf st \<Longrightarrow> probe_wf (snd (probe_op_step op st))"
proof -
  assume wf: "probe_wf st"
  obtain k st' where s: "probe_op_step op st = (k, st')" by fastforce
  then show ?thesis using probes.admits [OF wf, of op] probes.ignores [OF wf, of op] by (cases k) auto
qed

lemma step_accepts: "fst (probe_op_step op st) = (case accepted_by op st of [] \<Rightarrow> None | r # _ \<Rightarrow> Some (fst r))"
  by (cases op) (auto split: prod.splits)

lemma accepted_single: "accepted_by op st = [] \<or> (\<exists>r. accepted_by op st = [r])"
  by (cases op) auto

lemma log_offers: "probe_log ops st = (regs, accs, st') \<Longrightarrow> probes.offers ops st = Some (map fst accs, st')"
proof (induction ops arbitrary: st regs accs)
  case (Cons op ops)
  obtain k st1 where k: "probe_op_step op st = (k, st1)" by fastforce
  obtain regs1 accs1 where l: "probe_log ops st1 = (regs1, accs1, st')" "accs = accepted_by op st @ accs1"
    using Cons.prems k by (auto split: prod.splits)
  have "k = (case accepted_by op st of [] \<Rightarrow> None | r # _ \<Rightarrow> Some (fst r))" using step_accepts [of op st] k by simp
  then show ?case using Cons.IH [OF l(1)] l(2) k accepted_single [of op st] by auto
qed simp

lemma accepted_waiting:
  assumes "r \<in> set (accepted_by op st)"
  shows "r \<in> waiting st"
  using assms
  by (cases op) (force simp: probe_complete_def Let_def waiting_def dest: map_of_SomeD split: if_splits option.splits)+

lemma waiting_step: "waiting (snd (probe_op_step op st)) \<subseteq> waiting st \<union> set (registered_by op st)"
proof (cases op)
  case (DoRegister source cl target indirect)
  then show ?thesis
    by (auto simp: waiting_def probe_register_def dest!: update_entries split: if_splits option.splits)
next
  case (DoComplete reply indirect source)
  then show ?thesis by (auto simp: waiting_def probe_complete_def Let_def AList.delete_eq)
qed (auto simp: waiting_def probe_release_def probe_close_def AList.delete_eq)

lemma log_waiting: "probe_log ops st = (regs, accs, st') \<Longrightarrow> set accs \<subseteq> waiting st \<union> set regs"
proof (induction ops arbitrary: st regs accs)
  case (Cons op ops)
  obtain regs1 accs1 where l: "probe_log ops (snd (probe_op_step op st)) = (regs1, accs1, st')"
    "regs = registered_by op st @ regs1" "accs = accepted_by op st @ accs1"
    using Cons.prems by (auto split: prod.splits)
  then show ?case using Cons.IH [OF l(1)] waiting_step [of op st] accepted_waiting [of _ op st] by auto
qed simp

lemma next_step: "ps_next st + length (registered_by op st) = ps_next (snd (probe_op_step op st)) \<and>
    map fst (registered_by op st) = [ps_next st..<ps_next (snd (probe_op_step op st))]"
proof (cases op)
  case (DoRegister source cl target indirect)
  then show ?thesis by (auto simp: probe_register_def opt_iffs split: option.split)
next
  case (DoComplete reply indirect source)
  then show ?thesis by (simp add: probe_complete_def Let_def)
qed (simp_all add: probe_release_def probe_close_def)

lemma log_ids: "probe_log ops st = (regs, accs, st') \<Longrightarrow> map fst regs = [ps_next st..<ps_next st'] \<and> ps_next st \<le> ps_next st'"
proof (induction ops arbitrary: st regs accs)
  case (Cons op ops)
  obtain regs1 accs1 where l: "probe_log ops (snd (probe_op_step op st)) = (regs1, accs1, st')"
    "regs = registered_by op st @ regs1" using Cons.prems by (auto split: prod.splits)
  have "map fst regs1 = [ps_next (snd (probe_op_step op st))..<ps_next st']" "ps_next (snd (probe_op_step op st)) \<le> ps_next st'"
    using Cons.IH [OF l(1)] by auto
  moreover have "ps_next st \<le> ps_next (snd (probe_op_step op st))" using next_step [of st op] by linarith
  ultimately show ?case
    using next_step [of st op] l(2) upt_add_eq_append [of "ps_next st" "ps_next (snd (probe_op_step op st))"]
    by (metis le_add_diff_inverse map_append order_trans)
qed simp

text \<open>
  A reply answers exactly one request. In any sequence of registrations, replies, releases and a shutdown,
  request numbers are handed out consecutively and never reused; every accepted reply matches a request
  that was registered on the same connection, for the same target and of the same kind; no request
  accepts two replies, however often a reply is repeated or delayed; and at most 128 requests wait.
\<close>

theorem replies_are_correlated:
  "case probe_log ops probe_state_default of (regs, accs, st) \<Rightarrow>
     map fst regs = [1..<ps_next st] \<and> set accs \<subseteq> set regs \<and> distinct (map fst accs) \<and>
     length (ps_pending st) \<le> 128"
proof -
  obtain regs accs st where l: "probe_log ops probe_state_default = (regs, accs, st)" by (metis prod_cases3)
  have wf: "probe_wf probe_state_default" by (simp add: probe_wf_def probe_state_default_def)
  obtain ks st' where "probes.offers ops probe_state_default = Some (ks, st')" "probe_wf st'" "distinct ks"
    using probes.offers_once [OF wf] by blast
  then have "distinct (map fst accs)" "probe_wf st" using log_offers [OF l] by auto
  then show ?thesis
    using l log_waiting [OF l] log_ids [OF l] by (auto simp: waiting_def probe_state_default_def probe_wf_def max_pending_def)
qed

end
