(* ===== verification/Acl.thy ===== *)
theory Acl
  imports Tables
begin

text \<open>
  Authorization by path prefixes, \<^verbatim>\<open>acl.rs\<close>: receptionist rules and route rules with their validation. A
  hash map is an association list in its iteration order. The JSON reader is an argument.
\<close>

record acl_rules =
  roles :: "(string \<times> string list) list"
  default_deny :: bool

datatype acl_decision = Allow | Deny

datatype acl_error = AclParse string | AclPrincipal string | AclPrefix string string

record route_acl =
  routes :: "(string \<times> string list) list"
  default_deny_cross_realm :: bool

definition acl_rules_default :: acl_rules where
  "acl_rules_default = \<lparr>roles = [], default_deny = True\<rparr>"

definition acl_permissive :: acl_rules where
  "acl_permissive = acl_rules_default\<lparr>default_deny := False\<rparr>"

definition route_acl_default :: route_acl where
  "route_acl_default = \<lparr>routes = [], default_deny_cross_realm = True\<rparr>"

section \<open>Paths\<close>

fun split_on :: "char \<Rightarrow> string \<Rightarrow> string list" where
  "split_on c [] = [[]]"
| "split_on c (x # xs) =
     (if x = c then [] # split_on c xs
      else case split_on c xs of [] \<Rightarrow> [[x]] | s # ss \<Rightarrow> (x # s) # ss)"

definition segments :: "string \<Rightarrow> string list" where
  "segments s = split_on (CHR ''/'') s"

definition strip_prefix :: "string \<Rightarrow> string \<Rightarrow> string option" where
  "strip_prefix p s = (if prefix p s then Some (drop (length p) s) else None)"

definition within :: "string \<Rightarrow> string \<Rightarrow> bool" where
  "within target p \<longleftrightarrow> target = p \<or>
     (case strip_prefix p target of None \<Rightarrow> False | Some rest \<Rightarrow> rest \<noteq> [] \<and> hd rest = CHR ''/'')"

definition valid_segments :: "string \<Rightarrow> bool" where
  "valid_segments v \<longleftrightarrow> v \<noteq> [] \<and>
     \<not> (has_whitespace v \<or> has_control v \<or>
        (\<exists>c \<in> set v. c = CHR ''%'' \<or> c = CHR ''?'' \<or> c = CHR ''#'' \<or> c = CHR ''*'' \<or> c = CHR 0x5C)) \<and>
     (\<forall>s \<in> set (segments v). s \<noteq> [] \<and> s \<noteq> ''.'' \<and> s \<noteq> ''..'')"

definition key_prefix :: "string \<Rightarrow> string option" where
  "key_prefix v =
     (let p = (if v \<noteq> [] \<and> last v = CHR ''/'' then butlast v else v)
      in if valid_segments p then Some p else None)"

definition route_prefix :: "string \<Rightarrow> string option" where
  "route_prefix v = Option.bind (strip_prefix ''parrot://'' v) key_prefix"

section \<open>Receptionist rules\<close>

fun first_bad :: "('a \<Rightarrow> 'e option) \<Rightarrow> 'a list \<Rightarrow> 'e option" where
  "first_bad f [] = None"
| "first_bad f (x # xs) = (case f x of None \<Rightarrow> first_bad f xs | Some e \<Rightarrow> Some e)"

definition acl_validate :: "acl_rules \<Rightarrow> acl_error option" where
  "acl_validate a = first_bad (\<lambda>(role, grants).
      if \<not> valid_segments role then Some (AclPrincipal role)
      else first_bad (\<lambda>p. if key_prefix p = None then Some (AclPrefix role p) else None) grants) (roles a)"

definition acl_from_json :: "(string \<Rightarrow> string + acl_rules) \<Rightarrow> string \<Rightarrow> acl_error + acl_rules" where
  "acl_from_json parse text =
     (case parse text of
        Inl e \<Rightarrow> Inl (AclParse e)
      | Inr a \<Rightarrow> (case acl_validate a of Some e \<Rightarrow> Inl e | None \<Rightarrow> Inr a))"

definition acl_check :: "string \<Rightarrow> string \<Rightarrow> acl_rules \<Rightarrow> acl_decision" where
  "acl_check role key a =
     (if \<not> valid_segments role \<or> \<not> valid_segments key \<or> acl_validate a \<noteq> None then Deny
      else
        let allowed = (case map_of (roles a) role of
               None \<Rightarrow> False
             | Some grants \<Rightarrow> \<exists>p \<in> set grants. (case key_prefix p of None \<Rightarrow> False | Some q \<Rightarrow> within key q))
        in if allowed then Allow else if default_deny a then Deny else Allow)"

definition event_visible :: "string \<Rightarrow> string \<Rightarrow> acl_rules \<Rightarrow> bool" where
  "event_visible role key a \<longleftrightarrow> acl_check role key a = Allow"

text \<open>The reader of a rule map refuses a repeated key.\<close>

fun unique_rules :: "(string \<times> string list) list \<Rightarrow> (string \<times> string list) list \<Rightarrow> string + (string \<times> string list) list" where
  "unique_rules rules [] = Inr rules"
| "unique_rules rules ((k, v) # es) =
     (if map_of rules k = None then unique_rules (rules @ [(k, v)]) es else Inl k)"

section \<open>Route rules\<close>

definition route_validate :: "route_acl \<Rightarrow> acl_error option" where
  "route_validate a = first_bad (\<lambda>(p, allowed).
      if route_prefix p = None then Some (AclPrefix [] p)
      else first_bad (\<lambda>r. if r \<noteq> ''*'' \<and> \<not> valid_segments r then Some (AclPrincipal r) else None) allowed) (routes a)"

definition route_from_json :: "(string \<Rightarrow> string + route_acl) \<Rightarrow> string \<Rightarrow> acl_error + route_acl" where
  "route_from_json parse text =
     (case parse text of
        Inl e \<Rightarrow> Inl (AclParse e)
      | Inr a \<Rightarrow> (case route_validate a of Some e \<Rightarrow> Inl e | None \<Rightarrow> Inr a))"

definition permits :: "string \<Rightarrow> string list \<Rightarrow> bool" where
  "permits src allowed \<longleftrightarrow> (\<exists>r \<in> set allowed. r = src \<or> r = ''*'')"

text \<open>The scan keeps the length of the longest matching rule and the conjunction of the rules of that length.\<close>

fun best_route :: "string \<Rightarrow> string \<Rightarrow> (string \<times> string list) list \<Rightarrow> (nat \<times> bool) option \<Rightarrow> (nat \<times> bool) option option" where
  "best_route src target [] best = Some best"
| "best_route src target ((raw, allowed) # rs) best =
     (case route_prefix raw of
        None \<Rightarrow> None
      | Some p \<Rightarrow>
          if \<not> within target p then best_route src target rs best
          else best_route src target rs
            (case best of
               None \<Rightarrow> Some (length p, permits src allowed)
             | Some (n, allow) \<Rightarrow>
                 if n = length p then Some (n, allow \<and> permits src allowed)
                 else if n > length p then best
                 else Some (length p, permits src allowed)))"

definition check_route :: "string \<Rightarrow> string \<Rightarrow> route_acl \<Rightarrow> acl_decision option" where
  "check_route src target_prefix a =
     (case route_prefix target_prefix of
        None \<Rightarrow> Some Deny
      | Some target \<Rightarrow>
          if \<not> valid_segments src \<or> route_validate a \<noteq> None then Some Deny
          else map_option (\<lambda>best.
              if (case best of
                    Some (_, allow) \<Rightarrow> allow
                  | None \<Rightarrow> within target src \<or> \<not> default_deny_cross_realm a)
              then Allow else Deny) (best_route src target (routes a) None))"

section \<open>Prefixes are whole segments\<close>

lemma split_on_nonempty [simp]: "split_on c s \<noteq> []"
  by (induction s) (auto split: list.split)

lemma split_on_append: "split_on c (xs @ c # ys) = split_on c xs @ split_on c ys"
  by (induction xs) (auto split: list.split)

fun join_with :: "char \<Rightarrow> string list \<Rightarrow> string" where
  "join_with c [] = []"
| "join_with c [s] = s"
| "join_with c (s # t # ss) = s @ c # join_with c (t # ss)"

lemma join_Cons: "ss \<noteq> [] \<Longrightarrow> join_with c (s # ss) = s @ c # join_with c ss"
  by (cases ss) auto

lemma join_push: "ss \<noteq> [] \<Longrightarrow> join_with c ((x # hd ss) # tl ss) = x # join_with c ss"
  by (cases ss; cases "tl ss") auto

lemma join_split: "join_with c (split_on c s) = s"
proof (induction s)
  case (Cons x s)
  show ?case
  proof (cases "x = c")
    case True
    then show ?thesis using Cons by (simp add: join_Cons)
  next
    case False
    then have "split_on c (x # s) = (x # hd (split_on c s)) # tl (split_on c s)"
      by (simp split: list.split)
    then show ?thesis using Cons join_push [of "split_on c s"] by simp
  qed
qed simp

lemma join_append: "xs \<noteq> [] \<Longrightarrow> ys \<noteq> [] \<Longrightarrow> join_with c (xs @ ys) = join_with c xs @ c # join_with c ys"
proof (induction xs)
  case (Cons x xs)
  then show ?case by (cases "xs = []") (simp_all add: join_Cons)
qed simp

lemma within_segments: "within target p \<longleftrightarrow> prefix (segments p) (segments target)"
proof
  assume "within target p"
  then consider "target = p" | rest where "target = p @ CHR ''/'' # rest"
    unfolding within_def strip_prefix_def
    by (auto simp: prefix_def split: if_splits option.splits) (metis list.collapse)
  then show "prefix (segments p) (segments target)" by cases (simp_all add: segments_def split_on_append)
next
  assume "prefix (segments p) (segments target)"
  then obtain ss where ss: "segments target = segments p @ ss" by (auto simp: prefix_def)
  show "within target p"
  proof (cases "ss = []")
    case True
    then have "join_with (CHR ''/'') (segments target) = join_with (CHR ''/'') (segments p)" using ss by simp
    then show ?thesis by (simp add: segments_def within_def join_split)
  next
    case False
    have "join_with (CHR ''/'') (segments target) = join_with (CHR ''/'') (segments p @ ss)" using ss by simp
    also have "\<dots> = p @ CHR ''/'' # join_with (CHR ''/'') ss"
      using join_append [OF split_on_nonempty False, of "CHR ''/''" "CHR ''/''" p] by (simp add: segments_def join_split)
    finally show ?thesis by (simp add: segments_def join_split within_def strip_prefix_def)
  qed
qed

text \<open>A receptionist grant covers exactly the keys below one of its prefixes, segment by segment.\<close>

lemma check_by_segments:
  "acl_check role key a = Allow \<longleftrightarrow>
     valid_segments role \<and> valid_segments key \<and> acl_validate a = None \<and>
     (\<not> default_deny a \<or>
      (\<exists>grants p q. map_of (roles a) role = Some grants \<and> p \<in> set grants \<and> key_prefix p = Some q \<and>
         prefix (segments q) (segments key)))"
  by (auto simp: acl_check_def Let_def within_segments split: option.splits)

section \<open>The most specific route decides\<close>

definition matching :: "string \<Rightarrow> (string \<times> string list) list \<Rightarrow> (string \<times> string list) set" where
  "matching target rs = {(p, al). \<exists>raw. (raw, al) \<in> set rs \<and> route_prefix raw = Some p \<and> prefix (segments p) (segments target)}"

definition decided :: "string \<Rightarrow> (string \<times> string list) set \<Rightarrow> (nat \<times> bool) option \<Rightarrow> bool" where
  "decided src M best \<longleftrightarrow>
     (case best of
        None \<Rightarrow> M = {}
      | Some (n, allow) \<Rightarrow> (\<exists>(p, al) \<in> M. length p = n) \<and> (\<forall>(p, al) \<in> M. length p \<le> n) \<and>
          (allow \<longleftrightarrow> (\<forall>(p, al) \<in> M. length p = n \<longrightarrow> permits src al)))"

lemma matching_Cons:
  "matching target ((raw, al) # rs) =
     (case route_prefix raw of
        None \<Rightarrow> matching target rs
      | Some p \<Rightarrow> if prefix (segments p) (segments target) then insert (p, al) (matching target rs) else matching target rs)"
  by (auto simp: matching_def split: option.split)

lemma first_bad_None: "first_bad f xs = None \<longleftrightarrow> (\<forall>x \<in> set xs. f x = None)"
  by (induction xs) (auto split: option.split)

lemma decided_insert:
  assumes "decided src M best"
  shows "decided src (insert (p, al) M)
     (case best of
        None \<Rightarrow> Some (length p, permits src al)
      | Some (n, allow) \<Rightarrow>
          if n = length p then Some (n, allow \<and> permits src al)
          else if n > length p then best
          else Some (length p, permits src al))"
proof (cases best)
  case (Some b)
  obtain n allow where b: "b = (n, allow)" by fastforce
  consider "n = length p" | "n > length p" | "n < length p" by linarith
  then show ?thesis
  proof cases
    case 3
    then have "\<forall>(q, bl) \<in> M. length q \<noteq> length p" using assms Some b by (fastforce simp: decided_def)
    then show ?thesis using 3 assms Some b by (fastforce simp: decided_def)
  qed (use assms Some b in \<open>auto simp: decided_def\<close>)
qed (use assms in \<open>simp add: decided_def\<close>)

lemma best_route_decides:
  assumes "\<forall>(raw, al) \<in> set rs. route_prefix raw \<noteq> None" and "decided src M best"
  shows "\<exists>b. best_route src target rs best = Some b \<and> decided src (M \<union> matching target rs) b"
  using assms
proof (induction rs arbitrary: M best)
  case Nil
  then show ?case by (simp add: matching_def)
next
  case (Cons r rs)
  obtain raw al p where r: "r = (raw, al)" "route_prefix raw = Some p" using Cons.prems(1) by (cases r) auto
  have "\<forall>(raw, al) \<in> set rs. route_prefix raw \<noteq> None" using Cons.prems(1) by simp
  note IH = Cons.IH [OF this]
  show ?case
  proof (cases "prefix (segments p) (segments target)")
    case False
    then show ?thesis using IH [OF Cons.prems(2)] r by (simp add: matching_Cons within_segments)
  next
    case True
    then show ?thesis
      using IH [OF decided_insert [OF Cons.prems(2), of p al]] r by (simp add: matching_Cons within_segments)
  qed
qed

text \<open>
  C36. The most specific route decides, whatever the order of the table. A route check never panics; it allows
  a source exactly when the target and the source are well formed, the rules are valid, and either some
  rule covers the target segment by segment and every covering rule of maximal length grants the
  source, or no rule covers it and the target lies in the source's own realm or the default is
  permissive.
\<close>

theorem route_check_by_longest_rule:
  "\<exists>d. check_route src target_prefix a = Some d \<and>
    (d = Allow \<longleftrightarrow>
      (\<exists>t. route_prefix target_prefix = Some t \<and> valid_segments src \<and> route_validate a = None \<and>
        (if matching t (routes a) = {} then prefix (segments src) (segments t) \<or> \<not> default_deny_cross_realm a
         else \<forall>(p, al) \<in> matching t (routes a).
                (\<forall>(q, bl) \<in> matching t (routes a). length q \<le> length p) \<longrightarrow> src \<in> set al \<or> ''*'' \<in> set al)))"
proof (cases "\<exists>t. route_prefix target_prefix = Some t \<and> valid_segments src \<and> route_validate a = None")
  case False
  then have "check_route src target_prefix a = Some Deny"
    by (cases "route_prefix target_prefix") (simp_all add: check_route_def)
  then show ?thesis
  proof (intro exI conjI)
    show "Deny = Allow \<longleftrightarrow> (\<exists>t. route_prefix target_prefix = Some t \<and> valid_segments src \<and> route_validate a = None \<and>
        (if matching t (routes a) = {} then prefix (segments src) (segments t) \<or> \<not> default_deny_cross_realm a
         else \<forall>(p, al) \<in> matching t (routes a).
                (\<forall>(q, bl) \<in> matching t (routes a). length q \<le> length p) \<longrightarrow> src \<in> set al \<or> ''*'' \<in> set al))"
      using False unfolding acl_decision.distinct simp_thms by blast
  qed
next
  case True
  then obtain t where t: "route_prefix target_prefix = Some t" "valid_segments src" "route_validate a = None" by blast
  let ?M = "matching t (routes a)"
  have "\<forall>(raw, al) \<in> set (routes a). route_prefix raw \<noteq> None"
    using t(3) by (fastforce simp: route_validate_def first_bad_None split: if_splits)
  then obtain b where b: "best_route src t (routes a) None = Some b" "decided src ?M b"
    using best_route_decides [of "routes a" src "{}" None t] by (auto simp: decided_def)
  let ?allow = "case b of Some (_, allow) \<Rightarrow> allow | None \<Rightarrow> within t src \<or> \<not> default_deny_cross_realm a"
  have c: "check_route src target_prefix a = Some (if ?allow then Allow else Deny)"
    using t b(1) by (simp add: check_route_def)
  have "?allow \<longleftrightarrow> (if ?M = {} then prefix (segments src) (segments t) \<or> \<not> default_deny_cross_realm a
         else \<forall>(p, al) \<in> ?M. (\<forall>(q, bl) \<in> ?M. length q \<le> length p) \<longrightarrow> src \<in> set al \<or> ''*'' \<in> set al)"
  proof (cases b)
    case None
    then show ?thesis using b(2) by (simp add: decided_def within_segments)
  next
    case (Some x)
    obtain n allow where x: "x = (n, allow)" by fastforce
    have M: "\<exists>(p, al) \<in> ?M. length p = n" "\<forall>(p, al) \<in> ?M. length p \<le> n"
      "allow \<longleftrightarrow> (\<forall>(p, al) \<in> ?M. length p = n \<longrightarrow> permits src al)"
      using b(2) Some x by (auto simp: decided_def)
    have iff: "(\<forall>(q, bl) \<in> ?M. length q \<le> length p) \<longleftrightarrow> length p = n" if "(p, al) \<in> ?M" for p al
    proof
      assume "\<forall>(q, bl) \<in> ?M. length q \<le> length p"
      then have "n \<le> length p" using M(1) by auto
      moreover have "length p \<le> n" using M(2) that by auto
      ultimately show "length p = n" by simp
    qed (use M(2) in simp)
    have "(\<forall>(p, al) \<in> ?M. (\<forall>(q, bl) \<in> ?M. length q \<le> length p) \<longrightarrow> src \<in> set al \<or> ''*'' \<in> set al) \<longleftrightarrow> allow"
      unfolding M(3) by (intro ball_cong refl) (simp only: iff permits_def split_paired_all prod.case, blast)
    moreover have "?M \<noteq> {}" using M(1) by blast
    ultimately show ?thesis using Some x by simp
  qed
  then show ?thesis using c t by auto
qed

definition demo_routes :: route_acl where
  "demo_routes = \<lparr>routes = [(''parrot://eu'', [''*'']), (''parrot://eu/bank/'', [''eu''])], default_deny_cross_realm = True\<rparr>"

theorem route_check_by_longest_rule_witness:
  "check_route ''us'' ''parrot://eu/bank/7'' demo_routes = Some Deny \<and>
   matching ''eu/bank/7'' (routes demo_routes) \<noteq> {} \<and>
   \<not> (\<forall>(p, al) \<in> matching ''eu/bank/7'' (routes demo_routes).
        (\<forall>(q, bl) \<in> matching ''eu/bank/7'' (routes demo_routes). length q \<le> length p) \<longrightarrow> ''us'' \<in> set al \<or> ''*'' \<in> set al)"
proof -
  have r: "check_route ''us'' ''parrot://eu/bank/7'' demo_routes = Some Deny" by code_simp
  have p: "route_prefix ''parrot://eu/bank/7'' = Some ''eu/bank/7''" "valid_segments ''us''" "route_validate demo_routes = None"
    "route_prefix ''parrot://eu'' = Some ''eu''" "prefix (segments ''eu'') (segments ''eu/bank/7'')"
    by code_simp+
  have "(''eu'', [''*'']) \<in> matching ''eu/bank/7'' (routes demo_routes)"
    using p(4,5) unfolding matching_def demo_routes_def by auto
  then have "matching ''eu/bank/7'' (routes demo_routes) \<noteq> {}" by blast
  then show ?thesis using route_check_by_longest_rule [of "''us''" "''parrot://eu/bank/7''" demo_routes] r p(1-3) by auto
qed

end
