(* ===== verification/Singleton.thy ===== *)
theory Singleton
  imports Swim
begin

text \<open>
  The lease of a cluster singleton, \<^verbatim>\<open>singleton.rs\<close>, from the point of view of one candidate. Instants and
  durations are numbers of nanoseconds; whether a majority is reachable is told by the caller. Adding a lease to an
  instant panics in the source when the clock of the platform cannot hold the sum, which a tick or an
  observation within the range of that clock less one lease never reaches; the model has no such bound.
\<close>

record lease_params =
  lease :: duration
  renew_interval :: duration

definition lease_params_default :: lease_params where
  "lease_params_default = \<lparr>lease = from_millis 10000, renew_interval = from_millis 3000\<rparr>"

record candidate =
  c_node :: string
  c_seq :: nat

datatype singleton_state = Vacant | SLeader | SFollower

record singleton_lease =
  sl_params :: lease_params
  sl_me :: candidate
  sl_holder :: "(candidate \<times> nat) option"
  floor_seq :: nat
  sl_state :: singleton_state

datatype singleton_transition = Acquired candidate | SteppedDown candidate

definition lease_new :: "candidate \<Rightarrow> lease_params \<Rightarrow> singleton_lease" where
  "lease_new me ps = \<lparr>sl_params = ps, sl_me = me, sl_holder = None, floor_seq = 0, sl_state = Vacant\<rparr>"

definition current_holder :: "nat \<Rightarrow> singleton_lease \<Rightarrow> candidate option" where
  "current_holder now l =
     (case sl_holder l of
        Some (c, expiry) \<Rightarrow> if expiry > now then Some c else None
      | None \<Rightarrow> None)"

definition expire :: "nat \<Rightarrow> singleton_lease \<Rightarrow> singleton_lease" where
  "expire now l =
     (case sl_holder l of
        Some (c, expiry) \<Rightarrow>
          if now \<ge> expiry
          then l\<lparr>floor_seq := max (floor_seq l) (c_seq c), sl_holder := None, sl_state := Vacant\<rparr> else l
      | None \<Rightarrow> l)"

definition lease_tick :: "nat \<Rightarrow> bool \<Rightarrow> singleton_lease \<Rightarrow> singleton_transition option \<times> singleton_lease" where
  "lease_tick now quorum_ok l0 =
     (let l = expire now l0
      in if sl_state l = SLeader
         then (if quorum_ok
               then (None, l\<lparr>sl_holder := map_option (\<lambda>(c, _). (c, now + lease (sl_params l))) (sl_holder l)\<rparr>)
               else (Some (SteppedDown (sl_me l)), l\<lparr>sl_holder := None, sl_state := Vacant\<rparr>))
         else (if quorum_ok \<and> sl_holder l = None \<and> c_seq (sl_me l) > floor_seq l
               then (Some (Acquired (sl_me l)),
                     l\<lparr>sl_holder := Some (sl_me l, now + lease (sl_params l)), sl_state := SLeader\<rparr>)
               else (None, l)))"

definition lease_observe :: "nat \<Rightarrow> candidate \<Rightarrow> singleton_lease \<Rightarrow> singleton_lease" where
  "lease_observe now h l =
     (if (case sl_holder l of Some (cur, _) \<Rightarrow> c_seq cur \<ge> c_seq h | None \<Rightarrow> False) then l
      else l\<lparr>floor_seq := max (floor_seq l) (c_seq h), sl_holder := Some (h, now + lease (sl_params l)),
             sl_state := (if h = sl_me l then SLeader else SFollower)\<rparr>)"

definition takeover_wait :: "singleton_lease \<Rightarrow> duration" where
  "takeover_wait l = lease (sl_params l)"

section \<open>Every run of a candidate\<close>

text \<open>What happens to a candidate, each event with the instant the caller gives.\<close>

datatype lease_event = Lease_Tick nat bool | Lease_Observe nat candidate

primrec lease_step :: "lease_event \<Rightarrow> singleton_lease \<Rightarrow> singleton_lease" where
  "lease_step (Lease_Tick now q) l = snd (lease_tick now q l)"
| "lease_step (Lease_Observe now h) l = lease_observe now h l"

definition lease_run :: "candidate \<Rightarrow> lease_params \<Rightarrow> lease_event list \<Rightarrow> singleton_lease" where
  "lease_run me ps evs = fold lease_step evs (lease_new me ps)"

text \<open>A holder is confirmed at an instant by an observation, or, for the candidate itself, by a tick with a majority.\<close>

definition confirmed :: "candidate \<Rightarrow> lease_event list \<Rightarrow> candidate \<Rightarrow> nat \<Rightarrow> bool" where
  "confirmed me evs h t \<longleftrightarrow> Lease_Observe t h \<in> set evs \<or> (h = me \<and> Lease_Tick t True \<in> set evs)"

definition lease_ok :: "candidate \<Rightarrow> lease_params \<Rightarrow> lease_event list \<Rightarrow> singleton_lease \<Rightarrow> bool" where
  "lease_ok me ps evs l \<longleftrightarrow> sl_me l = me \<and> sl_params l = ps \<and> (sl_state l = Vacant \<longleftrightarrow> sl_holder l = None) \<and>
     (\<forall>c e. sl_holder l = Some (c, e) \<longrightarrow> (sl_state l = SLeader \<longleftrightarrow> c = me) \<and> (c = me \<or> c_seq c \<le> floor_seq l) \<and>
        (\<exists>t. e = t + lease ps \<and> confirmed me evs c t)) \<and>
     (\<forall>t h. Lease_Observe t h \<in> set evs \<and> c_seq me < c_seq h \<longrightarrow> c_seq h \<le> floor_seq l)"

lemma lease_okD:
  assumes "lease_ok me ps evs l"
  shows "sl_me l = me" "sl_params l = ps" "sl_state l = Vacant \<longleftrightarrow> sl_holder l = None"
    "sl_holder l = Some (c, e) \<Longrightarrow> sl_state l = SLeader \<longleftrightarrow> c = me"
    "sl_holder l = Some (c, e) \<Longrightarrow> c = me \<or> c_seq c \<le> floor_seq l"
    "sl_holder l = Some (c, e) \<Longrightarrow> \<exists>t. e = t + lease ps \<and> confirmed me evs c t"
    "Lease_Observe t h \<in> set evs \<Longrightarrow> c_seq me < c_seq h \<Longrightarrow> c_seq h \<le> floor_seq l"
  using assms unfolding lease_ok_def by blast+

lemma confirmed_snoc:
  "confirmed me evs h t \<Longrightarrow> confirmed me (evs @ [ev]) h t"
  "confirmed me (evs @ [Lease_Tick t True]) me t" "confirmed me (evs @ [Lease_Observe t h]) h t"
  by (auto simp: confirmed_def)

lemma expire_ok: "lease_ok me ps evs l \<Longrightarrow> lease_ok me ps evs (expire now l)"
  by (auto simp: lease_ok_def expire_def le_max_iff_disj split: option.split)

lemma expire_current:
  "sl_holder (expire now l) = (case current_holder now l of None \<Rightarrow> None | Some c \<Rightarrow> sl_holder l)"
  "current_holder now l = Some c \<Longrightarrow> expire now l = l \<and> (\<exists>e. sl_holder l = Some (c, e) \<and> now < e)"
  "current_holder now l = None \<Longrightarrow> floor_seq (expire now l) =
     (case sl_holder l of None \<Rightarrow> floor_seq l | Some (c, e) \<Rightarrow> max (floor_seq l) (c_seq c))"
  by (auto simp: expire_def current_holder_def split: option.splits if_splits)

text \<open>A tick, by what the candidate believes at that instant.\<close>

lemma tick_cases:
  assumes ok: "lease_ok me ps evs l" and tick: "lease_tick now q l = (tr, l')"
  obtains
    (Renewed) e where "current_holder now l = Some me" "q" "tr = None" "l' = l\<lparr>sl_holder := Some (me, now + lease ps)\<rparr>"
      "sl_state l = SLeader" "sl_holder l = Some (me, e)"
  | (Lost) "current_holder now l = Some me" "\<not> q" "tr = Some (SteppedDown me)" "l' = l\<lparr>sl_holder := None, sl_state := Vacant\<rparr>"
  | (Followed) c where "current_holder now l = Some c" "c \<noteq> me" "tr = None" "l' = l" "sl_state l = SFollower"
  | (Taken) "current_holder now l = None" "q" "floor_seq (expire now l) < c_seq me" "tr = Some (Acquired me)"
      "l' = (expire now l)\<lparr>sl_holder := Some (me, now + lease ps), sl_state := SLeader\<rparr>"
  | (Waited) "current_holder now l = None" "\<not> (q \<and> floor_seq (expire now l) < c_seq me)" "tr = None" "l' = expire now l"
      "sl_state l' = Vacant" "sl_holder l' = None"
proof (cases "current_holder now l")
  case None
  note ok' = lease_okD [OF expire_ok [OF ok, of now]]
  have h: "sl_holder (expire now l) = None" using None by (simp add: expire_current(1))
  then have v: "sl_state (expire now l) = Vacant" using ok'(3) by simp
  show ?thesis
  proof (cases "q \<and> floor_seq (expire now l) < c_seq me")
    case True
    show ?thesis by (rule Taken) (use tick None h v ok'(1,2) True in \<open>auto simp: lease_tick_def Let_def\<close>)
  next
    case False
    show ?thesis by (rule Waited) (use tick None h v ok'(1,2) False in \<open>auto simp: lease_tick_def Let_def split: if_splits\<close>)
  qed
next
  case (Some c)
  then obtain e where e: "expire now l = l" "sl_holder l = Some (c, e)" using expire_current(2) by blast
  note okl = lease_okD [OF ok]
  show ?thesis
  proof (cases "c = me")
    case True
    then have leader: "sl_state l = SLeader" using okl(4) [OF e(2)] by simp
    show ?thesis
    proof (cases q)
      case q: True
      show ?thesis by (rule Renewed) (use tick Some True e okl(1,2) leader q in \<open>auto simp: lease_tick_def Let_def\<close>)
    next
      case q: False
      show ?thesis by (rule Lost) (use tick Some True e okl(1,2) leader q in \<open>auto simp: lease_tick_def Let_def\<close>)
    qed
  next
    case False
    then have "sl_state l = SFollower" using okl(3) okl(4) [OF e(2)] e(2) by (cases "sl_state l") auto
    then show ?thesis
      by (intro Followed [of c]) (use tick Some False e in \<open>auto simp: lease_tick_def\<close>)
  qed
qed

lemma lease_ok_mono:
  assumes "lease_ok me ps evs l" shows "lease_ok me ps (evs @ [Lease_Tick now q]) l"
  using assms unfolding lease_ok_def confirmed_def by auto

lemma lease_ok_tick:
  assumes ok: "lease_ok me ps evs l" and tick: "lease_tick now q l = (tr, l')"
  shows "lease_ok me ps (evs @ [Lease_Tick now q]) l'"
proof -
  note mono = lease_ok_mono [OF ok, of now q] lease_ok_mono [OF expire_ok [OF ok, of now], of now q]
  from ok tick show ?thesis
  proof (cases rule: tick_cases)
    case Renewed
    then show ?thesis using mono(1) confirmed_snoc(2) [of me evs now] by (auto simp: lease_ok_def)
  next
    case Taken
    then show ?thesis using mono(2) confirmed_snoc(2) [of me evs now] by (auto simp: lease_ok_def)
  next
    case Lost
    then show ?thesis using mono(1) by (auto simp: lease_ok_def)
  qed (use mono in simp_all)
qed

lemma lease_ok_observe:
  assumes ok: "lease_ok me ps evs l"
  shows "lease_ok me ps (evs @ [Lease_Observe now h]) (lease_observe now h l)"
proof (cases "\<exists>c e. sl_holder l = Some (c, e) \<and> c_seq h \<le> c_seq c")
  case True
  then obtain c e where h: "sl_holder l = Some (c, e)" "c_seq h \<le> c_seq c" by blast
  then have same: "lease_observe now h l = l" by (simp add: lease_observe_def)
  have "c_seq me < c_seq h \<Longrightarrow> c_seq h \<le> floor_seq l" using lease_okD(5) [OF ok h(1)] h(2) by auto
  then show ?thesis using ok unfolding same lease_ok_def confirmed_def by auto
next
  case False
  then have new: "lease_observe now h l = l\<lparr>floor_seq := max (floor_seq l) (c_seq h), sl_holder := Some (h, now + lease (sl_params l)),
      sl_state := (if h = sl_me l then SLeader else SFollower)\<rparr>"
    by (auto simp: lease_observe_def split: option.splits)
  then show ?thesis
    using ok confirmed_snoc(3) [of me evs now h] unfolding new lease_ok_def by (auto simp: le_max_iff_disj)
qed

lemma lease_run_ok: "lease_ok me ps evs (lease_run me ps evs)"
proof (induction evs rule: rev_induct)
  case (snoc ev evs)
  then show ?case
    using lease_ok_tick [OF snoc prod.collapse [symmetric]] lease_ok_observe [OF snoc] by (cases ev) (auto simp: lease_run_def)
qed (simp add: lease_run_def lease_ok_def lease_new_def)

text \<open>
  C37. The lease is safe, and it runs out. In every run of a candidate, with any observations, any reports about the
  majority and any instants, a tick does the following.
  The candidate takes the lease exactly when it has a majority, no lease it knows of is still running at that
  instant, and its sequence is above its floor and above the holder whose lease ran out; so it never takes it after
  it has observed a holder with a higher sequence. It steps down exactly when it holds a running lease without a
  majority. It is leader after the tick exactly when there is a majority and it held a running lease or
  took it: a leader whose lease ran out is leader no longer. A leader holds the lease for the time of one lease from
  the tick on and not longer. Whoever is believed to hold the lease at some instant was confirmed less than one lease
  before it: by an observation, or, for the candidate itself, by a tick with a majority. (An observation that names the
  candidate itself also makes it leader until the next tick, whatever the majority.)
\<close>

theorem lease_is_safe:
  assumes run: "l = lease_run me ps evs" and tick: "lease_tick now q l = (tr, l')"
  shows "(tr = Some (Acquired c) \<longleftrightarrow> c = me \<and> q \<and> current_holder now l = None \<and> floor_seq l < c_seq me \<and>
            (\<forall>h e. sl_holder l = Some (h, e) \<longrightarrow> c_seq h < c_seq me)) \<and>
         (tr = Some (Acquired c) \<longrightarrow> (\<forall>t h. Lease_Observe t h \<in> set evs \<longrightarrow> c_seq h \<le> c_seq me)) \<and>
         (tr = Some (SteppedDown c) \<longleftrightarrow> c = me \<and> \<not> q \<and> current_holder now l = Some me) \<and>
         (sl_state l' = SLeader \<longleftrightarrow> q \<and> (current_holder now l = Some me \<or> tr = Some (Acquired me))) \<and>
         (sl_state l' = SLeader \<longrightarrow> (\<forall>t. current_holder t l' = Some me \<longleftrightarrow> t < now + lease ps)) \<and>
         (\<forall>t h. current_holder t l' = Some h \<longrightarrow>
            (\<exists>t0. t < t0 + lease ps \<and> confirmed me (evs @ [Lease_Tick now q]) h t0))"
proof -
  note ok = lease_run_ok [of me ps evs, folded run]
  have below: "current_holder now l = None \<Longrightarrow> floor_seq (expire now l) < c_seq me \<longleftrightarrow>
      floor_seq l < c_seq me \<and> (\<forall>h e. sl_holder l = Some (h, e) \<longrightarrow> c_seq h < c_seq me)"
    using expire_current(3) [of now l] by (auto split: option.splits)
  have seen: "c_seq h \<le> c_seq me" if "floor_seq l < c_seq me" "Lease_Observe t h \<in> set evs" for t h
    using lease_okD(7) [OF ok that(2)] that(1) by linarith
  have fresh: "\<exists>t0. t < t0 + lease ps \<and> confirmed me (evs @ [Lease_Tick now q]) h t0" if cur: "current_holder t l' = Some h" for t h
  proof -
    obtain e where "sl_holder l' = Some (h, e)" "t < e" using expire_current(2) [OF cur] by blast
    then show ?thesis using lease_okD(6) [OF lease_ok_tick [OF ok tick]] by blast
  qed
  have decided: "(tr = Some (Acquired c) \<longleftrightarrow> c = me \<and> q \<and> current_holder now l = None \<and> floor_seq (expire now l) < c_seq me) \<and>
      (tr = Some (SteppedDown c) \<longleftrightarrow> c = me \<and> \<not> q \<and> current_holder now l = Some me) \<and>
      (sl_state l' = SLeader \<longleftrightarrow> q \<and> (current_holder now l = Some me \<or> tr = Some (Acquired me))) \<and>
      (sl_state l' = SLeader \<longrightarrow> (\<forall>t. current_holder t l' = Some me \<longleftrightarrow> t < now + lease ps))"
    using ok tick by (cases rule: tick_cases) (auto simp: current_holder_def)
  then show ?thesis using below seen fresh by blast
qed

text \<open>A candidate observes a holder, takes over when its lease has run out, and loses the lease when it is paused too long.\<close>

definition demo_candidate :: candidate where
  "demo_candidate = \<lparr>c_node = ''a'', c_seq = 4\<rparr>"

definition demo_lease_events :: "lease_event list" where
  "demo_lease_events = [Lease_Observe 0 \<lparr>c_node = ''b'', c_seq = 3\<rparr>, Lease_Tick 50 True, Lease_Tick 100 True]"

theorem lease_is_safe_witness:
  "let l = lease_run demo_candidate \<lparr>lease = 100, renew_interval = 30\<rparr> demo_lease_events in
     sl_state l = SLeader \<and> current_holder 250 l = None \<and>
     fst (lease_tick 250 True l) = None \<and> sl_state (snd (lease_tick 250 True l)) \<noteq> SLeader \<and>
     fst (lease_tick 150 False l) = Some (SteppedDown demo_candidate)"
proof -
  let ?l = "lease_run demo_candidate \<lparr>lease = 100, renew_interval = 30\<rparr> demo_lease_events"
  have l: "sl_state ?l = SLeader" "current_holder 250 ?l = None" "current_holder 150 ?l = Some demo_candidate"
    "fst (lease_tick 250 True ?l) = None" by code_simp+
  then have "sl_state (snd (lease_tick 250 True ?l)) \<noteq> SLeader"
    using lease_is_safe [where l = ?l and now = 250 and q = True and c = demo_candidate, OF refl prod.collapse [symmetric]] by simp
  moreover have "fst (lease_tick 150 False ?l) = Some (SteppedDown demo_candidate)"
    using l(3) lease_is_safe [where l = ?l and now = 150 and q = False and c = demo_candidate, OF refl prod.collapse [symmetric]] by simp
  ultimately show ?thesis using l by (simp add: Let_def)
qed

text \<open>
  Seeing the same holder again does not extend its lease in the eyes of the observer: a candidate with a higher
  sequence takes the lease one lease after the first observation, although the holder was observed just before and
  renews in time.
\<close>

lemma renewal_not_observed:
  assumes "c_seq h < c_seq me"
  shows "\<exists>l'. lease_tick (lease ps) True
      (lease_run me ps (Lease_Observe 0 h # map (\<lambda>t. Lease_Observe t h) renewals)) = (Some (Acquired me), l')"
proof -
  let ?l = "lease_observe 0 h (lease_new me ps)"
  have "fold lease_step (map (\<lambda>t. Lease_Observe t h) renewals) ?l = ?l"
    by (induction renewals) (simp_all add: lease_observe_def lease_new_def)
  then have "lease_run me ps (Lease_Observe 0 h # map (\<lambda>t. Lease_Observe t h) renewals) = ?l" by (simp add: lease_run_def)
  then show ?thesis using assms by (auto simp: lease_observe_def lease_new_def lease_tick_def expire_def Let_def)
qed

text \<open>
  A leader whose own lease has run out, because it was paused for longer than the lease, raises the floor to its
  own sequence and is shut out from then on.
\<close>

lemma floor_mono: "floor_seq l \<le> floor_seq (snd (lease_tick now q l))" "floor_seq l \<le> floor_seq (lease_observe now h l)"
  by (auto simp: lease_tick_def Let_def expire_def lease_observe_def split: option.split)

theorem late_leader_locked_out:
  assumes "sl_holder l = Some (sl_me l, e)" and "e \<le> now"
  shows "fst (lease_tick now q l) = None \<and> sl_state (snd (lease_tick now q l)) = Vacant \<and>
    (\<forall>l'. sl_me l' = sl_me l \<and> floor_seq (snd (lease_tick now q l)) \<le> floor_seq l' \<longrightarrow>
       fst (lease_tick t True l') \<noteq> Some (Acquired (sl_me l)))"
  using assms by (auto simp: lease_tick_def Let_def expire_def split: option.splits if_splits)

end
