(* ===== verification/Cache.thy ===== *)
theory Cache
  imports Swim
begin

text \<open>
  The resolve cache of a node, \<^verbatim>\<open>cache.rs\<close>: freshness, versions and invalidation fences, a logical clock
  for least-recent use and bounded size. Instants and durations are numbers of nanoseconds. Which fence goes
  when there are too many depends on the iteration order of a hash map; \<open>pick\<close> stands for it.
\<close>

datatype cache_state = Fresh | Stale | Invalid

record cache_entry =
  ce_endpoints :: "string list"
  ce_version :: nat
  ce_state :: cache_state
  fetched_at :: nat
  ce_ttl :: duration
  ce_lru :: nat

record resolve_cache =
  rc_entries :: "(string \<times> cache_entry) list"
  invalidation_floor :: "(string \<times> nat) list"
  rc_ttl :: duration
  stale_window :: duration
  capacity :: nat
  lru_clock :: nat
  hits :: nat
  misses :: nat

record cache_stats =
  cs_hits :: nat
  cs_misses :: nat
  hit_ratio_permille :: nat

datatype resolve_action =
    DirectCache string
  | TryDirectElseResolve string
  | ResolveKey string
  | RelayFallback string

definition cache_default :: resolve_cache where
  "cache_default =
     \<lparr>rc_entries = [], invalidation_floor = [], rc_ttl = from_millis 60000, stale_window = from_millis 300000,
      capacity = 65536, lru_clock = 0, hits = 0, misses = 0\<rparr>"

definition cache_with_capacity :: "nat \<Rightarrow> resolve_cache" where
  "cache_with_capacity n = cache_default\<lparr>capacity := max n 1\<rparr>"

definition cache_stats_of :: "resolve_cache \<Rightarrow> cache_stats" where
  "cache_stats_of c =
     (let total = hits c + misses c
      in \<lparr>cs_hits = hits c, cs_misses = misses c,
          hit_ratio_permille = (if total = 0 then 0 else hits c * 1000 div total)\<rparr>)"

section \<open>The logical clock\<close>

definition set_lru :: "string \<Rightarrow> nat \<Rightarrow> (string \<times> cache_entry) list \<Rightarrow> (string \<times> cache_entry) list" where
  "set_lru k n es = map (\<lambda>(k', e). (k', if k' = k then e\<lparr>ce_lru := n\<rparr> else e)) es"

fun rebase :: "string list \<Rightarrow> nat \<Rightarrow> (string \<times> cache_entry) list \<Rightarrow> nat \<times> (string \<times> cache_entry) list" where
  "rebase [] next es = (next, es)"
| "rebase (k # ks) next es = rebase ks (saturating_add next 1) (set_lru k (saturating_add next 1) es)"

definition lru_order :: "(string \<times> cache_entry) list \<Rightarrow> string list" where
  "lru_order es = map fst (sort_key snd (map (\<lambda>(k, e). (k, ce_lru e)) es))"

definition tick_lru :: "resolve_cache \<Rightarrow> nat \<times> resolve_cache" where
  "tick_lru c =
     (let c1 = (if lru_clock c = u64_max
                then (case rebase (lru_order (rc_entries c)) 0 (rc_entries c) of
                        (next, es) \<Rightarrow> c\<lparr>rc_entries := es, lru_clock := next\<rparr>)
                else c);
          n = saturating_add (lru_clock c1) 1
      in (n, c1\<lparr>lru_clock := n\<rparr>))"

section \<open>Eviction\<close>

definition victim_key :: "cache_entry \<Rightarrow> bool \<times> nat \<times> nat" where
  "victim_key e = (ce_state e \<noteq> Invalid, ce_lru e, fetched_at e)"

fun victim :: "(string \<times> cache_entry) list \<Rightarrow> (string \<times> cache_entry) option" where
  "victim [] = None"
| "victim (x # xs) =
     (case victim xs of
        None \<Rightarrow> Some x
      | Some y \<Rightarrow> if victim_key (snd y) < victim_key (snd x) then Some y else Some x)"

lemma victim_in: "victim xs = Some x \<Longrightarrow> x \<in> set xs"
  by (induction xs arbitrary: x) (auto split: option.splits if_splits)

lemma length_delete_less: "k \<in> fst ` set xs \<Longrightarrow> length (AList.delete k xs) < length xs"
  by (auto simp: AList.delete_eq intro!: length_filter_less)

function evict :: "nat \<Rightarrow> (string \<times> cache_entry) list \<Rightarrow> (string \<times> cache_entry) list" where
  "evict cap es =
     (if length es > cap
      then (case victim es of None \<Rightarrow> es | Some (k, _) \<Rightarrow> evict cap (AList.delete k es))
      else es)"
  by pat_completeness auto

termination evict
  by (relation "measure (\<lambda>(cap, es). length es)") (force intro: length_delete_less dest: victim_in)+

declare evict.simps [simp del]

definition evict_if_full :: "resolve_cache \<Rightarrow> resolve_cache" where
  "evict_if_full c = c\<lparr>rc_entries := evict (capacity c) (rc_entries c)\<rparr>"

section \<open>Operations\<close>

definition entry_state :: "nat \<Rightarrow> duration \<Rightarrow> cache_entry \<Rightarrow> cache_state" where
  "entry_state now window e =
     (if ce_state e = Invalid then Invalid
      else let age = now - fetched_at e
           in if age \<le> ce_ttl e then Fresh else if age \<le> window then Stale else Invalid)"

definition cache_get :: "string \<Rightarrow> nat \<Rightarrow> resolve_cache \<Rightarrow> (string list \<times> cache_state) option \<times> resolve_cache" where
  "cache_get key now c =
     (case tick_lru c of
        (n, c1) \<Rightarrow>
          (case map_of (rc_entries c1) key of
             None \<Rightarrow> (None, c1\<lparr>misses := saturating_add (misses c1) 1\<rparr>)
           | Some e \<Rightarrow>
               let c2 = c1\<lparr>rc_entries := set_lru key n (rc_entries c1)\<rparr>;
                   st = entry_state now (stale_window c1) e
               in if st = Invalid then (None, c2\<lparr>misses := saturating_add (misses c2) 1\<rparr>)
                  else (Some (ce_endpoints e, st), c2\<lparr>hits := saturating_add (hits c2) 1\<rparr>)))"

definition cache_invalidate :: "string \<Rightarrow> resolve_cache \<Rightarrow> resolve_cache" where
  "cache_invalidate key c =
     c\<lparr>rc_entries := map (\<lambda>(k, e). (k, if k = key then e\<lparr>ce_state := Invalid\<rparr> else e)) (rc_entries c)\<rparr>"

definition invalidate_versioned ::
  "((string \<times> nat) list \<Rightarrow> string) \<Rightarrow> string \<Rightarrow> nat \<Rightarrow> resolve_cache \<Rightarrow> resolve_cache" where
  "invalidate_versioned pick key v c =
     (let es = map (\<lambda>(k, e). (k, if k = key \<and> v \<ge> ce_version e then e\<lparr>ce_state := Invalid, ce_version := v\<rparr> else e))
                 (rc_entries c);
          fl = (case map_of (invalidation_floor c) key of None \<Rightarrow> 0 | Some f \<Rightarrow> f);
          floors = AList.update key (max fl v) (invalidation_floor c)
      in c\<lparr>rc_entries := es,
           invalidation_floor := (if length floors > capacity c then AList.delete (pick floors) floors else floors)\<rparr>)"

definition put_with_ttl ::
  "((string \<times> nat) list \<Rightarrow> string) \<Rightarrow> string \<Rightarrow> string list \<Rightarrow> nat \<Rightarrow> duration \<Rightarrow> nat \<Rightarrow> resolve_cache \<Rightarrow> resolve_cache" where
  "put_with_ttl pick key eps v ttl now c =
     (if (case map_of (rc_entries c) key of None \<Rightarrow> False | Some e \<Rightarrow> ce_version e > v) then c
      else if (case map_of (invalidation_floor c) key of None \<Rightarrow> False | Some f \<Rightarrow> v < f) then c
      else if ttl = 0
      then invalidate_versioned pick key v (c\<lparr>rc_entries := AList.delete key (rc_entries c)\<rparr>)
      else (case tick_lru c of
              (n, c1) \<Rightarrow>
                evict_if_full (c1\<lparr>rc_entries := AList.update key
                    \<lparr>ce_endpoints = eps, ce_version = v, ce_state = Fresh, fetched_at = now, ce_ttl = ttl, ce_lru = n\<rparr> (rc_entries c1),
                  invalidation_floor := AList.delete key (invalidation_floor c1)\<rparr>)))"

definition cache_put ::
  "((string \<times> nat) list \<Rightarrow> string) \<Rightarrow> string \<Rightarrow> string list \<Rightarrow> nat \<Rightarrow> nat \<Rightarrow> resolve_cache \<Rightarrow> resolve_cache" where
  "cache_put pick key eps v now c = put_with_ttl pick key eps v (rc_ttl c) now c"

definition invalidate_prefix :: "string \<Rightarrow> resolve_cache \<Rightarrow> nat \<times> resolve_cache" where
  "invalidate_prefix p c =
     (let hs = filter (prefix p) (map fst (rc_entries c)) in (length hs, fold cache_invalidate hs c))"

definition resolve_decision :: "string \<Rightarrow> nat \<Rightarrow> resolve_cache \<Rightarrow> resolve_action \<times> resolve_cache" where
  "resolve_decision key now c =
     (case cache_get key now c of
        (Some (eps, Fresh), c') \<Rightarrow> (case eps of ep # _ \<Rightarrow> DirectCache ep | [] \<Rightarrow> RelayFallback key, c')
      | (Some (eps, Stale), c') \<Rightarrow> (case eps of ep # _ \<Rightarrow> TryDirectElseResolve ep | [] \<Rightarrow> RelayFallback key, c')
      | (Some (_, Invalid), c') \<Rightarrow> (ResolveKey key, c')
      | (None, c') \<Rightarrow> (ResolveKey key, c'))"

section \<open>Invariant\<close>

definition cache_wf :: "resolve_cache \<Rightarrow> bool" where
  "cache_wf c \<longleftrightarrow> distinct (map fst (rc_entries c)) \<and> (\<forall>(k, e) \<in> set (rc_entries c). ce_lru e \<le> lru_clock c) \<and>
     length (rc_entries c) \<le> capacity c \<and> 1 \<le> capacity c \<and> capacity c < u64_max \<and> lru_clock c \<le> u64_max"

lemma keys_map_snd: "map fst (map (\<lambda>(k, e). (k, f k e)) es) = map fst es"
  by (induction es) auto

lemma set_lru_keys [simp]: "map fst (set_lru k n es) = map fst es" "length (set_lru k n es) = length es"
  unfolding set_lru_def keys_map_snd [of "\<lambda>k' e. if k' = k then e\<lparr>ce_lru := n\<rparr> else e"] by simp_all

lemma map_of_set_lru:
  "map_of (set_lru k n es) k' = map_option (\<lambda>e. if k' = k then e\<lparr>ce_lru := n\<rparr> else e) (map_of es k')"
  by (induction es) (auto simp: set_lru_def)

lemma rebase_spec:
  assumes "next + length ks \<le> u64_max" and "\<forall>(k, e) \<in> set es. k \<notin> set ks \<longrightarrow> ce_lru e \<le> next"
    and "rebase ks next es = (m, es')"
  shows "m = next + length ks \<and> map fst es' = map fst es \<and> length es' = length es \<and> (\<forall>(k, e) \<in> set es'. ce_lru e \<le> m) \<and>
     (\<forall>k. \<exists>n. map_of es' k = map_option (\<lambda>e. e\<lparr>ce_lru := n\<rparr>) (map_of es k))"
  using assms
proof (induction ks arbitrary: "next" es)
  case Nil
  have "\<exists>n. map_of es k = map_option (\<lambda>e. e\<lparr>ce_lru := n\<rparr>) (map_of es k)" for k
    by (cases "map_of es k") (auto intro!: exI [of _ "ce_lru (the (map_of es k))"])
  then show ?case using Nil by auto
next
  case (Cons k ks)
  let ?n = "next + 1" and ?es = "set_lru k (next + 1) es"
  have s: "saturating_add next 1 = ?n" using Cons.prems(1) by (simp add: saturating_add_def)
  have p: "?n + length ks \<le> u64_max" "\<forall>(k', e) \<in> set ?es. k' \<notin> set ks \<longrightarrow> ce_lru e \<le> ?n"
    "rebase ks ?n ?es = (m, es')"
    using Cons.prems s by (simp, fastforce simp: set_lru_def, simp)
  note IH = Cons.IH [OF p]
  have "\<exists>n. map_of es' k' = map_option (\<lambda>e. e\<lparr>ce_lru := n\<rparr>) (map_of es k')" for k'
  proof -
    obtain n where "map_of es' k' = map_option (\<lambda>e. e\<lparr>ce_lru := n\<rparr>) (map_of ?es k')" using IH by blast
    then show ?thesis by (intro exI [of _ n]) (cases "map_of es k'"; simp add: map_of_set_lru)
  qed
  then show ?case using IH by auto
qed

text \<open>The clock moves past every entry; entries keep everything but their time of use.\<close>

lemma tick_lru_spec:
  assumes "cache_wf c" and "tick_lru c = (n, c1)"
  shows "cache_wf c1" and "\<forall>(k, e) \<in> set (rc_entries c1). ce_lru e < n" and "lru_clock c1 = n"
    and "capacity c1 = capacity c" and "stale_window c1 = stale_window c" and "invalidation_floor c1 = invalidation_floor c"
    and "map fst (rc_entries c1) = map fst (rc_entries c)"
    and "\<exists>m. map_of (rc_entries c1) k = map_option (\<lambda>e. e\<lparr>ce_lru := m\<rparr>) (map_of (rc_entries c) k)"
proof -
  have "cache_wf c1 \<and> (\<forall>(k, e) \<in> set (rc_entries c1). ce_lru e < n) \<and> lru_clock c1 = n \<and> capacity c1 = capacity c \<and>
     stale_window c1 = stale_window c \<and> invalidation_floor c1 = invalidation_floor c \<and>
     map fst (rc_entries c1) = map fst (rc_entries c) \<and>
     (\<exists>m. map_of (rc_entries c1) k = map_option (\<lambda>e. e\<lparr>ce_lru := m\<rparr>) (map_of (rc_entries c) k))"
  proof (cases "lru_clock c = u64_max")
    case False
    have "\<exists>m. map_of (rc_entries c) k = map_option (\<lambda>e. e\<lparr>ce_lru := m\<rparr>) (map_of (rc_entries c) k)"
      by (cases "map_of (rc_entries c) k") (auto intro!: exI [of _ "ce_lru (the (map_of (rc_entries c) k))"])
    then show ?thesis using assms False by (fastforce simp: tick_lru_def cache_wf_def saturating_add_def)
  next
    case True
    obtain m es where r: "rebase (lru_order (rc_entries c)) 0 (rc_entries c) = (m, es)" by fastforce
    have keys: "set (lru_order (rc_entries c)) = fst ` set (rc_entries c)" "length (lru_order (rc_entries c)) = length (rc_entries c)"
      by (auto simp: lru_order_def image_iff) force+
    have "0 + length (lru_order (rc_entries c)) \<le> u64_max" using assms(1) keys(2) by (simp add: cache_wf_def)
    moreover have "\<forall>(k, e) \<in> set (rc_entries c). k \<notin> set (lru_order (rc_entries c)) \<longrightarrow> ce_lru e \<le> 0"
      using keys(1) by force
    ultimately have s: "m = length (rc_entries c)" "map fst es = map fst (rc_entries c)" "length es = length (rc_entries c)"
      "\<forall>(k, e) \<in> set es. ce_lru e \<le> m" "\<exists>n. map_of es k = map_option (\<lambda>e. e\<lparr>ce_lru := n\<rparr>) (map_of (rc_entries c) k)"
      using rebase_spec [OF _ _ r] keys(2) by auto
    have m: "m < u64_max" using s(1) assms(1) by (simp add: cache_wf_def)
    have t: "n = m + 1" "c1 = c\<lparr>rc_entries := es, lru_clock := m + 1\<rparr>"
      using assms(2) True r m by (auto simp: tick_lru_def saturating_add_def)
    show ?thesis using assms(1) s m by (fastforce simp: t cache_wf_def)
  qed
  then show "cache_wf c1" and "\<forall>(k, e) \<in> set (rc_entries c1). ce_lru e < n" and "lru_clock c1 = n"
    and "capacity c1 = capacity c" and "stale_window c1 = stale_window c" and "invalidation_floor c1 = invalidation_floor c"
    and "map fst (rc_entries c1) = map fst (rc_entries c)"
    and "\<exists>m. map_of (rc_entries c1) k = map_option (\<lambda>e. e\<lparr>ce_lru := m\<rparr>) (map_of (rc_entries c) k)" by blast+
qed

section \<open>Eviction spares the newest entry\<close>

lemma victim_least: "victim xs = Some x \<Longrightarrow> y \<in> set xs \<Longrightarrow> victim_key (snd x) \<le> victim_key (snd y)"
proof (induction xs arbitrary: x)
  case (Cons z xs)
  show ?case
  proof (cases "victim xs")
    case None
    then have "xs = []" by (cases xs) (auto split: option.splits if_splits)
    then show ?thesis using Cons.prems by simp
  next
    case (Some w)
    then have "victim_key (snd w) \<le> victim_key (snd y)" if "y \<in> set xs" using Cons.IH that by blast
    then show ?thesis using Cons.prems Some by (force split: if_splits)
  qed
qed simp

lemma victim_None: "victim xs = None \<longleftrightarrow> xs = []"
  by (cases xs) (auto split: option.splits)

lemma evict_spares:
  assumes "distinct (map fst es)" and "1 \<le> cap" and "map_of es key = Some e" and "ce_state e \<noteq> Invalid"
    and "\<forall>(k, x) \<in> set es. k \<noteq> key \<longrightarrow> ce_lru x < ce_lru e"
  shows "map_of (evict cap es) key = Some e \<and> length (evict cap es) \<le> cap \<and> distinct (map fst (evict cap es)) \<and>
     set (evict cap es) \<subseteq> set es"
  using assms
proof (induction cap es rule: evict.induct)
  case (1 cap es)
  show ?case
  proof (cases "length es > cap")
    case False
    then have "evict cap es = es" by (subst evict.simps) simp
    then show ?thesis using False 1 by auto
  next
    case True
    then obtain k x where v: "victim es = Some (k, x)" using victim_None [of es] by (cases "victim es") auto
    obtain k' x' where o: "(k', x') \<in> set es" "k' \<noteq> key"
    proof -
      have "\<not> fst ` set es \<subseteq> {key}"
      proof
        assume "fst ` set es \<subseteq> {key}"
        then have "card (fst ` set es) \<le> 1" using card_mono [of "{key}"] by simp
        moreover have "card (fst ` set es) = length es" using distinct_card [OF "1.prems"(1)] by simp
        ultimately show False using True "1.prems"(2) by simp
      qed
      then obtain y where "y \<in> set es" "fst y \<noteq> key" by auto
      then show ?thesis using that [of "fst y" "snd y"] by simp
    qed
    have "victim_key x \<le> victim_key x'" using victim_least [OF v o(1)] by simp
    moreover have "victim_key x' < victim_key e" using "1.prems"(4,5) o by (auto simp: victim_key_def less_prod_def' split: prod.splits)
    ultimately have "x \<noteq> e" by auto
    then have ne: "k \<noteq> key" using victim_in [OF v] "1.prems"(1,3) map_of_is_SomeI by fastforce
    have e: "evict cap es = evict cap (AList.delete k es)" using True v by (subst evict.simps) simp
    have sub: "set (AList.delete k es) \<subseteq> set es" by (auto simp: AList.delete_eq)
    have "map_of (AList.delete k es) key = Some e" using ne "1.prems"(3) by (simp add: table_simps)
    then show ?thesis
      unfolding e using "1.IH" [OF True v refl _ "1.prems"(2) _ "1.prems"(4)] "1.prems"(1,5) sub AList.distinct_delete [OF "1.prems"(1), of k]
      by blast
  qed
qed

text \<open>
  C38. The cache keeps what it accepted, and only newer answers replace older ones. An answer older than the cached
  version or than an invalidation fence is ignored. An answer without time to live removes the entry. Any other
  answer is returned as fresh by the next lookup at that time, even when it made the cache full, and the
  cache stays within its capacity, also when the logical clock starts over.
\<close>

theorem put_then_get:
  assumes "cache_wf c"
  shows "cache_wf (put_with_ttl pick key eps v ttl now c) \<and>
    (if (\<exists>e. map_of (rc_entries c) key = Some e \<and> v < ce_version e) \<or> (\<exists>f. map_of (invalidation_floor c) key = Some f \<and> v < f)
     then put_with_ttl pick key eps v ttl now c = c
     else if ttl = 0 then fst (cache_get key now (put_with_ttl pick key eps v ttl now c)) = None
     else fst (cache_get key now (put_with_ttl pick key eps v ttl now c)) = Some (eps, Fresh))"
proof -
  let ?c = "put_with_ttl pick key eps v ttl now c"
  let ?old = "(\<exists>e. map_of (rc_entries c) key = Some e \<and> v < ce_version e) \<or> (\<exists>f. map_of (invalidation_floor c) key = Some f \<and> v < f)"
  have get: "fst (cache_get key now x) = (case map_of (rc_entries x) key of
      None \<Rightarrow> None | Some e \<Rightarrow> if entry_state now (stale_window x) e = Invalid then None
                             else Some (ce_endpoints e, entry_state now (stale_window x) e))" if wf: "cache_wf x" for x
  proof -
    obtain n x1 where t: "tick_lru x = (n, x1)" by fastforce
    obtain m where "map_of (rc_entries x1) key = map_option (\<lambda>e. e\<lparr>ce_lru := m\<rparr>) (map_of (rc_entries x) key)"
      using tick_lru_spec(8) [OF wf t] by blast
    then show ?thesis using t tick_lru_spec(5) [OF wf t]
      by (simp add: cache_get_def Let_def entry_state_def split: option.split)
  qed
  consider (old) "?old" | (gone) "\<not> ?old" "ttl = 0" | (new) "\<not> ?old" "ttl \<noteq> 0" by blast
  then show ?thesis
  proof cases
    case old
    then have "?c = c" by (auto simp: put_with_ttl_def split: option.split)
    then show ?thesis using old assms by simp
  next
    case gone
    let ?es = "AList.delete key (rc_entries c)"
    have c: "?c = invalidate_versioned pick key v (c\<lparr>rc_entries := ?es\<rparr>)"
      using gone by (auto simp: put_with_ttl_def split: option.split)
    have "map_of ?es key = None" by (simp add: table_simps)
    then have "key \<notin> fst ` set ?es" by (simp add: map_of_eq_None_iff)
    then have "rc_entries ?c = ?es" unfolding c by (force simp: invalidate_versioned_def Let_def intro: map_idI)
    moreover have "capacity ?c = capacity c" "lru_clock ?c = lru_clock c" unfolding c by (simp_all add: invalidate_versioned_def Let_def)
    moreover have "distinct (map fst ?es)" "length ?es \<le> length (rc_entries c)" "set ?es \<subseteq> set (rc_entries c)"
      using assms by (simp_all add: AList.distinct_delete length_delete_le cache_wf_def) (simp add: AList.delete_eq)
    ultimately have wf: "cache_wf ?c" using assms by (auto simp: cache_wf_def)
    have "fst (cache_get key now ?c) = None" using get [OF wf] \<open>rc_entries ?c = ?es\<close> by (simp add: table_simps)
    then show ?thesis unfolding if_not_P [OF gone(1)] using wf gone(2) by simp
  next
    case new
    obtain n c1 where t: "tick_lru c = (n, c1)" by fastforce
    note s = tick_lru_spec [OF assms t]
    let ?e = "\<lparr>ce_endpoints = eps, ce_version = v, ce_state = Fresh, fetched_at = now, ce_ttl = ttl, ce_lru = n\<rparr>"
    let ?es = "AList.update key ?e (rc_entries c1)"
    have c: "?c = c1\<lparr>rc_entries := evict (capacity c1) ?es, invalidation_floor := AList.delete key (invalidation_floor c1)\<rparr>"
      using new t by (auto simp: put_with_ttl_def evict_if_full_def split: option.split)
    have "\<forall>(k, x) \<in> set ?es. k \<noteq> key \<longrightarrow> ce_lru x < ce_lru ?e" using s(2) by (fastforce dest: update_entries)
    moreover have "distinct (map fst ?es)" using s(1) by (simp add: AList.distinct_update cache_wf_def)
    ultimately have ev: "map_of (evict (capacity c1) ?es) key = Some ?e" "length (evict (capacity c1) ?es) \<le> capacity c1"
      "distinct (map fst (evict (capacity c1) ?es))" "set (evict (capacity c1) ?es) \<subseteq> set ?es"
      using evict_spares [of ?es "capacity c1" key ?e] s(1) by (auto simp: cache_wf_def table_simps)
    have "\<forall>(k, x) \<in> set ?es. ce_lru x \<le> n" using s(2) by (fastforce dest: update_entries)
    then have wf: "cache_wf ?c" using ev(2-4) s(1,3) unfolding c by (auto simp: cache_wf_def)
    have "fst (cache_get key now ?c) = Some (eps, Fresh)" using get [OF wf] ev(1) by (simp add: c entry_state_def)
    then show ?thesis unfolding if_not_P [OF new(1)] using wf new(2) by simp
  qed
qed

lemma cache_wf_new: "n < u64_max \<Longrightarrow> cache_wf (cache_with_capacity n)"
  by (auto simp: cache_wf_def cache_with_capacity_def cache_default_def u64_max_eq)

theorem put_then_get_witness:
  "fst (cache_get ''n1'' 5 (put_with_ttl (\<lambda>fs. fst (hd fs)) ''n1'' [''tcp://a''] 3 60 5 (cache_with_capacity 1))) = Some ([''tcp://a''], Fresh)"
  using put_then_get [OF cache_wf_new, of 1 "\<lambda>fs. fst (hd fs)" "''n1''" "[''tcp://a'']" 3 60 5]
  by (simp add: u64_max_eq) (simp add: cache_with_capacity_def cache_default_def)

end
