(* ===== verification/Registry.thy ===== *)
theory Registry
  imports Swim
begin

text \<open>
  The callback registry, \<^verbatim>\<open>registry.rs\<close>: the requests of a node that wait for a reply, by correlation id. A
  connection is a number, which \<^verbatim>\<open>same_connection\<close> compares; a one-shot sender becomes the list of
  payloads an operation sends, each with its correlation id. Operations run under the registry's lock.
\<close>

datatype reply_payload = ReplyOk "byte list" string | ReplyErr nat string

datatype registry_error = DuplicateCid | CallbacksFull nat | ConnectionClosed

record callback_slot =
  cb_node :: string
  cb_connection :: "nat option"

record callback_registry =
  next_cid :: nat
  slots :: "(nat \<times> callback_slot) list"
  reg_capacity :: nat
  late_reply_dropped :: nat
  wrong_reply_source :: nat

definition registry_new :: "nat \<Rightarrow> callback_registry" where
  "registry_new cap = \<lparr>next_cid = 1, slots = [], reg_capacity = cap, late_reply_dropped = 0, wrong_reply_source = 0\<rparr>"

definition registry_default :: callback_registry where
  "registry_default = registry_new 65536"

definition take_cid :: "callback_registry \<Rightarrow> nat \<times> callback_registry" where
  "take_cid r = (next_cid r, r\<lparr>next_cid := wrapping_add (next_cid r) 1\<rparr>)"

definition insert_slot ::
  "nat \<Rightarrow> string \<Rightarrow> nat option \<Rightarrow> bool \<Rightarrow> callback_registry \<Rightarrow> (registry_error + unit) \<times> callback_registry" where
  "insert_slot cid node connection closed r =
     (if map_of (slots r) cid \<noteq> None then (Inl DuplicateCid, r)
      else if length (slots r) \<ge> reg_capacity r then (Inl (CallbacksFull (reg_capacity r)), r)
      else if connection \<noteq> None \<and> closed then (Inl ConnectionClosed, r)
      else (Inr (), r\<lparr>slots := AList.update cid \<lparr>cb_node = node, cb_connection = connection\<rparr> (slots r)\<rparr>))"

definition registry_insert :: "nat \<Rightarrow> string \<Rightarrow> callback_registry \<Rightarrow> (registry_error + unit) \<times> callback_registry" where
  "registry_insert cid node r = insert_slot cid node None False r"

definition insert_on :: "nat \<Rightarrow> string \<Rightarrow> nat \<Rightarrow> bool \<Rightarrow> callback_registry \<Rightarrow> (registry_error + unit) \<times> callback_registry" where
  "insert_on cid node connection closed r = insert_slot cid node (Some connection) closed r"

definition registry_remove :: "nat \<Rightarrow> callback_registry \<Rightarrow> bool \<times> callback_registry" where
  "registry_remove cid r = (map_of (slots r) cid \<noteq> None, r\<lparr>slots := AList.delete cid (slots r)\<rparr>)"

type_synonym sends = "(nat \<times> reply_payload) list"

definition registry_complete :: "nat \<Rightarrow> reply_payload \<Rightarrow> callback_registry \<Rightarrow> bool \<times> sends \<times> callback_registry" where
  "registry_complete cid payload r =
     (if map_of (slots r) cid \<noteq> None
      then (True, [(cid, payload)], r\<lparr>slots := AList.delete cid (slots r)\<rparr>)
      else (False, [], r\<lparr>late_reply_dropped := wrapping_add (late_reply_dropped r) 1\<rparr>))"

definition complete_from :: "nat \<Rightarrow> reply_payload \<Rightarrow> nat \<Rightarrow> callback_registry \<Rightarrow> bool \<times> sends \<times> callback_registry" where
  "complete_from cid payload source r =
     (case map_of (slots r) cid of
        None \<Rightarrow> (False, [], r\<lparr>late_reply_dropped := wrapping_add (late_reply_dropped r) 1\<rparr>)
      | Some slot \<Rightarrow>
          if cb_connection slot \<noteq> Some source
          then (False, [], r\<lparr>wrong_reply_source := wrapping_add (wrong_reply_source r) 1\<rparr>)
          else (True, [(cid, payload)], r\<lparr>slots := AList.delete cid (slots r)\<rparr>))"

definition fail_where :: "(callback_slot \<Rightarrow> bool) \<Rightarrow> nat \<Rightarrow> string \<Rightarrow> callback_registry \<Rightarrow> nat \<times> sends \<times> callback_registry" where
  "fail_where sel code detail r =
     (let hit = filter (\<lambda>(cid, slot). sel slot) (slots r)
      in (length hit, map (\<lambda>(cid, _). (cid, ReplyErr code detail)) hit,
          r\<lparr>slots := filter (\<lambda>(cid, slot). \<not> sel slot) (slots r)\<rparr>))"

definition fail_connection :: "nat \<Rightarrow> nat \<Rightarrow> string \<Rightarrow> callback_registry \<Rightarrow> nat \<times> sends \<times> callback_registry" where
  "fail_connection connection code detail r = fail_where (\<lambda>slot. cb_connection slot = Some connection) code detail r"

definition fail_all :: "nat \<Rightarrow> string \<Rightarrow> callback_registry \<Rightarrow> nat \<times> sends \<times> callback_registry" where
  "fail_all code detail r = fail_where (\<lambda>_. True) code detail r"

definition fail_node :: "string \<Rightarrow> nat \<Rightarrow> string \<Rightarrow> callback_registry \<Rightarrow> nat \<times> sends \<times> callback_registry" where
  "fail_node node code detail r = fail_where (\<lambda>slot. cb_node slot = node) code detail r"

section \<open>Every request is answered once\<close>

declare map_of_eq_Some_iff [simp del] Some_eq_map_of_iff [simp del]

datatype registry_op =
    OpTakeCid
  | OpInsert nat string
  | OpInsertOn nat string nat bool
  | OpRemove nat
  | OpComplete nat reply_payload
  | OpCompleteFrom nat reply_payload nat
  | OpFailConnection nat nat string
  | OpFailAll nat string
  | OpFailNode string nat string

text \<open>What an operation does: the ids it registers, the payloads it sends, the ids it removes unanswered.\<close>

fun registry_step :: "registry_op \<Rightarrow> callback_registry \<Rightarrow> nat list \<times> sends \<times> nat list \<times> callback_registry" where
  "registry_step OpTakeCid r = ([], [], [], snd (take_cid r))"
| "registry_step (OpInsert cid node) r =
     (case registry_insert cid node r of (res, r') \<Rightarrow> (if res = Inr () then [cid] else [], [], [], r'))"
| "registry_step (OpInsertOn cid node c closed) r =
     (case insert_on cid node c closed r of (res, r') \<Rightarrow> (if res = Inr () then [cid] else [], [], [], r'))"
| "registry_step (OpRemove cid) r = (case registry_remove cid r of (b, r') \<Rightarrow> ([], [], if b then [cid] else [], r'))"
| "registry_step (OpComplete cid p) r = (case registry_complete cid p r of (_, ss, r') \<Rightarrow> ([], ss, [], r'))"
| "registry_step (OpCompleteFrom cid p source) r = (case complete_from cid p source r of (_, ss, r') \<Rightarrow> ([], ss, [], r'))"
| "registry_step (OpFailConnection c code d) r = (case fail_connection c code d r of (_, ss, r') \<Rightarrow> ([], ss, [], r'))"
| "registry_step (OpFailAll code d) r = (case fail_all code d r of (_, ss, r') \<Rightarrow> ([], ss, [], r'))"
| "registry_step (OpFailNode node code d) r = (case fail_node node code d r of (_, ss, r') \<Rightarrow> ([], ss, [], r'))"

fun registry_run :: "registry_op list \<Rightarrow> callback_registry \<Rightarrow> nat list \<times> sends \<times> nat list \<times> callback_registry" where
  "registry_run [] r = ([], [], [], r)"
| "registry_run (op # ops) r =
     (case registry_step op r of
        (i, s, d, r1) \<Rightarrow> (case registry_run ops r1 of (is, ss, ds, r2) \<Rightarrow> (i @ is, s @ ss, d @ ds, r2)))"

definition registry_wf :: "callback_registry \<Rightarrow> bool" where
  "registry_wf r \<longleftrightarrow> distinct (map fst (slots r)) \<and> length (slots r) \<le> reg_capacity r"

text \<open>An operation accounts for every id: what was waiting or came in is sent, removed or still waits.\<close>

definition accounts :: "callback_registry \<Rightarrow> nat list \<times> sends \<times> nat list \<times> callback_registry \<Rightarrow> bool" where
  "accounts r out \<longleftrightarrow>
     (case out of (i, s, d, r') \<Rightarrow>
        registry_wf r' \<and> reg_capacity r' = reg_capacity r \<and>
        mset i + mset (map fst (slots r)) = mset (map fst s) + mset d + mset (map fst (slots r')))"

lemma delete_absent: "map_of xs k = None \<Longrightarrow> AList.delete k xs = xs"
  by (induction xs) (auto simp: AList.delete_eq split: if_splits)

lemma mset_delete:
  assumes "distinct (map fst xs)" and "map_of xs k \<noteq> None"
  shows "mset (map fst xs) = add_mset k (mset (map fst (AList.delete k xs)))"
  using assms
proof (induction xs)
  case (Cons x xs)
  show ?case
  proof (cases "fst x = k")
    case True
    then have "map_of xs k = None" using Cons.prems(1) by (auto simp: map_of_eq_None_iff)
    then have "AList.delete k xs = xs" by (rule delete_absent)
    then show ?thesis using True by (cases x) (simp add: AList.delete_eq)
  next
    case False
    then have "map_of xs k \<noteq> None" using Cons.prems(2) by (cases x) auto
    then show ?thesis using Cons False by (cases x) (simp add: AList.delete_eq)
  qed
qed simp

lemma mset_filter_split:
  "mset (map f xs) = mset (map f (filter P xs)) + mset (map f (filter (\<lambda>x. \<not> P x) xs))"
  by (induction xs) auto

lemma delete_accounts:
  assumes "registry_wf r" and "map_of (slots r) cid \<noteq> None"
  shows "registry_wf (r\<lparr>slots := AList.delete cid (slots r)\<rparr>)"
    and "mset (map fst (slots r)) = add_mset cid (mset (map fst (AList.delete cid (slots r))))"
  using assms mset_delete [of "slots r" cid] length_delete_le [of cid "slots r"]
  by (simp_all add: registry_wf_def AList.distinct_delete)

lemma insert_accounts:
  assumes "registry_wf r" and "insert_slot cid node c closed r = (res, r')"
  shows "accounts r (if res = Inr () then [cid] else [], [], [], r')"
proof (cases "res = Inr ()")
  case False
  then have "r' = r" using assms(2) by (auto simp: insert_slot_def split: if_splits)
  then show ?thesis using False assms(1) by (simp add: accounts_def)
next
  case True
  then have i: "map_of (slots r) cid = None" "length (slots r) < reg_capacity r"
    "r' = r\<lparr>slots := slots r @ [(cid, \<lparr>cb_node = node, cb_connection = c\<rparr>)]\<rparr>"
    using assms(2) by (auto simp: insert_slot_def update_new split: if_splits)
  then have "cid \<notin> fst ` set (slots r)" by (simp add: map_of_eq_None_iff)
  then show ?thesis using True i assms(1) by (simp add: accounts_def registry_wf_def)
qed

lemma fail_accounts:
  assumes "registry_wf r" and "fail_where sel code d r = (n, ss, r')"
  shows "accounts r ([], ss, [], r')"
proof -
  have f: "ss = map (\<lambda>(cid, _). (cid, ReplyErr code d)) (filter (\<lambda>(cid, slot). sel slot) (slots r))"
    "r' = r\<lparr>slots := filter (\<lambda>(cid, slot). \<not> sel slot) (slots r)\<rparr>"
    using assms(2) by (auto simp: fail_where_def Let_def)
  let ?P = "\<lambda>(cid, slot). sel slot"
  have "map fst ss = map fst (filter ?P (slots r))" by (simp add: f(1) comp_def case_prod_beta)
  moreover have "slots r' = filter (\<lambda>x. \<not> ?P x) (slots r)" unfolding f(2) by (auto intro!: filter_cong)
  ultimately have "mset (map fst (slots r)) = mset (map fst ss) + mset (map fst (slots r'))"
    using mset_filter_split [of fst "slots r" ?P] by (simp only:)
  moreover have "distinct (map fst (slots r'))" "length (slots r') \<le> reg_capacity r"
    using assms(1) by (simp_all add: f(2) registry_wf_def distinct_map_filter le_trans [OF length_filter_le])
  ultimately show ?thesis unfolding f(2) by (simp add: accounts_def registry_wf_def)
qed

lemma complete_accounts:
  assumes "registry_wf r"
  shows "registry_complete cid p r = (b, ss, r') \<Longrightarrow> accounts r ([], ss, [], r')"
    and "complete_from cid p source r = (b, ss, r') \<Longrightarrow> accounts r ([], ss, [], r')"
    and "registry_remove cid r = (b, r') \<Longrightarrow> accounts r ([], [], if b then [cid] else [], r')"
proof -
  have same: "accounts r ([], [], [], r\<lparr>late_reply_dropped := x\<rparr>)" "accounts r ([], [], [], r\<lparr>wrong_reply_source := x\<rparr>)" for x
    using assms by (simp_all add: accounts_def registry_wf_def)
  have gone: "accounts r ([], [(cid, p)], [], r\<lparr>slots := AList.delete cid (slots r)\<rparr>)"
      "accounts r ([], [], [cid], r\<lparr>slots := AList.delete cid (slots r)\<rparr>)" if "map_of (slots r) cid \<noteq> None"
    using delete_accounts [OF assms that] by (simp_all add: accounts_def)
  show "registry_complete cid p r = (b, ss, r') \<Longrightarrow> accounts r ([], ss, [], r')"
    using same gone(1) by (auto simp: registry_complete_def split: if_splits)
  show "complete_from cid p source r = (b, ss, r') \<Longrightarrow> accounts r ([], ss, [], r')"
    using same gone(1) by (auto simp: complete_from_def split: if_splits option.splits)
  show "registry_remove cid r = (b, r') \<Longrightarrow> accounts r ([], [], if b then [cid] else [], r')"
    using assms gone(2) delete_absent [of "slots r" cid]
    by (cases "map_of (slots r) cid") (auto simp: registry_remove_def accounts_def)
qed

lemma step_accounts:
  assumes "registry_wf r"
  shows "accounts r (registry_step op r)"
proof (cases op)
  case OpTakeCid
  then show ?thesis using assms by (simp add: accounts_def take_cid_def registry_wf_def)
next
  case (OpInsert cid node)
  then show ?thesis using insert_accounts [OF assms, of cid node None False] by (simp add: registry_insert_def split: prod.split)
next
  case (OpInsertOn cid node c closed)
  then show ?thesis using insert_accounts [OF assms, of cid node "Some c" closed] by (simp add: insert_on_def split: prod.split)
qed (auto simp: fail_connection_def fail_all_def fail_node_def split: prod.split
    dest: complete_accounts [OF assms] fail_accounts [OF assms])

lemma run_accounts: "registry_wf r \<Longrightarrow> accounts r (registry_run ops r)"
proof (induction ops arbitrary: r)
  case (Cons op ops)
  obtain i s d r1 where st: "registry_step op r = (i, s, d, r1)" by (metis prod_cases4)
  obtain "is" ss ds r2 where rn: "registry_run ops r1 = (is, ss, ds, r2)" by (metis prod_cases4)
  have "accounts r (i, s, d, r1)" using step_accounts [OF Cons.prems, of op] st by simp
  moreover have "accounts r1 (is, ss, ds, r2)" using Cons.IH [of r1] calculation rn by (simp add: accounts_def)
  ultimately show ?case using st rn by (simp add: accounts_def ac_simps) (metis (no_types, lifting) add.assoc add.commute)
qed (simp add: accounts_def)

text \<open>
  C39. Every registered request is settled exactly once. Over any sequence of operations on a new registry, the ids
  registered are, with their multiplicities, the ids that were sent one payload (a reply or an error), those that
  were cancelled and those that still wait; no payload is sent for an id that was not registered; and the registry
  never holds more than its capacity. A reply from the network is delivered only on the connection of its
  request: from any other source it changes no slot.
\<close>

theorem requests_settle_once:
  "(case registry_run ops (registry_new cap) of (is, ss, ds, r) \<Rightarrow>
      mset is = mset (map fst ss) + mset ds + mset (map fst (slots r)) \<and> length (slots r) \<le> cap \<and>
      (fst (complete_from cid p source r) \<longleftrightarrow>
         (\<exists>slot. map_of (slots r) cid = Some slot \<and> cb_connection slot = Some source)) \<and>
      (\<not> fst (complete_from cid p source r) \<longrightarrow>
         slots (snd (snd (complete_from cid p source r))) = slots r \<and> fst (snd (complete_from cid p source r)) = []))"
proof -
  have "registry_wf (registry_new cap)" by (simp add: registry_wf_def registry_new_def)
  from run_accounts [OF this, of ops] show ?thesis
    by (auto simp: accounts_def registry_wf_def registry_new_def complete_from_def split: prod.splits option.splits)
qed

theorem requests_settle_once_witness:
  "\<exists>is ss ds r. registry_run [OpInsertOn 1 ''n'' 10 False, OpCompleteFrom 1 (ReplyErr 0 []) 99, OpFailAll 5 ''bye'', OpComplete 1 (ReplyErr 0 [])]
      (registry_new 2) = (is, ss, ds, r) \<and> is = [1] \<and> ss = [(1, ReplyErr 5 ''bye'')] \<and>
      mset is = mset (map fst ss) + mset ds + mset (map fst (slots r)) \<and>
      slots (snd (snd (complete_from 1 (ReplyErr 0 []) 99 r))) = slots r"
proof -
  let ?run = "registry_run [OpInsertOn 1 ''n'' 10 False, OpCompleteFrom 1 (ReplyErr 0 []) 99, OpFailAll 5 ''bye'', OpComplete 1 (ReplyErr 0 [])] (registry_new 2)"
  obtain "is" ss ds r where r: "?run = (is, ss, ds, r)" by (metis prod_cases4)
  have "fst ?run = [1] \<and> fst (snd ?run) = [(1, ReplyErr 5 ''bye'')] \<and> map_of (slots (snd (snd (snd ?run)))) 1 = None" by code_simp
  then show ?thesis
    using requests_settle_once [where ops = "[OpInsertOn 1 ''n'' 10 False, OpCompleteFrom 1 (ReplyErr 0 []) 99, OpFailAll 5 ''bye'', OpComplete 1 (ReplyErr 0 [])]"
        and cap = 2 and cid = 1 and p = "ReplyErr 0 []" and source = 99] r
    by simp
qed

end
