(* ===== verification/Wal.thy ===== *)
theory Wal
  imports Tables Bytes
begin

text \<open>
  The write-ahead log of the durable outbox: \<^verbatim>\<open>crates/parrot-remote/src/durable.rs\<close> with the
  keyed acceptance records of \<^verbatim>\<open>durable/submission.rs\<close> and the causal records of
  \<^verbatim>\<open>durable/causal.rs\<close>.

  The log is a directory of numbered segments, each a sequence of frames of a length, a CRC-32 and
  an encoded record. The bincode encodings, SHA-256 and the two \<^verbatim>\<open>size_of\<close> constants are fields
  of \<open>wal_env\<close>, an argument of the operations. The file system is the contents of the directory, a
  script with the outcome of each fallible call (a failing write may leave any part of its bytes,
  a failing creation may leave the empty file), and for every file the length that a
  \<^verbatim>\<open>sync_all\<close> made durable. A handle extends that state with the fields of \<^verbatim>\<open>WalInner\<close>,
  so an operation maps a handle to a result and a handle also when it fails half-way.
  Hash maps are association lists. Error messages are cut down to their causes, and a failing
  allocation is not modelled.
\<close>

section \<open>Results with state\<close>

datatype wal_error =
    Bad_Limits | Io | Forked | Poisoned | Disk_Budget | Stream_Budget | Watermark_Budget
  | Pending_Budget | Receipt_Budget | Record_Budget | Segment_Budget | Size_Overflow
  | Segment_Name | Segment_Gap | Segment_Ids | Sealed_Corrupt | Bad_Length | Bad_Checksum
  | Undecodable | Bad_Record | Bad_Submission | Conflict | Shared_Sequence | Already_Acked | Bad_Causal

type_synonym ('a, 's) act = "'s \<Rightarrow> (wal_error + 'a) \<times> 's"

definition then_do :: "('a, 's) act \<Rightarrow> ('a \<Rightarrow> ('b, 's) act) \<Rightarrow> ('b, 's) act" where
  "then_do m f s = (case m s of (Inl e, s') \<Rightarrow> (Inl e, s') | (Inr x, s') \<Rightarrow> f x s')"

definition result :: "(wal_error + 'a) \<Rightarrow> ('a, 's) act" where
  "result r s = (r, s)"

definition modify :: "('s \<Rightarrow> 's) \<Rightarrow> (unit, 's) act" where
  "modify f s = (Inr (), f s)"

section \<open>Checksums\<close>

definition crc_bit :: "32 word \<Rightarrow> 32 word" where
  "crc_bit c = (if c AND 1 \<noteq> 0 then drop_bit 1 c XOR 0xEDB88320 else drop_bit 1 c)"

definition crc_byte :: "32 word \<Rightarrow> byte \<Rightarrow> 32 word" where
  "crc_byte c b = (crc_bit ^^ 8) (c XOR ucast b)"

definition crc32 :: "byte list \<Rightarrow> 32 word" where
  "crc32 data = NOT (foldl crc_byte 0xFFFFFFFF data)"

section \<open>Records and limits\<close>

record wal_record =
  wr_endpoint :: string
  wr_sender :: string
  wr_seq :: nat
  wr_path :: string
  wr_key :: string
  wr_payload :: "byte list"

record wal_limits =
  max_record_bytes :: nat
  max_disk_bytes :: nat
  max_segments :: nat
  max_pending_records :: nat
  max_pending_bytes :: nat
  max_streams :: nat
  max_watermark_bytes :: nat
  max_submission_receipts :: nat
  max_submission_receipt_bytes :: nat

record pending_record =
  pr_record :: wal_record
  pr_parent :: "trace_parent option"

record acceptance =
  ac_request :: string
  ac_key :: string
  ac_payload :: "byte list"

record saved_receipt =
  sr_request :: string
  sr_print :: "byte list"

record wal_receipt =
  rc_endpoint :: string
  rc_sender :: string
  rc_seq :: nat
  rc_saved :: saved_receipt

record wal_env =
  enc_record :: "wal_record \<Rightarrow> byte list"
  dec_record :: "byte list \<Rightarrow> (wal_record \<times> nat) option"
  enc_accept :: "acceptance \<Rightarrow> byte list"
  dec_accept :: "byte list \<Rightarrow> (acceptance \<times> nat) option"
  enc_saved :: "saved_receipt \<Rightarrow> byte list"
  dec_saved :: "byte list \<Rightarrow> (saved_receipt \<times> nat) option"
  sha256 :: "byte list \<Rightarrow> byte list"
  watermark_size :: nat
  pending_size :: nat

definition wal_limits_default :: wal_limits where
  "wal_limits_default = \<lparr>max_record_bytes = 16 * 1024 * 1024, max_disk_bytes = 1024 * 1024 * 1024,
     max_segments = 4096, max_pending_records = 100000, max_pending_bytes = 64 * 1024 * 1024,
     max_streams = 65536, max_watermark_bytes = 16 * 1024 * 1024,
     max_submission_receipts = 65536, max_submission_receipt_bytes = 16 * 1024 * 1024\<rparr>"

definition isize_limit :: nat where
  "isize_limit = 2 ^ 63 - 1"

definition limits_ok :: "wal_limits \<Rightarrow> nat \<Rightarrow> bool" where
  "limits_ok lim segment_max \<longleftrightarrow>
     \<not> (segment_max = 0 \<or> max_disk_bytes lim = 0 \<or> max_disk_bytes lim > isize_limit
        \<or> segment_max > max_disk_bytes lim
        \<or> max_record_bytes lim = 0 \<or> max_record_bytes lim > 16 * 1024 * 1024
        \<or> max_segments lim = 0 \<or> max_pending_records lim = 0 \<or> max_pending_bytes lim = 0
        \<or> max_streams lim = 0 \<or> max_watermark_bytes lim = 0
        \<or> max_submission_receipts lim = 0 \<or> max_submission_receipt_bytes lim = 0
        \<or> list_ex (\<lambda>v. v \<ge> isize_limit)
            [max_segments lim, max_pending_records lim, max_pending_bytes lim, max_streams lim,
             max_watermark_bytes lim, max_submission_receipts lim, max_submission_receipt_bytes lim])"

text \<open>\<^verbatim>\<open>remote_decode::deserialize\<close> with the default depth limit of 64; \<open>dec\<close> is the bincode decoder.\<close>

definition remote_deserialize :: "(byte list \<Rightarrow> ('a \<times> nat) option) \<Rightarrow> nat \<Rightarrow> byte list \<Rightarrow> wal_error + 'a" where
  "remote_deserialize dec max_payload bs =
     (if length bs > max_payload then Inl Undecodable
      else case dec bs of
          None \<Rightarrow> Inl Undecodable
        | Some (v, consumed) \<Rightarrow> if consumed \<noteq> length bs then Inl Undecodable else Inr v)"

definition default_payload :: nat where
  "default_payload = 16 * 1024 * 1024"

section \<open>Causal records\<close>

definition causal_key :: string where
  "causal_key = ''#outbox-causal-v1''"

definition causal_reserved :: "string \<Rightarrow> bool" where
  "causal_reserved k \<longleftrightarrow> prefix ''#outbox-causal-'' k"

definition accept_key :: string where
  "accept_key = ''#outbox-accept-v1''"

definition receipt_key :: string where
  "receipt_key = ''#outbox-receipt-v1''"

definition submission_reserved :: "string \<Rightarrow> bool" where
  "submission_reserved k \<longleftrightarrow> k = accept_key \<or> k = receipt_key"

definition check_inner :: "string \<Rightarrow> wal_error + unit" where
  "check_inner k =
     guard (\<not> (k = [] \<or> causal_reserved k \<or> k = ''#ack'' \<or> k = receipt_key)) Bad_Causal"

definition causal_wrap :: "wal_record \<Rightarrow> trace_parent option \<Rightarrow> wal_error + wal_record" where
  "causal_wrap r parent =
     (case parent of
        None \<Rightarrow> Inr r
      | Some p \<Rightarrow>
          sum_bind (check_inner (wr_key r)) (\<lambda>_.
            if length (wr_key r) \<ge> 2 ^ 32 then Inl Bad_Causal
            else case Option.bind (checked_add 29 (length (wr_key r))) (\<lambda>n. checked_add n (length (wr_payload r))) of
                None \<Rightarrow> Inl Bad_Causal
              | Some _ \<Rightarrow> Inr (r\<lparr>wr_key := causal_key,
                  wr_payload := [1] @ trace_id p @ span_id p @ le_bytes 4 (length (wr_key r)) @
                    str_bytes (wr_key r) @ wr_payload r\<rparr>)))"

definition causal_read :: "wal_record \<Rightarrow> wal_error + (wal_record \<times> trace_parent option)" where
  "causal_read r =
     (let p = wr_payload r in
      if \<not> causal_reserved (wr_key r) then Inr (r, None)
      else if wr_key r \<noteq> causal_key \<or> length p < 29 \<or> p ! 0 \<noteq> 1 then Inl Bad_Causal
      else case trace_parent_new (take 16 (drop 1 p)) (take 8 (drop 17 p)) of
          None \<Rightarrow> Inl Bad_Causal
        | Some parent \<Rightarrow>
            let n = from_le (take 4 (drop 25 p)); key = bytes_str (take n (drop 29 p)) in
            if 29 + n > length p then Inl Bad_Causal
            else if \<not> utf8_valid key then Inl Bad_Causal
            else sum_bind (check_inner key) (\<lambda>_.
              Inr (r\<lparr>wr_key := key, wr_payload := drop (29 + n) p\<rparr>, Some parent)))"

section \<open>Frames\<close>

definition validate_record :: "wal_record \<Rightarrow> bool \<Rightarrow> wal_error + unit" where
  "validate_record r allow_ack =
     guard (\<not> (wr_seq r = 0 \<or> wr_endpoint r = [] \<or> wr_sender r = [] \<or> wr_key r = []
        \<or> (\<not> allow_ack \<and> (submission_reserved (wr_key r) \<or> causal_reserved (wr_key r)))
        \<or> (wr_key r = ''#ack'' \<and> (\<not> allow_ack \<or> wr_path r \<noteq> [] \<or> wr_payload r \<noteq> [])))) Bad_Record"

definition ack_record :: "string \<Rightarrow> string \<Rightarrow> nat \<Rightarrow> wal_record" where
  "ack_record e s n = \<lparr>wr_endpoint = e, wr_sender = s, wr_seq = n, wr_path = [], wr_key = ''#ack'',
     wr_payload = []\<rparr>"

text \<open>The counting writer fails as soon as the encoding passes the record limit.\<close>

definition encoded_size :: "wal_env \<Rightarrow> wal_limits \<Rightarrow> wal_record \<Rightarrow> wal_error + nat" where
  "encoded_size env lim r =
     (if length (enc_record env r) > max_record_bytes lim then Inl Record_Budget
      else Inr (length (enc_record env r) + 8))"

definition frame :: "wal_env \<Rightarrow> wal_record \<Rightarrow> byte list" where
  "frame env r = (let body = enc_record env r in
     le_bytes 4 (length body) @ le_bytes 4 (unat (crc32 body)) @ body)"

definition encode_record :: "wal_env \<Rightarrow> wal_limits \<Rightarrow> wal_record \<Rightarrow> wal_error + byte list" where
  "encode_record env lim r = sum_bind (encoded_size env lim r) (\<lambda>_. Inr (frame env r))"

text \<open>
  The loop of \<^verbatim>\<open>scan_segment\<close> from \<open>pos\<close> on, where \<open>rest\<close> is what the reader has left:
  the position after the last complete record, and the state that the visitor has built.
\<close>

function scan_from :: "wal_env \<Rightarrow> wal_limits \<Rightarrow> bool \<Rightarrow> ('s \<Rightarrow> wal_record \<Rightarrow> wal_error + 's) \<Rightarrow>
    nat \<Rightarrow> byte list \<Rightarrow> 's \<Rightarrow> wal_error + (nat \<times> 's)" where
  "scan_from env lim tail visit pos rest s =
     (let interrupted = (if tail then Inr (pos, s) else Inl Sealed_Corrupt) in
      if rest = [] then Inr (pos, s)
      else if length rest < 8 then interrupted
      else
        let size = from_le (take 4 rest) in
        if size = 0 \<or> size > max_record_bytes lim then Inl Bad_Length
        else if size > length rest - 8 then interrupted
        else
          let body = take size (drop 8 rest) in
          if unat (crc32 body) \<noteq> from_le (take 4 (drop 4 rest)) then Inl Bad_Checksum
          else sum_bind (remote_deserialize (dec_record env) (max_record_bytes lim) body) (\<lambda>r.
            sum_bind (validate_record r True) (\<lambda>_.
              sum_bind (visit s r) (\<lambda>s'.
                scan_from env lim tail visit (pos + 8 + size) (drop (8 + size) rest) s'))))"
  by pat_completeness auto
termination
  by (relation "measure (\<lambda>(env, lim, tail, visit, pos, rest, s). length rest)") auto

declare scan_from.simps [simp del]

section \<open>Keyed submissions\<close>

type_synonym receipt_id = "string \<times> string \<times> string"

record receipt_index =
  ri_entries :: "(receipt_id \<times> wal_receipt) list"
  ri_sequences :: "((string \<times> string \<times> nat) \<times> string) list"
  ri_bytes :: nat
  ri_checkpoint :: nat

definition receipt_index_default :: receipt_index where
  "receipt_index_default = \<lparr>ri_entries = [], ri_sequences = [], ri_bytes = 0, ri_checkpoint = 0\<rparr>"

definition validate_id :: "string \<Rightarrow> wal_error + unit" where
  "validate_id i = guard (\<not> (i = [] \<or> length i > 1024 \<or> has_control i)) Bad_Submission"

definition receipt_id :: "wal_receipt \<Rightarrow> receipt_id" where
  "receipt_id c = (rc_endpoint c, rc_sender c, sr_request (rc_saved c))"

definition receipt_memory :: "wal_receipt \<Rightarrow> nat" where
  "receipt_memory c =
     512 + 3 * (length (rc_endpoint c) + length (rc_sender c) + length (sr_request (rc_saved c)))"

definition receipt_record :: "wal_env \<Rightarrow> wal_receipt \<Rightarrow> wal_record" where
  "receipt_record env c = \<lparr>wr_endpoint = rc_endpoint c, wr_sender = rc_sender c, wr_seq = rc_seq c,
     wr_path = [], wr_key = receipt_key, wr_payload = enc_saved env (rc_saved c)\<rparr>"

definition fingerprint :: "wal_env \<Rightarrow> wal_record \<Rightarrow> byte list" where
  "fingerprint env r = sha256 env (str_bytes ''parrot.outbox.submission.v1'' @ [0] @
     concat (map (\<lambda>bs. le_bytes 8 (length bs) @ bs)
       [str_bytes (wr_path r), str_bytes (wr_key r), wr_payload r]))"

definition receipt_lookup :: "wal_env \<Rightarrow> receipt_index \<Rightarrow> wal_record \<Rightarrow> string \<Rightarrow> wal_error + nat option" where
  "receipt_lookup env ri r i =
     sum_bind (validate_id i) (\<lambda>_.
       case map_of (ri_entries ri) (wr_endpoint r, wr_sender r, i) of
         Some c \<Rightarrow> if sr_print (rc_saved c) = fingerprint env r then Inr (Some (rc_seq c)) else Inl Conflict
       | None \<Rightarrow> Inr None)"

definition receipt_check :: "wal_env \<Rightarrow> wal_limits \<Rightarrow> receipt_index \<Rightarrow> wal_receipt \<Rightarrow> wal_error + unit" where
  "receipt_check env lim ri c =
     (case map_of (ri_entries ri) (receipt_id c) of
        Some saved \<Rightarrow> guard (saved = c) Conflict
      | None \<Rightarrow>
          if map_of (ri_sequences ri) (rc_endpoint c, rc_sender c, rc_seq c) \<noteq> None then Inl Shared_Sequence
          else if length (ri_entries ri) \<ge> max_submission_receipts lim
            \<or> (case checked_add (ri_bytes ri) (receipt_memory c) of
                 None \<Rightarrow> True | Some n \<Rightarrow> n > max_submission_receipt_bytes lim)
          then Inl Receipt_Budget
          else sum_bind (encoded_size env lim (receipt_record env c)) (\<lambda>n.
            case checked_add (ri_checkpoint ri) n of None \<Rightarrow> Inl Size_Overflow | Some _ \<Rightarrow> Inr ()))"

definition receipt_insert :: "wal_env \<Rightarrow> wal_limits \<Rightarrow> receipt_index \<Rightarrow> wal_receipt \<Rightarrow> wal_error + receipt_index" where
  "receipt_insert env lim ri c =
     sum_bind (receipt_check env lim ri c) (\<lambda>_.
       if map_of (ri_entries ri) (receipt_id c) \<noteq> None then Inr ri
       else sum_bind (encoded_size env lim (receipt_record env c)) (\<lambda>n.
         Inr \<lparr>ri_entries = AList.update (receipt_id c) c (ri_entries ri),
              ri_sequences = AList.update (rc_endpoint c, rc_sender c, rc_seq c) (sr_request (rc_saved c))
                (ri_sequences ri),
              ri_bytes = ri_bytes ri + receipt_memory c,
              ri_checkpoint = ri_checkpoint ri + n\<rparr>))"

text \<open>The outbox refuses a log that holds receipts of another stream or of the future.\<close>

definition validate_binding :: "receipt_index \<Rightarrow> string \<Rightarrow> string \<Rightarrow> nat \<Rightarrow> wal_error + unit" where
  "validate_binding ri e s n =
     guard (\<not> list_ex (\<lambda>(_, c). rc_endpoint c \<noteq> e \<or> rc_sender c \<noteq> s \<or> rc_seq c > n) (ri_entries ri)) Bad_Submission"

definition submission_receipt :: "wal_env \<Rightarrow> wal_record \<Rightarrow> string \<Rightarrow> wal_receipt" where
  "submission_receipt env r i = \<lparr>rc_endpoint = wr_endpoint r, rc_sender = wr_sender r, rc_seq = wr_seq r,
     rc_saved = \<lparr>sr_request = i, sr_print = fingerprint env r\<rparr>\<rparr>"

definition submission_wrap :: "wal_env \<Rightarrow> wal_record \<Rightarrow> string \<Rightarrow> wal_error + (wal_record \<times> wal_receipt)" where
  "submission_wrap env r i =
     sum_bind (validate_id i) (\<lambda>_.
       sum_bind (validate_record r False) (\<lambda>_.
         Inr (r\<lparr>wr_key := accept_key,
                 wr_payload := enc_accept env \<lparr>ac_request = i, ac_key = wr_key r, ac_payload = wr_payload r\<rparr>\<rparr>,
              submission_receipt env r i)))"

definition submission_read :: "wal_env \<Rightarrow> wal_record \<Rightarrow> wal_error + (wal_record option \<times> wal_receipt option)" where
  "submission_read env r =
     (if wr_key r = accept_key then
        sum_bind (remote_deserialize (dec_accept env) default_payload (wr_payload r)) (\<lambda>saved.
          sum_bind (validate_id (ac_request saved)) (\<lambda>_.
            let business = r\<lparr>wr_key := ac_key saved, wr_payload := ac_payload saved\<rparr> in
            sum_bind (validate_record business False) (\<lambda>_.
              Inr (Some business, Some (submission_receipt env business (ac_request saved))))))
      else if wr_key r = receipt_key then
        if wr_path r \<noteq> [] then Inl Bad_Submission
        else sum_bind (remote_deserialize (dec_saved env) default_payload (wr_payload r)) (\<lambda>saved.
          sum_bind (validate_id (sr_request saved)) (\<lambda>_.
            Inr (None, Some \<lparr>rc_endpoint = wr_endpoint r, rc_sender = wr_sender r, rc_seq = wr_seq r,
              rc_saved = saved\<rparr>)))
      else Inr (Some r, None))"

section \<open>The file system\<close>

datatype io_out = Done | Fault nat

record fsys =
  dir :: "(string \<times> byte list) list"
  synced :: "(string \<times> nat) list"
  script :: "io_out list"

definition io_call :: "'z fsys_scheme \<Rightarrow> io_out \<times> 'z fsys_scheme" where
  "io_call s = (case script s of [] \<Rightarrow> (Done, s) | out # rest \<Rightarrow> (out, s\<lparr>script := rest\<rparr>))"

definition plain_call :: "(unit, 'z fsys_scheme) act" where
  "plain_call s = (case io_call s of (Done, s') \<Rightarrow> (Inr (), s') | (Fault _, s') \<Rightarrow> (Inl Io, s'))"

definition read_file :: "string \<Rightarrow> (byte list, 'z fsys_scheme) act" where
  "read_file name s =
     (case io_call s of
        (Fault _, s') \<Rightarrow> (Inl Io, s')
      | (Done, s') \<Rightarrow> (case map_of (dir s') name of None \<Rightarrow> (Inl Io, s') | Some bs \<Rightarrow> (Inr bs, s')))"

definition create_file :: "string \<Rightarrow> (unit, 'z fsys_scheme) act" where
  "create_file name s =
     (let (out, s') = io_call s; made = s'\<lparr>dir := AList.update name [] (dir s')\<rparr> in
      if map_of (dir s') name \<noteq> None then (Inl Io, s')
      else case out of Done \<Rightarrow> (Inr (), made) | Fault n \<Rightarrow> (Inl Io, if n = 0 then s' else made))"

definition lock_file :: "string \<Rightarrow> (unit, 'z fsys_scheme) act" where
  "lock_file name s =
     (let (out, s') = io_call s;
          made = (if map_of (dir s') name \<noteq> None then s' else s'\<lparr>dir := AList.update name [] (dir s')\<rparr>) in
      case out of Done \<Rightarrow> (Inr (), made) | Fault n \<Rightarrow> (Inl Io, if n = 0 then s' else made))"

definition write_file :: "string \<Rightarrow> byte list \<Rightarrow> (unit, 'z fsys_scheme) act" where
  "write_file name bs s =
     (let (out, s') = io_call s in
      case map_of (dir s') name of
        None \<Rightarrow> (Inl Io, s')
      | Some old \<Rightarrow>
          (case out of
             Done \<Rightarrow> (Inr (), s'\<lparr>dir := AList.update name (old @ bs) (dir s')\<rparr>)
           | Fault n \<Rightarrow> (Inl Io, s'\<lparr>dir := AList.update name (old @ take n bs) (dir s')\<rparr>)))"

definition sync_file :: "string \<Rightarrow> (unit, 'z fsys_scheme) act" where
  "sync_file name s =
     (case io_call s of
        (Fault _, s') \<Rightarrow> (Inl Io, s')
      | (Done, s') \<Rightarrow>
          (case map_of (dir s') name of
             None \<Rightarrow> (Inl Io, s')
           | Some bs \<Rightarrow> (Inr (), s'\<lparr>synced := AList.update name (length bs) (synced s')\<rparr>)))"

definition set_len :: "string \<Rightarrow> nat \<Rightarrow> (unit, 'z fsys_scheme) act" where
  "set_len name n s =
     (case io_call s of
        (Fault _, s') \<Rightarrow> (Inl Io, s')
      | (Done, s') \<Rightarrow>
          (case map_of (dir s') name of
             None \<Rightarrow> (Inl Io, s')
           | Some bs \<Rightarrow> (Inr (), s'\<lparr>dir := AList.update name (take n bs) (dir s')\<rparr>)))"

definition remove_file :: "string \<Rightarrow> (unit, 'z fsys_scheme) act" where
  "remove_file name s =
     (case io_call s of
        (Fault _, s') \<Rightarrow> (Inl Io, s')
      | (Done, s') \<Rightarrow>
          if map_of (dir s') name = None then (Inl Io, s')
          else (Inr (), s'\<lparr>dir := AList.delete name (dir s'), synced := AList.delete name (synced s')\<rparr>))"

section \<open>Segments\<close>

definition segment_path :: "nat \<Rightarrow> string" where
  "segment_path i = (let d = dec_str i in ''seg-'' @ replicate (8 - length d) (CHR ''0'') @ d @ ''.log'')"

definition strip_suffix :: "string \<Rightarrow> string \<Rightarrow> string option" where
  "strip_suffix suf s = (if suffix suf s then Some (take (length s - length suf) s) else None)"

text \<open>\<^verbatim>\<open>str::parse::<u64>\<close>: decimal digits after an optional plus sign.\<close>

definition parse_u64 :: "string \<Rightarrow> nat option" where
  "parse_u64 s =
     (let d = (case s of [] \<Rightarrow> [] | c # cs \<Rightarrow> if c = CHR ''+'' then cs else s) in
      if d = [] \<or> list_ex (\<lambda>c. (of_char c :: nat) < 48 \<or> (of_char c :: nat) > 57) d \<or> dec_val d > u64_max
      then None else Some (dec_val d))"

definition segment_entry :: "nat \<Rightarrow> nat list \<Rightarrow> string \<Rightarrow> wal_error + nat list" where
  "segment_entry max_count ids name =
     (if \<not> utf8_valid name then Inl Segment_Name
      else if \<not> prefix ''seg-'' name then Inr ids
      else case Option.bind (strip_suffix ''.log'' (drop 4 name)) parse_u64 of
          None \<Rightarrow> Inl Segment_Name
        | Some i \<Rightarrow>
            if i = 0 \<or> name \<noteq> segment_path i then Inl Segment_Name
            else if length ids = max_count then Inl Segment_Budget
            else Inr (ids @ [i]))"

fun consecutive :: "nat list \<Rightarrow> bool" where
  "consecutive (a # b # rest) = (checked_add a 1 = Some b \<and> consecutive (b # rest))"
| "consecutive _ = True"

definition list_segments :: "nat \<Rightarrow> (nat list, 'z fsys_scheme) act" where
  "list_segments max_count =
     then_do plain_call (\<lambda>_ s.
       (sum_bind (fold_sum (segment_entry max_count) (map fst (dir s)) []) (\<lambda>ids.
          if consecutive (sort ids) then Inr (sort ids) else Inl Segment_Gap), s))"

section \<open>Opening\<close>

type_synonym stream_id = "string \<times> string"

record wal = fsys +
  w_pid :: nat
  w_segment_max :: nat
  w_limits :: wal_limits
  w_seg_id :: nat
  w_seg_bytes :: nat
  w_disk_bytes :: nat
  w_segments :: nat
  w_failed :: bool
  w_acked :: "(stream_id \<times> nat) list"
  w_pending :: "pending_record list"
  w_pending_bytes :: nat
  w_watermark_bytes :: nat
  w_receipts :: receipt_index

definition capped :: "nat \<Rightarrow> nat option \<Rightarrow> nat option" where
  "capped cap v = (case v of None \<Rightarrow> None | Some n \<Rightarrow> if n \<le> cap then Some n else None)"

definition or_err :: "'e \<Rightarrow> 'a option \<Rightarrow> 'e + 'a" where
  "or_err e v = (case v of None \<Rightarrow> Inl e | Some x \<Rightarrow> Inr x)"

definition reserve_watermark :: "wal_env \<Rightarrow> wal_limits \<Rightarrow> nat \<Rightarrow> string \<Rightarrow> string \<Rightarrow> wal_error + nat" where
  "reserve_watermark env lim previous e s =
     or_err Watermark_Budget (capped (max_watermark_bytes lim)
       (fold (\<lambda>n acc. Option.bind acc (\<lambda>v. checked_add v n))
         [length e, length s, watermark_size env] (Some previous)))"

definition record_memory :: "wal_env \<Rightarrow> wal_record \<Rightarrow> nat" where
  "record_memory env r = pending_size env + length (wr_endpoint r) + length (wr_sender r)
     + length (wr_path r) + length (wr_key r) + length (wr_payload r)"

definition reserve_pending :: "wal_env \<Rightarrow> wal_limits \<Rightarrow> wal_record \<Rightarrow> nat \<Rightarrow> nat \<Rightarrow> wal_error + nat" where
  "reserve_pending env lim r n bytes =
     (if n \<ge> max_pending_records lim then Inl Pending_Budget
      else or_err Pending_Budget (capped (max_pending_bytes lim) (checked_add bytes (record_memory env r))))"

definition stream_of :: "wal_record \<Rightarrow> stream_id" where
  "stream_of r = (wr_endpoint r, wr_sender r)"

type_synonym ack_state = "(stream_id \<times> nat) list \<times> nat \<times> receipt_index"

definition visit_acks :: "wal_env \<Rightarrow> wal_limits \<Rightarrow> ack_state \<Rightarrow> wal_record \<Rightarrow> wal_error + ack_state" where
  "visit_acks env lim st r =
     (let (acked, wm, ri) = st in
      sum_bind (causal_read r) (\<lambda>(r, _).
      sum_bind (submission_read env r) (\<lambda>(business, rc).
      sum_bind (case rc of None \<Rightarrow> Inr ri | Some c \<Rightarrow> receipt_insert env lim ri c) (\<lambda>ri.
      case business of
        None \<Rightarrow> Inr (acked, wm, ri)
      | Some b \<Rightarrow>
          if wr_key b \<noteq> ''#ack'' then Inr (acked, wm, ri)
          else case map_of acked (stream_of b) of
              Some n \<Rightarrow> Inr (AList.update (stream_of b) (max n (wr_seq b)) acked, wm, ri)
            | None \<Rightarrow>
                if length acked = max_streams lim then Inl Stream_Budget
                else sum_bind (reserve_watermark env lim wm (wr_endpoint b) (wr_sender b)) (\<lambda>wm.
                  Inr (AList.update (stream_of b) (wr_seq b) acked, wm, ri))))))"

type_synonym pending_state = "pending_record list \<times> nat"

definition visit_pending :: "wal_env \<Rightarrow> wal_limits \<Rightarrow> (stream_id \<times> nat) list \<Rightarrow>
    pending_state \<Rightarrow> wal_record \<Rightarrow> wal_error + pending_state" where
  "visit_pending env lim acked st r =
     (let (pending, bytes) = st in
      sum_bind (causal_read r) (\<lambda>(r, parent).
      sum_bind (submission_read env r) (\<lambda>(business, _).
      case business of
        None \<Rightarrow> Inr (pending, bytes)
      | Some b \<Rightarrow>
          if wr_key b \<noteq> ''#ack'' \<and> (case map_of acked (stream_of b) of None \<Rightarrow> True | Some n \<Rightarrow> wr_seq b > n)
          then sum_bind (reserve_pending env lim b (length pending) bytes) (\<lambda>bytes.
            Inr (pending @ [\<lparr>pr_record = b, pr_parent = parent\<rparr>], bytes))
          else Inr (pending, bytes))))"

definition scan_segment :: "wal_env \<Rightarrow> wal_limits \<Rightarrow> bool \<Rightarrow> ('s \<Rightarrow> wal_record \<Rightarrow> wal_error + 's) \<Rightarrow>
    nat \<Rightarrow> 's \<Rightarrow> (nat \<times> nat \<times> 's, 'z fsys_scheme) act" where
  "scan_segment env lim tail visit sid st =
     then_do (read_file (segment_path sid)) (\<lambda>bs.
       result (if length bs > max_disk_bytes lim then Inl Disk_Budget
         else sum_bind (scan_from env lim tail visit 0 bs st) (\<lambda>(good, st'). Inr (good, length bs, st'))))"

type_synonym torn_tail = "(nat \<times> nat \<times> nat) option"

primrec scan_segments :: "wal_env \<Rightarrow> wal_limits \<Rightarrow> ('s \<Rightarrow> wal_record \<Rightarrow> wal_error + 's) \<Rightarrow> nat \<Rightarrow>
    nat list \<Rightarrow> 's \<Rightarrow> torn_tail \<Rightarrow> ('s \<times> torn_tail, 'z fsys_scheme) act" where
  "scan_segments env lim visit final [] st torn = result (Inr (st, torn))"
| "scan_segments env lim visit final (sid # sids) st torn =
     then_do (scan_segment env lim (sid = final) visit sid st) (\<lambda>(good, len, st').
       scan_segments env lim visit final sids st' (if good \<noteq> len then Some (sid, good, len) else torn))"

primrec measure_segments :: "wal_limits \<Rightarrow> nat list \<Rightarrow> nat \<Rightarrow> (nat, 'z fsys_scheme) act" where
  "measure_segments lim [] n = result (Inr n)"
| "measure_segments lim (sid # sids) n =
     then_do (read_file (segment_path sid)) (\<lambda>bs.
       then_do (result (or_err Disk_Budget (capped (max_disk_bytes lim) (checked_add n (length bs)))))
         (measure_segments lim sids))"

definition repair :: "torn_tail \<Rightarrow> (unit, 'z fsys_scheme) act" where
  "repair torn = (case torn of
       None \<Rightarrow> result (Inr ())
     | Some (sid, good, len) \<Rightarrow>
         then_do (set_len (segment_path sid) good) (\<lambda>_. sync_file (segment_path sid)))"

definition lock_path :: string where
  "lock_path = ''.parrot-wal.lock''"

definition open_with_limits :: "wal_env \<Rightarrow> nat \<Rightarrow> nat \<Rightarrow> wal_limits \<Rightarrow> (wal, fsys) act" where
  "open_with_limits env pid segment_max lim =
     then_do (result (guard (limits_ok lim segment_max) Bad_Limits)) (\<lambda>_.
     then_do plain_call (\<lambda>_.
     then_do (lock_file lock_path) (\<lambda>_.
     then_do plain_call (\<lambda>_.
     then_do (list_segments (max_segments lim)) (\<lambda>ids.
     then_do (measure_segments lim ids 0) (\<lambda>disk_bytes.
     let seg_id = (if ids = [] then 1 else last ids) in
     then_do (result (or_err Segment_Ids (checked_add seg_id 1))) (\<lambda>_.
     then_do (scan_segments env lim (visit_acks env lim) seg_id ids ([], 0, receipt_index_default) None)
       (\<lambda>((acked, wm, ri), torn).
     then_do (scan_segments env lim (visit_pending env lim acked) seg_id ids ([], 0) None)
       (\<lambda>((pending, bytes), _).
     then_do (repair torn) (\<lambda>_.
     then_do (if ids = [] then create_file (segment_path seg_id) else result (Inr ())) (\<lambda>_.
     then_do (read_file (segment_path seg_id)) (\<lambda>content.
     then_do plain_call (\<lambda>_ s.
       (Inr \<lparr>dir = dir s, synced = synced s, script = script s, w_pid = pid, w_segment_max = segment_max,
             w_limits = lim, w_seg_id = seg_id, w_seg_bytes = length content,
             w_disk_bytes = (case torn of None \<Rightarrow> disk_bytes | Some (_, good, len) \<Rightarrow> disk_bytes - (len - good)),
             w_segments = max (length ids) 1, w_failed = False, w_acked = acked, w_pending = pending,
             w_pending_bytes = bytes, w_watermark_bytes = wm, w_receipts = ri\<rparr>, s))))))))))))))"

section \<open>Operations\<close>

definition check_state :: "nat \<Rightarrow> wal \<Rightarrow> wal_error + unit" where
  "check_state pid w =
     (if pid \<noteq> w_pid w then Inl Forked else if w_failed w then Inl Poisoned else Inr ())"

definition poison :: "('a, wal) act \<Rightarrow> ('a, wal) act" where
  "poison m w = (case m w of (Inl e, w') \<Rightarrow> (Inl e, w'\<lparr>w_failed := True\<rparr>) | (Inr x, w') \<Rightarrow> (Inr x, w'))"

definition ensure_disk :: "wal \<Rightarrow> nat \<Rightarrow> wal_error + unit" where
  "ensure_disk w n = sum_bind
     (or_err Disk_Budget (capped (max_disk_bytes (w_limits w)) (checked_add (w_disk_bytes w) n))) (\<lambda>_. Inr ())"

definition write_encoded :: "byte list \<Rightarrow> (unit, wal) act" where
  "write_encoded bs w =
     then_do (write_file (segment_path (w_seg_id w)) bs) (\<lambda>_.
       modify (\<lambda>w. w\<lparr>w_seg_bytes := w_seg_bytes w + length bs, w_disk_bytes := w_disk_bytes w + length bs\<rparr>)) w"

definition insert_receipt :: "wal_env \<Rightarrow> wal_receipt option \<Rightarrow> (unit, wal) act" where
  "insert_receipt env rc w =
     (case rc of
        None \<Rightarrow> (Inr (), w)
      | Some c \<Rightarrow>
          (case receipt_insert env (w_limits w) (w_receipts w) c of
             Inl e \<Rightarrow> (Inl e, w)
           | Inr ri \<Rightarrow> (Inr (), w\<lparr>w_receipts := ri\<rparr>)))"

definition roll :: "(unit, wal) act" where
  "roll w =
     then_do (sync_file (segment_path (w_seg_id w))) (\<lambda>_.
     then_do (create_file (segment_path (w_seg_id w + 1))) (\<lambda>_.
     then_do plain_call (\<lambda>_.
       modify (\<lambda>w. w\<lparr>w_seg_id := w_seg_id w + 1, w_seg_bytes := 0, w_segments := w_segments w + 1\<rparr>)))) w"

record submit_plan =
  ap_frame :: "byte list"
  ap_receipt :: "wal_receipt option"
  ap_bytes :: nat
  ap_rotate :: bool

text \<open>
  Everything \<^verbatim>\<open>append_submission_with_parent\<close> decides before it writes: an error, the sequence
  of a submission that is accepted already, or what to write.
\<close>

definition submit_plan :: "wal_env \<Rightarrow> nat \<Rightarrow> wal_record \<Rightarrow> string option \<Rightarrow> trace_parent option \<Rightarrow>
    wal \<Rightarrow> wal_error + (nat + submit_plan)" where
  "submit_plan env pid r request parent w =
     sum_bind (check_state pid w) (\<lambda>_.
     sum_bind (validate_record r False) (\<lambda>_.
     sum_bind (case request of None \<Rightarrow> Inr None | Some i \<Rightarrow> receipt_lookup env (w_receipts w) r i) (\<lambda>hit.
     case hit of Some n \<Rightarrow> Inr (Inl n) | None \<Rightarrow>
     if (case map_of (w_acked w) (stream_of r) of None \<Rightarrow> False | Some n \<Rightarrow> wr_seq r \<le> n)
     then (if request \<noteq> None then Inl Already_Acked else Inr (Inl (wr_seq r)))
     else
     sum_bind (case request of
         None \<Rightarrow> Inr (r, None)
       | Some i \<Rightarrow> sum_bind (submission_wrap env r i) (\<lambda>(stored, c). Inr (stored, Some c))) (\<lambda>(stored, rc).
     sum_bind (case rc of None \<Rightarrow> Inr () | Some c \<Rightarrow> receipt_check env (w_limits w) (w_receipts w) c) (\<lambda>_.
     sum_bind (reserve_pending env (w_limits w) r (length (w_pending w)) (w_pending_bytes w)) (\<lambda>bytes.
     sum_bind (causal_wrap stored parent) (\<lambda>stored.
     sum_bind (encode_record env (w_limits w) stored) (\<lambda>encoded.
     sum_bind (ensure_disk w (length encoded)) (\<lambda>_.
     let rotate = (w_seg_bytes w + length encoded \<ge> w_segment_max w) in
     if rotate \<and> (w_seg_id w = u64_max \<or> w_segments w = max_segments (w_limits w)) then Inl Segment_Budget
     else Inr (Inr \<lparr>ap_frame = encoded, ap_receipt = rc, ap_bytes = bytes, ap_rotate = rotate\<rparr>))))))))))"

definition append_commit :: "wal_env \<Rightarrow> wal_record \<Rightarrow> trace_parent option \<Rightarrow> submit_plan \<Rightarrow> (nat \<times> bool, wal) act" where
  "append_commit env r parent p =
     then_do (write_encoded (ap_frame p)) (\<lambda>_.
     then_do (insert_receipt env (ap_receipt p)) (\<lambda>_.
     then_do (modify (\<lambda>w. w\<lparr>w_pending := w_pending w @ [\<lparr>pr_record = r, pr_parent = parent\<rparr>],
                              w_pending_bytes := ap_bytes p\<rparr>)) (\<lambda>_.
     then_do (if ap_rotate p then roll else result (Inr ())) (\<lambda>_. result (Inr (wr_seq r, True))))))"

definition append_submission :: "wal_env \<Rightarrow> nat \<Rightarrow> wal_record \<Rightarrow> string option \<Rightarrow> trace_parent option \<Rightarrow>
    (nat \<times> bool, wal) act" where
  "append_submission env pid r request parent w =
     (case submit_plan env pid r request parent w of
        Inl e \<Rightarrow> (Inl e, w)
      | Inr (Inl n) \<Rightarrow> (Inr (n, False), w)
      | Inr (Inr p) \<Rightarrow> poison (append_commit env r parent p) w)"

definition wal_sync :: "nat \<Rightarrow> (unit, wal) act" where
  "wal_sync pid w =
     (case check_state pid w of
        Inl e \<Rightarrow> (Inl e, w)
      | Inr _ \<Rightarrow> poison (sync_file (segment_path (w_seg_id w))) w)"

record ack_plan =
  kp_frame :: "byte list"
  kp_clears :: bool
  kp_checkpoint :: nat
  kp_watermark :: nat

definition acked_by :: "string \<Rightarrow> string \<Rightarrow> nat \<Rightarrow> pending_record \<Rightarrow> bool" where
  "acked_by e s n p \<longleftrightarrow> wr_endpoint (pr_record p) = e \<and> wr_sender (pr_record p) = s \<and> wr_seq (pr_record p) \<le> n"

definition other_acks :: "string \<Rightarrow> string \<Rightarrow> wal \<Rightarrow> wal_record list" where
  "other_acks e s w = map (\<lambda>((e', s'), n). ack_record e' s' n) (filter (\<lambda>(k, n). k \<noteq> (e, s)) (w_acked w))"

definition ack_plan :: "wal_env \<Rightarrow> nat \<Rightarrow> string \<Rightarrow> string \<Rightarrow> nat \<Rightarrow> wal \<Rightarrow> wal_error + ack_plan option" where
  "ack_plan env pid e s n w =
     sum_bind (check_state pid w) (\<lambda>_.
     sum_bind (validate_record (ack_record e s n) True) (\<lambda>_.
     if (case map_of (w_acked w) (e, s) of None \<Rightarrow> False | Some m \<Rightarrow> n \<le> m) then Inr None
     else if map_of (w_acked w) (e, s) = None \<and> length (w_acked w) = max_streams (w_limits w) then Inl Stream_Budget
     else
     sum_bind (if map_of (w_acked w) (e, s) \<noteq> None then Inr (w_watermark_bytes w)
       else reserve_watermark env (w_limits w) (w_watermark_bytes w) e s) (\<lambda>watermark.
     sum_bind (encode_record env (w_limits w) (ack_record e s n)) (\<lambda>marker.
     let clears = list_all (acked_by e s n) (w_pending w) in
     sum_bind (if clears
         then fold_sum (\<lambda>acc r. sum_bind (encoded_size env (w_limits w) r) (\<lambda>k. or_err Size_Overflow (checked_add acc k)))
                (other_acks e s w) (ri_checkpoint (w_receipts w))
         else Inr 0) (\<lambda>checkpoint.
     sum_bind (or_err Size_Overflow (checked_add (length marker) checkpoint)) (\<lambda>total.
     sum_bind (ensure_disk w total) (\<lambda>_.
     if clears \<and> (w_seg_id w = u64_max \<or> w_segments w = max_segments (w_limits w)) then Inl Segment_Budget
     else Inr (Some \<lparr>kp_frame = marker, kp_clears = clears, kp_checkpoint = checkpoint,
                      kp_watermark = watermark\<rparr>))))))))"

primrec write_records :: "wal_env \<Rightarrow> wal_limits \<Rightarrow> string \<Rightarrow> wal_record list \<Rightarrow> (unit, 'z fsys_scheme) act" where
  "write_records env lim name [] = result (Inr ())"
| "write_records env lim name (r # rs) =
     then_do (result (encode_record env lim r)) (\<lambda>bs.
     then_do (write_file name bs) (\<lambda>_. write_records env lim name rs))"

primrec remove_below :: "nat \<Rightarrow> nat list \<Rightarrow> (unit, 'z fsys_scheme) act" where
  "remove_below bound [] = result (Inr ())"
| "remove_below bound (sid # sids) =
     then_do (if sid < bound then remove_file (segment_path sid) else result (Inr ())) (\<lambda>_.
       remove_below bound sids)"

definition checkpoint :: "wal_env \<Rightarrow> string \<Rightarrow> string \<Rightarrow> ack_plan \<Rightarrow> (unit, wal) act" where
  "checkpoint env e s p w =
     (let fresh = w_seg_id w + 1; name = segment_path fresh; lim = w_limits w in
      then_do (create_file name) (\<lambda>_.
      then_do (write_file name (kp_frame p)) (\<lambda>_.
      then_do (write_records env lim name (other_acks e s w)) (\<lambda>_.
      then_do (write_records env lim name (map (\<lambda>(_, c). receipt_record env c) (ri_entries (w_receipts w)))) (\<lambda>_.
      then_do (sync_file name) (\<lambda>_.
      then_do plain_call (\<lambda>_.
      then_do (modify (\<lambda>w. w\<lparr>w_seg_id := fresh, w_seg_bytes := length (kp_frame p) + kp_checkpoint p\<rparr>)) (\<lambda>_.
      then_do (list_segments (max_segments lim)) (\<lambda>ids.
      then_do (remove_below fresh ids) (\<lambda>_.
      then_do plain_call (\<lambda>_.
        modify (\<lambda>w. w\<lparr>w_disk_bytes := w_seg_bytes w, w_segments := 1\<rparr>))))))))))) w)"

definition ack_commit :: "wal_env \<Rightarrow> string \<Rightarrow> string \<Rightarrow> nat \<Rightarrow> ack_plan \<Rightarrow> (unit, wal) act" where
  "ack_commit env e s n p =
     then_do (if kp_clears p then checkpoint env e s p else write_encoded (kp_frame p)) (\<lambda>_.
       modify (\<lambda>w. let rest = filter (\<lambda>r. \<not> acked_by e s n r) (w_pending w) in
         w\<lparr>w_acked := AList.update (e, s) n (w_acked w), w_watermark_bytes := kp_watermark p,
           w_pending := rest, w_pending_bytes := sum_list (map (\<lambda>r. record_memory env (pr_record r)) rest)\<rparr>))"

definition wal_ack :: "wal_env \<Rightarrow> nat \<Rightarrow> string \<Rightarrow> string \<Rightarrow> nat \<Rightarrow> (unit, wal) act" where
  "wal_ack env pid e s n w =
     (case ack_plan env pid e s n w of
        Inl er \<Rightarrow> (Inl er, w)
      | Inr None \<Rightarrow> (Inr (), w)
      | Inr (Some p) \<Rightarrow> poison (ack_commit env e s n p) w)"

definition wal_replay :: "nat \<Rightarrow> string \<Rightarrow> wal \<Rightarrow> wal_error + wal_record list" where
  "wal_replay pid e w = sum_bind (check_state pid w) (\<lambda>_.
     Inr (sort_key wr_seq (map pr_record (filter (\<lambda>p. wr_endpoint (pr_record p) = e) (w_pending w)))))"

definition pending_len :: "nat \<Rightarrow> wal \<Rightarrow> wal_error + nat" where
  "pending_len pid w = sum_bind (check_state pid w) (\<lambda>_. Inr (length (w_pending w)))"

end
