(* ===== verification/Wal_Records.thy ===== *)
theory Wal_Records
  imports Wal
begin

text \<open>
  Records and frames of the write-ahead log read back as written: little-endian numbers, causal and
  keyed wrappers, frames with their checksum, and the scan of a segment whose last frame is torn.
\<close>

declare map_of_eq_Some_iff [simp del] Some_eq_map_of_iff [simp del]

section \<open>Results with state\<close>

named_theorems act_simps \<open>evaluation of the result combinators\<close>

lemma or_err_Inr [simp]: "or_err e v = Inr x \<longleftrightarrow> v = Some x"
  by (simp add: or_err_def split: option.splits)

lemma or_err_Some [simp]: "or_err e (Some x) = Inr x"
  by (simp add: or_err_def)

lemma capped_Some [simp]: "capped cap v = Some n \<longleftrightarrow> v = Some n \<and> n \<le> cap"
  by (auto simp: capped_def split: option.splits)

section \<open>Wrapped records\<close>

lemma keys_differ [simp]:
  "causal_reserved causal_key" "\<not> causal_reserved accept_key" "\<not> causal_reserved receipt_key"
  "\<not> causal_reserved ''#ack''" "accept_key \<noteq> receipt_key" "accept_key \<noteq> ''#ack''" "receipt_key \<noteq> ''#ack''"
  "accept_key \<noteq> []" "receipt_key \<noteq> []" "causal_key \<noteq> []" "causal_key \<noteq> ''#ack''"
  "causal_key \<noteq> accept_key" "causal_key \<noteq> receipt_key"
  by (simp_all add: causal_reserved_def causal_key_def accept_key_def receipt_key_def)

lemma keys_utf8 [simp]:
  "utf8_valid causal_key" "utf8_valid accept_key" "utf8_valid receipt_key" "utf8_valid ''#ack''" "utf8_valid []"
  by (simp_all add: utf8_valid_def causal_key_def accept_key_def receipt_key_def utf8_lead_def)

text \<open>What the Rust types say of a record: its strings are UTF-8 and its sequence is a \<open>u64\<close>.\<close>

definition rust_record :: "wal_record \<Rightarrow> bool" where
  "rust_record r \<longleftrightarrow> utf8_valid (wr_endpoint r) \<and> utf8_valid (wr_sender r) \<and> utf8_valid (wr_path r) \<and>
     utf8_valid (wr_key r) \<and> wr_seq r \<le> u64_max"

lemma causal_roundtrip:
  assumes w: "causal_wrap r (Some p) = Inr r'" and p: "trace_parent_ok p" and u: "utf8_valid (wr_key r)"
  shows "causal_read r' = Inr (r, Some p)"
proof -
  let ?k = "wr_key r"
  have inner: "check_inner ?k = Inr ()" and k: "length ?k < 2 ^ 32"
    using w by (auto simp: causal_wrap_def sum_bind_Inr split: if_splits option.splits)
  then have r': "r' = r\<lparr>wr_key := causal_key, wr_payload := [1] @ trace_id p @ span_id p @
      le_bytes 4 (length ?k) @ str_bytes ?k @ wr_payload r\<rparr>"
    using w by (auto simp: causal_wrap_def split: option.splits)
  have len: "length (trace_id p) = 16" "length (span_id p) = 8" using p by (auto simp: trace_parent_ok_def)
  have new: "trace_parent_new (trace_id p) (span_id p) = Some p"
    using p by (simp add: trace_parent_new_def trace_parent_ok_def)
  let ?pre = "[1] @ trace_id p @ span_id p @ le_bytes 4 (length ?k) @ str_bytes ?k"
  have pre: "length ?pre = 29 + length ?k" by (simp add: len)
  have "drop (29 + length ?k) (?pre @ wr_payload r) = wr_payload r"
    unfolding pre [symmetric] by (rule append_eq_conv_conj [THEN iffD1, THEN conjunct2, symmetric]) (rule refl)
  then have rest: "drop (29 + length ?k) (1 # trace_id p @ span_id p @ le_bytes 4 (length ?k) @
      str_bytes ?k @ wr_payload r) = wr_payload r" by simp
  show ?thesis
    using k inner u by (simp add: causal_read_def r' len new from_le_4 Let_def rest)
qed

lemma causal_read_plain: "\<not> causal_reserved (wr_key r) \<Longrightarrow> causal_read r = Inr (r, None)"
  by (simp add: causal_read_def Let_def)

text \<open>
  What is relied on of bincode and SHA-256: decoding gives back an encoded value and consumes all of
  it, an encoding is not empty and contains the payload, and a digest has 32 bytes.
\<close>

definition wal_codec_ok :: "wal_env \<Rightarrow> bool" where
  "wal_codec_ok env \<longleftrightarrow>
     (\<forall>r. rust_record r \<longrightarrow> dec_record env (enc_record env r) = Some (r, length (enc_record env r))) \<and>
     (\<forall>r. enc_record env r \<noteq> [] \<and> length (wr_payload r) \<le> length (enc_record env r)) \<and>
     (\<forall>a. utf8_valid (ac_request a) \<and> utf8_valid (ac_key a) \<longrightarrow>
        dec_accept env (enc_accept env a) = Some (a, length (enc_accept env a))) \<and>
     (\<forall>v. utf8_valid (sr_request v) \<and> length (sr_print v) = 32 \<longrightarrow>
        dec_saved env (enc_saved env v) = Some (v, length (enc_saved env v))) \<and>
     (\<forall>bs. length (sha256 env bs) = 32)"

lemma remote_deserialize_ok:
  "dec bs = Some (v, length bs) \<Longrightarrow> length bs \<le> cap \<Longrightarrow> remote_deserialize dec cap bs = Inr v"
  by (simp add: remote_deserialize_def)

lemma submission_roundtrip:
  assumes w: "submission_wrap env r i = Inr (r', c)" and cd: "wal_codec_ok env"
    and u: "utf8_valid i" "utf8_valid (wr_key r)" and len: "length (wr_payload r') \<le> default_payload"
  shows "submission_read env r' = Inr (Some r, Some c)" "c = submission_receipt env r i"
proof -
  have v: "validate_id i = Inr ()" "validate_record r False = Inr ()"
    and c: "c = submission_receipt env r i"
    and r': "r' = r\<lparr>wr_key := accept_key,
      wr_payload := enc_accept env \<lparr>ac_request = i, ac_key = wr_key r, ac_payload = wr_payload r\<rparr>\<rparr>"
    using w by (auto simp: submission_wrap_def sum_bind_Inr)
  have "remote_deserialize (dec_accept env) default_payload (wr_payload r') =
      Inr \<lparr>ac_request = i, ac_key = wr_key r, ac_payload = wr_payload r\<rparr>"
    using cd u len by (intro remote_deserialize_ok) (auto simp: wal_codec_ok_def r')
  then show "submission_read env r' = Inr (Some r, Some c)"
    by (simp add: submission_read_def r' v c Let_def)
  show "c = submission_receipt env r i" by (rule c)
qed

lemma receipt_roundtrip:
  assumes cd: "wal_codec_ok env" and v: "validate_id (sr_request (rc_saved c)) = Inr ()"
    and u: "utf8_valid (sr_request (rc_saved c))" "length (sr_print (rc_saved c)) = 32"
    and len: "length (wr_payload (receipt_record env c)) \<le> default_payload"
  shows "submission_read env (receipt_record env c) = Inr (None, Some c)"
proof -
  have "remote_deserialize (dec_saved env) default_payload (enc_saved env (rc_saved c)) = Inr (rc_saved c)"
    using cd u len by (intro remote_deserialize_ok) (auto simp: wal_codec_ok_def receipt_record_def)
  then show ?thesis
    using v by (simp add: submission_read_def receipt_record_def keys_differ(5) [symmetric] del: keys_differ(5))
qed

section \<open>Frames\<close>

definition frame_ok :: "wal_env \<Rightarrow> wal_limits \<Rightarrow> wal_record \<Rightarrow> bool" where
  "frame_ok env lim r \<longleftrightarrow> rust_record r \<and> validate_record r True = Inr () \<and>
     length (enc_record env r) \<le> max_record_bytes lim"

definition frames :: "wal_env \<Rightarrow> wal_record list \<Rightarrow> byte list" where
  "frames env rs = concat (map (frame env) rs)"

lemma frames_simps [simp]:
  "frames env [] = []" "frames env (r # rs) = frame env r @ frames env rs"
  "frames env (rs @ ss) = frames env rs @ frames env ss"
  by (simp_all add: frames_def)

lemma length_frame: "length (frame env r) = length (enc_record env r) + 8"
  by (simp add: frame_def Let_def)

lemma encode_record_Inr:
  "encode_record env lim r = Inr bs \<longleftrightarrow> length (enc_record env r) \<le> max_record_bytes lim \<and> bs = frame env r"
  by (auto simp: encode_record_def encoded_size_def)

text \<open>A torn tail: the beginning of a frame, without its end.\<close>

definition torn :: "wal_env \<Rightarrow> wal_limits \<Rightarrow> byte list \<Rightarrow> bool" where
  "torn env lim t \<longleftrightarrow> t = [] \<or> (\<exists>r. frame_ok env lim r \<and> strict_prefix t (frame env r))"

lemma small_records: "limits_ok lim m \<Longrightarrow> max_record_bytes lim \<le> 16 * 1024 * 1024"
  by (auto simp: limits_ok_def)

lemma scan_torn:
  assumes t: "torn env lim t" and lim: "limits_ok lim m" and cd: "wal_codec_ok env"
  shows "scan_from env lim tail visit pos t s = (if t = [] \<or> tail then Inr (pos, s) else Inl Sealed_Corrupt)"
proof (cases "t = []")
  case False
  then obtain r where r: "frame_ok env lim r" "strict_prefix t (frame env r)" using t by (auto simp: torn_def)
  let ?b = "enc_record env r"
  obtain u where u: "frame env r = t @ u" "u \<noteq> []" using r(2) by (auto elim: strict_prefixE')
  have len: "length t < length ?b + 8" using u length_frame [of env r] by (metis length_append length_greater_0_conv less_add_same_cancel1)
  have size: "from_le (take 4 t) = length ?b" if "8 \<le> length t"
  proof -
    have "take 4 t = take 4 (frame env r)" using that by (simp add: u)
    also have "\<dots> = le_bytes 4 (length ?b)" by (simp add: frame_def Let_def)
    finally show ?thesis using r(1) small_records [OF lim] by (simp add: frame_ok_def from_le_4)
  qed
  have "?b \<noteq> []" "length ?b \<le> max_record_bytes lim" using cd r(1) by (auto simp: wal_codec_ok_def frame_ok_def)
  then show ?thesis using False len size by (auto simp: scan_from.simps [of env lim tail visit pos t] Let_def)
qed (simp add: scan_from.simps Let_def)

lemma scan_frame:
  assumes r: "frame_ok env lim r" and lim: "limits_ok lim m" and cd: "wal_codec_ok env"
  shows "scan_from env lim tail visit pos (frame env r @ rest) s =
    sum_bind (visit s r) (scan_from env lim tail visit (pos + length (frame env r)) rest)"
proof -
  let ?b = "enc_record env r"
  have b: "?b \<noteq> []" "length ?b \<le> max_record_bytes lim" using cd r by (auto simp: wal_codec_ok_def frame_ok_def)
  have "remote_deserialize (dec_record env) (max_record_bytes lim) ?b = Inr r"
    using cd r by (intro remote_deserialize_ok) (auto simp: wal_codec_ok_def frame_ok_def)
  moreover have "from_le (le_bytes 4 (length ?b)) = length ?b"
    using b small_records [OF lim] by (simp add: from_le_4)
  moreover have "unat (crc32 ?b) < 2 ^ 32" using unsigned_less [of "crc32 ?b"] by simp
  then have "from_le (le_bytes 4 (unat (crc32 ?b))) = unat (crc32 ?b)" by (rule from_le_4)
  ultimately show ?thesis
    using b r by (subst scan_from.simps) (simp add: frame_def Let_def frame_ok_def add_ac)
qed

lemma scan_frames:
  assumes "\<And>r. r \<in> set rs \<Longrightarrow> frame_ok env lim r" and "limits_ok lim m" and "wal_codec_ok env"
  shows "scan_from env lim tail visit pos (frames env rs @ rest) s =
    sum_bind (fold_sum visit rs s) (scan_from env lim tail visit (pos + length (frames env rs)) rest)"
  using assms(1)
proof (induction rs arbitrary: pos s)
  case (Cons r rs)
  then show ?case
    using scan_frame [OF _ assms(2,3), of r tail visit pos "frames env rs @ rest" s]
    by (cases "visit s r") (simp_all add: add_ac)
qed simp

text \<open>Any beginning of a sequence of frames is some of the frames and a torn tail.\<close>

lemma prefix_frames:
  assumes "\<And>r. r \<in> set rs \<Longrightarrow> frame_ok env lim r" and "prefix b (frames env rs)"
  shows "\<exists>j t. j \<le> length rs \<and> b = frames env (take j rs) @ t \<and> torn env lim t"
  using assms
proof (induction rs arbitrary: b)
  case (Cons r rs)
  show ?case
  proof (cases "prefix (frame env r) b")
    case True
    then obtain b' where b: "b = frame env r @ b'" by (auto simp: prefix_def)
    then obtain j t where "j \<le> length rs" "b' = frames env (take j rs) @ t" "torn env lim t"
      using Cons.IH [of b'] Cons.prems by auto
    then show ?thesis using b by (intro exI [of _ "Suc j"] exI [of _ t]) simp
  next
    case False
    then have "strict_prefix b (frame env r)"
      using Cons.prems(2) by (auto simp: strict_prefix_def prefix_append dest: prefix_order.antisym)
    then show ?thesis using Cons.prems(1) by (intro exI [of _ 0] exI [of _ b]) (auto simp: torn_def)
  qed
qed (simp add: torn_def)

end
