(* ===== verification/Wal_View.thy ===== *)
theory Wal_View
  imports Wal_Records
begin

text \<open>
  What a sequence of records means: the watermark of every stream, the accepted submissions and the
  pending work. The two passes of the recovery compute this meaning, and the tables of a running
  handle are kept equal to it.
\<close>

declare map_of_eq_Some_iff [simp del] Some_eq_map_of_iff [simp del]

section \<open>The meaning of a sequence of records\<close>

definition read_record :: "wal_env \<Rightarrow> wal_record \<Rightarrow>
    wal_error + (wal_record option \<times> wal_receipt option \<times> trace_parent option)" where
  "read_record env r = sum_bind (causal_read r) (\<lambda>(r', p).
     sum_bind (submission_read env r') (\<lambda>(b, c). Inr (b, c, p)))"

definition ack_marks :: "wal_env \<Rightarrow> wal_record \<Rightarrow> (stream_id \<times> nat) list" where
  "ack_marks env r = (case read_record env r of
     Inr (Some b, _) \<Rightarrow> if wr_key b = ''#ack'' then [(stream_of b, wr_seq b)] else [] | _ \<Rightarrow> [])"

definition receipts_in :: "wal_env \<Rightarrow> wal_record \<Rightarrow> wal_receipt list" where
  "receipts_in env r = (case read_record env r of Inr (_, Some c, _) \<Rightarrow> [c] | _ \<Rightarrow> [])"

definition work_in :: "wal_env \<Rightarrow> wal_record \<Rightarrow> pending_record list" where
  "work_in env r = (case read_record env r of
     Inr (Some b, _, p) \<Rightarrow> if wr_key b \<noteq> ''#ack'' then [\<lparr>pr_record = b, pr_parent = p\<rparr>] else [] | _ \<Rightarrow> [])"

definition marks :: "wal_env \<Rightarrow> wal_record list \<Rightarrow> (stream_id \<times> nat) set" where
  "marks env rs = set (concat (map (ack_marks env) rs))"

definition rcpts :: "wal_env \<Rightarrow> wal_record list \<Rightarrow> wal_receipt set" where
  "rcpts env rs = set (concat (map (receipts_in env) rs))"

definition work :: "wal_env \<Rightarrow> wal_record list \<Rightarrow> pending_record list" where
  "work env rs = concat (map (work_in env) rs)"

definition peak :: "(stream_id \<times> nat) set \<Rightarrow> stream_id \<Rightarrow> nat option" where
  "peak M k = (if k \<in> fst ` M then Some (Max {n. (k, n) \<in> M}) else None)"

definition live :: "(stream_id \<times> nat) set \<Rightarrow> pending_record \<Rightarrow> bool" where
  "live M p \<longleftrightarrow> (case peak M (stream_of (pr_record p)) of None \<Rightarrow> True | Some n \<Rightarrow> n < wr_seq (pr_record p))"

type_synonym wal_view = "(stream_id \<Rightarrow> nat option) \<times> wal_receipt set \<times> pending_record list"

definition view :: "wal_env \<Rightarrow> wal_record list \<Rightarrow> wal_view" where
  "view env rs = (peak (marks env rs), rcpts env rs, filter (live (marks env rs)) (work env rs))"

lemma collect_simps [simp]:
  "marks env [] = {}" "marks env (r # rs) = set (ack_marks env r) \<union> marks env rs"
  "marks env (rs @ ss) = marks env rs \<union> marks env ss"
  "rcpts env [] = {}" "rcpts env (r # rs) = set (receipts_in env r) \<union> rcpts env rs"
  "rcpts env (rs @ ss) = rcpts env rs \<union> rcpts env ss"
  "work env [] = []" "work env (r # rs) = work_in env r @ work env rs"
  "work env (rs @ ss) = work env rs @ work env ss"
  "finite (marks env rs)" "finite (rcpts env rs)"
  by (auto simp: marks_def rcpts_def work_def)

lemma finite_row: "finite M \<Longrightarrow> finite {n. (k, n) \<in> M}"
  by (rule finite_subset [of _ "snd ` M"]) (auto intro: rev_image_eqI)

lemma peak_empty [simp]: "peak {} = Map.empty"
  by (simp add: peak_def fun_eq_iff)

lemma dom_peak [simp]: "dom (peak M) = fst ` M"
  by (simp add: dom_def peak_def)

lemma peak_None: "peak M k = None \<longleftrightarrow> k \<notin> fst ` M"
  by (simp add: peak_def)

lemma peak_Some:
  assumes "finite M"
  shows "peak M k = Some n \<longleftrightarrow> (k, n) \<in> M \<and> (\<forall>m. (k, m) \<in> M \<longrightarrow> m \<le> n)"
proof -
  have f: "finite {n. (k, n) \<in> M}" using assms by (rule finite_row)
  show ?thesis
  proof (cases "k \<in> fst ` M")
    case True
    then have "{n. (k, n) \<in> M} \<noteq> {}" by auto
    then show ?thesis using True f Max_eq_iff [OF f] by (auto simp: peak_def)
  qed (auto simp: peak_def rev_image_eqI)
qed

lemma peak_insert:
  assumes "finite M"
  shows "peak (insert (k, n) M) = (peak M)(k \<mapsto> (case peak M k of None \<Rightarrow> n | Some m \<Rightarrow> max m n))"
proof
  fix j
  have fi: "finite (insert (k, n) M)" using assms by simp
  show "peak (insert (k, n) M) j = ((peak M)(k \<mapsto> (case peak M k of None \<Rightarrow> n | Some m \<Rightarrow> max m n))) j"
  proof (cases "j = k")
    case True
    have "peak (insert (k, n) M) k = Some (case peak M k of None \<Rightarrow> n | Some m \<Rightarrow> max m n)"
    proof (cases "peak M k")
      case None
      then have "(k, m) \<notin> M" for m by (auto simp: peak_None rev_image_eqI)
      then show ?thesis using None by (simp add: peak_Some [OF fi])
    next
      case (Some a)
      then have "(k, a) \<in> M" "\<And>m. (k, m) \<in> M \<Longrightarrow> m \<le> a" by (simp_all add: peak_Some [OF assms])
      then show ?thesis using Some by (fastforce simp: peak_Some [OF fi] max_def)
    qed
    then show ?thesis using True by simp
  next
    case False
    then have "{m. (j, m) \<in> insert (k, n) M} = {m. (j, m) \<in> M}" "j \<in> fst ` insert (k, n) M \<longleftrightarrow> j \<in> fst ` M"
      by auto
    then show ?thesis using False by (simp add: peak_def)
  qed
qed

text \<open>Watermarks below the recorded ones add nothing.\<close>

lemma peak_absorb:
  assumes "finite M" "finite N" and "\<And>k n. (k, n) \<in> N \<Longrightarrow> \<exists>m. (k, m) \<in> M \<and> n \<le> m"
  shows "peak (N \<union> M) = peak M"
proof
  fix k
  have f: "finite (N \<union> M)" using assms by simp
  show "peak (N \<union> M) k = peak M k"
  proof (cases "peak M k")
    case None
    then have "k \<notin> fst ` (N \<union> M)" using assms(3) by (fastforce simp: peak_None rev_image_eqI)
    then show ?thesis using None by (metis peak_None)
  next
    case (Some n)
    then have n: "(k, n) \<in> M" "\<And>m. (k, m) \<in> M \<Longrightarrow> m \<le> n" by (simp_all add: peak_Some [OF assms(1)])
    have "m \<le> n" if "(k, m) \<in> N" for m
      using assms(3) [OF that] n(2) by (auto intro: order_trans)
    then have "peak (N \<union> M) k = Some n" using n by (auto simp: peak_Some [OF f])
    then show ?thesis using Some by simp
  qed
qed

section \<open>Budgets\<close>

definition stream_weight :: "wal_env \<Rightarrow> stream_id \<Rightarrow> nat" where
  "stream_weight env k = length (fst k) + length (snd k) + watermark_size env"

definition receipt_seq :: "wal_receipt \<Rightarrow> string \<times> string \<times> nat" where
  "receipt_seq c = (rc_endpoint c, rc_sender c, rc_seq c)"

definition receipt_size :: "wal_env \<Rightarrow> wal_receipt \<Rightarrow> nat" where
  "receipt_size env c = length (enc_record env (receipt_record env c)) + 8"

definition pending_memory :: "wal_env \<Rightarrow> pending_record list \<Rightarrow> nat" where
  "pending_memory env ps = sum_list (map (\<lambda>p. record_memory env (pr_record p)) ps)"

definition receipts_fit :: "wal_env \<Rightarrow> wal_limits \<Rightarrow> wal_receipt set \<Rightarrow> bool" where
  "receipts_fit env lim R \<longleftrightarrow> finite R \<and> inj_on receipt_id R \<and> inj_on receipt_seq R \<and>
     card R \<le> max_submission_receipts lim \<and> sum receipt_memory R \<le> max_submission_receipt_bytes lim \<and>
     sum (receipt_size env) R \<le> u64_max \<and>
     (\<forall>c \<in> R. frame_ok env lim (receipt_record env c) \<and>
        read_record env (receipt_record env c) = Inr (None, Some c, None))"

definition streams_fit :: "wal_env \<Rightarrow> wal_limits \<Rightarrow> stream_id set \<Rightarrow> bool" where
  "streams_fit env lim D \<longleftrightarrow> finite D \<and> card D \<le> max_streams lim \<and>
     sum (stream_weight env) D \<le> max_watermark_bytes lim"

definition pending_fit :: "wal_env \<Rightarrow> wal_limits \<Rightarrow> pending_record list \<Rightarrow> bool" where
  "pending_fit env lim ps \<longleftrightarrow> length ps \<le> max_pending_records lim \<and> pending_memory env ps \<le> max_pending_bytes lim"

definition readable_record :: "wal_env \<Rightarrow> wal_limits \<Rightarrow> wal_record \<Rightarrow> bool" where
  "readable_record env lim r \<longleftrightarrow> frame_ok env lim r \<and> (\<exists>x. read_record env r = Inr x)"

definition fits :: "wal_env \<Rightarrow> wal_limits \<Rightarrow> wal_record list \<Rightarrow> bool" where
  "fits env lim rs \<longleftrightarrow> (\<forall>r \<in> set rs. readable_record env lim r) \<and> receipts_fit env lim (rcpts env rs) \<and>
     streams_fit env lim (fst ` marks env rs) \<and> pending_fit env lim (filter (live (marks env rs)) (work env rs))"

lemma limits_bounds:
  assumes "limits_ok lim m"
  shows "max_watermark_bytes lim \<le> u64_max" "max_pending_bytes lim \<le> u64_max"
    "max_submission_receipt_bytes lim \<le> u64_max" "max_disk_bytes lim \<le> u64_max"
    "max_record_bytes lim \<le> default_payload"
  using assms by (auto simp: limits_ok_def isize_limit_def u64_max_def default_payload_def)

section \<open>The receipt index\<close>

definition index_ok :: "wal_env \<Rightarrow> receipt_index \<Rightarrow> wal_receipt set \<Rightarrow> bool" where
  "index_ok env ri R \<longleftrightarrow> finite R \<and> distinct (map fst (ri_entries ri)) \<and>
     (\<forall>(k, c) \<in> set (ri_entries ri). k = receipt_id c) \<and> snd ` set (ri_entries ri) = R \<and>
     fst ` set (ri_sequences ri) = receipt_seq ` R \<and>
     ri_bytes ri = sum receipt_memory R \<and> ri_checkpoint ri = sum (receipt_size env) R"

lemma index_ok_empty [simp]: "index_ok env receipt_index_default {}"
  by (simp add: index_ok_def receipt_index_default_def)

lemma index_entry:
  assumes "index_ok env ri R" "(k, c) \<in> set (ri_entries ri)"
  shows "k = receipt_id c \<and> c \<in> R"
  using assms(1) imageI [OF assms(2), of snd] bspec [of _ _ "(k, c)"] assms(2) by (auto simp: index_ok_def)

lemma index_lookup:
  assumes "index_ok env ri R"
  shows "map_of (ri_entries ri) k = Some c \<longleftrightarrow> c \<in> R \<and> k = receipt_id c"
proof
  assume "map_of (ri_entries ri) k = Some c"
  then have "(k, c) \<in> set (ri_entries ri)" by (rule map_of_SomeD)
  then show "c \<in> R \<and> k = receipt_id c" using index_entry [OF assms] by blast
next
  assume c: "c \<in> R \<and> k = receipt_id c"
  then obtain j where "(j, c) \<in> set (ri_entries ri)" using assms by (auto simp: index_ok_def)
  moreover from this have "j = receipt_id c" using index_entry [OF assms] by blast
  ultimately have "(k, c) \<in> set (ri_entries ri)" using c by simp
  then show "map_of (ri_entries ri) k = Some c"
    using assms by (intro map_of_is_SomeI) (auto simp: index_ok_def)
qed

lemma index_absent:
  assumes "index_ok env ri R" "inj_on receipt_id R"
  shows "map_of (ri_entries ri) k = None \<longleftrightarrow> k \<notin> receipt_id ` R"
proof -
  have "map_of (ri_entries ri) k = None \<longleftrightarrow> (\<forall>c. map_of (ri_entries ri) k \<noteq> Some c)"
    by (metis option.exhaust option.distinct(1))
  then show ?thesis using index_lookup [OF assms(1)] by auto
qed

lemma index_length:
  assumes "index_ok env ri R"
  shows "length (ri_entries ri) = card R"
proof -
  have d: "distinct (map fst (ri_entries ri))" using assms by (simp add: index_ok_def)
  have "inj_on snd (set (ri_entries ri))"
  proof (rule inj_onI)
    fix x y assume "x \<in> set (ri_entries ri)" "y \<in> set (ri_entries ri)" "snd x = snd y"
    then show "x = y" using index_entry [OF assms, of "fst x" "snd x"] index_entry [OF assms, of "fst y" "snd y"]
      by (metis prod.collapse)
  qed
  then have "card R = card (set (ri_entries ri))" using assms by (auto simp: index_ok_def card_image)
  also have "\<dots> = length (ri_entries ri)" using d by (simp add: distinct_card distinct_map)
  finally show ?thesis by simp
qed

lemma receipts_fit_mono: "receipts_fit env lim S \<Longrightarrow> R \<subseteq> S \<Longrightarrow> receipts_fit env lim R"
  unfolding receipts_fit_def
  by (meson card_mono finite_subset inj_on_subset order_trans subset_eq sum_mono2 zero_le)

lemma index_ok_insert:
  assumes ok: "index_ok env ri R" and new: "c \<notin> R" "receipt_id c \<notin> receipt_id ` R"
  shows "index_ok env \<lparr>ri_entries = AList.update (receipt_id c) c (ri_entries ri),
       ri_sequences = AList.update (receipt_seq c) i (ri_sequences ri),
       ri_bytes = ri_bytes ri + receipt_memory c, ri_checkpoint = ri_checkpoint ri + receipt_size env c\<rparr> (insert c R)"
proof -
  have "map_of (ri_entries ri) (receipt_id c) = None"
  proof (cases "map_of (ri_entries ri) (receipt_id c)")
    case (Some d)
    then show ?thesis using index_lookup [OF ok] new by blast
  qed
  then have "AList.update (receipt_id c) c (ri_entries ri) = ri_entries ri @ [(receipt_id c, c)]"
    by (rule update_new)
  moreover have "fst ` set (AList.update (receipt_seq c) i (ri_sequences ri)) = insert (receipt_seq c) (receipt_seq ` R)"
    using ok by (simp add: index_ok_def AList.dom_update)
  moreover have "receipt_id c \<notin> fst ` set (ri_entries ri)"
    using \<open>map_of (ri_entries ri) (receipt_id c) = None\<close> by (simp add: map_of_eq_None_iff)
  ultimately show ?thesis using ok new by (auto simp: index_ok_def)
qed

text \<open>A receipt that fits beside the others is inserted.\<close>

lemma receipt_insert_ok:
  assumes ok: "index_ok env ri R" and sub: "insert c R \<subseteq> S" and fit: "receipts_fit env lim S"
    and lim: "limits_ok lim m"
  shows "receipt_check env lim ri c = Inr ()"
    and "\<exists>ri'. receipt_insert env lim ri c = Inr ri' \<and> index_ok env ri' (insert c R)"
proof -
  have fitR: "receipts_fit env lim (insert c R)" using fit sub by (rule receipts_fit_mono)
  have size: "encoded_size env lim (receipt_record env c) = Inr (receipt_size env c)"
    using fitR by (simp add: receipts_fit_def frame_ok_def encoded_size_def receipt_size_def)
  have ins: "receipt_check env lim ri c = Inr () \<and>
      (\<exists>ri'. receipt_insert env lim ri c = Inr ri' \<and> index_ok env ri' (insert c R))"
  proof (cases "c \<in> R")
    case True
    then have "map_of (ri_entries ri) (receipt_id c) = Some c" using index_lookup [OF ok] by blast
    then show ?thesis using True ok by (simp add: receipt_check_def receipt_insert_def insert_absorb)
  next
    case False
    have inj: "inj_on receipt_id (insert c R)" "inj_on receipt_seq (insert c R)"
      using fitR by (auto simp: receipts_fit_def)
    then have new: "receipt_id c \<notin> receipt_id ` R" "receipt_seq c \<notin> receipt_seq ` R"
      using False by (auto simp: inj_on_def)
    have none: "map_of (ri_entries ri) (receipt_id c) = None"
      using new index_absent [OF ok inj_on_subset [OF inj(1)], of "receipt_id c"] by blast
    have seqs: "map_of (ri_sequences ri) (rc_endpoint c, rc_sender c, rc_seq c) = None"
      using new(2) ok by (simp add: map_of_eq_None_iff index_ok_def receipt_seq_def)
    have fin: "finite R" using ok by (simp add: index_ok_def)
    have sums: "ri_bytes ri + receipt_memory c \<le> max_submission_receipt_bytes lim"
      "ri_checkpoint ri + receipt_size env c \<le> u64_max" "length (ri_entries ri) < max_submission_receipts lim"
      using fitR False fin ok index_length [OF ok] by (auto simp: receipts_fit_def index_ok_def add.commute)
    then have "receipt_check env lim ri c = Inr ()"
      using limits_bounds [OF lim] none seqs size
      by (simp add: receipt_check_def checked_add_def)
    then show ?thesis
      using none size index_ok_insert [OF ok False new(1)] by (simp add: receipt_insert_def receipt_seq_def)
  qed
  then show "receipt_check env lim ri c = Inr ()" by blast
  show "\<exists>ri'. receipt_insert env lim ri c = Inr ri' \<and> index_ok env ri' (insert c R)" using ins by blast
qed

text \<open>A receipt that passes the check, and is not there yet, keeps the budgets.\<close>

lemma receipt_check_fits:
  assumes ok: "index_ok env ri R" and fit: "receipts_fit env lim R"
    and chk: "receipt_check env lim ri c = Inr ()" and new: "map_of (ri_entries ri) (receipt_id c) = None"
    and rd: "frame_ok env lim (receipt_record env c) \<Longrightarrow> read_record env (receipt_record env c) = Inr (None, Some c, None)"
    and fr: "rust_record (receipt_record env c)" "validate_record (receipt_record env c) True = Inr ()"
  shows "receipts_fit env lim (insert c R)"
proof -
  have size: "encoded_size env lim (receipt_record env c) = Inr (receipt_size env c)"
    and len: "length (enc_record env (receipt_record env c)) \<le> max_record_bytes lim"
    using chk new by (auto simp: receipt_check_def sum_bind_Inr encoded_size_def receipt_size_def split: if_splits)
  have b: "ri_bytes ri + receipt_memory c \<le> max_submission_receipt_bytes lim"
    "ri_checkpoint ri + receipt_size env c \<le> u64_max" "length (ri_entries ri) < max_submission_receipts lim"
    "map_of (ri_sequences ri) (receipt_seq c) = None"
    using chk new size
    by (auto simp: receipt_check_def receipt_seq_def checked_add_def split: if_splits option.splits)
  have i: "receipt_id c \<notin> receipt_id ` R" "receipt_seq c \<notin> receipt_seq ` R"
    using new b(4) index_absent [OF ok] fit ok by (auto simp: receipts_fit_def index_ok_def map_of_eq_None_iff)
  then have "c \<notin> R" by blast
  then show ?thesis
    using i b fit ok index_length [OF ok] len rd fr
    by (auto simp: receipts_fit_def index_ok_def frame_ok_def inj_on_insert add.commute)
qed

section \<open>The two passes of the recovery\<close>

definition acks_ok :: "wal_env \<Rightarrow> (stream_id \<times> nat) list \<Rightarrow> nat \<Rightarrow> (stream_id \<times> nat) set \<Rightarrow> bool" where
  "acks_ok env acked wm M \<longleftrightarrow> finite M \<and> distinct (map fst acked) \<and> map_of acked = peak M \<and>
     wm = sum (stream_weight env) (fst ` M)"

lemma acks_ok_empty [simp]: "acks_ok env [] 0 {}"
  by (simp add: acks_ok_def)

lemma acks_length: "acks_ok env acked wm M \<Longrightarrow> length acked = card (fst ` M)"
  by (metis acks_ok_def distinct_card dom_map_of_conv_image_fst dom_peak image_set length_map)

lemma acks_update:
  assumes ok: "acks_ok env acked wm M"
    and n: "n = (case peak M k of None \<Rightarrow> m | Some j \<Rightarrow> max j m)"
    and wm: "wm' = (if k \<in> fst ` M then wm else wm + stream_weight env k)"
  shows "acks_ok env (AList.update k n acked) wm' (insert (k, m) M)"
proof -
  have "map_of (AList.update k n acked) = peak (insert (k, m) M)"
    using ok n by (simp add: acks_ok_def peak_insert AList.update_conv')
  moreover have "wm' = sum (stream_weight env) (fst ` insert (k, m) M)"
    using ok wm by (auto simp: acks_ok_def insert_absorb add.commute)
  ultimately show ?thesis using ok by (simp add: acks_ok_def AList.distinct_update)
qed

lemma reserve_watermark_Inr:
  "reserve_watermark env lim wm e s = Inr n \<longleftrightarrow>
     n = wm + stream_weight env (e, s) \<and> n \<le> max_watermark_bytes lim \<and> n \<le> u64_max"
  by (auto simp: reserve_watermark_def stream_weight_def checked_add_def split: if_splits)

lemma streams_fit_mono: "streams_fit env lim D \<Longrightarrow> E \<subseteq> D \<Longrightarrow> streams_fit env lim E"
  unfolding streams_fit_def by (meson card_mono finite_subset order_trans sum_mono2 zero_le)

lemma visit_mark:
  assumes ok: "acks_ok env acked wm M" and fit: "streams_fit env lim (insert (stream_of b) (fst ` M))"
    and lim: "limits_ok lim m"
  shows "\<exists>acked' wm'. (case map_of acked (stream_of b) of
       Some n \<Rightarrow> Inr (AList.update (stream_of b) (max n (wr_seq b)) acked, wm, ri)
     | None \<Rightarrow>
         if length acked = max_streams lim then Inl Stream_Budget
         else sum_bind (reserve_watermark env lim wm (wr_endpoint b) (wr_sender b)) (\<lambda>wm.
           Inr (AList.update (stream_of b) (wr_seq b) acked, wm, ri))) = Inr (acked', wm', ri) \<and>
     acks_ok env acked' wm' (insert (stream_of b, wr_seq b) M)"
proof (cases "map_of acked (stream_of b)")
  case (Some n)
  then have p: "peak M (stream_of b) = Some n" using ok by (simp add: acks_ok_def)
  then have "stream_of b \<in> fst ` M" by (metis option.distinct(1) peak_None)
  then show ?thesis using Some p acks_update [OF ok, where n = "max n (wr_seq b)" and k = "stream_of b" and m = "wr_seq b" and wm' = wm] by simp
next
  case None
  then have p: "peak M (stream_of b) = None" using ok by (simp add: acks_ok_def)
  then have out: "stream_of b \<notin> fst ` M" by (simp add: peak_None)
  have fin: "finite (fst ` M)" using ok by (simp add: acks_ok_def)
  have "length acked < max_streams lim" "wm + stream_weight env (stream_of b) \<le> max_watermark_bytes lim"
    using fit out fin ok acks_length [OF ok] by (auto simp: streams_fit_def acks_ok_def add.commute)
  then have "reserve_watermark env lim wm (wr_endpoint b) (wr_sender b) = Inr (wm + stream_weight env (stream_of b))"
    using limits_bounds [OF lim] by (simp add: reserve_watermark_Inr stream_of_def)
  then show ?thesis
    using None \<open>length acked < max_streams lim\<close> p out
      acks_update [OF ok, where n = "wr_seq b" and k = "stream_of b" and m = "wr_seq b"
        and wm' = "wm + stream_weight env (stream_of b)"]
    by simp
qed

lemma visit_acks_ok:
  assumes acks: "acks_ok env acked wm M" and idx: "index_ok env ri R" and rd: "read_record env r = Inr x"
    and fitR: "receipts_fit env lim (R \<union> set (receipts_in env r))"
    and fitD: "streams_fit env lim (fst ` (M \<union> set (ack_marks env r)))" and lim: "limits_ok lim m"
  shows "\<exists>acked' wm' ri'. visit_acks env lim (acked, wm, ri) r = Inr (acked', wm', ri') \<and>
    acks_ok env acked' wm' (M \<union> set (ack_marks env r)) \<and> index_ok env ri' (R \<union> set (receipts_in env r))"
proof -
  obtain b c p where x: "x = (b, c, p)" by (cases x)
  obtain r' where c: "causal_read r = Inr (r', p)" "submission_read env r' = Inr (b, c)"
    using rd x by (auto simp: read_record_def sum_bind_Inr)
  obtain ri' where ri': "(case c of None \<Rightarrow> Inr ri | Some c \<Rightarrow> receipt_insert env lim ri c) = Inr ri'"
      "index_ok env ri' (R \<union> set (receipts_in env r))"
  proof (cases c)
    case (Some d)
    then have "receipts_in env r = [d]" using rd x by (simp add: receipts_in_def)
    then show ?thesis using that Some receipt_insert_ok(2) [OF idx subset_refl _ lim, of d] fitR by auto
  qed (use that idx rd x in \<open>simp add: receipts_in_def\<close>)
  show ?thesis
  proof (cases "\<exists>a. b = Some a \<and> wr_key a = ''#ack''")
    case True
    then obtain a where a: "b = Some a" "wr_key a = ''#ack''" by blast
    then have mk: "ack_marks env r = [(stream_of a, wr_seq a)]" using rd x by (simp add: ack_marks_def)
    have "streams_fit env lim (insert (stream_of a) (fst ` M))" using fitD mk by simp
    then obtain acked' wm' where v: "(case map_of acked (stream_of a) of
         Some n \<Rightarrow> Inr (AList.update (stream_of a) (max n (wr_seq a)) acked, wm, ri')
       | None \<Rightarrow>
           if length acked = max_streams lim then Inl Stream_Budget
           else sum_bind (reserve_watermark env lim wm (wr_endpoint a) (wr_sender a)) (\<lambda>wm.
             Inr (AList.update (stream_of a) (wr_seq a) acked, wm, ri'))) = Inr (acked', wm', ri')"
        "acks_ok env acked' wm' (insert (stream_of a, wr_seq a) M)"
      using visit_mark [OF acks _ lim, of a ri'] by blast
    have "visit_acks env lim (acked, wm, ri) r = Inr (acked', wm', ri')"
      unfolding v(1) [symmetric] using c ri'(1) a by (simp add: visit_acks_def)
    then show ?thesis using v(2) ri'(2) mk by simp
  next
    case False
    then have "ack_marks env r = []" using rd x by (auto simp: ack_marks_def split: option.splits)
    then show ?thesis using False c ri' acks by (auto simp: visit_acks_def split: option.splits)
  qed
qed

lemma acks_pass:
  assumes "acks_ok env acked wm M" and "index_ok env ri R" and "\<forall>r \<in> set rs. readable_record env lim r"
    and "receipts_fit env lim (R \<union> rcpts env rs)" and "streams_fit env lim (fst ` (M \<union> marks env rs))"
    and lim: "limits_ok lim m"
  shows "\<exists>acked' wm' ri'. fold_sum (visit_acks env lim) rs (acked, wm, ri) = Inr (acked', wm', ri') \<and>
    acks_ok env acked' wm' (M \<union> marks env rs) \<and> index_ok env ri' (R \<union> rcpts env rs)"
  using assms(1-5)
proof (induction rs arbitrary: acked wm ri M R)
  case (Cons r rs)
  let ?M = "M \<union> set (ack_marks env r)" and ?R = "R \<union> set (receipts_in env r)"
  obtain x where x: "read_record env r = Inr x" using Cons.prems(3) by (auto simp: readable_record_def)
  have fR: "receipts_fit env lim ?R" by (rule receipts_fit_mono [OF Cons.prems(4)]) auto
  have fD: "streams_fit env lim (fst ` ?M)" by (rule streams_fit_mono [OF Cons.prems(5)]) auto
  obtain acked' wm' ri' where v: "visit_acks env lim (acked, wm, ri) r = Inr (acked', wm', ri')"
      "acks_ok env acked' wm' ?M" "index_ok env ri' ?R"
    using visit_acks_ok [OF Cons.prems(1,2) x fR fD lim] by blast
  have eq: "M \<union> marks env (r # rs) = ?M \<union> marks env rs" "R \<union> rcpts env (r # rs) = ?R \<union> rcpts env rs" by auto
  show ?case
    using Cons.IH [OF v(2,3)] Cons.prems(3-5) v(1) unfolding eq by simp
qed simp

lemma pending_memory_append [simp]: "pending_memory env (ps @ qs) = pending_memory env ps + pending_memory env qs"
  by (simp add: pending_memory_def)

lemma reserve_pending_Inr:
  "reserve_pending env lim b n bytes = Inr k \<longleftrightarrow>
     n < max_pending_records lim \<and> k = bytes + record_memory env b \<and> k \<le> max_pending_bytes lim \<and> k \<le> u64_max"
  by (auto simp: reserve_pending_def checked_add_def)

lemma pending_fit_prefix: "pending_fit env lim (ps @ qs) \<Longrightarrow> pending_fit env lim ps"
  by (simp add: pending_fit_def)

lemma visit_pending_ok:
  assumes rd: "readable_record env lim r" and M: "map_of acked = peak M" and lim: "limits_ok lim m"
    and fit: "pending_fit env lim (ps @ filter (live M) (work_in env r))"
  shows "visit_pending env lim acked (ps, pending_memory env ps) r =
    Inr (ps @ filter (live M) (work_in env r), pending_memory env (ps @ filter (live M) (work_in env r)))"
proof -
  obtain b c p where x: "read_record env r = Inr (b, c, p)" using rd unfolding readable_record_def by (metis prod_cases3)
  then obtain r' where r': "causal_read r = Inr (r', p)" "submission_read env r' = Inr (b, c)"
    by (auto simp: read_record_def sum_bind_Inr)
  show ?thesis
  proof (cases b)
    case None
    then show ?thesis using x r' by (simp add: visit_pending_def work_in_def)
  next
    case (Some a)
    let ?p = "\<lparr>pr_record = a, pr_parent = p\<rparr>"
    have live: "live M ?p \<longleftrightarrow> (case map_of acked (stream_of a) of None \<Rightarrow> True | Some n \<Rightarrow> wr_seq a > n)"
      by (simp add: live_def M split: option.split)
    show ?thesis
    proof (cases "wr_key a \<noteq> ''#ack'' \<and> live M ?p")
      case True
      then have w: "filter (live M) (work_in env r) = [?p]" using x Some by (simp add: work_in_def)
      have "reserve_pending env lim a (length ps) (pending_memory env ps) = Inr (pending_memory env (ps @ [?p]))"
        using fit limits_bounds [OF lim] unfolding w
        by (simp add: reserve_pending_Inr pending_fit_def) (simp add: pending_memory_def)
      then show ?thesis using True live r' Some unfolding w by (simp add: visit_pending_def)
    next
      case False
      then have "filter (live M) (work_in env r) = []" using x Some by (auto simp: work_in_def)
      then show ?thesis using False live r' Some by (auto simp: visit_pending_def)
    qed
  qed
qed

lemma pending_pass:
  assumes M: "map_of acked = peak M" and lim: "limits_ok lim m" and rd: "\<forall>r \<in> set rs. readable_record env lim r"
    and fit: "pending_fit env lim (ps @ filter (live M) (work env rs))"
  shows "fold_sum (visit_pending env lim acked) rs (ps, pending_memory env ps) =
    Inr (ps @ filter (live M) (work env rs), pending_memory env (ps @ filter (live M) (work env rs)))"
  using rd fit
proof (induction rs arbitrary: ps)
  case (Cons r rs)
  let ?ps = "ps @ filter (live M) (work_in env r)"
  have "pending_fit env lim (?ps @ filter (live M) (work env rs))" using Cons.prems(2) by simp
  moreover from this have "pending_fit env lim ?ps" by (rule pending_fit_prefix)
  ultimately show ?case
    using visit_pending_ok [OF _ M lim, of env r ps] Cons.IH [of ?ps] Cons.prems(1) by simp
qed simp

end
