(* ===== verification/Wal_Disk.thy ===== *)
theory Wal_Disk
  imports Wal_View
begin

text \<open>
  The directory of a write-ahead log: the names of the segments read back as their numbers, and a
  directory that holds frames in consecutive segments, the last of them possibly torn, is opened
  with the meaning of its records.
\<close>

declare map_of_eq_Some_iff [simp del] Some_eq_map_of_iff [simp del]

section \<open>Segment names\<close>

lemma utf8_ascii: "(\<And>c. c \<in> set s \<Longrightarrow> (of_char c :: nat) < 128) \<Longrightarrow> utf8_valid s"
  unfolding utf8_valid_def by (induction s) (simp_all add: utf8_lead_def)

lemma dec_str_digits: "c \<in> set (dec_str n) \<Longrightarrow> 48 \<le> (of_char c :: nat) \<and> (of_char c :: nat) \<le> 57"
proof (induction n rule: dec_str.induct)
  case (1 n)
  have d: "(of_char (digit_char (n mod 10)) :: nat) = 48 + n mod 10" by (rule of_digit_char) simp
  show ?case
  proof (cases "n < 10")
    case True
    then show ?thesis using 1(2) by (simp add: dec_str.simps [of n] of_digit_char)
  next
    case False
    then have "c \<in> set (dec_str (n div 10)) \<or> c = digit_char (n mod 10)"
      using 1(2) by (auto simp: dec_str.simps [of n])
    then show ?thesis using 1(1) [OF False] d by auto
  qed
qed

lemma dec_str_ne [simp]: "dec_str n \<noteq> []"
  by (simp add: dec_str.simps [of n])

definition padded :: "nat \<Rightarrow> string" where
  "padded i = replicate (8 - length (dec_str i)) (CHR ''0'') @ dec_str i"

lemma segment_path_eq: "segment_path i = ''seg-'' @ padded i @ ''.log''"
  by (simp add: segment_path_def padded_def Let_def)

lemma padded_digits: "c \<in> set (padded i) \<Longrightarrow> 48 \<le> (of_char c :: nat) \<and> (of_char c :: nat) \<le> 57"
  using dec_str_digits by (auto simp: padded_def)

lemma dec_val_zeros: "dec_val (replicate k (CHR ''0'') @ s) = dec_val s"
proof -
  have "foldl (\<lambda>v c. 10 * v + ((of_char c :: nat) - 48)) 0 (replicate k (CHR ''0'')) = 0" by (induction k) simp_all
  then show ?thesis by (simp add: dec_val_def)
qed

lemma dec_val_padded [simp]: "dec_val (padded i) = i"
  by (simp add: padded_def dec_val_zeros)

lemma parse_padded: "i \<le> u64_max \<Longrightarrow> parse_u64 (padded i) = Some i"
proof -
  assume i: "i \<le> u64_max"
  obtain c cs where p: "padded i = c # cs" by (cases "padded i") (simp_all add: padded_def)
  have "c \<noteq> CHR ''+''" using padded_digits [of c i] p by auto
  then have "(case padded i of [] \<Rightarrow> [] | c # cs \<Rightarrow> if c = CHR ''+'' then cs else padded i) = padded i" by (simp add: p)
  moreover have "\<not> list_ex (\<lambda>c. (of_char c :: nat) < 48 \<or> (of_char c :: nat) > 57) (padded i)"
    using padded_digits [of _ i] by (auto simp: list_ex_iff not_less)
  ultimately show ?thesis using i by (simp add: parse_u64_def p [symmetric] Let_def) (simp add: p)
qed

definition seg_no :: "string \<Rightarrow> nat" where
  "seg_no name = the (Option.bind (strip_suffix ''.log'' (drop 4 name)) parse_u64)"

lemma strip_path: "strip_suffix ''.log'' (drop 4 (segment_path i)) = Some (padded i)"
  by (simp add: segment_path_eq strip_suffix_def suffix_def)

lemma seg_no_path [simp]: "i \<le> u64_max \<Longrightarrow> seg_no (segment_path i) = i"
  by (simp add: seg_no_def strip_path parse_padded)

lemma segment_path_inj [simp]: "segment_path i = segment_path j \<longleftrightarrow> i = j"
proof
  assume "segment_path i = segment_path j"
  then have "padded i = padded j" by (simp add: segment_path_eq)
  then show "i = j" by (metis dec_val_padded)
qed simp

lemma segment_path_props [simp]:
  "prefix ''seg-'' (segment_path i)" "utf8_valid (segment_path i)" "segment_path i \<noteq> lock_path"
proof -
  show "prefix ''seg-'' (segment_path i)" by (simp add: segment_path_eq)
  show "utf8_valid (segment_path i)"
    by (rule utf8_ascii) (auto simp: segment_path_eq dest!: padded_digits)
  show "segment_path i \<noteq> lock_path" by (simp add: segment_path_eq lock_path_def)
qed

lemma lock_path_props [simp]: "\<not> prefix ''seg-'' lock_path" "utf8_valid lock_path" "lock_path \<noteq> segment_path i"
proof -
  show "utf8_valid lock_path" by (rule utf8_ascii) (auto simp: lock_path_def)
  show "lock_path \<noteq> segment_path i" using segment_path_props(3) by metis
qed (simp add: lock_path_def)

section \<open>Directories\<close>

definition dir_ok :: "(string \<times> byte list) list \<Rightarrow> nat \<Rightarrow> nat \<Rightarrow> bool" where
  "dir_ok d lo n \<longleftrightarrow> distinct (map fst d) \<and> 1 \<le> lo \<and> lo + n \<le> Suc u64_max \<and>
     (\<forall>name \<in> set (map fst d). utf8_valid name \<and>
        (prefix ''seg-'' name \<longrightarrow> (\<exists>i. lo \<le> i \<and> i < lo + n \<and> name = segment_path i))) \<and>
     (\<forall>i. lo \<le> i \<longrightarrow> i < lo + n \<longrightarrow> segment_path i \<in> set (map fst d))"

lemma segment_entries:
  assumes "\<And>name. name \<in> set names \<Longrightarrow> utf8_valid name \<and>
      (prefix ''seg-'' name \<longrightarrow> (\<exists>i. 1 \<le> i \<and> i \<le> u64_max \<and> name = segment_path i))"
    and "length ids + length (filter (prefix ''seg-'') names) \<le> cap"
  shows "fold_sum (segment_entry cap) names ids = Inr (ids @ map seg_no (filter (prefix ''seg-'') names))"
  using assms
proof (induction names arbitrary: ids)
  case (Cons name names)
  show ?case
  proof (cases "prefix ''seg-'' name")
    case True
    then obtain i where i: "1 \<le> i" "i \<le> u64_max" "name = segment_path i" using Cons.prems(1) [of name] by auto
    have "length ids \<noteq> cap" using Cons.prems(2) True by simp
    then have "segment_entry cap ids name = Inr (ids @ [i])"
      using i by (simp add: segment_entry_def strip_path parse_padded)
    then show ?thesis using Cons.IH [of "ids @ [i]"] Cons.prems True i by simp
  next
    case False
    then have "segment_entry cap ids name = Inr ids"
      using Cons.prems(1) [of name] by (simp add: segment_entry_def)
    then show ?thesis using Cons.IH [of ids] Cons.prems False by simp
  qed
qed simp

lemma consecutive_upt: "lo + n \<le> Suc u64_max \<Longrightarrow> consecutive [lo..<lo + n]"
proof (induction n arbitrary: lo)
  case (Suc n)
  show ?case
  proof (cases n)
    case (Suc k)
    have "consecutive [Suc lo..<Suc lo + n]" using Suc.prems by (intro Suc.IH) simp
    moreover have "[lo..<lo + Suc n] = lo # Suc lo # [Suc (Suc lo)..<lo + Suc n]" using Suc by (simp add: upt_rec)
    moreover have "[Suc lo..<Suc lo + n] = Suc lo # [Suc (Suc lo)..<lo + Suc n]" using Suc by (simp add: upt_rec)
    ultimately show ?thesis using Suc.prems Suc by (simp add: checked_add_def)
  qed simp
qed simp

lemma listed_ids:
  assumes d: "dir_ok d lo n" and cap: "n \<le> cap"
  shows "sum_bind (fold_sum (segment_entry cap) (map fst d) []) (\<lambda>ids.
      if consecutive (sort ids) then Inr (sort ids) else Inl Segment_Gap) = Inr [lo..<lo + n]"
proof -
  let ?segs = "filter (prefix ''seg-'') (map fst d)"
  have names: "name \<in> set ?segs \<Longrightarrow> \<exists>i. lo \<le> i \<and> i < lo + n \<and> name = segment_path i" for name
    using d by (auto simp: dir_ok_def)
  have lo: "1 \<le> lo" "lo + n \<le> Suc u64_max" using d by (auto simp: dir_ok_def)
  have inv: "name \<in> set ?segs \<Longrightarrow> segment_path (seg_no name) = name \<and> lo \<le> seg_no name \<and> seg_no name < lo + n" for name
  proof -
    assume "name \<in> set ?segs"
    then obtain i where i: "lo \<le> i" "i < lo + n" "name = segment_path i" using names by blast
    then have "seg_no name = i" using lo by simp
    then show ?thesis using i by simp
  qed
  have "inj_on seg_no (set ?segs)" by (rule inj_on_inverseI [where g = segment_path]) (use inv in blast)
  moreover have "distinct ?segs" using d by (simp add: dir_ok_def)
  ultimately have dist: "distinct (map seg_no ?segs)" by (simp add: distinct_map)
  have set: "set (map seg_no ?segs) = {lo..<lo + n}"
  proof (intro set_eqI iffI)
    fix i assume "i \<in> set (map seg_no ?segs)"
    then obtain name where "name \<in> set ?segs" "i = seg_no name" by auto
    then show "i \<in> {lo..<lo + n}" using inv by auto
  next
    fix i assume i: "i \<in> {lo..<lo + n}"
    then have "segment_path i \<in> set ?segs" using d by (simp add: dir_ok_def)
    moreover have "seg_no (segment_path i) = i" using i lo by simp
    ultimately show "i \<in> set (map seg_no ?segs)" by (metis image_eqI set_map)
  qed
  have len: "length ?segs = n"
    using distinct_card [OF dist] unfolding set by simp
  have "fold_sum (segment_entry cap) (map fst d) [] = Inr ([] @ map seg_no ?segs)"
  proof (rule segment_entries)
    fix name assume name: "name \<in> set (map fst d)"
    have "\<exists>i. 1 \<le> i \<and> i \<le> u64_max \<and> name = segment_path i" if p: "prefix ''seg-'' name"
    proof -
      have "name \<in> set ?segs" using name p by simp
      then obtain i where "lo \<le> i" "i < lo + n" "name = segment_path i" using names by blast
      then show ?thesis using lo by (intro exI [of _ i]) simp
    qed
    then show "utf8_valid name \<and> (prefix ''seg-'' name \<longrightarrow> (\<exists>i. 1 \<le> i \<and> i \<le> u64_max \<and> name = segment_path i))"
      using name d by (auto simp: dir_ok_def)
  qed (use len cap in simp)
  moreover have "sort (map seg_no ?segs) = [lo..<lo + n]"
    using dist set by (intro sorted_distinct_set_unique) simp_all
  ultimately show ?thesis using consecutive_upt [OF lo(2)] by simp
qed

section \<open>Calls that succeed\<close>

lemma io_call_ok: "script s = [] \<Longrightarrow> io_call s = (Done, s)"
  by (simp add: io_call_def)

lemma plain_call_ok: "script s = [] \<Longrightarrow> plain_call s = (Inr (), s)"
  by (simp add: plain_call_def io_call_ok)

lemma read_file_ok: "script s = [] \<Longrightarrow> map_of (dir s) name = Some bs \<Longrightarrow> read_file name s = (Inr bs, s)"
  by (simp add: read_file_def io_call_ok)

lemma list_segments_ok:
  "script s = [] \<Longrightarrow> dir_ok (dir s) lo n \<Longrightarrow> n \<le> cap \<Longrightarrow> list_segments cap s = (Inr [lo..<lo + n], s)"
  by (simp add: list_segments_def then_do_def plain_call_ok listed_ids)

section \<open>Records on disk\<close>

definition seg_content :: "wal_env \<Rightarrow> wal_record list list \<Rightarrow> byte list \<Rightarrow> nat \<Rightarrow> byte list" where
  "seg_content env rss t i = frames env (rss ! i) @ (if Suc i = length rss then t else [])"

definition segs_on_disk :: "wal_env \<Rightarrow> (string \<times> byte list) list \<Rightarrow> nat \<Rightarrow> wal_record list list \<Rightarrow> byte list \<Rightarrow> bool" where
  "segs_on_disk env d lo rss t \<longleftrightarrow> rss \<noteq> [] \<and> dir_ok d lo (length rss) \<and>
     (\<forall>i < length rss. map_of d (segment_path (lo + i)) = Some (seg_content env rss t i))"

definition disk_size :: "wal_env \<Rightarrow> wal_record list list \<Rightarrow> byte list \<Rightarrow> nat" where
  "disk_size env rss t = length (frames env (concat rss)) + length t"

lemma seg_content_Suc: "rss \<noteq> [] \<Longrightarrow> seg_content env (rs # rss) t (Suc i) = seg_content env rss t i"
  by (simp add: seg_content_def)

lemma seg_content_first: "rss \<noteq> [] \<Longrightarrow> seg_content env (rs # rss) t 0 = frames env rs"
  by (simp add: seg_content_def)

lemma seg_content_size: "i < length rss \<Longrightarrow> length (seg_content env rss t i) \<le> disk_size env rss t"
proof (induction rss arbitrary: i)
  case (Cons rs rss)
  show ?case
  proof (cases i)
    case (Suc j)
    then have "rss \<noteq> []" using Cons.prems by auto
    then show ?thesis using Cons Suc by (force simp: seg_content_Suc disk_size_def)
  qed (simp add: seg_content_def disk_size_def)
qed simp

lemma upt_first: "[lo..<lo + length (rs # rss)] = lo # [Suc lo..<Suc lo + length rss]"
  by (subst upt_conv_Cons) (simp_all del: upt_Suc)

lemma measure_ok:
  assumes sc: "script s = []"
    and content: "\<forall>i < length rss. map_of (dir s) (segment_path (lo + i)) = Some (seg_content env rss t i)"
    and size: "k + disk_size env rss t \<le> max_disk_bytes lim" and lim: "limits_ok lim m" and ne: "rss \<noteq> []"
  shows "measure_segments lim [lo..<lo + length rss] k s = (Inr (k + disk_size env rss t), s)"
  using content size ne
proof (induction rss arbitrary: lo k)
  case (Cons rs rss)
  have bound: "max_disk_bytes lim \<le> u64_max" using limits_bounds [OF lim] by simp
  have read: "read_file (segment_path lo) s = (Inr (seg_content env (rs # rss) t 0), s)"
    using Cons.prems(1) by (intro read_file_ok [OF sc]) force
  show ?case
  proof (cases "rss = []")
    case True
    then show ?thesis using read Cons.prems(2) bound unfolding upt_first
      by (simp add: then_do_def result_def seg_content_def disk_size_def checked_add_def capped_def or_err_def add.assoc)
  next
    case False
    have c: "\<forall>i < length rss. map_of (dir s) (segment_path (Suc lo + i)) = Some (seg_content env rss t i)"
      using Cons.prems(1) False by (auto simp: seg_content_Suc dest: spec [of _ "Suc _"])
    have "k + length (frames env rs) \<le> max_disk_bytes lim" using Cons.prems(2) by (simp add: disk_size_def)
    then show ?thesis
      using read Cons.IH [OF c, of "k + length (frames env rs)"] Cons.prems(2) False bound unfolding upt_first
      by (simp add: then_do_def result_def seg_content_first disk_size_def checked_add_def capped_def or_err_def add_ac del: upt_Suc)
  qed
qed simp

definition torn_at :: "wal_env \<Rightarrow> nat \<Rightarrow> wal_record list list \<Rightarrow> byte list \<Rightarrow> torn_tail" where
  "torn_at env lo rss t = (if t = [] then None else
     Some (lo + length rss - 1, length (frames env (last rss)), length (frames env (last rss)) + length t))"

lemma scan_segments_ok:
  assumes sc: "script s = []"
    and content: "\<forall>i < length rss. map_of (dir s) (segment_path (lo + i)) = Some (seg_content env rss t i)"
    and size: "disk_size env rss t \<le> max_disk_bytes lim" and lim: "limits_ok lim m" and cd: "wal_codec_ok env"
    and rd: "\<forall>r \<in> set (concat rss). frame_ok env lim r" and t: "torn env lim t" and ne: "rss \<noteq> []"
    and fold: "fold_sum visit (concat rss) st = Inr st'"
  shows "scan_segments env lim visit (lo + length rss - 1) [lo..<lo + length rss] st None s =
    (Inr (st', torn_at env lo rss t), s)"
  using content size rd ne fold
proof (induction rss arbitrary: lo st)
  case (Cons rs rss)
  have read: "read_file (segment_path lo) s = (Inr (seg_content env (rs # rss) t 0), s)"
    using Cons.prems(1) by (intro read_file_ok [OF sc]) force
  have len: "length (seg_content env (rs # rss) t 0) \<le> max_disk_bytes lim"
    using seg_content_size [of 0 "rs # rss" env t] Cons.prems(2) by simp
  obtain st1 where st1: "fold_sum visit rs st = Inr st1" "fold_sum visit (concat rss) st1 = Inr st'"
    using Cons.prems(5) by (auto simp: fold_sum_append sum_bind_Inr)
  have ok: "r \<in> set rs \<Longrightarrow> frame_ok env lim r" for r using Cons.prems(3) by simp
  show ?case
  proof (cases "rss = []")
    case True
    have "scan_from env lim True visit 0 (frames env rs @ t) st = Inr (length (frames env rs), st1)"
      using scan_frames [OF ok lim cd, of rs True visit 0 t st] st1(1) scan_torn [OF t lim cd, of True visit] by simp
    then show ?thesis
      using True read len st1 unfolding upt_first by (simp add: then_do_def result_def scan_segment_def
        seg_content_def torn_at_def)
  next
    case False
    then have final: "lo \<noteq> lo + length rss" by simp
    have "scan_from env lim (lo = lo + length rss) visit 0 (frames env rs @ []) st = Inr (length (frames env rs), st1)"
      using scan_frames [OF ok lim cd, of rs "lo = lo + length rss" visit 0 "[]" st] st1(1)
      by (simp add: scan_from.simps [where rest = "[]"] Let_def)
    moreover have c: "\<forall>i < length rss. map_of (dir s) (segment_path (Suc lo + i)) = Some (seg_content env rss t i)"
      using Cons.prems(1) False by (auto simp: seg_content_Suc dest: spec [of _ "Suc _"])
    have "scan_segments env lim visit (Suc lo + length rss - 1) [Suc lo..<Suc lo + length rss] st1 None s =
        (Inr (st', torn_at env (Suc lo) rss t), s)"
      using Cons.prems(2,3) False st1(2) by (intro Cons.IH [OF c]) (auto simp: disk_size_def)
    moreover have "torn_at env lo (rs # rss) t = torn_at env (Suc lo) rss t" using False by (simp add: torn_at_def)
    ultimately show ?thesis
      using read len False unfolding upt_first
      by (simp add: then_do_def result_def scan_segment_def seg_content_first del: upt_Suc)
  qed
qed simp

section \<open>Changes of the directory\<close>

lemma dir_ok_keys: "map fst d = map fst d' \<Longrightarrow> dir_ok d lo n \<longleftrightarrow> dir_ok d' lo n"
  by (simp only: dir_ok_def)

lemma dir_ok_write:
  assumes "dir_ok d lo n" "lo \<le> i" "i < lo + n"
  shows "dir_ok (AList.update (segment_path i) bs d) lo n"
proof -
  have "segment_path i \<in> fst ` set d" using assms by (simp add: dir_ok_def)
  then have "map fst (AList.update (segment_path i) bs d) = map fst d" by (simp add: AList.update_keys)
  then show ?thesis using assms(1) dir_ok_keys by metis
qed

lemma dir_ok_lock:
  assumes "dir_ok d lo n"
  shows "dir_ok (AList.update lock_path bs d) lo n"
  using assms unfolding dir_ok_def
  by (auto simp: AList.distinct_update AList.dom_update)

lemma dir_ok_new:
  assumes "dir_ok d lo n" "lo + n \<le> u64_max"
  shows "dir_ok (AList.update (segment_path (lo + n)) bs d) lo (Suc n)"
  using assms unfolding dir_ok_def
  by (auto simp: AList.distinct_update AList.dom_update less_Suc_eq)

lemma dir_ok_gc:
  assumes d: "dir_ok d lo (Suc n)"
  shows "dir_ok (AList.delete (segment_path lo) d) (Suc lo) n"
proof -
  have keys: "set (map fst (AList.delete (segment_path lo) d)) = set (map fst d) - {segment_path lo}"
    by (simp add: AList.delete_keys)
  have "\<exists>i. Suc lo \<le> i \<and> i < Suc lo + n \<and> name = segment_path i"
    if n: "name \<in> set (map fst d)" "name \<noteq> segment_path lo" "prefix ''seg-'' name" for name
  proof -
    obtain i where "lo \<le> i" "i < lo + Suc n" "name = segment_path i" using d n by (auto simp: dir_ok_def)
    moreover from this have "i \<noteq> lo" using n(2) by auto
    ultimately show ?thesis by (intro exI [of _ i]) simp
  qed
  moreover have "distinct (map fst (AList.delete (segment_path lo) d))"
    using d by (simp add: dir_ok_def AList.distinct_delete)
  ultimately show ?thesis using d unfolding dir_ok_def keys by auto
qed

lemma segment_listed: "segs_on_disk env d lo rss t \<Longrightarrow> i < length rss \<Longrightarrow> map_of d (segment_path (lo + i)) = Some (seg_content env rss t i)"
  by (simp add: segs_on_disk_def)

lemma segs_on_disk_last:
  "segs_on_disk env d lo (rss @ [rs]) t \<Longrightarrow> map_of d (segment_path (lo + length rss)) = Some (frames env rs @ t)"
  using segment_listed [of env d lo "rss @ [rs]" t "length rss"] by (simp add: seg_content_def)

lemma segs_on_disk_write:
  assumes d: "segs_on_disk env d lo (rss @ [rs]) t"
  shows "segs_on_disk env (AList.update (segment_path (lo + length rss)) (frames env rs' @ t') d) lo (rss @ [rs']) t'"
proof -
  have "dir_ok (AList.update (segment_path (lo + length rss)) (frames env rs' @ t') d) lo (length (rss @ [rs']))"
    using d by (intro dir_ok_write) (auto simp: segs_on_disk_def)
  moreover have "map_of (AList.update (segment_path (lo + length rss)) (frames env rs' @ t') d) (segment_path (lo + i)) =
      Some (seg_content env (rss @ [rs']) t' i)" if i: "i < Suc (length rss)" for i
  proof (cases "i = length rss")
    case False
    then have "i < length rss" using i by simp
    then show ?thesis using segment_listed [OF d, of i] by (simp add: map_of_update seg_content_def nth_append)
  qed (simp add: map_of_update seg_content_def)
  ultimately show ?thesis by (simp add: segs_on_disk_def)
qed

lemma segs_on_disk_lock:
  assumes "segs_on_disk env d lo rss t"
  shows "segs_on_disk env (AList.update lock_path bs d) lo rss t"
proof -
  have "dir_ok (AList.update lock_path bs d) lo (length rss)" using assms by (intro dir_ok_lock) (simp add: segs_on_disk_def)
  then show ?thesis using assms by (simp add: segs_on_disk_def map_of_update)
qed

lemma segs_on_disk_new:
  assumes d: "segs_on_disk env d lo rss []" and b: "lo + length rss \<le> u64_max"
  shows "segs_on_disk env (AList.update (segment_path (lo + length rss)) [] d) lo (rss @ [[]]) []"
proof -
  have "dir_ok (AList.update (segment_path (lo + length rss)) [] d) lo (Suc (length rss))"
    using d b by (intro dir_ok_new) (auto simp: segs_on_disk_def)
  moreover have "map_of (AList.update (segment_path (lo + length rss)) [] d) (segment_path (lo + i)) =
      Some (seg_content env (rss @ [[]]) [] i)" if i: "i < Suc (length rss)" for i
  proof (cases "i = length rss")
    case False
    then have "i < length rss" using i by simp
    then show ?thesis using segment_listed [OF d, of i] by (simp add: map_of_update seg_content_def nth_append)
  qed (simp add: map_of_update seg_content_def)
  ultimately show ?thesis by (simp add: segs_on_disk_def)
qed

lemma segs_on_disk_gc:
  assumes d: "segs_on_disk env d lo (rs # rss) t" and ne: "rss \<noteq> []"
  shows "segs_on_disk env (AList.delete (segment_path lo) d) (Suc lo) rss t"
proof -
  have "dir_ok (AList.delete (segment_path lo) d) (Suc lo) (length rss)"
    using d by (intro dir_ok_gc) (simp add: segs_on_disk_def)
  moreover have "map_of (AList.delete (segment_path lo) d) (segment_path (Suc lo + i)) = Some (seg_content env rss t i)"
    if i: "i < length rss" for i
    using segment_listed [OF d, of "Suc i"] i ne by (simp add: map_of_delete seg_content_Suc)
  ultimately show ?thesis using ne by (simp add: segs_on_disk_def)
qed

lemma segs_on_disk_fresh_name: "dir_ok d lo n \<Longrightarrow> map_of d (segment_path (lo + n)) = None"
  unfolding dir_ok_def map_of_eq_None_iff by (force simp: image_iff)

section \<open>Opening\<close>

definition wal_inv :: "wal_env \<Rightarrow> wal \<Rightarrow> nat \<Rightarrow> wal_record list list \<Rightarrow> bool" where
  "wal_inv env w lo rss \<longleftrightarrow>
     segs_on_disk env (dir w) lo rss [] \<and> fits env (w_limits w) (concat rss) \<and>
     limits_ok (w_limits w) (w_segment_max w) \<and> \<not> w_failed w \<and>
     w_seg_id w = lo + length rss - 1 \<and> w_seg_bytes w = length (frames env (last rss)) \<and>
     w_disk_bytes w = disk_size env rss [] \<and> w_disk_bytes w \<le> max_disk_bytes (w_limits w) \<and>
     w_segments w = length rss \<and> length rss \<le> max_segments (w_limits w) \<and>
     acks_ok env (w_acked w) (w_watermark_bytes w) (marks env (concat rss)) \<and>
     index_ok env (w_receipts w) (rcpts env (concat rss)) \<and>
     w_pending w = filter (live (marks env (concat rss))) (work env (concat rss)) \<and>
     w_pending_bytes w = pending_memory env (w_pending w)"

definition contents :: "wal \<Rightarrow> wal_view" where
  "contents w = (map_of (w_acked w), snd ` set (ri_entries (w_receipts w)), w_pending w)"

lemma inv_contents: "wal_inv env w lo rss \<Longrightarrow> contents w = view env (concat rss)"
  by (simp add: wal_inv_def contents_def view_def acks_ok_def index_ok_def)

lemma lock_file_ok:
  assumes "script s = []" "segs_on_disk env (dir s) lo rss t"
  shows "\<exists>d. lock_file lock_path s = (Inr (), s\<lparr>dir := d\<rparr>) \<and> segs_on_disk env d lo rss t \<and>
    (\<forall>name. name \<noteq> lock_path \<longrightarrow> map_of d name = map_of (dir s) name)"
proof (cases "map_of (dir s) lock_path")
  case None
  then show ?thesis
    using assms by (intro exI [of _ "AList.update lock_path [] (dir s)"])
      (simp add: lock_file_def io_call_ok segs_on_disk_lock map_of_update)
next
  case (Some bs)
  then show ?thesis using assms by (intro exI [of _ "dir s"]) (simp add: lock_file_def io_call_ok)
qed

lemma passes_ok:
  assumes cd: "wal_codec_ok env" and lim: "limits_ok lim m" and fit: "fits env lim (concat rss)"
  obtains acked wm ri where
    "fold_sum (visit_acks env lim) (concat rss) ([], 0, receipt_index_default) = Inr (acked, wm, ri)"
    "acks_ok env acked wm (marks env (concat rss))" "index_ok env ri (rcpts env (concat rss))"
    "fold_sum (visit_pending env lim acked) (concat rss) ([], 0) =
       Inr (filter (live (marks env (concat rss))) (work env (concat rss)),
            pending_memory env (filter (live (marks env (concat rss))) (work env (concat rss))))"
proof -
  have rd: "\<forall>r \<in> set (concat rss). readable_record env lim r" using fit unfolding fits_def by blast
  obtain acked wm ri where a: "fold_sum (visit_acks env lim) (concat rss) ([], 0, receipt_index_default) = Inr (acked, wm, ri)"
      "acks_ok env acked wm (marks env (concat rss))" "index_ok env ri (rcpts env (concat rss))"
    using acks_pass [OF acks_ok_empty index_ok_empty rd _ _ lim] fit unfolding fits_def by auto
  have "map_of acked = peak (marks env (concat rss))" using a(2) by (simp add: acks_ok_def)
  then have "fold_sum (visit_pending env lim acked) (concat rss) ([], pending_memory env []) =
       Inr ([] @ filter (live (marks env (concat rss))) (work env (concat rss)),
            pending_memory env ([] @ filter (live (marks env (concat rss))) (work env (concat rss))))"
    using fit rd by (intro pending_pass [OF _ lim]) (simp_all add: fits_def)
  then show ?thesis using that [OF a] by (simp add: pending_memory_def)
qed

lemma repair_ok:
  assumes sc: "script s = []" and d: "segs_on_disk env (dir s) lo (rss @ [rs]) t"
  shows "\<exists>s'. repair (torn_at env lo (rss @ [rs]) t) s = (Inr (), s') \<and> script s' = [] \<and>
    segs_on_disk env (dir s') lo (rss @ [rs]) [] \<and>
    (t = [] \<longrightarrow> s' = s) \<and>
    (t \<noteq> [] \<longrightarrow> synced s' = AList.update (segment_path (lo + length rss)) (length (frames env rs)) (synced s))"
proof (cases "t = []")
  case True
  then show ?thesis using sc d by (simp add: repair_def torn_at_def result_def)
next
  case False
  let ?name = "segment_path (lo + length rss)"
  let ?s = "s\<lparr>dir := AList.update ?name (frames env rs) (dir s)\<rparr>"
  have "set_len ?name (length (frames env rs)) s = (Inr (), ?s)"
    using segs_on_disk_last [OF d] by (simp add: set_len_def io_call_ok [OF sc])
  moreover have "sync_file ?name ?s = (Inr (), ?s\<lparr>synced := AList.update ?name (length (frames env rs)) (synced s)\<rparr>)"
    using sc by (simp add: sync_file_def io_call_ok map_of_update)
  ultimately show ?thesis
    using False sc segs_on_disk_write [OF d, of rs "[]"] by (simp add: repair_def torn_at_def then_do_def)
qed

text \<open>
  A directory that holds recoverable records, with any torn tail, opens; the handle has the meaning
  of the complete records, and the tail is cut off.
\<close>

definition recoverable :: "wal_env \<Rightarrow> wal_limits \<Rightarrow> (string \<times> byte list) list \<Rightarrow> nat \<Rightarrow> wal_record list list \<Rightarrow>
    byte list \<Rightarrow> bool" where
  "recoverable env lim d lo rss t \<longleftrightarrow> segs_on_disk env d lo rss t \<and> torn env lim t \<and> fits env lim (concat rss) \<and>
     disk_size env rss t \<le> max_disk_bytes lim \<and> length rss \<le> max_segments lim \<and> lo + length rss \<le> u64_max"

lemma open_ok:
  assumes cd: "wal_codec_ok env" and lim: "limits_ok lim m" and sc: "script s = []"
    and rec: "recoverable env lim (dir s) lo (rss @ [rs]) t"
  shows "\<exists>w s'. open_with_limits env pid m lim s = (Inr w, s') \<and> wal_inv env w lo (rss @ [rs]) \<and>
    w_limits w = lim \<and> w_pid w = pid \<and> w_segment_max w = m \<and>
    synced w = (if t = [] then synced s
      else AList.update (segment_path (lo + length rss)) (length (frames env rs)) (synced s))"
proof -
  let ?rss = "rss @ [rs]"
  let ?ids = "[lo..<lo + length ?rss]"
  have fit: "fits env lim (concat ?rss)" and size: "disk_size env ?rss t \<le> max_disk_bytes lim"
    and n: "length ?rss \<le> max_segments lim" and bound: "lo + length ?rss \<le> u64_max" and t: "torn env lim t"
    using rec by (auto simp: recoverable_def)
  obtain d where lock: "lock_file lock_path s = (Inr (), s\<lparr>dir := d\<rparr>)" and d: "segs_on_disk env d lo ?rss t"
    using lock_file_ok [OF sc, of env lo ?rss t] rec by (auto simp: recoverable_def)
  let ?s = "s\<lparr>dir := d\<rparr>"
  have sc1: "script ?s = []" using sc by simp
  have content: "\<forall>i < length ?rss. map_of (dir ?s) (segment_path (lo + i)) = Some (seg_content env ?rss t i)"
    using d unfolding segs_on_disk_def by simp
  have fr: "\<forall>r \<in> set (concat ?rss). frame_ok env lim r" using fit by (auto simp: fits_def readable_record_def)
  have ids: "list_segments (max_segments lim) ?s = (Inr ?ids, ?s)"
    using d n by (intro list_segments_ok [OF sc1]) (auto simp: segs_on_disk_def)
  have total: "measure_segments lim ?ids 0 ?s = (Inr (disk_size env ?rss t), ?s)"
    using measure_ok [OF sc1 content _ lim, of 0] size by simp
  obtain acked wm ri where p:
      "fold_sum (visit_acks env lim) (concat ?rss) ([], 0, receipt_index_default) = Inr (acked, wm, ri)"
      "acks_ok env acked wm (marks env (concat ?rss))" "index_ok env ri (rcpts env (concat ?rss))"
      "fold_sum (visit_pending env lim acked) (concat ?rss) ([], 0) =
         Inr (filter (live (marks env (concat ?rss))) (work env (concat ?rss)),
              pending_memory env (filter (live (marks env (concat ?rss))) (work env (concat ?rss))))"
    using passes_ok [OF cd lim fit] by blast
  have last: "?ids \<noteq> []" "last ?ids = lo + length ?rss - 1" by simp_all
  have s1: "scan_segments env lim (visit_acks env lim) (last ?ids) ?ids ([], 0, receipt_index_default) None ?s =
      (Inr ((acked, wm, ri), torn_at env lo ?rss t), ?s)"
    unfolding last(2) by (rule scan_segments_ok [OF sc1 content size lim cd fr t _ p(1)]) simp
  have s2: "scan_segments env lim (visit_pending env lim acked) (last ?ids) ?ids ([], 0) None ?s =
      (Inr ((filter (live (marks env (concat ?rss))) (work env (concat ?rss)),
             pending_memory env (filter (live (marks env (concat ?rss))) (work env (concat ?rss)))),
            torn_at env lo ?rss t), ?s)"
    unfolding last(2) by (rule scan_segments_ok [OF sc1 content size lim cd fr t _ p(4)]) simp
  obtain s' where rep: "repair (torn_at env lo ?rss t) ?s = (Inr (), s')" "script s' = []"
      "segs_on_disk env (dir s') lo ?rss []"
      and sy: "synced s' = (if t = [] then synced s
        else AList.update (segment_path (lo + length rss)) (length (frames env rs)) (synced s))"
    using repair_ok [OF sc1, of env lo rss rs t] d by (auto split: if_splits)
  have rd: "read_file (segment_path (last ?ids)) s' = (Inr (frames env rs), s')"
    using segs_on_disk_last [OF rep(3)] by (intro read_file_ok [OF rep(2)]) simp
  have cut: "(case torn_at env lo ?rss t of None \<Rightarrow> disk_size env ?rss t
      | Some (_, good, len) \<Rightarrow> disk_size env ?rss t - (len - good)) = disk_size env ?rss []"
    by (simp add: torn_at_def disk_size_def)
  have next_id: "checked_add (last ?ids) 1 = Some (last ?ids + 1)"
    using bound unfolding last(2) by (simp add: checked_add_def)
  have "open_with_limits env pid m lim s =
     (Inr \<lparr>dir = dir s', synced = synced s', script = script s', w_pid = pid, w_segment_max = m,
       w_limits = lim, w_seg_id = last ?ids, w_seg_bytes = length (frames env rs),
       w_disk_bytes = disk_size env ?rss [], w_segments = length ?rss, w_failed = False, w_acked = acked,
       w_pending = filter (live (marks env (concat ?rss))) (work env (concat ?rss)),
       w_pending_bytes = pending_memory env (filter (live (marks env (concat ?rss))) (work env (concat ?rss))),
       w_watermark_bytes = wm, w_receipts = ri\<rparr>, s')"
    unfolding open_with_limits_def then_do_def [abs_def] Let_def
    using sc1 lim last(1)
    by (simp only: result_def guard_True plain_call_ok [OF sc] lock plain_call_ok [OF sc1] ids total s1 s2 rep(1)
        rd cut next_id or_err_Some plain_call_ok [OF rep(2)] if_False prod.case sum.case simp_thms)
      (simp add: max_def)
  moreover have "disk_size env ?rss [] \<le> max_disk_bytes lim" using size by (simp add: disk_size_def)
  ultimately show ?thesis
    using rep(3) fit lim n p last(2) sy by (simp add: wal_inv_def)
qed

end
