(* ===== verification/Wal_Operations.thy ===== *)
theory Wal_Operations
  imports Wal_Disk
begin

text \<open>
  The operations of a write-ahead log under every sequence of I/O outcomes: a successful operation
  keeps the handle equal to the meaning of the records on disk, and whatever an interrupted one
  leaves behind is recoverable with the meaning before or after the operation.
\<close>

declare map_of_eq_Some_iff [simp del] Some_eq_map_of_iff [simp del]

section \<open>The specification\<close>

text \<open>
  What an operation that is carried out does to the watermarks, the accepted submissions and the
  pending work.
\<close>

datatype wal_op = Submit wal_record "string option" "trace_parent option" | Ack string string nat | Sync

fun wal_spec :: "wal_env \<Rightarrow> wal_op \<Rightarrow> wal_view \<Rightarrow> wal_view" where
  "wal_spec env (Submit r request parent) (acks, rcs, ps) =
     (acks, (case request of None \<Rightarrow> rcs | Some i \<Rightarrow> insert (submission_receipt env r i) rcs),
      ps @ [\<lparr>pr_record = r, pr_parent = parent\<rparr>])"
| "wal_spec env (Ack e s n) (acks, rcs, ps) = (acks((e, s) \<mapsto> n), rcs, filter (\<lambda>p. \<not> acked_by e s n p) ps)"
| "wal_spec env Sync v = v"

text \<open>A directory from which the log recovers with a meaning in \<open>V\<close>.\<close>

definition settled :: "wal_env \<Rightarrow> wal_limits \<Rightarrow> (string \<times> byte list) list \<Rightarrow> wal_view set \<Rightarrow> bool" where
  "settled env lim d V \<longleftrightarrow>
     (\<exists>lo rss rs t. recoverable env lim d lo (rss @ [rs]) t \<and> view env (concat (rss @ [rs])) \<in> V)"

section \<open>Outcomes of the file system calls\<close>

lemma io_call_cases: obtains out sc where "io_call s = (out, s\<lparr>script := sc\<rparr>)"
proof (cases "script s")
  case Nil
  then have "io_call s = (Done, s\<lparr>script := []\<rparr>)" by (simp add: io_call_def)
  then show ?thesis by (rule that)
next
  case (Cons out sc)
  then have "io_call s = (out, s\<lparr>script := sc\<rparr>)" by (simp add: io_call_def)
  then show ?thesis by (rule that)
qed

lemma plain_call_run:
  assumes "plain_call s = (res, s')"
  obtains sc where "s' = s\<lparr>script := sc\<rparr>" "res = Inr () \<or> res = Inl Io"
proof -
  obtain out sc where "io_call s = (out, s\<lparr>script := sc\<rparr>)" by (rule io_call_cases)
  then have "s' = s\<lparr>script := sc\<rparr>" "res = Inr () \<or> res = Inl Io"
    using assms by (auto simp: plain_call_def split: io_out.splits)
  then show ?thesis by (rule that)
qed

lemma sync_file_run:
  assumes "sync_file name s = (res, s')" and "map_of (dir s) name = Some bs"
  obtains sc where "res = Inr ()" "s' = s\<lparr>script := sc, synced := AList.update name (length bs) (synced s)\<rparr>"
  | sc where "res = Inl Io" "s' = s\<lparr>script := sc\<rparr>"
proof -
  obtain out sc where "io_call s = (out, s\<lparr>script := sc\<rparr>)" by (rule io_call_cases)
  then show ?thesis
    using assms that by (cases out) (auto simp: sync_file_def)
qed

lemma create_file_run:
  assumes "create_file name s = (res, s')" and "map_of (dir s) name = None"
  obtains sc where "res = Inr ()" "s' = s\<lparr>script := sc, dir := AList.update name [] (dir s)\<rparr>"
  | sc where "res = Inl Io" "s' = s\<lparr>script := sc\<rparr>"
  | sc where "res = Inl Io" "s' = s\<lparr>script := sc, dir := AList.update name [] (dir s)\<rparr>"
proof -
  obtain out sc where "io_call s = (out, s\<lparr>script := sc\<rparr>)" by (rule io_call_cases)
  then show ?thesis
    using assms that by (cases out) (auto simp: create_file_def split: if_splits)
qed

lemma remove_file_run:
  assumes "remove_file name s = (res, s')" and "map_of (dir s) name \<noteq> None"
  obtains sc where "res = Inr ()"
      "s' = s\<lparr>script := sc, dir := AList.delete name (dir s), synced := AList.delete name (synced s)\<rparr>"
  | sc where "res = Inl Io" "s' = s\<lparr>script := sc\<rparr>"
proof -
  obtain out sc where "io_call s = (out, s\<lparr>script := sc\<rparr>)" by (rule io_call_cases)
  then show ?thesis
    using assms that by (cases out) (auto simp: remove_file_def)
qed

lemma list_segments_run:
  assumes "list_segments cap s = (res, s')" and "dir_ok (dir s) lo n" "n \<le> cap"
  obtains sc where "s' = s\<lparr>script := sc\<rparr>" "res = Inr [lo..<lo + n] \<or> res = Inl Io"
proof -
  obtain r1 s1 where p: "plain_call s = (r1, s1)" by force
  then obtain sc where s1: "s1 = s\<lparr>script := sc\<rparr>" "r1 = Inr () \<or> r1 = Inl Io" by (rule plain_call_run)
  have "s' = s1" "res = Inr [lo..<lo + n] \<or> res = Inl Io"
    using assms p s1 listed_ids [OF assms(2,3)] by (auto simp: list_segments_def then_do_def)
  then show ?thesis using s1(1) that by simp
qed

text \<open>A frame is written whole, in part, or whole with an error.\<close>

lemma torn_part:
  assumes "frame_ok env lim r"
  shows "take k (frame env r) = frame env r \<or> torn env lim (take k (frame env r))"
  using assms take_is_prefix [of k "frame env r"] by (auto simp: torn_def strict_prefix_def)

lemma write_frame_run:
  assumes run: "write_file (segment_path (lo + length rss)) (frame env r) s = (res, s')"
    and d: "segs_on_disk env (dir s) lo (rss @ [rs]) []" and fr: "frame_ok env lim r"
  obtains d' sc where "res = Inr ()" "s' = s\<lparr>script := sc, dir := d'\<rparr>" "segs_on_disk env d' lo (rss @ [rs @ [r]]) []"
  | d' sc j t where "res = Inl Io" "s' = s\<lparr>script := sc, dir := d'\<rparr>" "segs_on_disk env d' lo (rss @ [rs @ take j [r]]) t"
      "torn env lim t" "length (frames env (take j [r])) + length t \<le> length (frame env r)"
proof -
  let ?name = "segment_path (lo + length rss)"
  obtain out sc where io: "io_call s = (out, s\<lparr>script := sc\<rparr>)" by (rule io_call_cases)
  have old: "map_of (dir s) ?name = Some (frames env rs)" using segs_on_disk_last [OF d] by simp
  show ?thesis
  proof (cases out)
    case Done
    have "segs_on_disk env (AList.update ?name (frames env rs @ frame env r) (dir s)) lo (rss @ [rs @ [r]]) []"
      using segs_on_disk_write [OF d, of "rs @ [r]" "[]"] by simp
    then show ?thesis using that(1) run io old Done by (auto simp: write_file_def)
  next
    case (Fault k)
    let ?d = "AList.update ?name (frames env rs @ take k (frame env r)) (dir s)"
    have s': "res = Inl Io" "s' = s\<lparr>script := sc, dir := ?d\<rparr>"
      using run io old Fault by (auto simp: write_file_def)
    consider "take k (frame env r) = frame env r" | "torn env lim (take k (frame env r))" using torn_part [OF fr] by blast
    then show ?thesis
    proof cases
      case 1
      then have "segs_on_disk env ?d lo (rss @ [rs @ take 1 [r]]) []" using segs_on_disk_write [OF d, of "rs @ [r]" "[]"] by simp
      then show ?thesis using that(2) [OF s', of 1 "[]"] by (simp add: torn_def)
    next
      case 2
      have "segs_on_disk env ?d lo (rss @ [rs @ take 0 [r]]) (take k (frame env r))"
        using segs_on_disk_write [OF d, of rs "take k (frame env r)"] by simp
      then show ?thesis using that(2) [OF s' _ 2, of 0] by simp
    qed
  qed
qed

lemma write_records_run:
  assumes "write_records env lim (segment_path (lo + length rss)) qs s = (res, s')"
    and "segs_on_disk env (dir s) lo (rss @ [rs]) []" and "\<forall>q \<in> set qs. frame_ok env lim q"
  shows "\<exists>d' sc. s' = s\<lparr>script := sc, dir := d'\<rparr> \<and>
    (res = Inr () \<and> segs_on_disk env d' lo (rss @ [rs @ qs]) [] \<or>
     res = Inl Io \<and> (\<exists>j t. segs_on_disk env d' lo (rss @ [rs @ take j qs]) t \<and> torn env lim t \<and>
       length (frames env (take j qs)) + length t \<le> length (frames env qs)))"
  using assms
proof (induction qs arbitrary: s rs)
  case Nil
  then show ?case by (auto simp: result_def intro!: exI [of _ "dir s"] exI [of _ "script s"])
next
  case (Cons q qs)
  have fr: "frame_ok env lim q" using Cons.prems(3) by simp
  then have enc: "encode_record env lim q = Inr (frame env q)" by (simp add: encode_record_Inr frame_ok_def)
  obtain r1 s1 where w: "write_file (segment_path (lo + length rss)) (frame env q) s = (r1, s1)" by force
  show ?case
  proof (rule write_frame_run [OF w Cons.prems(2) fr])
    fix d' sc assume ok: "r1 = Inr ()" "s1 = s\<lparr>script := sc, dir := d'\<rparr>" "segs_on_disk env d' lo (rss @ [rs @ [q]]) []"
    have rest: "write_records env lim (segment_path (lo + length rss)) qs s1 = (res, s')"
      using Cons.prems(1) w ok(1) enc by (simp add: then_do_def result_def)
    have d1: "segs_on_disk env (dir s1) lo (rss @ [rs @ [q]]) []" using ok by simp
    obtain d2 sc2 where ih: "s' = s1\<lparr>script := sc2, dir := d2\<rparr>"
        "res = Inr () \<and> segs_on_disk env d2 lo (rss @ [(rs @ [q]) @ qs]) [] \<or>
         res = Inl Io \<and> (\<exists>j t. segs_on_disk env d2 lo (rss @ [(rs @ [q]) @ take j qs]) t \<and> torn env lim t \<and>
           length (frames env (take j qs)) + length t \<le> length (frames env qs))"
      using Cons.IH [OF rest d1] Cons.prems(3) by auto
    have s': "s' = s\<lparr>script := sc2, dir := d2\<rparr>" using ih(1) ok(2) by simp
    from ih(2) show ?thesis
    proof (elim disjE conjE exE)
      assume "res = Inr ()" "segs_on_disk env d2 lo (rss @ [(rs @ [q]) @ qs]) []"
      then show ?thesis using s' by (intro exI [of _ d2] exI [of _ sc2]) simp
    next
      fix j t assume j: "res = Inl Io" "segs_on_disk env d2 lo (rss @ [(rs @ [q]) @ take j qs]) t" "torn env lim t"
        "length (frames env (take j qs)) + length t \<le> length (frames env qs)"
      then have "segs_on_disk env d2 lo (rss @ [rs @ take (Suc j) (q # qs)]) t \<and> torn env lim t \<and>
          length (frames env (take (Suc j) (q # qs))) + length t \<le> length (frames env (q # qs))" by simp
      then show ?thesis using s' j(1) by blast
    qed
  next
    fix d' sc j t assume e: "r1 = Inl Io" "s1 = s\<lparr>script := sc, dir := d'\<rparr>" "segs_on_disk env d' lo (rss @ [rs @ take j [q]]) t"
      "torn env lim t" "length (frames env (take j [q])) + length t \<le> length (frame env q)"
    have r: "res = Inl Io" "s' = s\<lparr>script := sc, dir := d'\<rparr>"
      using Cons.prems(1) w e(1,2) enc by (auto simp: then_do_def result_def)
    have tk: "take (min j 1) (q # qs) = take j [q]" by (cases j) (simp_all add: min_def)
    have "segs_on_disk env d' lo (rss @ [rs @ take (min j 1) (q # qs)]) t \<and> torn env lim t \<and>
        length (frames env (take (min j 1) (q # qs))) + length t \<le> length (frames env (q # qs))"
      unfolding tk using e by simp
    then show ?thesis using r by blast
  qed
qed

section \<open>Submissions\<close>

definition submission_typed :: "wal_record \<Rightarrow> string option \<Rightarrow> trace_parent option \<Rightarrow> bool" where
  "submission_typed r request parent \<longleftrightarrow> rust_record r \<and> pred_option utf8_valid request \<and> pred_option trace_parent_ok parent"

lemma submit_plan_steps:
  assumes "submit_plan env pid r request parent w = Inr (Inr p)"
  obtains st stored where
    "validate_record r False = Inr ()" "\<not> w_failed w"
    "case map_of (w_acked w) (stream_of r) of None \<Rightarrow> True | Some n \<Rightarrow> n < wr_seq r"
    "case request of None \<Rightarrow> st = r \<and> ap_receipt p = None
      | Some i \<Rightarrow> \<exists>c. submission_wrap env r i = Inr (st, c) \<and> ap_receipt p = Some c \<and> validate_id i = Inr () \<and>
          map_of (ri_entries (w_receipts w)) (wr_endpoint r, wr_sender r, i) = None \<and>
          receipt_check env (w_limits w) (w_receipts w) c = Inr ()"
    "reserve_pending env (w_limits w) r (length (w_pending w)) (w_pending_bytes w) = Inr (ap_bytes p)"
    "causal_wrap st parent = Inr stored" "encode_record env (w_limits w) stored = Inr (ap_frame p)"
    "ensure_disk w (length (ap_frame p)) = Inr ()"
    "ap_rotate p \<longrightarrow> w_seg_id w \<noteq> u64_max \<and> w_segments w \<noteq> max_segments (w_limits w)"
proof -
  have chk: "check_state pid w = Inr ()" and v: "validate_record r False = Inr ()"
    using assms by (auto simp: submit_plan_def sum_bind_Inr)
  have hit: "(case request of None \<Rightarrow> Inr None | Some i \<Rightarrow> receipt_lookup env (w_receipts w) r i) = Inr None"
    using assms by (auto simp: submit_plan_def sum_bind_Inr split: option.splits)
  have new: "\<not> (case map_of (w_acked w) (stream_of r) of None \<Rightarrow> False | Some n \<Rightarrow> wr_seq r \<le> n)"
    using assms by (auto simp: submit_plan_def chk v hit split: if_splits)
  let ?wrap = "case request of
         None \<Rightarrow> Inr (r, None)
       | Some i \<Rightarrow> sum_bind (submission_wrap env r i) (\<lambda>(stored, c). Inr (stored, Some c))"
  obtain st rc bytes stored encoded where q: "?wrap = Inr (st, rc)"
      "(case rc of None \<Rightarrow> Inr () | Some c \<Rightarrow> receipt_check env (w_limits w) (w_receipts w) c) = Inr ()"
      "reserve_pending env (w_limits w) r (length (w_pending w)) (w_pending_bytes w) = Inr bytes"
      "causal_wrap st parent = Inr stored" "encode_record env (w_limits w) stored = Inr encoded"
      "ensure_disk w (length encoded) = Inr ()"
      and p: "ap_frame p = encoded" "ap_receipt p = rc" "ap_bytes p = bytes"
        "ap_rotate p \<longrightarrow> w_seg_id w \<noteq> u64_max \<and> w_segments w \<noteq> max_segments (w_limits w)"
    using assms new by (auto simp: submit_plan_def chk v hit sum_bind_Inr Let_def split: if_splits)
  have "case request of None \<Rightarrow> st = r \<and> ap_receipt p = None
      | Some i \<Rightarrow> \<exists>c. submission_wrap env r i = Inr (st, c) \<and> ap_receipt p = Some c \<and> validate_id i = Inr () \<and>
          map_of (ri_entries (w_receipts w)) (wr_endpoint r, wr_sender r, i) = None \<and>
          receipt_check env (w_limits w) (w_receipts w) c = Inr ()"
    using q(1,2) p(2) hit
    by (auto simp: sum_bind_Inr receipt_lookup_def split: option.splits if_splits)
  moreover have "case map_of (w_acked w) (stream_of r) of None \<Rightarrow> True | Some n \<Rightarrow> n < wr_seq r"
    using new by (auto split: option.splits)
  moreover have "\<not> w_failed w" using chk by (simp add: check_state_def split: if_splits)
  ultimately show ?thesis using that [of st stored] v q(3-6) p by simp
qed

lemma validated_key:
  assumes "validate_record r False = Inr ()"
  shows "\<not> causal_reserved (wr_key r)" "wr_key r \<noteq> accept_key" "wr_key r \<noteq> receipt_key" "wr_key r \<noteq> ''#ack''"
    "wr_key r \<noteq> []" "wr_seq r \<noteq> 0" "wr_endpoint r \<noteq> []" "wr_sender r \<noteq> []"
  using assms by (auto simp: validate_record_def submission_reserved_def)

text \<open>The stored form of a submission is read back as the submission, its receipt and its parent.\<close>

lemma causal_wrap_key:
  "causal_wrap st parent = Inr stored \<Longrightarrow> parent = None \<and> stored = st \<or> parent \<noteq> None \<and> wr_key stored = causal_key \<and>
    wr_endpoint stored = wr_endpoint st \<and> wr_sender stored = wr_sender st \<and> wr_path stored = wr_path st \<and>
    wr_seq stored = wr_seq st \<and> length (wr_payload st) \<le> length (wr_payload stored)"
  by (cases parent) (auto simp: causal_wrap_def sum_bind_Inr split: if_splits option.splits)

lemma stored_reads:
  assumes wrap: "causal_wrap st parent = Inr stored" and par: "pred_option trace_parent_ok parent"
    and key: "\<not> causal_reserved (wr_key st)" "utf8_valid (wr_key st)"
    and rd: "submission_read env st = Inr (b, c)"
  shows "read_record env stored = Inr (b, c, parent)"
proof (cases parent)
  case None
  then show ?thesis using wrap rd causal_read_plain [OF key(1)] by (simp add: causal_wrap_def read_record_def)
next
  case (Some q)
  then have "causal_read stored = Inr (st, Some q)" using causal_roundtrip wrap par key(2) by simp
  then show ?thesis using rd Some by (simp add: read_record_def)
qed

lemma receipt_readable:
  assumes cd: "wal_codec_ok env" and lim: "limits_ok lim m" and v: "validate_id (sr_request (rc_saved c)) = Inr ()"
    and u: "utf8_valid (sr_request (rc_saved c))" "length (sr_print (rc_saved c)) = 32"
    and fr: "frame_ok env lim (receipt_record env c)"
  shows "read_record env (receipt_record env c) = Inr (None, Some c, None)"
proof -
  have "length (wr_payload (receipt_record env c)) \<le> length (enc_record env (receipt_record env c))"
    using cd unfolding wal_codec_ok_def by blast
  also have "\<dots> \<le> default_payload" using fr limits_bounds [OF lim] by (simp add: frame_ok_def)
  finally have "submission_read env (receipt_record env c) = Inr (None, Some c)"
    by (rule receipt_roundtrip [OF cd v u])
  moreover have "causal_read (receipt_record env c) = Inr (receipt_record env c, None)"
    by (rule causal_read_plain) (simp add: receipt_record_def)
  ultimately show ?thesis by (simp add: read_record_def)
qed

lemma stored_readable:
  assumes cd: "wal_codec_ok env" and lim: "limits_ok lim m" and ty: "submission_typed r request parent"
    and v: "validate_record r False = Inr ()"
    and wrapped: "case request of None \<Rightarrow> st = r \<and> rc = None
      | Some i \<Rightarrow> \<exists>c. submission_wrap env r i = Inr (st, c) \<and> rc = Some c"
    and cw: "causal_wrap st parent = Inr stored" and enc: "encode_record env lim stored = Inr bs"
  shows "frame_ok env lim stored" "read_record env stored = Inr (Some r, rc, parent)"
proof -
  have len: "length (enc_record env stored) \<le> max_record_bytes lim" using enc by (simp add: encode_record_Inr)
  have st: "wr_endpoint st = wr_endpoint r" "wr_sender st = wr_sender r" "wr_path st = wr_path r" "wr_seq st = wr_seq r"
    "\<not> causal_reserved (wr_key st)" "utf8_valid (wr_key st)" "wr_key st \<noteq> []" "wr_key st \<noteq> ''#ack''"
    using wrapped validated_key [OF v] ty
    by (auto simp: submission_wrap_def sum_bind_Inr submission_typed_def rust_record_def split: option.splits)
  have "rust_record stored" "validate_record stored True = Inr ()"
    using causal_wrap_key [OF cw] st ty validated_key [OF v] keys_differ(10,11) [symmetric]
    by (auto simp: rust_record_def submission_typed_def validate_record_def)
  then show "frame_ok env lim stored" using len by (simp add: frame_ok_def)
  have "length (wr_payload st) \<le> length (wr_payload stored)" using causal_wrap_key [OF cw] by auto
  also have "\<dots> \<le> length (enc_record env stored)" using cd unfolding wal_codec_ok_def by blast
  also have "\<dots> \<le> default_payload" using len limits_bounds [OF lim] by simp
  finally have pay: "length (wr_payload st) \<le> default_payload" .
  have "submission_read env st = Inr (Some r, rc)"
  proof (cases request)
    case None
    then show ?thesis using wrapped validated_key [OF v] by (simp add: submission_read_def)
  next
    case (Some i)
    then obtain c where "submission_wrap env r i = Inr (st, c)" "rc = Some c" using wrapped by auto
    then show ?thesis using submission_roundtrip(1) [OF _ cd _ _ pay] ty Some by (simp add: submission_typed_def rust_record_def)
  qed
  then show "read_record env stored = Inr (Some r, rc, parent)"
    using stored_reads [OF cw _ st(5,6)] ty by (simp add: submission_typed_def)
qed

lemma submit_plan_ok:
  assumes cd: "wal_codec_ok env" and inv: "wal_inv env w lo rss" and ty: "submission_typed r request parent"
    and plan: "submit_plan env pid r request parent w = Inr (Inr p)"
  obtains stored ri where
    "ap_frame p = frame env stored" "frame_ok env (w_limits w) stored"
    "fits env (w_limits w) (concat rss @ [stored])"
    "view env (concat rss @ [stored]) = wal_spec env (Submit r request parent) (contents w)"
    "marks env [stored] = {}" "work env (concat rss @ [stored]) = work env (concat rss) @ [\<lparr>pr_record = r, pr_parent = parent\<rparr>]"
    "live (marks env (concat rss)) \<lparr>pr_record = r, pr_parent = parent\<rparr>"
    "case ap_receipt p of None \<Rightarrow> ri = w_receipts w | Some c \<Rightarrow> receipt_insert env (w_limits w) (w_receipts w) c = Inr ri"
    "index_ok env ri (rcpts env (concat rss @ [stored]))"
    "ap_bytes p = pending_memory env (w_pending w @ [\<lparr>pr_record = r, pr_parent = parent\<rparr>])"
    "w_disk_bytes w + length (frame env stored) \<le> max_disk_bytes (w_limits w)"
    "ap_rotate p \<longrightarrow> w_segments w \<noteq> max_segments (w_limits w)"
proof -
  let ?lim = "w_limits w" and ?M = "marks env (concat rss)" and ?R = "rcpts env (concat rss)"
  let ?pr = "\<lparr>pr_record = r, pr_parent = parent\<rparr>"
  have lim: "limits_ok ?lim (w_segment_max w)" and fit: "fits env ?lim (concat rss)"
    and idx: "index_ok env (w_receipts w) ?R" and acked: "map_of (w_acked w) = peak ?M"
    and pend: "w_pending w = filter (live ?M) (work env (concat rss))" "w_pending_bytes w = pending_memory env (w_pending w)"
    using inv by (auto simp: wal_inv_def acks_ok_def)
  obtain st stored where s: "validate_record r False = Inr ()"
    "case map_of (w_acked w) (stream_of r) of None \<Rightarrow> True | Some n \<Rightarrow> n < wr_seq r"
    "case request of None \<Rightarrow> st = r \<and> ap_receipt p = None
      | Some i \<Rightarrow> \<exists>c. submission_wrap env r i = Inr (st, c) \<and> ap_receipt p = Some c \<and> validate_id i = Inr () \<and>
          map_of (ri_entries (w_receipts w)) (wr_endpoint r, wr_sender r, i) = None \<and>
          receipt_check env (w_limits w) (w_receipts w) c = Inr ()"
    "reserve_pending env ?lim r (length (w_pending w)) (w_pending_bytes w) = Inr (ap_bytes p)"
    "causal_wrap st parent = Inr stored" "encode_record env ?lim stored = Inr (ap_frame p)"
    "ensure_disk w (length (ap_frame p)) = Inr ()"
    "ap_rotate p \<longrightarrow> w_seg_id w \<noteq> u64_max \<and> w_segments w \<noteq> max_segments ?lim"
    by (rule submit_plan_steps [OF plan]) blast
  have wrapped: "case request of None \<Rightarrow> st = r \<and> ap_receipt p = None
      | Some i \<Rightarrow> \<exists>c. submission_wrap env r i = Inr (st, c) \<and> ap_receipt p = Some c"
    using s(3) by (auto split: option.splits)
  note rd = stored_readable [OF cd lim ty s(1) wrapped s(5,6)]
  have mk: "ack_marks env stored = []" "work_in env stored = [?pr]"
    "receipts_in env stored = (case ap_receipt p of None \<Rightarrow> [] | Some c \<Rightarrow> [c])"
    using rd(2) validated_key(4) [OF s(1)] by (simp_all add: ack_marks_def work_in_def receipts_in_def split: option.splits)
  have live: "live ?M ?pr" using s(2) acked by (simp add: live_def split: option.splits)
  have bytes: "ap_bytes p = pending_memory env (w_pending w @ [?pr])"
    and pf: "pending_fit env ?lim (w_pending w @ [?pr])"
    using s(4) pend(2) by (auto simp: reserve_pending_Inr pending_fit_def pending_memory_def)
  obtain ri where ri: "case ap_receipt p of None \<Rightarrow> ri = w_receipts w
        | Some c \<Rightarrow> receipt_insert env (w_limits w) (w_receipts w) c = Inr ri"
      "index_ok env ri (?R \<union> set (receipts_in env stored))" "receipts_fit env ?lim (?R \<union> set (receipts_in env stored))"
  proof (cases request)
    case None
    then have "ap_receipt p = None" using s(3) by simp
    then show ?thesis using that [of "w_receipts w"] idx fit mk(3) by (simp add: fits_def)
  next
    case (Some i)
    then obtain c where c: "submission_wrap env r i = Inr (st, c)" "ap_receipt p = Some c" "validate_id i = Inr ()"
        "map_of (ri_entries (w_receipts w)) (wr_endpoint r, wr_sender r, i) = None"
        "receipt_check env ?lim (w_receipts w) c = Inr ()"
      using s(3) by auto
    have ceq: "c = submission_receipt env r i" using c(1) by (auto simp: submission_wrap_def sum_bind_Inr)
    have u: "utf8_valid i" "rust_record r" using ty Some by (auto simp: submission_typed_def)
    have rr: "rust_record (receipt_record env c)" "validate_record (receipt_record env c) True = Inr ()"
      using u(2) validated_key [OF s(1)]
      by (auto simp: ceq receipt_record_def submission_receipt_def rust_record_def validate_record_def)
    have "receipts_fit env ?lim (insert c ?R)"
    proof (rule receipt_check_fits [OF idx _ c(5) _ _ rr])
      show "receipts_fit env ?lim ?R" using fit by (simp add: fits_def)
      show "map_of (ri_entries (w_receipts w)) (receipt_id c) = None"
        using c(4) by (simp add: ceq receipt_id_def submission_receipt_def)
      show "read_record env (receipt_record env c) = Inr (None, Some c, None)" if "frame_ok env ?lim (receipt_record env c)"
        using cd c(3) u(1) that by (intro receipt_readable [OF cd lim])
          (auto simp: ceq submission_receipt_def wal_codec_ok_def fingerprint_def)
    qed
    moreover from receipt_insert_ok(2) [OF idx subset_refl this lim]
    obtain ri where "receipt_insert env ?lim (w_receipts w) c = Inr ri" "index_ok env ri (insert c ?R)" by blast
    ultimately show ?thesis using that [of ri] c(2) mk(3) by simp
  qed
  have fits: "fits env ?lim (concat rss @ [stored])"
    using fit rd ri(3) pf mk live pend(1) by (auto simp: fits_def readable_record_def Un_commute)
  have rc: "ap_receipt p = map_option (submission_receipt env r) request"
    using s(3) by (auto simp: submission_wrap_def sum_bind_Inr split: option.splits)
  have view: "view env (concat rss @ [stored]) = wal_spec env (Submit r request parent) (contents w)"
    using mk live unfolding inv_contents [OF inv] by (cases request) (auto simp: view_def rc)
  have "ap_frame p = frame env stored" using s(6) by (simp add: encode_record_Inr)
  then show ?thesis
    using that [of stored ri, OF _ rd(1) fits view] mk live ri bytes s(7,8)
    by (auto simp: ensure_disk_def checked_add_def sum_bind_Inr split: if_splits)
qed

text \<open>Which fields an operation never changes.\<close>

definition same_handle :: "wal \<Rightarrow> wal \<Rightarrow> bool" where
  "same_handle w w' \<longleftrightarrow> w_limits w' = w_limits w \<and> w_segment_max w' = w_segment_max w \<and> w_pid w' = w_pid w"

lemma roll_run:
  assumes inv: "wal_inv env w lo (rss @ [rs])" and room: "w_seg_id w + 2 \<le> u64_max"
    and segs: "w_segments w \<noteq> max_segments (w_limits w)" and run: "roll w = (res, w')"
  shows "same_handle w w' \<and>
    (res = Inr () \<and> wal_inv env w' lo (rss @ [rs, []]) \<and>
       synced w' = AList.update (segment_path (lo + length rss)) (length (frames env rs)) (synced w) \<or>
     res = Inl Io \<and> (\<exists>rss'. rss' \<in> {[], [[]]} \<and> segs_on_disk env (dir w') lo (rss @ [rs] @ rss') []))"
proof -
  have d: "segs_on_disk env (dir w) lo (rss @ [rs]) []" and sid: "w_seg_id w = lo + length rss"
    using inv by (auto simp: wal_inv_def)
  have bound: "lo + length (rss @ [rs]) \<le> u64_max" using room sid by simp
  have sz: "map_of (dir w) (segment_path (lo + length rss)) = Some (frames env rs)" using segs_on_disk_last [OF d] by simp
  obtain r2 w2 where w2: "sync_file (segment_path (lo + length rss)) w = (r2, w2)" by force
  show ?thesis
  proof (rule sync_file_run [OF w2 sz])
    fix sc2 assume f: "r2 = Inl Io" "w2 = w\<lparr>script := sc2\<rparr>"
    have "res = Inl Io" "w' = w2" using run w2 f(1) sid by (auto simp: roll_def then_do_def)
    then show ?thesis using f(2) d by (intro conjI disjI2 exI [of _ "[]"]) (auto simp: same_handle_def)
  next
    fix sc2 assume s2: "r2 = Inr ()" "w2 = w\<lparr>script := sc2,
        synced := AList.update (segment_path (lo + length rss)) (length (frames env rs)) (synced w)\<rparr>"
    have none: "map_of (dir w2) (segment_path (lo + length (rss @ [rs]))) = None"
      using d s2(2) by (intro segs_on_disk_fresh_name) (simp add: segs_on_disk_def)
    have newd: "segs_on_disk env (AList.update (segment_path (lo + length (rss @ [rs]))) [] (dir w2)) lo (rss @ [rs] @ [[]]) []"
      using segs_on_disk_new [OF d bound] s2(2) by simp
    obtain r3 w3 where w3: "create_file (segment_path (lo + length (rss @ [rs]))) w2 = (r3, w3)" by force
    show ?thesis
    proof (rule create_file_run [OF w3 none])
      fix sc3 assume f: "r3 = Inl Io" "w3 = w2\<lparr>script := sc3\<rparr>"
      have "res = Inl Io" "w' = w3" using run w2 s2(1) w3 f(1) sid by (auto simp: roll_def then_do_def)
      then show ?thesis using f(2) s2(2) d by (intro conjI disjI2 exI [of _ "[]"]) (auto simp: same_handle_def)
    next
      fix sc3 assume f: "r3 = Inl Io" "w3 = w2\<lparr>script := sc3,
          dir := AList.update (segment_path (lo + length (rss @ [rs]))) [] (dir w2)\<rparr>"
      have "res = Inl Io" "w' = w3" using run w2 s2(1) w3 f(1) sid by (auto simp: roll_def then_do_def)
      then show ?thesis using f(2) s2(2) newd by (intro conjI disjI2 exI [of _ "[[]]"]) (auto simp: same_handle_def)
    next
      fix sc3 assume c: "r3 = Inr ()" "w3 = w2\<lparr>script := sc3,
          dir := AList.update (segment_path (lo + length (rss @ [rs]))) [] (dir w2)\<rparr>"
      obtain r4 w4 where w4: "plain_call w3 = (r4, w4)" by force
      obtain sc4 where c4: "w4 = w3\<lparr>script := sc4\<rparr>" "r4 = Inr () \<or> r4 = Inl Io" by (rule plain_call_run [OF w4])
      have dw4: "segs_on_disk env (dir w4) lo (rss @ [rs] @ [[]]) []" using newd c4(1) c(2) by simp
      from c4(2) show ?thesis
      proof
        assume f: "r4 = Inl Io"
        have "res = Inl Io" "w' = w4" using run w2 s2(1) w3 c(1) w4 f sid by (auto simp: roll_def then_do_def)
        then show ?thesis
          using dw4 c4(1) c(2) s2(2) by (intro conjI disjI2 exI [of _ "[[]]"]) (auto simp: same_handle_def)
      next
        assume f: "r4 = Inr ()"
        let ?w5 = "w4\<lparr>w_seg_id := w_seg_id w4 + 1, w_seg_bytes := 0, w_segments := w_segments w4 + 1\<rparr>"
        have r: "res = Inr ()" "w' = ?w5"
          using run w2 s2(1) w3 c(1) w4 f sid by (auto simp: roll_def then_do_def modify_def)
        moreover have "wal_inv env ?w5 lo (rss @ [rs, []])"
          using inv dw4 c4(1) c(2) s2(2) segs unfolding wal_inv_def
          by (simp add: disk_size_def del: pending_memory_append)
        moreover have "synced ?w5 = AList.update (segment_path (lo + length rss)) (length (frames env rs)) (synced w)"
            "same_handle w ?w5"
          using c4(1) c(2) s2(2) by (simp_all add: same_handle_def)
        ultimately show ?thesis by simp
      qed
    qed
  qed
qed

lemma append_run:
  assumes cd: "wal_codec_ok env" and inv: "wal_inv env w lo (rss @ [rs])" and ty: "submission_typed r request parent"
    and plan: "submit_plan env pid r request parent w = Inr (Inr p)" and room: "w_seg_id w + 2 \<le> u64_max"
    and run: "poison (append_commit env r parent p) w = (res, w')"
  shows "same_handle w w'"
    and "res = Inr (wr_seq r, True) \<and> (\<exists>stored.
        wal_spec env (Submit r request parent) (contents w) = view env (concat (rss @ [rs @ [stored]])) \<and>
        (wal_inv env w' lo (rss @ [rs @ [stored]]) \<and> synced w' = synced w \<or>
         wal_inv env w' lo (rss @ [rs @ [stored], []]) \<and>
         synced w' = AList.update (segment_path (lo + length rss)) (length (frames env (rs @ [stored]))) (synced w))) \<or>
      res = Inl Io \<and> w_failed w' \<and>
        settled env (w_limits w) (dir w') {contents w, wal_spec env (Submit r request parent) (contents w)}"
proof -
  let ?lim = "w_limits w" and ?pr = "\<lparr>pr_record = r, pr_parent = parent\<rparr>"
  let ?V = "contents w" and ?V' = "wal_spec env (Submit r request parent) (contents w)"
  let ?recs = "concat (rss @ [rs])"
  obtain stored ri where a: "ap_frame p = frame env stored" "frame_ok env ?lim stored"
    "fits env ?lim (?recs @ [stored])" "view env (?recs @ [stored]) = ?V'" "marks env [stored] = {}"
    "work env (?recs @ [stored]) = work env ?recs @ [?pr]" "live (marks env ?recs) ?pr"
    "case ap_receipt p of None \<Rightarrow> ri = w_receipts w | Some c \<Rightarrow> receipt_insert env ?lim (w_receipts w) c = Inr ri"
    "index_ok env ri (rcpts env (?recs @ [stored]))" "ap_bytes p = pending_memory env (w_pending w @ [?pr])"
    "w_disk_bytes w + length (frame env stored) \<le> max_disk_bytes ?lim"
    "ap_rotate p \<longrightarrow> w_segments w \<noteq> max_segments ?lim"
    by (rule submit_plan_ok [OF cd inv ty plan])
  have fits0: "fits env ?lim ?recs" and d0: "segs_on_disk env (dir w) lo (rss @ [rs]) []"
    and sid: "w_seg_id w = lo + length rss" and dsk: "w_disk_bytes w = disk_size env (rss @ [rs]) []"
    and n: "w_segments w = length (rss @ [rs])" "length (rss @ [rs]) \<le> max_segments ?lim"
    and pd: "w_pending w = filter (live (marks env ?recs)) (work env ?recs)"
    using inv by (auto simp: wal_inv_def)
  have rcpt: "insert_receipt env (ap_receipt p) v = (Inr (), v\<lparr>w_receipts := ri\<rparr>)"
    if "w_limits v = ?lim" "w_receipts v = w_receipts w" for v
    using a(8) that by (auto simp: insert_receipt_def split: option.splits)
  have part: "settled env ?lim d {?V, ?V'}"
    if "segs_on_disk env d lo (rss @ [rs @ take j [stored]]) t" "torn env ?lim t"
      "length (frames env (take j [stored])) + length t \<le> length (frame env stored)" for d j t
  proof -
    have "fits env ?lim (concat (rss @ [rs @ take j [stored]]))" "view env (concat (rss @ [rs @ take j [stored]])) \<in> {?V, ?V'}"
      using fits0 a(3,4) inv_contents [OF inv] by (cases j; simp)+
    then show ?thesis
      using that a(11) dsk n room sid
      by (intro settled_def [THEN iffD2] exI conjI [of "recoverable env ?lim d lo (rss @ [rs @ take j [stored]]) t"])
        (auto simp: recoverable_def disk_size_def)
  qed
  have whole: "settled env ?lim d {?V, ?V'}" if "segs_on_disk env d lo (rss @ [rs @ [stored]]) []" for d
    using part [of d 1 "[]"] that by (simp add: torn_def)
  have rolled: "settled env ?lim d {?V, ?V'}"
    if "segs_on_disk env d lo ((rss @ [rs @ [stored]]) @ [[]]) []" "ap_rotate p" for d
  proof -
    have "recoverable env ?lim d lo ((rss @ [rs @ [stored]]) @ [[]]) []"
      using that a(3,11,12) dsk n room sid by (auto simp: recoverable_def disk_size_def torn_def)
    moreover have "view env (concat ((rss @ [rs @ [stored]]) @ [[]])) \<in> {?V, ?V'}" using a(4) by simp
    ultimately show ?thesis unfolding settled_def by blast
  qed
  obtain r1 w1 where w1: "write_file (segment_path (lo + length rss)) (frame env stored) w = (r1, w1)" by force
  have "same_handle w w' \<and> (res = Inr (wr_seq r, True) \<and> (\<exists>stored.
        ?V' = view env (concat (rss @ [rs @ [stored]])) \<and>
        (wal_inv env w' lo (rss @ [rs @ [stored]]) \<and> synced w' = synced w \<or>
         wal_inv env w' lo (rss @ [rs @ [stored], []]) \<and>
         synced w' = AList.update (segment_path (lo + length rss)) (length (frames env (rs @ [stored]))) (synced w))) \<or>
      res = Inl Io \<and> w_failed w' \<and> settled env ?lim (dir w') {?V, ?V'})"
  proof (rule write_frame_run [OF w1 d0 a(2)])
    fix d sc j t assume e: "r1 = Inl Io" "w1 = w\<lparr>script := sc, dir := d\<rparr>" "segs_on_disk env d lo (rss @ [rs @ take j [stored]]) t"
      "torn env ?lim t" "length (frames env (take j [stored])) + length t \<le> length (frame env stored)"
    have "res = Inl Io" "w' = w1\<lparr>w_failed := True\<rparr>"
      using run w1 e(1) sid a(1) by (auto simp: poison_def append_commit_def then_do_def write_encoded_def)
    then show ?thesis using part [OF e(3-5)] e(2) by (simp add: same_handle_def)
  next
    fix d sc assume ok: "r1 = Inr ()" "w1 = w\<lparr>script := sc, dir := d\<rparr>" "segs_on_disk env d lo (rss @ [rs @ [stored]]) []"
    let ?w = "w1\<lparr>w_seg_bytes := w_seg_bytes w + length (frame env stored),
        w_disk_bytes := w_disk_bytes w + length (frame env stored), w_receipts := ri,
        w_pending := w_pending w @ [?pr], w_pending_bytes := ap_bytes p\<rparr>"
    have step: "append_commit env r parent p w =
        then_do (if ap_rotate p then roll else result (Inr ())) (\<lambda>_. result (Inr (wr_seq r, True))) ?w"
      using w1 ok(1,2) sid a(1) rcpt
      by (simp add: append_commit_def then_do_def write_encoded_def modify_def)
    have acks: "marks env (concat rss @ rs @ [stored]) = marks env (concat rss) \<union> marks env rs" using a(5) by auto
    have inv1: "wal_inv env ?w lo (rss @ [rs @ [stored]])"
      using inv ok a pd n unfolding wal_inv_def by (simp add: disk_size_def acks)
    show ?thesis
    proof (cases "ap_rotate p")
      case False
      then have "res = Inr (wr_seq r, True)" "w' = ?w" using run step by (auto simp: poison_def then_do_def result_def)
      moreover have "?V' = view env (concat (rss @ [rs @ [stored]]))" using a(4) by simp
      ultimately show ?thesis
        using inv1 ok(2) by (intro conjI disjI1 exI [of _ stored]) (simp_all add: same_handle_def)
    next
      case True
      have sid1: "w_seg_id ?w = w_seg_id w" "w_segments ?w = w_segments w" "w_limits ?w = ?lim" "synced ?w = synced w"
        using ok(2) by simp_all
      obtain r2 w2 where w2: "roll ?w = (r2, w2)" by force
      have same: "same_handle w w2" using roll_run [OF inv1 _ _ w2] room a(12) True sid1 ok(2) by (simp add: same_handle_def)
      have outcome: "r2 = Inr () \<and> wal_inv env w2 lo (rss @ [rs @ [stored], []]) \<and>
           synced w2 = AList.update (segment_path (lo + length rss)) (length (frames env (rs @ [stored]))) (synced w) \<or>
         r2 = Inl Io \<and> (\<exists>rss'. rss' \<in> {[], [[]]} \<and> segs_on_disk env (dir w2) lo (rss @ [rs @ [stored]] @ rss') [])"
        using roll_run [OF inv1 _ _ w2] room a(12) True unfolding sid1 by simp
      have v: "?V' = view env (concat (rss @ [rs @ [stored]]))" using a(4) by simp
      from outcome show ?thesis
      proof (elim disjE conjE exE)
        assume o: "r2 = Inr ()" "wal_inv env w2 lo (rss @ [rs @ [stored], []])"
          "synced w2 = AList.update (segment_path (lo + length rss)) (length (frames env (rs @ [stored]))) (synced w)"
        have "res = Inr (wr_seq r, True)" "w' = w2"
          using run step True w2 o(1) by (auto simp: poison_def then_do_def result_def)
        then show ?thesis using same o(2,3) v by blast
      next
        fix rss' assume o: "r2 = Inl Io" "rss' \<in> {[], [[]]}" "segs_on_disk env (dir w2) lo (rss @ [rs @ [stored]] @ rss') []"
        have "res = Inl Io" "w' = w2\<lparr>w_failed := True\<rparr>"
          using run step True w2 o(1) by (auto simp: poison_def then_do_def)
        moreover have "settled env ?lim (dir w2) {?V, ?V'}"
          using o(2,3) whole rolled True by auto
        ultimately show ?thesis using same by (simp add: same_handle_def)
      qed
    qed
  qed
  then show "same_handle w w'"
    and "res = Inr (wr_seq r, True) \<and> (\<exists>stored.
        ?V' = view env (concat (rss @ [rs @ [stored]])) \<and>
        (wal_inv env w' lo (rss @ [rs @ [stored]]) \<and> synced w' = synced w \<or>
         wal_inv env w' lo (rss @ [rs @ [stored], []]) \<and>
         synced w' = AList.update (segment_path (lo + length rss)) (length (frames env (rs @ [stored]))) (synced w))) \<or>
      res = Inl Io \<and> w_failed w' \<and> settled env ?lim (dir w') {?V, ?V'}" by blast+
qed

end
