(* ===== verification/Wal_Acks.thy ===== *)
theory Wal_Acks
  imports Wal_Operations
begin

text \<open>
  Acknowledgements of a write-ahead log: a marker behind the records, or, when nothing stays pending,
  a checkpoint in a fresh segment that replaces all older ones.
\<close>

declare map_of_eq_Some_iff [simp del] Some_eq_map_of_iff [simp del]

section \<open>Markers\<close>

definition ack_typed :: "string \<Rightarrow> string \<Rightarrow> nat \<Rightarrow> bool" where
  "ack_typed e s n \<longleftrightarrow> utf8_valid e \<and> utf8_valid s \<and> n \<le> u64_max"

lemma read_marker: "read_record env (ack_record e s n) = Inr (Some (ack_record e s n), None, None)"
proof -
  have "causal_read (ack_record e s n) = Inr (ack_record e s n, None)"
    by (rule causal_read_plain) (simp add: ack_record_def)
  moreover have "submission_read env (ack_record e s n) = Inr (Some (ack_record e s n), None)"
    by (simp add: submission_read_def ack_record_def accept_key_def receipt_key_def)
  ultimately show ?thesis by (simp add: read_record_def)
qed

lemma marker_parts [simp]:
  "ack_marks env (ack_record e s n) = [((e, s), n)]" "receipts_in env (ack_record e s n) = []"
  "work_in env (ack_record e s n) = []"
  by (simp_all add: ack_marks_def receipts_in_def work_in_def read_marker) (simp_all add: ack_record_def stream_of_def)

text \<open>A watermark in a readable log comes from a marker.\<close>

lemma mark_record:
  assumes "frame_ok env lim r" and "(k, m) \<in> set (ack_marks env r)"
  shows "r = ack_record (fst k) (snd k) m"
proof -
  obtain b c p where rd: "read_record env r = Inr (Some b, c, p)" "wr_key b = ''#ack''" "k = stream_of b" "m = wr_seq b"
    using assms(2) by (cases "read_record env r") (auto simp: ack_marks_def split: option.splits if_splits)
  obtain r' where r': "causal_read r = Inr (r', p)" "submission_read env r' = Inr (Some b, c)"
    using rd(1) by (auto simp: read_record_def sum_bind_Inr)
  have "b = r'"
    using r'(2) rd(2) by (auto simp: submission_read_def sum_bind_Inr validate_record_def Let_def split: if_splits)
  moreover have "r' = r"
    using r'(1) rd(2) \<open>b = r'\<close>
    by (auto simp: causal_read_def sum_bind_Inr check_inner_def Let_def split: if_splits option.splits)
  ultimately have "b = r" by simp
  moreover have "wr_path r = [] \<and> wr_payload r = []"
    using assms(1) rd(2) \<open>b = r\<close> by (simp add: frame_ok_def validate_record_def)
  ultimately show ?thesis using rd(2-4) by (simp add: ack_record_def stream_of_def)
qed

lemma live_insert:
  assumes "finite M"
  shows "live (insert ((e, s), n) M) p \<longleftrightarrow> live M p \<and> \<not> acked_by e s n p"
proof (cases "stream_of (pr_record p) = (e, s)")
  case True
  then have a: "acked_by e s n p \<longleftrightarrow> wr_seq (pr_record p) \<le> n" by (simp add: acked_by_def stream_of_def)
  show ?thesis unfolding live_def a peak_insert [OF assms] True
    by (cases "peak M (e, s)") auto
next
  case False
  then have "\<not> acked_by e s n p" by (auto simp: acked_by_def stream_of_def)
  then show ?thesis using False by (simp add: live_def peak_insert [OF assms])
qed

lemma filter_live_insert:
  "finite M \<Longrightarrow> filter (live (insert ((e, s), n) M)) ps = filter (\<lambda>p. \<not> acked_by e s n p) (filter (live M) ps)"
  unfolding filter_filter by (rule filter_cong) (auto simp: live_insert)

lemma pending_fit_filter: "pending_fit env lim ps \<Longrightarrow> pending_fit env lim (filter P ps)"
proof -
  have "pending_memory env (filter P ps) \<le> pending_memory env ps"
    by (induction ps) (simp_all add: pending_memory_def)
  then show "pending_fit env lim ps \<Longrightarrow> pending_fit env lim (filter P ps)"
    using length_filter_le [of P ps] unfolding pending_fit_def by linarith
qed

section \<open>What a planned acknowledgement relies on\<close>

lemma ack_plan_steps:
  assumes "ack_plan env pid e s n w = Inr (Some p)"
  obtains total where
    "validate_record (ack_record e s n) True = Inr ()"
    "case map_of (w_acked w) (e, s) of None \<Rightarrow>
       length (w_acked w) \<noteq> max_streams (w_limits w) \<and>
       reserve_watermark env (w_limits w) (w_watermark_bytes w) e s = Inr (kp_watermark p)
     | Some m \<Rightarrow> m < n \<and> kp_watermark p = w_watermark_bytes w"
    "encode_record env (w_limits w) (ack_record e s n) = Inr (kp_frame p)"
    "kp_clears p = list_all (acked_by e s n) (w_pending w)"
    "(if kp_clears p
       then fold_sum (\<lambda>acc r. sum_bind (encoded_size env (w_limits w) r) (\<lambda>k. or_err Size_Overflow (checked_add acc k)))
              (other_acks e s w) (ri_checkpoint (w_receipts w))
       else Inr 0) = Inr (kp_checkpoint p)"
    "w_disk_bytes w + (length (kp_frame p) + kp_checkpoint p) \<le> max_disk_bytes (w_limits w)"
    "kp_clears p \<longrightarrow> w_segments w \<noteq> max_segments (w_limits w)"
proof -
  have chk: "check_state pid w = Inr ()" and v: "validate_record (ack_record e s n) True = Inr ()"
    using assms by (auto simp: ack_plan_def sum_bind_Inr)
  have new: "\<not> (case map_of (w_acked w) (e, s) of None \<Rightarrow> False | Some m \<Rightarrow> n \<le> m)"
    and room: "\<not> (map_of (w_acked w) (e, s) = None \<and> length (w_acked w) = max_streams (w_limits w))"
    using assms by (auto simp: ack_plan_def chk v split: if_splits)
  obtain wm marker ck total where q:
      "(if map_of (w_acked w) (e, s) \<noteq> None then Inr (w_watermark_bytes w)
        else reserve_watermark env (w_limits w) (w_watermark_bytes w) e s) = Inr wm"
      "encode_record env (w_limits w) (ack_record e s n) = Inr marker"
      "(if list_all (acked_by e s n) (w_pending w)
        then fold_sum (\<lambda>acc r. sum_bind (encoded_size env (w_limits w) r) (\<lambda>k. or_err Size_Overflow (checked_add acc k)))
               (other_acks e s w) (ri_checkpoint (w_receipts w))
        else Inr 0) = Inr ck"
      "or_err Size_Overflow (checked_add (length marker) ck) = Inr total" "ensure_disk w total = Inr ()"
      and p: "kp_frame p = marker" "kp_clears p = list_all (acked_by e s n) (w_pending w)" "kp_checkpoint p = ck"
        "kp_watermark p = wm" "kp_clears p \<longrightarrow> w_segments w \<noteq> max_segments (w_limits w)"
    using assms new room unfolding ack_plan_def chk v Let_def sum_bind_simps
    by (simp only: if_False sum_bind_Inr) (auto split: if_splits)
  have "w_disk_bytes w + (length (kp_frame p) + kp_checkpoint p) \<le> max_disk_bytes (w_limits w)"
    using q(4,5) p by (auto simp: ensure_disk_def checked_add_def sum_bind_Inr split: if_splits)
  then show ?thesis
    using that v new room q(1-3) p by (auto split: option.splits)
qed

lemma marker_fits:
  assumes inv: "wal_inv env w lo rss" and ty: "ack_typed e s n" and plan: "ack_plan env pid e s n w = Inr (Some p)"
  shows "kp_frame p = frame env (ack_record e s n)" "frame_ok env (w_limits w) (ack_record e s n)"
    "acks_ok env (AList.update (e, s) n (w_acked w)) (kp_watermark p) (insert ((e, s), n) (marks env (concat rss)))"
    "streams_fit env (w_limits w) (insert (e, s) (fst ` marks env (concat rss)))"
    "\<And>m. ((e, s), m) \<in> marks env (concat rss) \<Longrightarrow> m < n"
    "fits env (w_limits w) (concat rss @ [ack_record e s n])"
    "view env (concat rss @ [ack_record e s n]) = wal_spec env (Ack e s n) (contents w)"
proof -
  let ?M = "marks env (concat rss)"
  obtain total where q: "validate_record (ack_record e s n) True = Inr ()"
    "case map_of (w_acked w) (e, s) of None \<Rightarrow>
       length (w_acked w) \<noteq> max_streams (w_limits w) \<and>
       reserve_watermark env (w_limits w) (w_watermark_bytes w) e s = Inr (kp_watermark p)
     | Some m \<Rightarrow> m < n \<and> kp_watermark p = w_watermark_bytes w"
    "encode_record env (w_limits w) (ack_record e s n) = Inr (kp_frame p)"
    by (rule ack_plan_steps [OF plan])
  have acks: "acks_ok env (w_acked w) (w_watermark_bytes w) ?M" and fit: "fits env (w_limits w) (concat rss)"
    using inv by (auto simp: wal_inv_def)
  have fin: "finite ?M" by simp
  show "kp_frame p = frame env (ack_record e s n)" using q(3) by (simp add: encode_record_Inr)
  show fr: "frame_ok env (w_limits w) (ack_record e s n)"
    using q(1,3) ty by (simp add: frame_ok_def encode_record_Inr rust_record_def ack_record_def ack_typed_def)
  have pk: "map_of (w_acked w) = peak ?M" using acks by (simp add: acks_ok_def)
  show below: "m < n" if "((e, s), m) \<in> ?M" for m
  proof (cases "peak ?M (e, s)")
    case None
    then show ?thesis using that by (auto simp: peak_None rev_image_eqI)
  next
    case (Some j)
    then have "m \<le> j" using that by (simp add: peak_Some)
    then show ?thesis using q(2) Some pk by simp
  qed
  show "acks_ok env (AList.update (e, s) n (w_acked w)) (kp_watermark p) (insert ((e, s), n) ?M)"
    and sf: "streams_fit env (w_limits w) (insert (e, s) (fst ` ?M))"
  proof -
    show "acks_ok env (AList.update (e, s) n (w_acked w)) (kp_watermark p) (insert ((e, s), n) ?M)"
    proof (rule acks_update [OF acks])
      show "n = (case peak ?M (e, s) of None \<Rightarrow> n | Some j \<Rightarrow> max j n)"
        using q(2) pk by (auto split: option.splits)
      show "kp_watermark p = (if (e, s) \<in> fst ` ?M then w_watermark_bytes w
          else w_watermark_bytes w + stream_weight env (e, s))"
        using q(2) pk peak_None [of ?M "(e, s)"]
        by (cases "peak ?M (e, s)") (simp_all add: reserve_watermark_Inr)
    qed
    have sf0: "streams_fit env (w_limits w) (fst ` ?M)" using fit by (simp add: fits_def)
    show "streams_fit env (w_limits w) (insert (e, s) (fst ` ?M))"
    proof (cases "map_of (w_acked w) (e, s)")
      case None
      then have "(e, s) \<notin> fst ` ?M" using pk by (simp add: peak_None)
      then show ?thesis
        using sf0 q(2) None acks acks_length [OF acks]
        by (auto simp: streams_fit_def acks_ok_def reserve_watermark_Inr add.commute)
    next
      case (Some j)
      then have "(e, s) \<in> fst ` ?M" using pk by (metis option.distinct(1) peak_None)
      then show ?thesis using sf0 by (simp add: insert_absorb)
    qed
  qed
  have M': "marks env (concat rss @ [ack_record e s n]) = insert ((e, s), n) ?M" by simp
  have W: "filter (live (insert ((e, s), n) ?M)) (work env (concat rss)) =
      filter (\<lambda>p. \<not> acked_by e s n p) (w_pending w)"
    using inv by (simp only: filter_live_insert [OF fin] wal_inv_def)
  show "fits env (w_limits w) (concat rss @ [ack_record e s n])"
    using fit sf fr pending_fit_filter [of env "w_limits w" "w_pending w" "\<lambda>p. \<not> acked_by e s n p"] inv
    unfolding fits_def M' by (auto simp: readable_record_def read_marker W wal_inv_def)
  have "peak (insert ((e, s), n) ?M) = (peak ?M)((e, s) \<mapsto> n)"
    using q(2) pk unfolding peak_insert [OF fin] by (auto split: option.splits)
  then show "view env (concat rss @ [ack_record e s n]) = wal_spec env (Ack e s n) (contents w)"
    using inv inv_contents [OF inv] unfolding view_def M' by (simp add: W view_def wal_inv_def)
qed

section \<open>A marker behind the records\<close>

lemma inv_acked:
  assumes inv: "wal_inv env w lo rss" and ty: "ack_typed e s n" and plan: "ack_plan env pid e s n w = Inr (Some p)"
    and fs: "segs_on_disk env (dir w') lo' rss' []" "w_seg_id w' = lo' + length rss' - 1"
      "w_seg_bytes w' = length (frames env (last rss'))" "w_disk_bytes w' = disk_size env rss' []"
      "w_disk_bytes w' \<le> max_disk_bytes (w_limits w)" "w_segments w' = length rss'"
      "length rss' \<le> max_segments (w_limits w)" "\<not> w_failed w'" "same_handle w w'"
    and mem: "w_acked w' = w_acked w" "w_pending w' = w_pending w" "w_receipts w' = w_receipts w"
    and recs: "fits env (w_limits w) (concat rss')" "view env (concat rss') = wal_spec env (Ack e s n) (contents w)"
      "fst ` marks env (concat rss') = insert (e, s) (fst ` marks env (concat rss))"
  shows "wal_inv env (let rest = filter (\<lambda>r. \<not> acked_by e s n r) (w_pending w') in
         w'\<lparr>w_acked := AList.update (e, s) n (w_acked w'), w_watermark_bytes := kp_watermark p,
           w_pending := rest, w_pending_bytes := sum_list (map (\<lambda>r. record_memory env (pr_record r)) rest)\<rparr>) lo' rss'"
proof -
  note mf = marker_fits [OF inv ty plan]
  have parts: "peak (marks env (concat rss')) = (peak (marks env (concat rss)))((e, s) \<mapsto> n)"
    "rcpts env (concat rss') = rcpts env (concat rss)"
    "filter (live (marks env (concat rss'))) (work env (concat rss')) = filter (\<lambda>p. \<not> acked_by e s n p) (w_pending w)"
    using recs(2) inv unfolding inv_contents [OF inv] by (simp_all add: view_def wal_inv_def)
  have "peak (insert ((e, s), n) (marks env (concat rss))) = (peak (marks env (concat rss)))((e, s) \<mapsto> n)"
    using mf(7) inv_contents [OF inv] by (simp add: view_def)
  then have "acks_ok env (AList.update (e, s) n (w_acked w)) (kp_watermark p) (marks env (concat rss'))"
    using mf(3) recs(3) parts(1) by (simp add: acks_ok_def)
  then show ?thesis
    using inv fs recs(1) mem parts by (simp add: wal_inv_def same_handle_def pending_memory_def Let_def)
qed

lemma ack_append_run:
  assumes inv: "wal_inv env w lo (rss @ [rs])" and ty: "ack_typed e s n"
    and plan: "ack_plan env pid e s n w = Inr (Some p)" and nc: "\<not> kp_clears p" and room: "w_seg_id w + 2 \<le> u64_max"
    and run: "poison (ack_commit env e s n p) w = (res, w')"
  shows "same_handle w w' \<and>
    (res = Inr () \<and> wal_inv env w' lo (rss @ [rs @ [ack_record e s n]]) \<and> synced w' = synced w \<and>
       view env (concat (rss @ [rs @ [ack_record e s n]])) = wal_spec env (Ack e s n) (contents w) \<or>
     res = Inl Io \<and> w_failed w' \<and>
       settled env (w_limits w) (dir w') {contents w, wal_spec env (Ack e s n) (contents w)})"
proof -
  let ?lim = "w_limits w" and ?r = "ack_record e s n"
  let ?V = "contents w" and ?V' = "wal_spec env (Ack e s n) (contents w)"
  note mf = marker_fits [OF inv ty plan]
  obtain total where sz: "w_disk_bytes w + (length (kp_frame p) + kp_checkpoint p) \<le> max_disk_bytes ?lim"
    by (rule ack_plan_steps [OF plan])
  have d0: "segs_on_disk env (dir w) lo (rss @ [rs]) []" and sid: "w_seg_id w = lo + length rss"
    and fit: "fits env ?lim (concat (rss @ [rs]))" and dsk: "w_disk_bytes w = disk_size env (rss @ [rs]) []"
    and n: "w_segments w = length (rss @ [rs])" "length (rss @ [rs]) \<le> max_segments ?lim" "\<not> w_failed w"
      "w_seg_bytes w = length (frames env rs)"
    using inv by (auto simp: wal_inv_def)
  obtain r1 w1 where w1: "write_file (segment_path (lo + length rss)) (frame env ?r) w = (r1, w1)" by force
  show ?thesis
  proof (rule write_frame_run [OF w1 d0 mf(2)])
    fix d sc j t assume f: "r1 = Inl Io" "w1 = w\<lparr>script := sc, dir := d\<rparr>" "segs_on_disk env d lo (rss @ [rs @ take j [?r]]) t"
      "torn env ?lim t" "length (frames env (take j [?r])) + length t \<le> length (frame env ?r)"
    have r: "res = Inl Io" "w' = w1\<lparr>w_failed := True\<rparr>"
      using run w1 f(1) sid mf(1) nc by (auto simp: poison_def ack_commit_def then_do_def write_encoded_def)
    have "fits env ?lim (concat (rss @ [rs @ take j [?r]]))" "view env (concat (rss @ [rs @ take j [?r]])) \<in> {?V, ?V'}"
      using fit mf(6,7) inv_contents [OF inv] by (cases j; simp)+
    then have "recoverable env ?lim d lo (rss @ [rs @ take j [?r]]) t"
      using f(3-5) sz mf(1) dsk n room sid by (auto simp: recoverable_def disk_size_def)
    then have "settled env ?lim d {?V, ?V'}"
      using \<open>view env (concat (rss @ [rs @ take j [?r]])) \<in> {?V, ?V'}\<close> unfolding settled_def by blast
    then show ?thesis using r f(2) by (simp add: same_handle_def)
  next
    fix d sc assume ok: "r1 = Inr ()" "w1 = w\<lparr>script := sc, dir := d\<rparr>" "segs_on_disk env d lo (rss @ [rs @ [?r]]) []"
    let ?w = "w1\<lparr>w_seg_bytes := w_seg_bytes w1 + length (frame env ?r), w_disk_bytes := w_disk_bytes w1 + length (frame env ?r)\<rparr>"
    let ?w' = "let rest = filter (\<lambda>r. \<not> acked_by e s n r) (w_pending ?w) in
         ?w\<lparr>w_acked := AList.update (e, s) n (w_acked ?w), w_watermark_bytes := kp_watermark p,
           w_pending := rest, w_pending_bytes := sum_list (map (\<lambda>r. record_memory env (pr_record r)) rest)\<rparr>"
    have "res = Inr ()" "w' = ?w'"
      using run w1 ok(1) sid mf(1) nc
      by (auto simp: poison_def ack_commit_def then_do_def write_encoded_def modify_def)
    moreover have "wal_inv env ?w' lo (rss @ [rs @ [?r]])"
    proof (rule inv_acked [OF inv ty plan])
      show "fst ` marks env (concat (rss @ [rs @ [?r]])) = insert (e, s) (fst ` marks env (concat (rss @ [rs])))" by auto
    qed (use ok n sid dsk sz mf in \<open>auto simp: same_handle_def disk_size_def\<close>)
    moreover have "same_handle w ?w'" "synced ?w' = synced w" using ok(2) by (simp_all add: same_handle_def Let_def)
    ultimately show ?thesis using mf(7) by simp
  qed
qed

section \<open>Checkpoints\<close>

definition receipt_records :: "wal_env \<Rightarrow> wal \<Rightarrow> wal_record list" where
  "receipt_records env w = map (\<lambda>(_, c). receipt_record env c) (ri_entries (w_receipts w))"

definition checkpoint_records :: "wal_env \<Rightarrow> string \<Rightarrow> string \<Rightarrow> nat \<Rightarrow> wal \<Rightarrow> wal_record list" where
  "checkpoint_records env e s n w = ack_record e s n # other_acks e s w @ receipt_records env w"

lemma acked_marks:
  assumes inv: "wal_inv env w lo rss"
  shows "(k, m) \<in> set (w_acked w) \<longleftrightarrow> peak (marks env (concat rss)) k = Some m"
    and "(k, m) \<in> set (w_acked w) \<Longrightarrow> (k, m) \<in> marks env (concat rss)"
    and "(k, m) \<in> set (w_acked w) \<Longrightarrow> frame_ok env (w_limits w) (ack_record (fst k) (snd k) m)"
proof -
  show iff: "(k, m) \<in> set (w_acked w) \<longleftrightarrow> peak (marks env (concat rss)) k = Some m"
    using inv map_of_entry [of "w_acked w" k m] by (simp add: wal_inv_def acks_ok_def)
  assume "(k, m) \<in> set (w_acked w)"
  then have "peak (marks env (concat rss)) k = Some m" unfolding iff .
  then show mk: "(k, m) \<in> marks env (concat rss)" by (simp add: peak_Some)
  then obtain r where r: "r \<in> set (concat rss)" "(k, m) \<in> set (ack_marks env r)" by (auto simp: marks_def)
  have fr: "frame_ok env (w_limits w) r" using inv r(1) by (auto simp: wal_inv_def fits_def readable_record_def)
  then show "frame_ok env (w_limits w) (ack_record (fst k) (snd k) m)" using mark_record [OF fr r(2)] by simp
qed

lemma other_acks_parts:
  "marks env (other_acks e s w) = {(k, m) \<in> set (w_acked w). k \<noteq> (e, s)}" "rcpts env (other_acks e s w) = {}"
  "work env (other_acks e s w) = []"
proof -
  have "marks env (map (\<lambda>((e', s'), n). ack_record e' s' n) xs) = set xs"
    "rcpts env (map (\<lambda>((e', s'), n). ack_record e' s' n) xs) = {}"
    "work env (map (\<lambda>((e', s'), n). ack_record e' s' n) xs) = []" for xs
    by (induction xs) auto
  then show "marks env (other_acks e s w) = {(k, m) \<in> set (w_acked w). k \<noteq> (e, s)}" "rcpts env (other_acks e s w) = {}"
    "work env (other_acks e s w) = []"
    unfolding other_acks_def by auto
qed

lemma receipt_records_parts:
  assumes idx: "index_ok env (w_receipts w) R" and fit: "receipts_fit env lim R"
  shows "marks env (receipt_records env w) = {}" "rcpts env (receipt_records env w) = R" "work env (receipt_records env w) = []"
    "\<forall>r \<in> set (receipt_records env w). readable_record env lim r"
    "length (frames env (receipt_records env w)) = ri_checkpoint (w_receipts w)"
proof -
  have rd: "c \<in> R \<Longrightarrow> frame_ok env lim (receipt_record env c) \<and> read_record env (receipt_record env c) = Inr (None, Some c, None)" for c
    using fit by (simp add: receipts_fit_def)
  have xs: "marks env (map (\<lambda>(_, c). receipt_record env c) xs) = {} \<and>
      rcpts env (map (\<lambda>(_, c). receipt_record env c) xs) = snd ` set xs \<and>
      work env (map (\<lambda>(_, c). receipt_record env c) xs) = [] \<and>
      length (frames env (map (\<lambda>(_, c). receipt_record env c) xs)) = sum_list (map (receipt_size env) (map snd xs))"
    if "snd ` set xs \<subseteq> R" for xs
    using that
  proof (induction xs)
    case (Cons x xs)
    then show ?case using rd [of "snd x"]
      by (cases x) (simp add: ack_marks_def receipts_in_def work_in_def length_frame receipt_size_def)
  qed simp
  have R: "snd ` set (ri_entries (w_receipts w)) = R" using idx by (simp add: index_ok_def)
  have "length (map snd (ri_entries (w_receipts w))) = card (set (map snd (ri_entries (w_receipts w))))"
    using index_length [OF idx] R by simp
  then have "distinct (map snd (ri_entries (w_receipts w)))" by (metis card_distinct)
  then have "sum_list (map (receipt_size env) (map snd (ri_entries (w_receipts w)))) = sum (receipt_size env) R"
    using sum.distinct_set_conv_list [of "map snd (ri_entries (w_receipts w))" "receipt_size env"] R by simp
  then show "marks env (receipt_records env w) = {}" "rcpts env (receipt_records env w) = R" "work env (receipt_records env w) = []"
    "length (frames env (receipt_records env w)) = ri_checkpoint (w_receipts w)"
    using xs [of "ri_entries (w_receipts w)"] R idx unfolding receipt_records_def by (auto simp: index_ok_def)
  show "\<forall>r \<in> set (receipt_records env w). readable_record env lim r"
  proof
    fix r assume "r \<in> set (receipt_records env w)"
    then obtain x where x: "x \<in> set (ri_entries (w_receipts w))" "r = receipt_record env (snd x)"
      by (auto simp: receipt_records_def)
    then have "snd x \<in> R" using R by blast
    then show "readable_record env lim r" using rd x(2) by (simp add: readable_record_def)
  qed
qed

lemma sizes_fold:
  assumes "fold_sum (\<lambda>acc r. sum_bind (encoded_size env lim r) (\<lambda>k. or_err Size_Overflow (checked_add acc k))) rs a = Inr b"
  shows "b = a + length (frames env rs) \<and> (\<forall>r \<in> set rs. length (enc_record env r) \<le> max_record_bytes lim)"
  using assms
proof (induction rs arbitrary: a)
  case (Cons r rs)
  then show ?case
    by (fastforce simp: sum_bind_Inr encoded_size_def checked_add_def length_frame split: if_splits)
qed simp

lemma checkpoint_parts:
  assumes inv: "wal_inv env w lo rss" and ty: "ack_typed e s n" and plan: "ack_plan env pid e s n w = Inr (Some p)"
    and clears: "kp_clears p"
  defines "ck \<equiv> checkpoint_records env e s n w" and "M \<equiv> marks env (concat rss)"
  shows "marks env ck = insert ((e, s), n) {(k, m) \<in> set (w_acked w). k \<noteq> (e, s)}"
    "rcpts env ck = rcpts env (concat rss)" "work env ck = []" "\<forall>r \<in> set ck. readable_record env (w_limits w) r"
    "length (frames env ck) = length (kp_frame p) + kp_checkpoint p"
proof -
  note mf = marker_fits [OF inv ty plan]
  obtain total where q: "(if kp_clears p
       then fold_sum (\<lambda>acc r. sum_bind (encoded_size env (w_limits w) r) (\<lambda>k. or_err Size_Overflow (checked_add acc k)))
              (other_acks e s w) (ri_checkpoint (w_receipts w))
       else Inr 0) = Inr (kp_checkpoint p)"
    by (rule ack_plan_steps [OF plan])
  have sz: "kp_checkpoint p = ri_checkpoint (w_receipts w) + length (frames env (other_acks e s w))"
    using sizes_fold [of env "w_limits w" "other_acks e s w"] q clears by simp
  have "receipts_fit env (w_limits w) (rcpts env (concat rss))" "index_ok env (w_receipts w) (rcpts env (concat rss))"
    using inv by (auto simp: wal_inv_def fits_def)
  note rp = receipt_records_parts [OF this(2,1)]
  show "marks env ck = insert ((e, s), n) {(k, m) \<in> set (w_acked w). k \<noteq> (e, s)}"
    "rcpts env ck = rcpts env (concat rss)" "work env ck = []"
    by (simp_all add: ck_def checkpoint_records_def other_acks_parts rp)
  have "readable_record env (w_limits w) r" if r: "r \<in> set (other_acks e s w)" for r
  proof -
    obtain x where x: "x \<in> set (w_acked w)" "r = ack_record (fst (fst x)) (snd (fst x)) (snd x)"
      using r by (auto simp: other_acks_def split_beta)
    then show ?thesis using acked_marks(3) [OF inv, of "fst x" "snd x"] by (simp add: readable_record_def read_marker)
  qed
  then show "\<forall>r \<in> set ck. readable_record env (w_limits w) r"
    using mf(2) rp(4) by (auto simp: ck_def checkpoint_records_def readable_record_def read_marker)
  show "length (frames env ck) = length (kp_frame p) + kp_checkpoint p"
    using sz rp(5) mf(1) by (simp add: ck_def checkpoint_records_def)
qed

text \<open>
  Whatever mixture of old segments and checkpoint is on disk: once the marker is there, and either
  all old records or the whole checkpoint, the meaning is that after the acknowledgement.
\<close>

lemma checkpoint_view:
  assumes inv: "wal_inv env w lo rss" and ty: "ack_typed e s n" and plan: "ack_plan env pid e s n w = Inr (Some p)"
    and clears: "kp_clears p"
    and sub: "set zs \<subseteq> set (concat rss) \<union> set (checkpoint_records env e s n w)" and mk: "ack_record e s n \<in> set zs"
    and all: "set (concat rss) \<subseteq> set zs \<or> set (checkpoint_records env e s n w) \<subseteq> set zs"
  shows "view env zs = wal_spec env (Ack e s n) (contents w)" "fits env (w_limits w) zs"
    "fst ` marks env zs = insert (e, s) (fst ` marks env (concat rss))"
proof -
  let ?ck = "checkpoint_records env e s n w" and ?M = "marks env (concat rss)" and ?R = "rcpts env (concat rss)"
  let ?M' = "insert ((e, s), n) ?M"
  note cp = checkpoint_parts [OF inv ty plan clears] and mf = marker_fits [OF inv ty plan]
  have mono: "set xs \<subseteq> set ys \<Longrightarrow> marks env xs \<subseteq> marks env ys \<and> rcpts env xs \<subseteq> rcpts env ys \<and>
      set (work env xs) \<subseteq> set (work env ys)" for xs ys by (auto simp: marks_def rcpts_def work_def)
  have ckM: "marks env ?ck \<subseteq> ?M'" using cp(1) acked_marks(2) [OF inv] by auto
  have zsub: "marks env zs \<subseteq> ?M'" "rcpts env zs \<subseteq> ?R" "set (work env zs) \<subseteq> set (work env (concat rss))"
    using mono [of zs "concat rss @ ?ck"] sub ckM cp(2,3) by auto
  have zmk: "((e, s), n) \<in> marks env zs" using mono [of "[ack_record e s n]" zs] mk by simp
  have cover: "\<exists>m'. (k, m') \<in> marks env zs \<and> m \<le> m'" if km: "(k, m) \<in> ?M'" for k m
  proof (cases "k = (e, s)")
    case True
    then show ?thesis using zmk km mf(5) by (intro exI [of _ n]) (auto simp: less_imp_le)
  next
    case False
    then have kM: "(k, m) \<in> ?M" using km by simp
    from all show ?thesis
    proof
      assume "set (concat rss) \<subseteq> set zs"
      then show ?thesis using mono [of "concat rss" zs] kM by blast
    next
      assume ck: "set ?ck \<subseteq> set zs"
      obtain j where j: "peak ?M k = Some j" using kM by (metis fst_conv image_eqI option.exhaust peak_None)
      then have "m \<le> j" "(k, j) \<in> set (w_acked w)" using kM acked_marks(1) [OF inv] by (auto simp: peak_Some)
      moreover have "(k, j) \<in> marks env ?ck" using calculation(2) False cp(1) by simp
      ultimately show ?thesis using mono [OF ck] by blast
    qed
  qed
  have pk: "peak (marks env zs) = peak ?M'"
  proof -
    have "peak (?M' \<union> marks env zs) = peak (marks env zs)" by (rule peak_absorb) (use cover in auto)
    moreover have "?M' \<union> marks env zs = ?M'" using zsub(1) by blast
    ultimately show ?thesis by simp
  qed
  show fstM: "fst ` marks env zs = insert (e, s) (fst ` ?M)" using arg_cong [OF pk, of dom] by simp
  have R: "rcpts env zs = ?R" using all mono [of "concat rss" zs] mono [of ?ck zs] cp(2) zsub(2) by auto
  have W: "filter (\<lambda>p. \<not> acked_by e s n p) (w_pending w) = []"
  proof -
    obtain total where "kp_clears p = list_all (acked_by e s n) (w_pending w)" by (rule ack_plan_steps [OF plan])
    then show ?thesis using clears by (simp add: list_all_iff)
  qed
  have none: "\<not> live (marks env zs) q" if "q \<in> set (work env zs)" for q
  proof
    assume "live (marks env zs) q"
    then have l: "live ?M' q" unfolding live_def pk .
    have "q \<in> set (work env (concat rss))" using zsub(3) that by blast
    then have "q \<in> set (w_pending w)" using l inv live_insert [of ?M e s n q] by (simp add: wal_inv_def)
    then have "acked_by e s n q" using W by (auto simp: filter_empty_conv)
    then show False using l live_insert [of ?M e s n q] by simp
  qed
  then have P: "filter (live (marks env zs)) (work env zs) = []" by (simp add: filter_empty_conv)
  have v: "view env (concat rss @ [ack_record e s n]) = wal_spec env (Ack e s n) (contents w)" by (rule mf(7))
  have "fst (wal_spec env (Ack e s n) (contents w)) = peak ?M'" "fst (snd (wal_spec env (Ack e s n) (contents w))) = ?R"
    unfolding v [symmetric] by (simp_all add: view_def)
  moreover have "snd (snd (wal_spec env (Ack e s n) (contents w))) = []" using W by (simp add: contents_def)
  ultimately show "view env zs = wal_spec env (Ack e s n) (contents w)"
    unfolding view_def pk R P by (simp add: prod_eq_iff)
  have "\<forall>r \<in> set zs. readable_record env (w_limits w) r" using sub cp(4) inv by (auto simp: wal_inv_def fits_def)
  then show "fits env (w_limits w) zs"
    using mf(4) inv unfolding fits_def fstM R P by (simp add: wal_inv_def fits_def pending_fit_def pending_memory_def)
qed

lemma remove_below_run:
  assumes "remove_below (lo + length rss) [lo..<Suc (lo + length rss)] s = (res, s')"
    and "segs_on_disk env (dir s) lo (rss @ [rs]) []"
  shows "\<exists>d sc sy. s' = s\<lparr>script := sc, dir := d, synced := sy\<rparr> \<and>
    (\<forall>i \<ge> lo + length rss. map_of sy (segment_path i) = map_of (synced s) (segment_path i)) \<and>
    (res = Inr () \<and> segs_on_disk env d (lo + length rss) [rs] [] \<or>
     res = Inl Io \<and> (\<exists>k \<le> length rss. segs_on_disk env d (lo + k) (drop k rss @ [rs]) []))"
  using assms
proof (induction rss arbitrary: lo s)
  case Nil
  have "res = Inr ()" "s' = s" using Nil.prems(1) by (simp_all add: then_do_def result_def)
  moreover have "s = s\<lparr>script := script s, dir := dir s, synced := synced s\<rparr>" by simp
  ultimately show ?case using Nil.prems(2) by (metis append_Nil add_0_right list.size(3))
next
  case (Cons q rss)
  let ?lo = "lo + length (q # rss)"
  have upt: "[lo..<Suc ?lo] = lo # [Suc lo..<Suc ?lo]" by (simp add: upt_conv_Cons del: upt_Suc)
  have listed: "map_of (dir s) (segment_path lo) \<noteq> None"
    using segment_listed [OF Cons.prems(2), of 0] by simp
  obtain r1 s1 where r1: "remove_file (segment_path lo) s = (r1, s1)" by force
  show ?case
  proof (rule remove_file_run [OF r1 listed])
    fix sc assume f: "r1 = Inl Io" "s1 = s\<lparr>script := sc\<rparr>"
    have "res = Inl Io" "s' = s1" using Cons.prems(1) r1 f(1) unfolding upt by (simp_all add: then_do_def)
    moreover have "s1 = s\<lparr>script := sc, dir := dir s, synced := synced s\<rparr>" using f(2) by simp
    moreover have "segs_on_disk env (dir s) (lo + 0) (drop 0 (q # rss) @ [rs]) []" using Cons.prems(2) by simp
    ultimately show ?thesis by blast
  next
    fix sc assume o: "r1 = Inr ()"
      "s1 = s\<lparr>script := sc, dir := AList.delete (segment_path lo) (dir s), synced := AList.delete (segment_path lo) (synced s)\<rparr>"
    have rest: "remove_below (Suc lo + length rss) [Suc lo..<Suc (Suc lo + length rss)] s1 = (res, s')"
      using Cons.prems(1) r1 o(1) unfolding upt by (simp add: then_do_def del: upt_Suc)
    have "segs_on_disk env (dir s1) (Suc lo) (rss @ [rs]) []"
      using segs_on_disk_gc [of env "dir s" lo q "rss @ [rs]" "[]"] Cons.prems(2) o(2) by simp
    from Cons.IH [OF rest this] obtain d sc2 sy where ih: "s' = s1\<lparr>script := sc2, dir := d, synced := sy\<rparr>"
        "\<forall>i \<ge> Suc lo + length rss. map_of sy (segment_path i) = map_of (synced s1) (segment_path i)"
        "res = Inr () \<and> segs_on_disk env d (Suc lo + length rss) [rs] [] \<or>
         res = Inl Io \<and> (\<exists>k \<le> length rss. segs_on_disk env d (Suc lo + k) (drop k rss @ [rs]) [])" by blast
    have "s' = s\<lparr>script := sc2, dir := d, synced := sy\<rparr>" using ih(1) o(2) by simp
    moreover have "\<forall>i \<ge> ?lo. map_of sy (segment_path i) = map_of (synced s) (segment_path i)"
      using ih(2) o(2) by (simp add: map_of_delete)
    moreover have "res = Inr () \<and> segs_on_disk env d ?lo [rs] [] \<or>
        res = Inl Io \<and> (\<exists>k \<le> length (q # rss). segs_on_disk env d (lo + k) (drop k (q # rss) @ [rs]) [])"
      using ih(3)
    proof (elim disjE conjE exE)
      fix k assume "res = Inl Io" "k \<le> length rss" "segs_on_disk env d (Suc lo + k) (drop k rss @ [rs]) []"
      then show ?thesis by (intro disjI2 conjI exI [of _ "Suc k"]) simp_all
    qed simp
    ultimately show ?thesis by blast
  qed
qed

lemma then_do_assoc: "then_do (then_do m f) g = then_do m (\<lambda>x. then_do (f x) g)"
  by (rule ext) (simp add: then_do_def split: prod.splits sum.splits)

lemma then_do_cong: "m s = m' s \<Longrightarrow> then_do m f s = then_do m' f s"
  by (simp add: then_do_def)

lemma write_records_append:
  "write_records env lim name (xs @ ys) = then_do (write_records env lim name xs) (\<lambda>_. write_records env lim name ys)"
proof (induction xs)
  case Nil
  show ?case by (rule ext) (simp add: then_do_def result_def)
qed (simp add: then_do_assoc)

definition write_checkpoint :: "wal_env \<Rightarrow> string \<Rightarrow> wal_record list \<Rightarrow> (unit, wal) act" where
  "write_checkpoint env name ck w =
     then_do (create_file name) (\<lambda>_.
     then_do (write_records env (w_limits w) name ck) (\<lambda>_.
     then_do (sync_file name) (\<lambda>_. plain_call))) w"

definition drop_segments :: "nat \<Rightarrow> ack_plan \<Rightarrow> nat \<Rightarrow> (unit, wal) act" where
  "drop_segments cap p fresh =
     then_do (modify (\<lambda>w. w\<lparr>w_seg_id := fresh, w_seg_bytes := length (kp_frame p) + kp_checkpoint p\<rparr>)) (\<lambda>_.
     then_do (list_segments cap) (\<lambda>ids.
     then_do (remove_below fresh ids) (\<lambda>_.
     then_do plain_call (\<lambda>_. modify (\<lambda>w. w\<lparr>w_disk_bytes := w_seg_bytes w, w_segments := 1\<rparr>)))))"

lemma checkpoint_split:
  assumes "kp_frame p = frame env (ack_record e s n)" "frame_ok env (w_limits w) (ack_record e s n)"
  shows "checkpoint env e s p w =
    then_do (write_checkpoint env (segment_path (w_seg_id w + 1)) (checkpoint_records env e s n w))
      (\<lambda>_. drop_segments (max_segments (w_limits w)) p (w_seg_id w + 1)) w"
proof -
  have "encode_record env (w_limits w) (ack_record e s n) = Inr (kp_frame p)"
    using assms by (simp add: encode_record_Inr frame_ok_def)
  then have W: "(write_records env (w_limits w) name (checkpoint_records env e s n w) :: (unit, wal) act) =
      then_do (write_file name (kp_frame p)) (\<lambda>_.
      then_do (write_records env (w_limits w) name (other_acks e s w)) (\<lambda>_.
        write_records env (w_limits w) name (receipt_records env w)))" for name
    by (intro ext) (simp add: checkpoint_records_def write_records_append then_do_def result_def)
  have X: "then_do (write_checkpoint env name ck) f w = then_do (then_do (create_file name) (\<lambda>_.
      then_do (write_records env (w_limits w) name ck) (\<lambda>_. then_do (sync_file name) (\<lambda>_. plain_call)))) f w"
    for name ck and f :: "unit \<Rightarrow> (unit, wal) act"
    by (rule then_do_cong) (simp add: write_checkpoint_def)
  show ?thesis
    unfolding X W then_do_assoc checkpoint_def Let_def drop_segments_def
      receipt_records_def by (rule refl)
qed

lemma write_checkpoint_run:
  assumes d: "segs_on_disk env (dir w) lo rss []" and bound: "lo + length rss \<le> u64_max"
    and ck: "\<forall>r \<in> set ck. frame_ok env (w_limits w) r"
    and run: "write_checkpoint env (segment_path (lo + length rss)) ck w = (res, w')"
  shows "\<exists>dr sc sy. w' = w\<lparr>script := sc, dir := dr, synced := sy\<rparr> \<and>
    (res = Inr () \<and> segs_on_disk env dr lo (rss @ [ck]) [] \<and>
       sy = AList.update (segment_path (lo + length rss)) (length (frames env ck)) (synced w) \<or>
     res = Inl Io \<and> (segs_on_disk env dr lo rss [] \<or>
       (\<exists>j t. segs_on_disk env dr lo (rss @ [take j ck]) t \<and> torn env (w_limits w) t \<and>
         length (frames env (take j ck)) + length t \<le> length (frames env ck))))"
proof -
  let ?name = "segment_path (lo + length rss)"
  have none: "map_of (dir w) ?name = None" using d by (intro segs_on_disk_fresh_name) (simp add: segs_on_disk_def)
  note newd = segs_on_disk_new [OF d bound]
  obtain r1 w1 where w1: "create_file ?name w = (r1, w1)" by force
  show ?thesis
  proof (rule create_file_run [OF w1 none])
    fix sc assume f: "r1 = Inl Io" "w1 = w\<lparr>script := sc\<rparr>"
    have "res = Inl Io" "w' = w\<lparr>script := sc, dir := dir w, synced := synced w\<rparr>"
      using run w1 f by (auto simp: write_checkpoint_def then_do_def)
    then show ?thesis using d by blast
  next
    fix sc assume f: "r1 = Inl Io" "w1 = w\<lparr>script := sc, dir := AList.update ?name [] (dir w)\<rparr>"
    have "res = Inl Io" "w' = w\<lparr>script := sc, dir := AList.update ?name [] (dir w), synced := synced w\<rparr>"
      using run w1 f by (auto simp: write_checkpoint_def then_do_def)
    moreover have "segs_on_disk env (AList.update ?name [] (dir w)) lo (rss @ [take 0 ck]) []" using newd by simp
    then have "\<exists>j t. segs_on_disk env (AList.update ?name [] (dir w)) lo (rss @ [take j ck]) t \<and> torn env (w_limits w) t \<and>
        length (frames env (take j ck)) + length t \<le> length (frames env ck)"
      by (intro exI [of _ 0] exI [of _ "[]"]) (simp add: torn_def)
    ultimately show ?thesis by blast
  next
    fix sc assume o1: "r1 = Inr ()" "w1 = w\<lparr>script := sc, dir := AList.update ?name [] (dir w)\<rparr>"
    obtain r2 w2 where w2: "write_records env (w_limits w) ?name ck w1 = (r2, w2)" by force
    have d1: "segs_on_disk env (dir w1) lo (rss @ [[]]) []" using newd o1(2) by simp
    obtain d2 sc2 where o2: "w2 = w1\<lparr>script := sc2, dir := d2\<rparr>"
        "r2 = Inr () \<and> segs_on_disk env d2 lo (rss @ [ck]) [] \<or>
         r2 = Inl Io \<and> (\<exists>j t. segs_on_disk env d2 lo (rss @ [take j ck]) t \<and> torn env (w_limits w) t \<and>
           length (frames env (take j ck)) + length t \<le> length (frames env ck))"
      using write_records_run [OF w2 d1 ck] by auto
    have w2': "w2 = w\<lparr>script := sc2, dir := d2, synced := synced w\<rparr>" using o1(2) o2(1) by simp
    from o2(2) show ?thesis
    proof (elim disjE conjE)
      assume f: "r2 = Inl Io" "\<exists>j t. segs_on_disk env d2 lo (rss @ [take j ck]) t \<and> torn env (w_limits w) t \<and>
           length (frames env (take j ck)) + length t \<le> length (frames env ck)"
      have "res = Inl Io" "w' = w2" using run w1 o1(1) w2 f(1) by (auto simp: write_checkpoint_def then_do_def)
      then show ?thesis using w2' f(2) by blast
    next
      assume k: "r2 = Inr ()" "segs_on_disk env d2 lo (rss @ [ck]) []"
      have full: "\<exists>j t. segs_on_disk env d2 lo (rss @ [take j ck]) t \<and> torn env (w_limits w) t \<and>
           length (frames env (take j ck)) + length t \<le> length (frames env ck)"
        using k(2) by (intro exI [of _ "length ck"] exI [of _ "[]"]) (simp add: torn_def)
      have sz: "map_of (dir w2) ?name = Some (frames env ck)" using segs_on_disk_last [OF k(2)] w2' by simp
      obtain r3 w3 where w3: "sync_file ?name w2 = (r3, w3)" by force
      show ?thesis
      proof (rule sync_file_run [OF w3 sz])
        fix sc3 assume f: "r3 = Inl Io" "w3 = w2\<lparr>script := sc3\<rparr>"
        have "res = Inl Io" "w' = w\<lparr>script := sc3, dir := d2, synced := synced w\<rparr>"
          using run w1 o1(1) w2 k(1) w3 f w2' by (auto simp: write_checkpoint_def then_do_def)
        then show ?thesis using full by blast
      next
        fix sc3 assume o3: "r3 = Inr ()" "w3 = w2\<lparr>script := sc3, synced := AList.update ?name (length (frames env ck)) (synced w2)\<rparr>"
        obtain r4 w4 where w4: "plain_call w3 = (r4, w4)" by force
        obtain sc4 where c4: "w4 = w3\<lparr>script := sc4\<rparr>" "r4 = Inr () \<or> r4 = Inl Io" by (rule plain_call_run [OF w4])
        have "res = r4" "w' = w\<lparr>script := sc4, dir := d2, synced := AList.update ?name (length (frames env ck)) (synced w)\<rparr>"
          using run w1 o1(1) w2 k(1) w3 o3 w4 c4(1) w2' by (auto simp: write_checkpoint_def then_do_def)
        then show ?thesis using c4(2) full k(2) by blast
      qed
    qed
  qed
qed

lemma checkpoint_settled:
  assumes inv: "wal_inv env w lo rss" and ty: "ack_typed e s n" and plan: "ack_plan env pid e s n w = Inr (Some p)"
    and clears: "kp_clears p" and room: "w_seg_id w + 2 \<le> u64_max"
  defines "V \<equiv> {contents w, wal_spec env (Ack e s n) (contents w)}" and "ck \<equiv> checkpoint_records env e s n w"
  shows "segs_on_disk env d lo rss [] \<Longrightarrow> settled env (w_limits w) d V"
    "segs_on_disk env d lo (rss @ [take j ck]) t \<Longrightarrow> torn env (w_limits w) t \<Longrightarrow>
       length (frames env (take j ck)) + length t \<le> length (frames env ck) \<Longrightarrow> settled env (w_limits w) d V"
    "segs_on_disk env d (lo + k) (drop k rss @ [ck]) [] \<Longrightarrow> k \<le> length rss \<Longrightarrow> settled env (w_limits w) d V"
proof -
  let ?lim = "w_limits w"
  obtain total where q: "w_disk_bytes w + (length (kp_frame p) + kp_checkpoint p) \<le> max_disk_bytes ?lim"
    "kp_clears p \<longrightarrow> w_segments w \<noteq> max_segments ?lim"
    by (rule ack_plan_steps [OF plan])
  note cp = checkpoint_parts [OF inv ty plan clears, folded ck_def]
  have ne: "rss \<noteq> []" and sz: "disk_size env rss [] + length (frames env ck) \<le> max_disk_bytes ?lim"
    and n: "Suc (length rss) \<le> max_segments ?lim" and b: "lo + Suc (length rss) \<le> u64_max"
    and fit: "fits env ?lim (concat rss)" and v: "view env (concat rss) \<in> V"
    using inv q clears room cp(5) inv_contents [OF inv] unfolding wal_inv_def segs_on_disk_def V_def by auto
  show "settled env ?lim d V" if d: "segs_on_disk env d lo rss []"
  proof -
    have "recoverable env ?lim d lo (butlast rss @ [last rss]) []" "view env (concat (butlast rss @ [last rss])) \<in> V"
      using d ne sz n b fit v by (simp_all add: recoverable_def torn_def)
    then show ?thesis unfolding settled_def by blast
  qed
  show "settled env ?lim d V" if d: "segs_on_disk env d lo (rss @ [take j ck]) t" "torn env ?lim t"
    "length (frames env (take j ck)) + length t \<le> length (frames env ck)"
  proof -
    have zs: "fits env ?lim (concat (rss @ [take j ck])) \<and> view env (concat (rss @ [take j ck])) \<in> V"
    proof (cases j)
      case (Suc i)
      have "set (take j ck) \<subseteq> set ck" by (rule set_take_subset)
      moreover have "ack_record e s n \<in> set (take j ck)" by (simp add: Suc ck_def checkpoint_records_def)
      ultimately show ?thesis
        using checkpoint_view(1,2) [OF inv ty plan clears, of "concat rss @ take j ck"] unfolding V_def ck_def by auto
    qed (use fit v in simp)
    have "recoverable env ?lim d lo (rss @ [take j ck]) t"
      using d zs sz n b by (simp add: recoverable_def disk_size_def)
    then show ?thesis using zs unfolding settled_def by blast
  qed
  show "settled env ?lim d V" if d: "segs_on_disk env d (lo + k) (drop k rss @ [ck]) []" "k \<le> length rss"
  proof -
    have sub: "set (concat (drop k rss)) \<subseteq> set (concat rss)" using set_drop_subset [of k rss] by auto
    have zs: "fits env ?lim (concat (drop k rss @ [ck])) \<and> view env (concat (drop k rss @ [ck])) \<in> V"
      using sub checkpoint_view(1,2) [OF inv ty plan clears, of "concat (drop k rss) @ ck"] unfolding V_def ck_def
      by (auto simp: checkpoint_records_def)
    have "length (frames env (concat (drop k rss))) \<le> length (frames env (concat rss))"
      by (metis append_take_drop_id concat_append frames_simps(3) le_add2 length_append)
    then have "recoverable env ?lim d (lo + k) (drop k rss @ [ck]) []"
      using d zs sz n b by (simp add: recoverable_def disk_size_def torn_def)
    then show ?thesis using zs unfolding settled_def by blast
  qed
qed

lemma drop_segments_run:
  assumes d: "segs_on_disk env (dir w) lo (rss @ [ck]) []" and cap: "Suc (length rss) \<le> cap"
    and run: "drop_segments cap p (lo + length rss) w = (res, w')"
  obtains dr sc sy where "res = Inr ()" "w' = w\<lparr>script := sc, dir := dr, synced := sy, w_seg_id := lo + length rss,
      w_seg_bytes := length (kp_frame p) + kp_checkpoint p,
      w_disk_bytes := length (kp_frame p) + kp_checkpoint p, w_segments := 1\<rparr>" "segs_on_disk env dr (lo + length rss) [ck] []"
      "\<forall>i \<ge> lo + length rss. map_of sy (segment_path i) = map_of (synced w) (segment_path i)"
  | k where "res = Inl Io" "segs_on_disk env (dir w') (lo + k) (drop k rss @ [ck]) []" "k \<le> length rss" "same_handle w w'"
proof -
  let ?w = "w\<lparr>w_seg_id := lo + length rss, w_seg_bytes := length (kp_frame p) + kp_checkpoint p\<rparr>"
  obtain r1 w1 where w1: "list_segments cap ?w = (r1, w1)" by force
  have ok: "dir_ok (dir ?w) lo (Suc (length rss))" using d by (simp add: segs_on_disk_def)
  obtain sc1 where o1: "w1 = ?w\<lparr>script := sc1\<rparr>" "r1 = Inr [lo..<lo + Suc (length rss)] \<or> r1 = Inl Io"
    by (rule list_segments_run [OF w1 ok cap])
  from o1(2) show ?thesis
  proof
    assume "r1 = Inl Io"
    then have "res = Inl Io" "w' = w1" using run w1 by (auto simp: drop_segments_def then_do_def modify_def)
    then show ?thesis using that(2) [of 0] o1(1) d by (simp add: same_handle_def)
  next
    assume r1: "r1 = Inr [lo..<lo + Suc (length rss)]"
    obtain r2 w2 where w2: "remove_below (lo + length rss) [lo..<Suc (lo + length rss)] w1 = (r2, w2)" by force
    have "segs_on_disk env (dir w1) lo (rss @ [ck]) []" using d o1(1) by simp
    from remove_below_run [OF w2 this] obtain dr sc2 sy where o2: "w2 = w1\<lparr>script := sc2, dir := dr, synced := sy\<rparr>"
        "\<forall>i \<ge> lo + length rss. map_of sy (segment_path i) = map_of (synced w1) (segment_path i)"
        "r2 = Inr () \<and> segs_on_disk env dr (lo + length rss) [ck] [] \<or>
         r2 = Inl Io \<and> (\<exists>k \<le> length rss. segs_on_disk env dr (lo + k) (drop k rss @ [ck]) [])" by blast
    from o2(3) show ?thesis
    proof (elim disjE conjE exE)
      fix k assume f: "r2 = Inl Io" "k \<le> length rss" "segs_on_disk env dr (lo + k) (drop k rss @ [ck]) []"
      have "res = Inl Io" "w' = w2"
        using run w1 r1 w2 f(1) by (auto simp: drop_segments_def then_do_def modify_def simp del: upt_Suc)
      then show ?thesis using that(2) [of k] f o1(1) o2(1) by (simp add: same_handle_def)
    next
      assume g: "r2 = Inr ()" "segs_on_disk env dr (lo + length rss) [ck] []"
      obtain r3 w3 where w3: "plain_call w2 = (r3, w3)" by force
      obtain sc3 where o3: "w3 = w2\<lparr>script := sc3\<rparr>" "r3 = Inr () \<or> r3 = Inl Io" by (rule plain_call_run [OF w3])
      from o3(2) show ?thesis
      proof
        assume f: "r3 = Inl Io"
        have "res = Inl Io" "w' = w3"
          using run w1 r1 w2 g(1) w3 f by (auto simp: drop_segments_def then_do_def modify_def simp del: upt_Suc)
        then show ?thesis using that(2) [of "length rss"] g(2) o1(1) o2(1) o3(1) by (simp add: same_handle_def)
      next
        assume f: "r3 = Inr ()"
        have "res = Inr ()" "w' = w3\<lparr>w_disk_bytes := w_seg_bytes w3, w_segments := 1\<rparr>"
          using run w1 r1 w2 g(1) w3 f by (auto simp: drop_segments_def then_do_def modify_def simp del: upt_Suc)
        then show ?thesis using that(1) [of sy dr sc3] g(2) o1(1) o2(1,2) o3(1) by simp
      qed
    qed
  qed
qed

lemma ack_checkpoint_run:
  assumes inv: "wal_inv env w lo rss" and ty: "ack_typed e s n" and plan: "ack_plan env pid e s n w = Inr (Some p)"
    and clears: "kp_clears p" and room: "w_seg_id w + 2 \<le> u64_max"
    and run: "poison (ack_commit env e s n p) w = (res, w')"
  defines "V' \<equiv> wal_spec env (Ack e s n) (contents w)" and "ck \<equiv> checkpoint_records env e s n w"
  shows "same_handle w w' \<and>
    (res = Inr () \<and> wal_inv env w' (lo + length rss) [ck] \<and> view env ck = V' \<and>
       map_of (synced w') (segment_path (lo + length rss)) = Some (length (frames env ck)) \<and>
       (\<forall>i > lo + length rss. map_of (synced w') (segment_path i) = map_of (synced w) (segment_path i)) \<or>
     res = Inl Io \<and> w_failed w' \<and> settled env (w_limits w) (dir w') {contents w, V'})"
proof -
  let ?lim = "w_limits w"
  note mf = marker_fits [OF inv ty plan] and cp = checkpoint_parts [OF inv ty plan clears, folded ck_def]
  note st = checkpoint_settled [OF inv ty plan clears room, folded ck_def V'_def]
  obtain total where q: "w_disk_bytes w + (length (kp_frame p) + kp_checkpoint p) \<le> max_disk_bytes ?lim"
    "kp_clears p \<longrightarrow> w_segments w \<noteq> max_segments ?lim"
    by (rule ack_plan_steps [OF plan])
  have d: "segs_on_disk env (dir w) lo rss []" and sid: "w_seg_id w + 1 = lo + length rss" and live: "\<not> w_failed w"
    and n: "Suc (length rss) \<le> max_segments ?lim" and one: "1 \<le> max_segments ?lim"
    using inv q(2) clears by (auto simp: wal_inv_def segs_on_disk_def Suc_leI)
  have fr: "\<forall>r \<in> set ck. frame_ok env ?lim r" using cp(4) by (auto simp: readable_record_def)
  have bound: "lo + length rss \<le> u64_max" using room sid by simp
  have split: "checkpoint env e s p w = then_do (write_checkpoint env (segment_path (lo + length rss)) ck)
      (\<lambda>_. drop_segments (max_segments ?lim) p (lo + length rss)) w"
    using checkpoint_split [OF mf(1,2)] sid by (simp add: ck_def)
  obtain r1 w1 where w1: "write_checkpoint env (segment_path (lo + length rss)) ck w = (r1, w1)" by force
  from write_checkpoint_run [OF d bound fr w1] obtain dr sc sy where o1: "w1 = w\<lparr>script := sc, dir := dr, synced := sy\<rparr>"
      "r1 = Inr () \<and> segs_on_disk env dr lo (rss @ [ck]) [] \<and>
         sy = AList.update (segment_path (lo + length rss)) (length (frames env ck)) (synced w) \<or>
       r1 = Inl Io \<and> (segs_on_disk env dr lo rss [] \<or>
         (\<exists>j t. segs_on_disk env dr lo (rss @ [take j ck]) t \<and> torn env ?lim t \<and>
           length (frames env (take j ck)) + length t \<le> length (frames env ck)))" by blast
  from o1(2) show ?thesis
  proof (elim disjE [of "r1 = Inr () \<and> _"] conjE)
    assume f: "r1 = Inl Io" "segs_on_disk env dr lo rss [] \<or>
         (\<exists>j t. segs_on_disk env dr lo (rss @ [take j ck]) t \<and> torn env ?lim t \<and>
           length (frames env (take j ck)) + length t \<le> length (frames env ck))"
    have "res = Inl Io" "w' = w1\<lparr>w_failed := True\<rparr>"
      using run w1 f(1) clears split by (auto simp: poison_def ack_commit_def then_do_def)
    moreover have "settled env ?lim dr {contents w, V'}" using f(2) st(1,2) by blast
    ultimately show ?thesis using o1(1) by (simp add: same_handle_def)
  next
    assume g: "r1 = Inr ()" "segs_on_disk env dr lo (rss @ [ck]) []"
      "sy = AList.update (segment_path (lo + length rss)) (length (frames env ck)) (synced w)"
    obtain r2 w2 where w2: "drop_segments (max_segments ?lim) p (lo + length rss) w1 = (r2, w2)" by force
    have d1: "segs_on_disk env (dir w1) lo (rss @ [ck]) []" using g(2) o1(1) by simp
    show ?thesis
    proof (rule drop_segments_run [OF d1 n w2])
      fix k assume f: "r2 = Inl Io" "segs_on_disk env (dir w2) (lo + k) (drop k rss @ [ck]) []" "k \<le> length rss" "same_handle w1 w2"
      have "res = Inl Io" "w' = w2\<lparr>w_failed := True\<rparr>"
        using run w1 g(1) w2 f(1) clears split by (auto simp: poison_def ack_commit_def then_do_def)
      then show ?thesis using st(3) [OF f(2,3)] f(4) o1(1) by (simp add: same_handle_def)
    next
      fix dr2 sc2 sy2 assume h: "r2 = Inr ()" "w2 = w1\<lparr>script := sc2, dir := dr2, synced := sy2, w_seg_id := lo + length rss,
          w_seg_bytes := length (kp_frame p) + kp_checkpoint p,
          w_disk_bytes := length (kp_frame p) + kp_checkpoint p, w_segments := 1\<rparr>"
        "segs_on_disk env dr2 (lo + length rss) [ck] []"
        "\<forall>i \<ge> lo + length rss. map_of sy2 (segment_path i) = map_of (synced w1) (segment_path i)"
      let ?w' = "let rest = filter (\<lambda>r. \<not> acked_by e s n r) (w_pending w2) in
         w2\<lparr>w_acked := AList.update (e, s) n (w_acked w2), w_watermark_bytes := kp_watermark p,
           w_pending := rest, w_pending_bytes := sum_list (map (\<lambda>r. record_memory env (pr_record r)) rest)\<rparr>"
      have r: "res = Inr ()" "w' = ?w'"
        using run w1 g(1) w2 h(1) clears split by (auto simp: poison_def ack_commit_def then_do_def modify_def)
      note cv = checkpoint_view [OF inv ty plan clears, of ck, folded ck_def V'_def]
      have mk: "ack_record e s n \<in> set ck" by (simp add: ck_def checkpoint_records_def)
      have "wal_inv env ?w' (lo + length rss) [ck]"
        by (rule inv_acked [OF inv ty plan])
          (use h o1(1) cp(5) q(1) one live cv mk in \<open>auto simp: same_handle_def disk_size_def V'_def\<close>)
      moreover have "same_handle w ?w'" "synced ?w' = sy2" using h(2) o1(1) by (simp_all add: same_handle_def Let_def)
      ultimately show ?thesis
        using r cv(1) mk h(4) o1(1) g(3) by (simp add: map_of_update)
    qed
  qed
qed

end
