(* ===== verification/Wal_Example.thy ===== *)
theory Wal_Example
  imports Wal_Disk
begin

text \<open>
  A concrete instance of what the write-ahead log leaves open: a self-delimiting encoding of the
  records, a constant digest and sizes. It satisfies \<open>wal_codec_ok\<close>, so the theorems about the log apply
  to it, and the operations can be evaluated on it.
\<close>

definition put_nat :: "nat \<Rightarrow> byte list" where
  "put_nat n = replicate n 0 @ [1]"

fun get_nat :: "byte list \<Rightarrow> (nat \<times> byte list) option" where
  "get_nat [] = None"
| "get_nat (b # bs) = (if b = 0 then map_option (\<lambda>(n, rest). (Suc n, rest)) (get_nat bs) else Some (0, bs))"

definition put_bytes :: "byte list \<Rightarrow> byte list" where
  "put_bytes bs = put_nat (length bs) @ bs"

definition get_bytes :: "byte list \<Rightarrow> (byte list \<times> byte list) option" where
  "get_bytes bs = Option.bind (get_nat bs) (\<lambda>(n, rest). if n \<le> length rest then Some (take n rest, drop n rest) else None)"

lemma get_put_nat [simp]: "get_nat (put_nat n @ rest) = Some (n, rest)"
  by (induction n) (simp_all add: put_nat_def)

lemma get_put_bytes [simp]: "get_bytes (put_bytes bs @ rest) = Some (bs, rest)"
  by (simp add: get_bytes_def put_bytes_def)

definition example_env :: wal_env where
  "example_env = \<lparr>
     enc_record = \<lambda>r. put_bytes (str_bytes (wr_endpoint r)) @ put_bytes (str_bytes (wr_sender r)) @ put_nat (wr_seq r) @
       put_bytes (str_bytes (wr_path r)) @ put_bytes (str_bytes (wr_key r)) @ put_bytes (wr_payload r),
     dec_record = \<lambda>bs. Option.bind (get_bytes bs) (\<lambda>(e, r1). Option.bind (get_bytes r1) (\<lambda>(s, r2).
       Option.bind (get_nat r2) (\<lambda>(n, r3). Option.bind (get_bytes r3) (\<lambda>(p, r4). Option.bind (get_bytes r4) (\<lambda>(k, r5).
       Option.bind (get_bytes r5) (\<lambda>(d, r6).
         Some (\<lparr>wr_endpoint = bytes_str e, wr_sender = bytes_str s, wr_seq = n, wr_path = bytes_str p,
           wr_key = bytes_str k, wr_payload = d\<rparr>, length bs - length r6))))))),
     enc_accept = \<lambda>a. put_bytes (str_bytes (ac_request a)) @ put_bytes (str_bytes (ac_key a)) @ put_bytes (ac_payload a),
     dec_accept = \<lambda>bs. Option.bind (get_bytes bs) (\<lambda>(i, r1). Option.bind (get_bytes r1) (\<lambda>(k, r2).
       Option.bind (get_bytes r2) (\<lambda>(d, r3).
         Some (\<lparr>ac_request = bytes_str i, ac_key = bytes_str k, ac_payload = d\<rparr>, length bs - length r3)))),
     enc_saved = \<lambda>v. put_bytes (str_bytes (sr_request v)) @ put_bytes (sr_print v),
     dec_saved = \<lambda>bs. Option.bind (get_bytes bs) (\<lambda>(i, r1). Option.bind (get_bytes r1) (\<lambda>(d, r2).
       Some (\<lparr>sr_request = bytes_str i, sr_print = d\<rparr>, length bs - length r2))),
     sha256 = \<lambda>_. replicate 32 0,
     watermark_size = 56, pending_size = 168\<rparr>"

lemma get_put_end [simp]: "get_bytes (put_bytes bs) = Some (bs, [])"
  using get_put_bytes [of bs "[]"] by simp

lemma put_bytes_size [simp]: "length (put_bytes bs) = 2 * length bs + 1" "put_bytes bs \<noteq> []"
  by (simp_all add: put_bytes_def put_nat_def)

lemma example_codec: "wal_codec_ok example_env"
  by (simp add: wal_codec_ok_def example_env_def)

definition example_limits :: wal_limits where
  "example_limits = \<lparr>max_record_bytes = 1000, max_disk_bytes = 100000, max_segments = 4, max_pending_records = 10,
     max_pending_bytes = 10000, max_streams = 10, max_watermark_bytes = 10000, max_submission_receipts = 10,
     max_submission_receipt_bytes = 10000\<rparr>"

lemma example_limit_fields [simp]:
  "max_record_bytes example_limits = 1000" "max_disk_bytes example_limits = 100000" "max_segments example_limits = 4"
  "max_streams example_limits = 10" "max_watermark_bytes example_limits = 10000"
  by (simp_all add: example_limits_def)

definition example_fs :: fsys where
  "example_fs = \<lparr>dir = [], synced = [], script = []\<rparr>"

definition example_record :: wal_record where
  "example_record = \<lparr>wr_endpoint = ''n'', wr_sender = ''s'', wr_seq = 1, wr_path = ''p'', wr_key = ''k'', wr_payload = [7]\<rparr>"

definition example_wal :: wal where
  "example_wal = projr (fst (open_with_limits example_env 7 1000 example_limits example_fs))"

lemma example_wal_eq: "example_wal = \<lparr>dir = [(lock_path, []), (segment_path 1, [])], synced = [], script = [], w_pid = 7,
   w_segment_max = 1000, w_limits = example_limits, w_seg_id = 1, w_seg_bytes = 0, w_disk_bytes = 0, w_segments = 1,
   w_failed = False, w_acked = [], w_pending = [], w_pending_bytes = 0, w_watermark_bytes = 0,
   w_receipts = receipt_index_default\<rparr>"
  by code_simp

definition example_stored :: wal_record where
  "example_stored = example_record\<lparr>wr_key := accept_key,
     wr_payload := enc_accept example_env \<lparr>ac_request = ''id'', ac_key = ''k'', ac_payload = [7]\<rparr>\<rparr>"

definition example_receipt :: wal_receipt where
  "example_receipt = submission_receipt example_env example_record ''id''"

lemma example_wrap: "submission_wrap example_env example_record ''id'' = Inr (example_stored, example_receipt)"
  by code_simp

lemma example_check: "receipt_check example_env example_limits receipt_index_default example_receipt = Inr ()"
  by code_simp

lemma example_reserve: "reserve_pending example_env example_limits example_record 0 0 = Inr 173"
  by code_simp

lemma example_valid: "validate_record example_record False = Inr ()" by code_simp
lemma example_lookup: "receipt_lookup example_env receipt_index_default example_record ''id'' = Inr None" by code_simp
lemma example_size: "length (enc_record example_env example_stored) = 69"
  by code_simp

lemma example_receipt_size: "encoded_size example_env example_limits (receipt_record example_env example_receipt) = Inr 195"
  by code_simp

text \<open>The submission, with its checksum left unevaluated.\<close>

lemma example_plan:
  "submit_plan example_env 7 example_record (Some ''id'') None (example_wal\<lparr>script := sc\<rparr>) =
    Inr (Inr \<lparr>ap_frame = frame example_env example_stored, ap_receipt = Some example_receipt, ap_bytes = 173, ap_rotate = False\<rparr>)"
  by (simp add: submit_plan_def example_wal_eq check_state_def example_valid example_lookup example_wrap example_check
      example_reserve causal_wrap_def encode_record_def encoded_size_def example_size length_frame ensure_disk_def
      checked_add_def capped_def or_err_def u64_max_def)

definition example_wal1 :: wal where
  "example_wal1 = snd (append_submission example_env 7 example_record (Some ''id'') None (example_wal\<lparr>script := []\<rparr>))"

lemma example_submit:
  "append_submission example_env 7 example_record (Some ''id'') None (example_wal\<lparr>script := []\<rparr>) = (Inr (1, True), example_wal1)"
  "\<not> w_failed example_wal1" "synced example_wal1 = []" "w_seg_id example_wal1 = 1"
  "dir example_wal1 = [(lock_path, []), (segment_path 1, frame example_env example_stored)]"
  "w_pid example_wal1 = 7" "w_limits example_wal1 = example_limits" "w_segment_max example_wal1 = 1000"
  "w_disk_bytes example_wal1 = 77" "w_segments example_wal1 = 1" "w_acked example_wal1 = []"
  "w_pending example_wal1 = [\<lparr>pr_record = example_record, pr_parent = None\<rparr>]" "w_watermark_bytes example_wal1 = 0"
  "ri_checkpoint (w_receipts example_wal1) = 195"
  unfolding example_wal1_def append_submission_def example_plan
  by (simp_all add: poison_def append_commit_def then_do_def write_encoded_def write_file_def io_call_def
      insert_receipt_def receipt_insert_def example_check receipt_index_default_def [symmetric] example_receipt_size
      modify_def result_def example_wal_eq, simp_all add: receipt_index_default_def example_record_def length_frame example_size)

text \<open>
  An acknowledgement of it that stops after it has created the segment of its checkpoint.
\<close>

definition example_wal2 :: wal where
  "example_wal2 = snd (wal_ack example_env 7 ''n'' ''s'' 1 (example_wal1\<lparr>script := [Done, Fault 0]\<rparr>))"

lemma example_marker:
  "validate_record (ack_record ''n'' ''s'' 1) True = Inr ()"
  "reserve_watermark example_env example_limits 0 ''n'' ''s'' = Inr 58"
  "length (enc_record example_env (ack_record ''n'' ''s'' 1)) = 19"
  by code_simp+

lemma example_ack:
  "fst (wal_ack example_env 7 ''n'' ''s'' 1 (example_wal1\<lparr>script := [Done, Fault 0]\<rparr>)) = Inl Io"
  "dir example_wal2 = [(lock_path, []), (segment_path 1, frame example_env example_stored), (segment_path 2, [])]"
  "synced example_wal2 = []"
proof -
  have "ack_plan example_env 7 ''n'' ''s'' 1 (example_wal1\<lparr>script := [Done, Fault 0]\<rparr>) =
      Inr (Some \<lparr>kp_frame = frame example_env (ack_record ''n'' ''s'' 1), kp_clears = True, kp_checkpoint = 195, kp_watermark = 58\<rparr>)"
    by (simp add: ack_plan_def check_state_def example_submit example_marker [unfolded One_nat_def] encode_record_def encoded_size_def
        acked_by_def example_record_def other_acks_def length_frame checked_add_def u64_max_def ensure_disk_def capped_def or_err_def)
  then show "fst (wal_ack example_env 7 ''n'' ''s'' 1 (example_wal1\<lparr>script := [Done, Fault 0]\<rparr>)) = Inl Io"
    "dir example_wal2 = [(lock_path, []), (segment_path 1, frame example_env example_stored), (segment_path 2, [])]"
    "synced example_wal2 = []"
    by (simp_all add: example_wal2_def wal_ack_def poison_def ack_commit_def checkpoint_def then_do_def create_file_def
        write_file_def io_call_def example_submit numeral_2_eq_2 Let_def)
qed

lemma example_reopen:
  "fst (open_with_limits example_env 7 1000 example_limits
     \<lparr>dir = [(lock_path, []), (segment_path 1, [69]), (segment_path 2, [])], synced = [], script = []\<rparr>) = Inl Sealed_Corrupt"
  by code_simp

end
