(* ===== verification/Wal_Theorems.thy ===== *)
theory Wal_Theorems
  imports Wal_Acks Wal_Example
begin

text \<open>
  The write-ahead log as a whole: its lives with failing calls, crashes and recoveries, what a
  recovery returns, what a power loss can take, and the single acceptance of a keyed submission.
\<close>

declare map_of_eq_Some_iff [simp del] Some_eq_map_of_iff [simp del]

section \<open>Lives of a log\<close>

fun wal_exec :: "wal_env \<Rightarrow> nat \<Rightarrow> wal_op \<Rightarrow> ((nat \<times> bool) option, wal) act" where
  "wal_exec env pid (Submit r request parent) w =
     then_do (append_submission env pid r request parent) (\<lambda>x. result (Inr (Some x))) w"
| "wal_exec env pid (Ack e s n) w = then_do (wal_ack env pid e s n) (\<lambda>_. result (Inr None)) w"
| "wal_exec env pid Sync w = then_do (wal_sync pid) (\<lambda>_. result (Inr None)) w"

fun op_typed :: "wal_op \<Rightarrow> bool" where
  "op_typed (Submit r request parent) = submission_typed r request parent"
| "op_typed (Ack e s n) = ack_typed e s n"
| "op_typed Sync = True"

definition room :: "wal \<Rightarrow> bool" where
  "room w \<longleftrightarrow> w_seg_id w + 2 \<le> u64_max"

definition after_crash :: "wal \<Rightarrow> fsys" where
  "after_crash w = \<lparr>dir = dir w, synced = synced w, script = []\<rparr>"

text \<open>
  One step of a life: an operation that does not poison the handle, under any outcomes of its calls;
  or an operation under any outcomes, the end of the process, and a new handle on what is on disk.
\<close>

inductive wal_next :: "wal_env \<Rightarrow> wal \<Rightarrow> wal \<Rightarrow> bool" for env where
  step: "op_typed op \<Longrightarrow> room w \<Longrightarrow> wal_exec env pid op (w\<lparr>script := sc\<rparr>) = (res, w') \<Longrightarrow> \<not> w_failed w' \<Longrightarrow>
    wal_next env w w'"
| reopen: "op_typed op \<Longrightarrow> room w \<Longrightarrow> wal_exec env pid op (w\<lparr>script := sc\<rparr>) = (res, w1) \<Longrightarrow>
    open_with_limits env pid' (w_segment_max w) (w_limits w) (after_crash w1) = (Inr w', s') \<Longrightarrow> wal_next env w w'"

inductive wal_life :: "wal_env \<Rightarrow> wal \<Rightarrow> bool" for env where
  start: "dir_ok (dir s) 1 0 \<Longrightarrow> script s = [] \<Longrightarrow> open_with_limits env pid m lim s = (Inr w, s') \<Longrightarrow> wal_life env w"
| continue: "wal_life env w \<Longrightarrow> wal_next env w w' \<Longrightarrow> wal_life env w'"

lemma open_fresh_ok:
  assumes lim: "limits_ok lim m" and sc: "script s = []" and d: "dir_ok (dir s) 1 0"
  shows "\<exists>w s'. open_with_limits env pid m lim s = (Inr w, s') \<and> wal_inv env w 1 [[]] \<and>
    w_limits w = lim \<and> w_pid w = pid \<and> w_segment_max w = m \<and> synced w = synced s"
proof -
  let ?d = "if map_of (dir s) lock_path \<noteq> None then dir s else AList.update lock_path [] (dir s)"
  let ?s = "s\<lparr>dir := ?d\<rparr>"
  have d1: "dir_ok ?d 1 0" using d dir_ok_lock by simp
  have lock: "lock_file lock_path s = (Inr (), ?s)" using sc by (simp add: lock_file_def io_call_ok)
  have sc1: "script ?s = []" using sc by simp
  have ids: "list_segments (max_segments lim) ?s = (Inr [], ?s)"
    using list_segments_ok [OF sc1, of 1 0 "max_segments lim"] d1 by simp
  have none: "map_of ?d (segment_path 1) = None" using segs_on_disk_fresh_name [OF d1] by simp
  let ?s2 = "?s\<lparr>dir := AList.update (segment_path 1) [] ?d\<rparr>"
  have cr: "create_file (segment_path 1) ?s = (Inr (), ?s2)"
    using none sc by (simp add: create_file_def io_call_ok)
  have sc2: "script ?s2 = []" using sc by simp
  have rd: "read_file (segment_path 1) ?s2 = (Inr [], ?s2)" by (rule read_file_ok [OF sc2]) (simp add: map_of_update)
  have d2: "dir_ok (AList.update (segment_path 1) [] ?d) 1 (Suc 0)"
    using dir_ok_new [OF d1] by (simp add: u64_max_def)
  have next_id: "checked_add 1 1 = Some (2 :: nat)" by (simp add: checked_add_def u64_max_def)
  have "open_with_limits env pid m lim s =
     (Inr \<lparr>dir = dir ?s2, synced = synced s, script = [], w_pid = pid, w_segment_max = m,
       w_limits = lim, w_seg_id = 1, w_seg_bytes = 0, w_disk_bytes = 0, w_segments = 1, w_failed = False,
       w_acked = [], w_pending = [], w_pending_bytes = 0, w_watermark_bytes = 0, w_receipts = receipt_index_default\<rparr>, ?s2)"
    unfolding open_with_limits_def then_do_def [abs_def] Let_def
    using lim sc
    by (simp only: result_def guard_True plain_call_ok [OF sc] lock plain_call_ok [OF sc1] ids
        measure_segments.simps scan_segments.simps repair_def option.case if_True
        cr rd next_id or_err_Some plain_call_ok [OF sc2] prod.case sum.case simp_thms) simp
  moreover have "max_segments lim \<ge> 1" using lim by (auto simp: limits_ok_def)
  ultimately show ?thesis
    using d2 lim by (auto simp: wal_inv_def segs_on_disk_def seg_content_def disk_size_def fits_def receipts_fit_def
        streams_fit_def pending_fit_def pending_memory_def map_of_update)
qed

section \<open>What is synced\<close>

definition synced_len :: "'z fsys_scheme \<Rightarrow> string \<Rightarrow> nat" where
  "synced_len s name = (case map_of (synced s) name of None \<Rightarrow> 0 | Some n \<Rightarrow> n)"

text \<open>
  Sealed segments are synced; of the last one, a number of whole records is, and every continuation
  of those records up to the present has a meaning in \<open>V\<close>.
\<close>

definition sync_inv :: "wal_env \<Rightarrow> wal \<Rightarrow> nat \<Rightarrow> wal_record list list \<Rightarrow> wal_view set \<Rightarrow> bool" where
  "sync_inv env w lo rss V \<longleftrightarrow>
     (\<forall>i. Suc i < length rss \<longrightarrow> synced_len w (segment_path (lo + i)) = length (frames env (rss ! i))) \<and>
     (\<exists>j \<le> length (last rss). synced_len w (segment_path (lo + length rss - 1)) = length (frames env (take j (last rss))) \<and>
       (\<forall>i. j \<le> i \<longrightarrow> i \<le> length (last rss) \<longrightarrow>
          fits env (w_limits w) (concat (butlast rss) @ take i (last rss)) \<and>
          view env (concat (butlast rss) @ take i (last rss)) \<in> V)) \<and>
     (\<forall>i \<ge> lo + length rss. synced_len w (segment_path i) = 0)"

lemma sync_inv_mono: "sync_inv env w lo rss V \<Longrightarrow> V \<subseteq> V' \<Longrightarrow> sync_inv env w lo rss V'"
  unfolding sync_inv_def by blast

lemma sync_add:
  assumes s: "sync_inv env w lo (rss @ [rs]) V" and w': "synced w' = synced w" "w_limits w' = w_limits w"
    and fit: "fits env (w_limits w) (concat (rss @ [rs @ [r]]))" and v: "view env (concat (rss @ [rs @ [r]])) \<in> V'" and sub: "V \<subseteq> V'"
  shows "sync_inv env w' lo (rss @ [rs @ [r]]) V'"
proof -
  have len: "synced_len w' name = synced_len w name" for name using w'(1) by (simp add: synced_len_def)
  obtain j where j: "j \<le> length rs" "synced_len w (segment_path (lo + length rss)) = length (frames env (take j rs))"
      "\<And>i. j \<le> i \<Longrightarrow> i \<le> length rs \<Longrightarrow> fits env (w_limits w) (concat rss @ take i rs) \<and> view env (concat rss @ take i rs) \<in> V"
    using s by (auto simp: sync_inv_def)
  have "fits env (w_limits w) (concat rss @ take i (rs @ [r])) \<and> view env (concat rss @ take i (rs @ [r])) \<in> V'"
    if i: "j \<le> i" "i \<le> Suc (length rs)" for i
  proof (cases "i \<le> length rs")
    case True
    then show ?thesis using j(3) [OF i(1) True] sub by auto
  next
    case False
    then have "i = Suc (length rs)" using i(2) by simp
    then show ?thesis using fit v by simp
  qed
  then have "\<exists>j \<le> length (rs @ [r]). synced_len w (segment_path (lo + length rss)) = length (frames env (take j (rs @ [r]))) \<and>
      (\<forall>i. j \<le> i \<longrightarrow> i \<le> length (rs @ [r]) \<longrightarrow> fits env (w_limits w) (concat rss @ take i (rs @ [r])) \<and>
        view env (concat rss @ take i (rs @ [r])) \<in> V')"
    using j(1,2) by (intro exI [of _ j]) simp
  then show ?thesis
    using s unfolding sync_inv_def len w'(2) by (auto simp: nth_append)
qed

lemma sync_now:
  assumes s: "sync_inv env w lo (rss @ [rs]) V" and w': "w_limits w' = w_limits w"
    "synced w' = AList.update (segment_path (lo + length rss)) (length (frames env rs)) (synced w)"
    and fit: "fits env (w_limits w) (concat (rss @ [rs]))" and v: "view env (concat (rss @ [rs])) \<in> V'"
  shows "sync_inv env w' lo (rss @ [rs]) V'"
proof -
  have len: "synced_len w' name = (if name = segment_path (lo + length rss) then length (frames env rs) else synced_len w name)" for name
    using w'(2) by (simp add: synced_len_def map_of_update)
  have "fits env (w_limits w) (concat rss @ take i rs) \<and> view env (concat rss @ take i rs) \<in> V'"
    if "length rs \<le> i" "i \<le> length rs" for i
    using that fit v by simp
  then have "\<exists>j \<le> length rs. synced_len w' (segment_path (lo + length rss)) = length (frames env (take j rs)) \<and>
      (\<forall>i. j \<le> i \<longrightarrow> i \<le> length rs \<longrightarrow> fits env (w_limits w) (concat rss @ take i rs) \<and> view env (concat rss @ take i rs) \<in> V')"
    by (intro exI [of _ "length rs"]) (simp add: len)
  then show ?thesis using s unfolding sync_inv_def w'(1) by (simp add: len)
qed

lemma sync_roll:
  assumes s: "sync_inv env w lo (rss @ [rs]) V" and w': "w_limits w' = w_limits w"
    "synced w' = AList.update (segment_path (lo + length rss)) (length (frames env rs)) (synced w)"
    and fit: "fits env (w_limits w) (concat (rss @ [rs]))" and v: "view env (concat (rss @ [rs])) \<in> V'"
  shows "sync_inv env w' lo (rss @ [rs, []]) V'"
proof -
  have len: "synced_len w' name = (if name = segment_path (lo + length rss) then length (frames env rs) else synced_len w name)" for name
    using w'(2) by (simp add: synced_len_def map_of_update)
  have "synced_len w' (segment_path (lo + i)) = length (frames env ((rss @ [rs, []]) ! i))" if "i < Suc (length rss)" for i
  proof (cases "i = length rss")
    case False
    then have "i < length rss" using that by simp
    then show ?thesis using s by (auto simp: sync_inv_def len nth_append)
  qed (simp add: len nth_append)
  moreover have "synced_len w (segment_path i) = 0" if "lo + length rss < i" for i
    using s that by (simp add: sync_inv_def)
  ultimately show ?thesis
    using fit v unfolding sync_inv_def w'(1) by (simp add: len butlast_append)
qed

lemma sync_checkpoint:
  assumes s: "sync_inv env w lo rss V" and w': "w_limits w' = w_limits w"
    "map_of (synced w') (segment_path (lo + length rss)) = Some (length (frames env ck))"
    "\<forall>i > lo + length rss. map_of (synced w') (segment_path i) = map_of (synced w) (segment_path i)"
    and fit: "fits env (w_limits w) ck" and v: "view env ck \<in> V'"
  shows "sync_inv env w' (lo + length rss) [ck] V'"
proof -
  have "\<exists>j \<le> length ck. synced_len w' (segment_path (lo + length rss)) = length (frames env (take j ck)) \<and>
      (\<forall>i. j \<le> i \<longrightarrow> i \<le> length ck \<longrightarrow> fits env (w_limits w) (take i ck) \<and> view env (take i ck) \<in> V')"
    using w'(2) fit v by (intro exI [of _ "length ck"]) (simp add: synced_len_def)
  moreover have "synced_len w' (segment_path i) = 0" if "lo + length rss < i" for i
    using s w'(3) that by (simp add: sync_inv_def synced_len_def)
  ultimately show ?thesis unfolding sync_inv_def w'(1) by simp
qed

section \<open>Every operation\<close>

lemma sync_run:
  assumes inv: "wal_inv env w lo (rss @ [rs])" and run: "wal_sync pid w = (res, w')" and rm: "room w"
  shows "same_handle w w' \<and> contents w' = contents w \<and>
    (w' = w \<and> (\<exists>e. res = Inl e) \<or>
     res = Inr () \<and> wal_inv env w' lo (rss @ [rs]) \<and>
       synced w' = AList.update (segment_path (lo + length rss)) (length (frames env rs)) (synced w) \<or>
     res = Inl Io \<and> w_failed w' \<and> settled env (w_limits w) (dir w') {contents w})"
proof (cases "check_state pid w")
  case (Inr u)
  have d: "segs_on_disk env (dir w) lo (rss @ [rs]) []" and sid: "w_seg_id w = lo + length rss" using inv by (auto simp: wal_inv_def)
  have sz: "map_of (dir w) (segment_path (lo + length rss)) = Some (frames env rs)" using segs_on_disk_last [OF d] by simp
  have rec: "recoverable env (w_limits w) (dir w) lo (rss @ [rs]) []"
    using inv rm by (auto simp: wal_inv_def recoverable_def torn_def room_def)
  obtain r1 w1 where w1: "sync_file (segment_path (lo + length rss)) w = (r1, w1)" by force
  show ?thesis
  proof (rule sync_file_run [OF w1 sz])
    fix sc assume o: "r1 = Inr ()" "w1 = w\<lparr>script := sc, synced := AList.update (segment_path (lo + length rss)) (length (frames env rs)) (synced w)\<rparr>"
    then have "res = Inr ()" "w' = w1" using run w1 sid Inr by (auto simp: wal_sync_def poison_def)
    then show ?thesis using inv o(2) by (simp add: wal_inv_def same_handle_def contents_def)
  next
    fix sc assume f: "r1 = Inl Io" "w1 = w\<lparr>script := sc\<rparr>"
    then have "res = Inl Io" "w' = w1\<lparr>w_failed := True\<rparr>" using run w1 sid Inr by (auto simp: wal_sync_def poison_def)
    moreover have "settled env (w_limits w) (dir w) {contents w}"
      unfolding settled_def inv_contents [OF inv] using rec by blast
    ultimately show ?thesis using f(2) by (simp add: same_handle_def contents_def)
  qed
next
  case (Inl e)
  then have "res = Inl e" "w' = w" using run by (simp_all add: wal_sync_def)
  then show ?thesis by (simp add: same_handle_def)
qed

text \<open>
  An operation changes nothing, or is carried out, or fails at an I/O call and leaves a directory with
  the meaning before or after it.
\<close>

definition carried :: "wal_env \<Rightarrow> wal_op \<Rightarrow> nat \<Rightarrow> wal_record list list \<Rightarrow> wal \<Rightarrow>
    wal_error + (nat \<times> bool) option \<Rightarrow> wal \<Rightarrow> bool" where
  "carried env op lo rss w res w' \<longleftrightarrow> same_handle w w' \<and>
    (w' = w \<and> (op = Sync \<longrightarrow> (\<exists>e. res = Inl e)) \<or>
     (\<exists>x lo' rss'. res = Inr x \<and> wal_inv env w' lo' rss' \<and> contents w' = wal_spec env op (contents w) \<and>
        lo' + length rss' \<le> lo + length rss + 1 \<and>
        (\<forall>V. sync_inv env w lo rss V \<longrightarrow>
           sync_inv env w' lo' rss' (if op = Sync then {contents w'} else insert (contents w') V))) \<or>
     res = Inl Io \<and> w_failed w' \<and> settled env (w_limits w) (dir w') {contents w, wal_spec env op (contents w)})"

lemma carried_same: "op = Sync \<longrightarrow> (\<exists>e. res = Inl e) \<Longrightarrow> carried env op lo rss w res w"
  by (simp add: carried_def same_handle_def)

lemma carried_fault:
  "same_handle w w' \<Longrightarrow> w_failed w' \<Longrightarrow> settled env (w_limits w) (dir w') {contents w, wal_spec env op (contents w)} \<Longrightarrow>
    carried env op lo rss w (Inl Io) w'"
  by (simp add: carried_def)

lemma carried_done:
  assumes "same_handle w w'" and inv: "wal_inv env w' lo' rss'" and len: "lo' + length rss' \<le> lo + length rss + 1" and v: "view env (concat rss') = wal_spec env op (contents w)"
    and "\<And>V. sync_inv env w lo rss V \<Longrightarrow> fits env (w_limits w) (concat rss') \<Longrightarrow> w_limits w' = w_limits w \<Longrightarrow>
      sync_inv env w' lo' rss' (if op = Sync then {view env (concat rss')} else insert (view env (concat rss')) V)"
  shows "carried env op lo rss w (Inr x) w'"
proof -
  have c: "contents w' = view env (concat rss')" by (rule inv_contents [OF inv])
  have lim: "w_limits w' = w_limits w" using assms(1) by (simp add: same_handle_def)
  have "fits env (w_limits w) (concat rss')" using inv lim by (simp add: wal_inv_def)
  then have "\<forall>V. sync_inv env w lo rss V \<longrightarrow>
      sync_inv env w' lo' rss' (if op = Sync then {contents w'} else insert (contents w') V)"
    using assms(5) lim unfolding c by blast
  then show ?thesis
    unfolding carried_def using inv v c len
    by (intro conjI [OF assms(1)] disjI2 [OF disjI1] exI [of _ x] exI [of _ lo'] exI [of _ rss']) simp
qed

lemma submit_carried:
  assumes cd: "wal_codec_ok env" and inv: "wal_inv env w lo (rss @ [rs])" and ty: "submission_typed r request parent"
    and rm: "room w" and run: "wal_exec env pid (Submit r request parent) w = (res, w')"
  shows "carried env (Submit r request parent) lo (rss @ [rs]) w res w'"
proof (cases "\<exists>p. submit_plan env pid r request parent w = Inr (Inr p)")
  case True
  let ?op = "Submit r request parent"
  from True obtain p where plan: "submit_plan env pid r request parent w = Inr (Inr p)" by blast
  obtain r1 where pr: "poison (append_commit env r parent p) w = (r1, w')" "res = sum_bind r1 (\<lambda>x. Inr (Some x))"
    using run plan by (cases "poison (append_commit env r parent p) w")
      (auto simp: append_submission_def then_do_def result_def split: sum.splits)
  note ar = append_run [OF cd inv ty plan rm [unfolded room_def] pr(1)]
  from ar(2) show ?thesis
  proof (elim disjE [of "r1 = Inr (wr_seq r, True) \<and> _"] conjE exE)
    assume "r1 = Inl Io" "w_failed w'" "settled env (w_limits w) (dir w') {contents w, wal_spec env ?op (contents w)}"
    then show ?thesis using carried_fault [OF ar(1)] pr(2) by simp
  next
    fix stored assume k: "r1 = Inr (wr_seq r, True)" "wal_spec env ?op (contents w) = view env (concat (rss @ [rs @ [stored]]))"
      "wal_inv env w' lo (rss @ [rs @ [stored]]) \<and> synced w' = synced w \<or>
       wal_inv env w' lo (rss @ [rs @ [stored], []]) \<and>
       synced w' = AList.update (segment_path (lo + length rss)) (length (frames env (rs @ [stored]))) (synced w)"
    from k(3) have "carried env ?op lo (rss @ [rs]) w (Inr (Some (wr_seq r, True))) w'"
    proof (elim disjE conjE)
      assume a: "wal_inv env w' lo (rss @ [rs @ [stored]])" "synced w' = synced w"
      show ?thesis using k(2) a(2) by (intro carried_done [OF ar(1) a(1)]) (auto intro!: sync_add)
    next
      assume a: "wal_inv env w' lo (rss @ [rs @ [stored], []])"
        "synced w' = AList.update (segment_path (lo + length rss)) (length (frames env (rs @ [stored]))) (synced w)"
      show ?thesis
      proof (rule carried_done [OF ar(1) a(1)])
        fix V assume s: "sync_inv env w lo (rss @ [rs]) V" "w_limits w' = w_limits w"
          and fit: "fits env (w_limits w) (concat (rss @ [rs @ [stored], []]))"
        have "sync_inv env w lo (rss @ [rs @ [stored]]) (insert (view env (concat (rss @ [rs @ [stored]]))) V)"
          using fit by (intro sync_add [OF s(1)]) auto
        then show "sync_inv env w' lo (rss @ [rs @ [stored], []])
            (if ?op = Sync then {view env (concat (rss @ [rs @ [stored], []]))}
             else insert (view env (concat (rss @ [rs @ [stored], []]))) V)"
          using fit by (simp add: sync_roll [OF _ s(2) a(2)])
      qed (use k(2) in simp_all)
    qed
    then show ?thesis using k(1) pr(2) by simp
  qed
next
  case False
  then have "w' = w" using run by (auto simp: append_submission_def then_do_def result_def split: sum.splits)
  then show ?thesis by (simp add: carried_same)
qed

lemma ack_carried:
  assumes inv: "wal_inv env w lo (rss @ [rs])" and ty: "ack_typed e s n"
    and rm: "room w" and run: "wal_exec env pid (Ack e s n) w = (res, w')"
  shows "carried env (Ack e s n) lo (rss @ [rs]) w res w'"
proof (cases "\<exists>p. ack_plan env pid e s n w = Inr (Some p)")
  case True
  let ?op = "Ack e s n"
  from True obtain p where plan: "ack_plan env pid e s n w = Inr (Some p)" by blast
  obtain r1 where pr: "poison (ack_commit env e s n p) w = (r1, w')" "res = sum_bind r1 (\<lambda>x. Inr None)"
    using run plan by (cases "poison (ack_commit env e s n p) w")
      (auto simp: wal_ack_def then_do_def result_def split: sum.splits)
  show ?thesis
  proof (cases "kp_clears p")
    case True
    let ?ck = "checkpoint_records env e s n w"
    note kr = ack_checkpoint_run [OF inv ty plan True rm [unfolded room_def] pr(1)]
    then have same: "same_handle w w'" by blast
    from conjunct2 [OF kr] show ?thesis
    proof (elim disjE conjE)
      assume a: "r1 = Inr ()" "wal_inv env w' (lo + length (rss @ [rs])) [?ck]" "view env ?ck = wal_spec env ?op (contents w)"
        "map_of (synced w') (segment_path (lo + length (rss @ [rs]))) = Some (length (frames env ?ck))"
        "\<forall>i > lo + length (rss @ [rs]). map_of (synced w') (segment_path i) = map_of (synced w) (segment_path i)"
      have "carried env ?op lo (rss @ [rs]) w (Inr None) w'"
      proof (rule carried_done [OF same a(2)])
        fix V assume "sync_inv env w lo (rss @ [rs]) V" "w_limits w' = w_limits w" "fits env (w_limits w) (concat [?ck])"
        then show "sync_inv env w' (lo + length (rss @ [rs])) [?ck]
            (if ?op = Sync then {view env (concat [?ck])} else insert (view env (concat [?ck])) V)"
          using sync_checkpoint [OF _ _ a(4,5)] by simp
      qed (use a(3) in simp_all)
      then show ?thesis using a(1) pr(2) by simp
    next
      assume "r1 = Inl Io" "w_failed w'" "settled env (w_limits w) (dir w') {contents w, wal_spec env ?op (contents w)}"
      then show ?thesis using carried_fault [OF same] pr(2) by simp
    qed
  next
    case False
    note kr = ack_append_run [OF inv ty plan False rm [unfolded room_def] pr(1)]
    then have same: "same_handle w w'" by blast
    from conjunct2 [OF kr] show ?thesis
    proof (elim disjE conjE)
      assume a: "r1 = Inr ()" "wal_inv env w' lo (rss @ [rs @ [ack_record e s n]])" "synced w' = synced w"
        "view env (concat (rss @ [rs @ [ack_record e s n]])) = wal_spec env ?op (contents w)"
      have "carried env ?op lo (rss @ [rs]) w (Inr None) w'"
        using a(3,4) by (intro carried_done [OF same a(2)]) (auto intro!: sync_add)
      then show ?thesis using a(1) pr(2) by simp
    next
      assume "r1 = Inl Io" "w_failed w'" "settled env (w_limits w) (dir w') {contents w, wal_spec env ?op (contents w)}"
      then show ?thesis using carried_fault [OF same] pr(2) by simp
    qed
  qed
next
  case False
  then have "w' = w" using run by (auto simp: wal_ack_def then_do_def result_def split: sum.splits option.splits)
  then show ?thesis by (simp add: carried_same)
qed

lemma exec_run:
  assumes cd: "wal_codec_ok env" and inv: "wal_inv env w lo rss" and ty: "op_typed op" and rm: "room w"
    and run: "wal_exec env pid op w = (res, w')"
  shows "carried env op lo rss w res w'"
proof -
  obtain rss0 rs where rss: "rss = rss0 @ [rs]" using inv by (metis segs_on_disk_def rev_exhaust wal_inv_def)
  note inv0 = inv [unfolded rss]
  show ?thesis
  proof (cases op)
    case (Submit r request parent)
    then show ?thesis using submit_carried [OF cd inv0] ty rm run rss by simp
  next
    case (Ack e s n)
    then show ?thesis using ack_carried [OF inv0] ty rm run rss by simp
  next
    case Sync
    obtain r1 where pr: "wal_sync pid w = (r1, w')" "res = sum_bind r1 (\<lambda>x. Inr None)"
      using run Sync by (cases "wal_sync pid w") (auto simp: then_do_def result_def split: sum.splits)
    from sync_run [OF inv0 pr(1) rm] show ?thesis
    proof (elim conjE disjE)
      assume "w' = w" "\<exists>e. r1 = Inl e"
      then show ?thesis using pr(2) by (auto intro!: carried_same)
    next
      assume "same_handle w w'" "r1 = Inl Io" "w_failed w'" "settled env (w_limits w) (dir w') {contents w}"
      then show ?thesis using pr(2) Sync carried_fault [of w w' env Sync] by simp
    next
      assume a: "same_handle w w'" "r1 = Inr ()" "wal_inv env w' lo (rss0 @ [rs])"
        "synced w' = AList.update (segment_path (lo + length rss0)) (length (frames env rs)) (synced w)"
      have "carried env op lo rss w (Inr None) w'"
        unfolding rss using inv_contents [OF inv0] Sync
        by (intro carried_done [OF a(1,3)]) (auto intro!: sync_now [OF _ _ a(4)])
      then show ?thesis using a(2) pr(2) by simp
    qed
  qed
qed

section \<open>Recovery\<close>

lemma script_irrelevant [simp]:
  "wal_inv env (w\<lparr>script := sc\<rparr>) lo rss \<longleftrightarrow> wal_inv env w lo rss" "contents (w\<lparr>script := sc\<rparr>) = contents w"
  "room (w\<lparr>script := sc\<rparr>) \<longleftrightarrow> room w" "same_handle (w\<lparr>script := sc\<rparr>) w' \<longleftrightarrow> same_handle w w'"
  "sync_inv env (w\<lparr>script := sc\<rparr>) lo rss V \<longleftrightarrow> sync_inv env w lo rss V"
  by (simp_all add: wal_inv_def contents_def room_def same_handle_def sync_inv_def synced_len_def)

lemma settled_open:
  assumes cd: "wal_codec_ok env" and lim: "limits_ok lim m" and st: "settled env lim (dir w1) V"
  shows "\<exists>w' s' lo rss. open_with_limits env pid m lim (after_crash w1) = (Inr w', s') \<and> wal_inv env w' lo rss \<and>
    w_limits w' = lim \<and> w_segment_max w' = m \<and> contents w' \<in> V"
proof -
  obtain lo rss rs t where r: "recoverable env lim (dir (after_crash w1)) lo (rss @ [rs]) t" "view env (concat (rss @ [rs])) \<in> V"
    using st by (auto simp: settled_def after_crash_def)
  have sc: "script (after_crash w1) = []" by (simp add: after_crash_def)
  from open_ok [OF cd lim sc r(1)] obtain w' s' where
    o: "open_with_limits env pid m lim (after_crash w1) = (Inr w', s')" "wal_inv env w' lo (rss @ [rs])"
      "w_limits w' = lim" "w_segment_max w' = m" by blast
  have "contents w' \<in> V" using inv_contents [OF o(2)] r(2) by simp
  then show ?thesis using o by blast
qed

lemma inv_settled:
  assumes inv: "wal_inv env w lo rss" and b: "lo + length rss \<le> u64_max"
  shows "settled env (w_limits w) (dir w) {contents w}"
proof -
  obtain rss0 rs where rss: "rss = rss0 @ [rs]" using inv by (metis segs_on_disk_def rev_exhaust wal_inv_def)
  have "recoverable env (w_limits w) (dir w) lo (rss0 @ [rs]) []"
    using inv b unfolding rss by (auto simp: wal_inv_def recoverable_def torn_def)
  then show ?thesis unfolding settled_def inv_contents [OF inv] rss by blast
qed

lemma settled_mono: "settled env lim d V \<Longrightarrow> V \<subseteq> V' \<Longrightarrow> settled env lim d V'"
  unfolding settled_def by blast

text \<open>What an operation leaves on disk, whatever happened to its calls.\<close>

lemma exec_settled:
  assumes cd: "wal_codec_ok env" and inv: "wal_inv env w lo rss" and ty: "op_typed op" and rm: "room w"
    and run: "wal_exec env pid op (w\<lparr>script := sc\<rparr>) = (res, w')"
  shows "settled env (w_limits w) (dir w') (if w_failed w' then {contents w, wal_spec env op (contents w)} else {contents w'})"
    and "\<not> w_failed w' \<Longrightarrow> contents w' \<in> {contents w, wal_spec env op (contents w)}"
    and "\<not> w_failed w' \<Longrightarrow> \<exists>lo' rss'. wal_inv env w' lo' rss'" and "same_handle w w'"
proof -
  have c: "carried env op lo rss (w\<lparr>script := sc\<rparr>) res w'"
    using inv ty rm by (intro exec_run [OF cd _ _ _ run]) simp_all
  have ne: "rss \<noteq> []" and alive: "\<not> w_failed w" and sid: "w_seg_id w = lo + length rss - 1"
    using inv by (auto simp: wal_inv_def segs_on_disk_def)
  then have b: "lo + length rss + 1 \<le> u64_max" using rm by (cases rss) (auto simp: room_def)
  show same: "same_handle w w'" using c by (simp add: carried_def)
  have "settled env (w_limits w) (dir w') (if w_failed w' then {contents w, wal_spec env op (contents w)} else {contents w'}) \<and>
    (\<not> w_failed w' \<longrightarrow> contents w' \<in> {contents w, wal_spec env op (contents w)}) \<and>
    (\<not> w_failed w' \<longrightarrow> (\<exists>lo' rss'. wal_inv env w' lo' rss'))"
    using conjunct2 [OF c [unfolded carried_def]]
  proof (elim disjE exE conjE)
    assume w': "w' = w\<lparr>script := sc\<rparr>"
    have "settled env (w_limits w) (dir w) {contents w}" using b by (intro inv_settled [OF inv]) linarith
    then show ?thesis using alive inv unfolding w' by auto
  next
    fix x lo' rss' assume d: "wal_inv env w' lo' rss'" "contents w' = wal_spec env op (contents (w\<lparr>script := sc\<rparr>))"
      "lo' + length rss' \<le> lo + length rss + 1"
    have "settled env (w_limits w') (dir w') {contents w'}" using d(3) b by (intro inv_settled [OF d(1)]) linarith
    then show ?thesis using d same by (auto simp: wal_inv_def same_handle_def)
  next
    assume "w_failed w'" "settled env (w_limits (w\<lparr>script := sc\<rparr>)) (dir w')
        {contents (w\<lparr>script := sc\<rparr>), wal_spec env op (contents (w\<lparr>script := sc\<rparr>))}"
    then show ?thesis by simp
  qed
  then show "settled env (w_limits w) (dir w') (if w_failed w' then {contents w, wal_spec env op (contents w)} else {contents w'})"
    and "\<not> w_failed w' \<Longrightarrow> contents w' \<in> {contents w, wal_spec env op (contents w)}"
    and "\<not> w_failed w' \<Longrightarrow> \<exists>lo' rss'. wal_inv env w' lo' rss'" by blast+
qed

lemma open_limits: "open_with_limits env pid m lim s = (Inr w, s') \<Longrightarrow> limits_ok lim m"
  by (simp add: open_with_limits_def then_do_def result_def guard_def split: if_splits)

lemma next_inv:
  assumes cd: "wal_codec_ok env" and inv: "\<exists>lo rss. wal_inv env w lo rss" and st: "wal_next env w w'"
  shows "(\<exists>lo rss. wal_inv env w' lo rss) \<and> (\<exists>op. contents w' \<in> {contents w, wal_spec env op (contents w)})"
  using st
proof cases
  case (step op pid sc res)
  obtain lo rss where i: "wal_inv env w lo rss" using inv by blast
  show ?thesis using exec_settled(2,3) [OF cd i step(1-3)] step(4) by blast
next
  case (reopen op pid sc res w1 pid' s')
  obtain lo rss where i: "wal_inv env w lo rss" using inv by blast
  have lim: "limits_ok (w_limits w) (w_segment_max w)" using i by (simp add: wal_inv_def)
  have "settled env (w_limits w) (dir w1) {contents w, wal_spec env op (contents w)}"
    using exec_settled(1,2) [OF cd i reopen(1-3)] by (cases "w_failed w1") (auto intro: settled_mono)
  from settled_open [OF cd lim this, of pid'] show ?thesis using reopen(4) by auto
qed

lemma life_inv:
  assumes cd: "wal_codec_ok env" and "wal_life env w"
  shows "\<exists>lo rss. wal_inv env w lo rss"
  using assms(2)
proof induction
  case (start s pid m lim w s')
  then show ?case using open_fresh_ok [OF open_limits [OF start(3)] start(2,1), of env pid] by auto
next
  case (continue w w')
  then show ?case using next_inv [OF cd] by blast
qed

text \<open>
  C18. At every point of every life of the log, and for every operation whatever the outcomes of its
  I/O calls (each call may fail, a failing write may leave any part of its bytes): opening the
  directory again succeeds, with the watermarks, the accepted submissions and the pending work from
  before the operation or from after it; and with exactly those of the handle when the operation did
  not poison it. \<open>room\<close> says that two segment numbers are left.
\<close>

theorem wal_recovers:
  assumes "wal_codec_ok env" and "wal_life env w" and "op_typed op" and "room w"
    and "wal_exec env pid op (w\<lparr>script := sc\<rparr>) = (res, w1)"
  shows "\<exists>w' s'. open_with_limits env pid' (w_segment_max w) (w_limits w) (after_crash w1) = (Inr w', s') \<and>
    contents w' \<in> {contents w, wal_spec env op (contents w)} \<and> (\<not> w_failed w1 \<longrightarrow> contents w' = contents w1)"
proof -
  obtain lo rss where i: "wal_inv env w lo rss" using life_inv [OF assms(1,2)] by blast
  then have lim: "limits_ok (w_limits w) (w_segment_max w)" by (simp add: wal_inv_def)
  note es = exec_settled [OF assms(1) i assms(3-5)]
  from settled_open [OF assms(1) lim es(1), of pid'] obtain w' s' where
    "open_with_limits env pid' (w_segment_max w) (w_limits w) (after_crash w1) = (Inr w', s')"
    "contents w' \<in> (if w_failed w1 then {contents w, wal_spec env op (contents w)} else {contents w1})" by blast
  then show ?thesis using es(2) by (cases "w_failed w1") auto
qed

section \<open>Keyed submissions\<close>

definition accepted :: "wal_env \<Rightarrow> wal \<Rightarrow> wal_record \<Rightarrow> string \<Rightarrow> nat \<Rightarrow> bool" where
  "accepted env w r i n \<longleftrightarrow> (\<exists>c \<in> fst (snd (contents w)). receipt_id c = (wr_endpoint r, wr_sender r, i) \<and>
     rc_seq c = n \<and> sr_print (rc_saved c) = fingerprint env r)"

lemma spec_keeps_receipts: "fst (snd v) \<subseteq> fst (snd (wal_spec env op v))"
  by (cases v; cases op) (auto split: option.splits)

lemma accepted_next:
  assumes cd: "wal_codec_ok env" and inv: "\<exists>lo rss. wal_inv env w lo rss" and st: "wal_next env w w'"
    and acc: "accepted env w r i n"
  shows "accepted env w' r i n"
proof -
  obtain op where "contents w' \<in> {contents w, wal_spec env op (contents w)}" using next_inv [OF cd inv st] by blast
  then have "fst (snd (contents w)) \<subseteq> fst (snd (contents w'))" using spec_keeps_receipts [of "contents w" env op] by auto
  then show ?thesis using acc unfolding accepted_def by blast
qed

lemma accepted_lookup:
  assumes inv: "wal_inv env w lo rss" and acc: "accepted env w r i n" and v: "validate_id i = Inr ()"
  shows "receipt_lookup env (w_receipts w) r i = Inr (Some n)"
proof -
  obtain c where c: "c \<in> fst (snd (contents w))" "receipt_id c = (wr_endpoint r, wr_sender r, i)" "rc_seq c = n"
      "sr_print (rc_saved c) = fingerprint env r"
    using acc unfolding accepted_def by blast
  have "index_ok env (w_receipts w) (fst (snd (contents w)))" using inv by (simp add: inv_contents [OF inv] view_def wal_inv_def)
  then have "map_of (ri_entries (w_receipts w)) (wr_endpoint r, wr_sender r, i) = Some c"
    using c(1,2) by (simp add: index_lookup)
  then show ?thesis using v c(3,4) by (simp add: receipt_lookup_def)
qed

lemma append_accepts:
  assumes cd: "wal_codec_ok env" and inv: "wal_inv env w lo rss" and ty: "submission_typed r (Some i) parent" and rm: "room w"
    and run: "append_submission env pid r (Some i) parent (w\<lparr>script := sc\<rparr>) = (Inr (n, b), w1)"
  shows "accepted env w1 r i n" "\<exists>lo rss. wal_inv env w1 lo rss" "validate_record r False = Inr ()" "validate_id i = Inr ()"
proof -
  let ?w = "w\<lparr>script := sc\<rparr>" and ?op = "Submit r (Some i) parent"
  have ex: "wal_exec env pid ?op ?w = (Inr (Some (n, b)), w1)" using run by (simp add: then_do_def result_def)
  have car: "carried env ?op lo rss ?w (Inr (Some (n, b))) w1"
    using inv ty rm by (intro exec_run [OF cd _ _ _ ex]) simp_all
  then show i1: "\<exists>lo rss. wal_inv env w1 lo rss" using inv by (fastforce simp: carried_def)
  obtain pl where pl: "submit_plan env pid r (Some i) parent ?w = Inr pl"
    using run by (auto simp: append_submission_def split: sum.splits)
  then show v: "validate_record r False = Inr ()" "validate_id i = Inr ()"
    by (auto simp: submit_plan_def sum_bind_Inr receipt_lookup_def split: option.splits)
  show "accepted env w1 r i n"
  proof (cases pl)
    case (Inl m)
    then have w1: "w1 = ?w" "m = n" using run pl by (auto simp: append_submission_def)
    have "receipt_lookup env (w_receipts w) r i = Inr (Some n)"
      using pl Inl w1(2) by (auto simp: submit_plan_def sum_bind_Inr Let_def split: option.splits if_splits)
    then obtain c where c: "map_of (ri_entries (w_receipts w)) (wr_endpoint r, wr_sender r, i) = Some c" "rc_seq c = n"
        "sr_print (rc_saved c) = fingerprint env r"
      by (auto simp: receipt_lookup_def sum_bind_Inr split: option.splits if_splits)
    have idx: "index_ok env (w_receipts w) (fst (snd (contents w)))"
      using inv by (simp add: inv_contents [OF inv] view_def wal_inv_def)
    have "c \<in> fst (snd (contents w)) \<and> (wr_endpoint r, wr_sender r, i) = receipt_id c"
      using c(1) index_lookup [OF idx] by blast
    then have "c \<in> fst (snd (contents w))" "receipt_id c = (wr_endpoint r, wr_sender r, i)" by simp_all
    then show ?thesis using c(2,3) w1(1) unfolding accepted_def by auto
  next
    case (Inr p)
    obtain rss0 rs where rss: "rss = rss0 @ [rs]" using inv by (metis segs_on_disk_def rev_exhaust wal_inv_def)
    have inv0: "wal_inv env ?w lo (rss0 @ [rs])" using inv rss by simp
    have pr: "poison (append_commit env r parent p) ?w = (Inr (n, b), w1)"
      using run pl Inr by (simp add: append_submission_def)
    have rm': "w_seg_id ?w + 2 \<le> u64_max" using rm by (simp add: room_def)
    from append_run(2) [OF cd inv0 ty pl [unfolded Inr] rm' pr]
    obtain stored rss' where a: "n = wr_seq r" "wal_spec env ?op (contents w) = view env (concat (rss0 @ [rs @ [stored]]))"
        "wal_inv env w1 lo rss'" "concat rss' = concat (rss0 @ [rs @ [stored]])" by fastforce
    have "contents w1 = wal_spec env ?op (contents w)" using inv_contents [OF a(3)] a(2,4) by simp
    then have "submission_receipt env r i \<in> fst (snd (contents w1))" by (cases "contents w") simp
    then show ?thesis
      unfolding accepted_def using a(1)
      by (intro bexI [of _ "submission_receipt env r i"]) (simp_all add: submission_receipt_def receipt_id_def)
  qed
qed

text \<open>
  C32. A submission with a request identity is accepted at most once: after an acceptance, and over
  any further life of the log with acknowledgements, checkpoints, I/O failures, crashes and
  recoveries, submitting the same content under the same identity, with whatever sequence, returns
  the sequence of the first acceptance and changes nothing.
\<close>

theorem submission_accepted_once:
  assumes "wal_codec_ok env" and "wal_life env w" and "submission_typed r (Some i) parent" and "room w"
    and "append_submission env pid r (Some i) parent (w\<lparr>script := sc\<rparr>) = (Inr (n, b), w1)"
    and "(wal_next env)\<^sup>*\<^sup>* w1 w2"
    and "r' = r\<lparr>wr_seq := q\<rparr>" and "q \<noteq> 0"
  shows "append_submission env (w_pid w2) r' (Some i) parent' w2 = (Inr (n, False), w2)"
proof -
  obtain lo rss where inv: "wal_inv env w lo rss" using life_inv [OF assms(1,2)] by blast
  note aa = append_accepts [OF assms(1) inv assms(3-5)]
  have "(\<exists>lo rss. wal_inv env w2 lo rss) \<and> accepted env w2 r i n"
    using assms(6)
  proof induction
    case (step y z)
    then show ?case using next_inv [OF assms(1) _ step(2)] accepted_next [OF assms(1) _ step(2)] by blast
  qed (use aa(1,2) in blast)
  then obtain lo2 rss2 where inv2: "wal_inv env w2 lo2 rss2" and acc: "accepted env w2 r i n" by blast
  have "accepted env w2 r' i n" using acc assms(7) by (simp add: accepted_def fingerprint_def)
  then have "receipt_lookup env (w_receipts w2) r' i = Inr (Some n)" by (rule accepted_lookup [OF inv2 _ aa(4)])
  moreover have "validate_record r' False = Inr ()"
    using aa(3) assms(7,8) by (simp add: validate_record_def guard_def split: if_splits)
  moreover have "check_state (w_pid w2) w2 = Inr ()" using inv2 by (simp add: check_state_def wal_inv_def)
  ultimately show ?thesis by (simp add: append_submission_def submit_plan_def)
qed

section \<open>Power loss\<close>

text \<open>
  A power loss between operations: of every file some beginning is left that contains what was synced.
\<close>

definition power_cut :: "'z fsys_scheme \<Rightarrow> (string \<times> byte list) list \<Rightarrow> bool" where
  "power_cut s d \<longleftrightarrow> map fst d = map fst (dir s) \<and>
     (\<forall>name bs. map_of (dir s) name = Some bs \<longrightarrow>
        (\<exists>bs'. map_of d name = Some bs' \<and> prefix bs' bs \<and> synced_len s name \<le> length bs'))"

text \<open>Runs without I/O failures, with the meanings of the log since the last sync.\<close>

inductive wal_run :: "wal_env \<Rightarrow> wal \<Rightarrow> wal_view set \<Rightarrow> bool" for env where
  first: "dir_ok (dir s) 1 0 \<Longrightarrow> synced s = [] \<Longrightarrow> script s = [] \<Longrightarrow>
    open_with_limits env pid m lim s = (Inr w, s') \<Longrightarrow> wal_run env w {contents w}"
| exec: "wal_run env w V \<Longrightarrow> op_typed op \<Longrightarrow> room w \<Longrightarrow>
    wal_exec env pid op (w\<lparr>script := sc\<rparr>) = (res, w') \<Longrightarrow> \<not> w_failed w' \<Longrightarrow>
    wal_run env w' (if op = Sync \<and> (\<exists>x. res = Inr x) then {contents w'} else insert (contents w') V)"

lemma run_inv:
  assumes cd: "wal_codec_ok env" and "wal_run env w V"
  shows "\<exists>lo rss. wal_inv env w lo rss \<and> sync_inv env w lo rss V"
  using assms(2)
proof induction
  case (first s pid m lim w s')
  obtain w0 s0 where o: "open_with_limits env pid m lim s = (Inr w0, s0)" "wal_inv env w0 1 [[]]" "synced w0 = synced s"
    using open_fresh_ok [OF open_limits [OF first(4)] first(3,1), of env pid] by blast
  then have w0: "w = w0" using first(4) by simp
  have "sync_inv env w 1 [[]] {contents w}"
    using o(2,3) first(2) inv_contents [OF o(2)] unfolding w0
    by (auto simp: sync_inv_def synced_len_def wal_inv_def)
  then show ?case using o(2) unfolding w0 by blast
next
  case (exec w V op pid sc res w')
  then obtain lo rss where i: "wal_inv env w lo rss" "sync_inv env w lo rss V" by blast
  have car: "carried env op lo rss (w\<lparr>script := sc\<rparr>) res w'"
    using i(1) exec by (intro exec_run [OF cd _ _ _ exec(4)]) simp_all
  have cV: "sync_inv env w lo rss (insert (contents w) V)" using i(2) by (rule sync_inv_mono) blast
  from conjunct2 [OF car [unfolded carried_def]] show ?case
  proof (elim disjE exE conjE)
    assume "w' = w\<lparr>script := sc\<rparr>" "op = Sync \<longrightarrow> (\<exists>e. res = Inl e)"
    then show ?thesis using i(1) cV by auto
  next
    fix x lo' rss' assume d: "res = Inr x" "wal_inv env w' lo' rss'"
      "\<forall>V. sync_inv env (w\<lparr>script := sc\<rparr>) lo rss V \<longrightarrow>
         sync_inv env w' lo' rss' (if op = Sync then {contents w'} else insert (contents w') V)"
    have "sync_inv env w' lo' rss' (if op = Sync then {contents w'} else insert (contents w') V)" using d(3) i(2) by simp
    then have "sync_inv env w' lo' rss' (if op = Sync \<and> (\<exists>x. res = Inr x) then {contents w'} else insert (contents w') V)"
      using d(1) by simp
    then show ?thesis using d(2) by blast
  next
    assume "w_failed w'"
    then show ?thesis using exec(5) by simp
  qed
qed

lemma frames_longer:
  assumes "i < j" "j \<le> length rs"
  shows "length (frames env (take i rs)) + length (frame env (rs ! i)) \<le> length (frames env (take j rs))"
proof -
  have i: "Suc i \<le> j" "i < length rs" using assms by auto
  have "take (Suc i) rs = take i rs @ [rs ! i]" using i(2) by (rule take_Suc_conv_app_nth)
  moreover have "take j rs = take (Suc i) rs @ take (j - Suc i) (drop (Suc i) rs)"
    using take_add [of "Suc i" "j - Suc i" rs] i(1) by simp
  ultimately show ?thesis by simp
qed

lemma prefix_records:
  assumes "\<And>r. r \<in> set rs \<Longrightarrow> frame_ok env lim r" and "prefix b (frames env rs)"
    and "length (frames env (take j rs)) \<le> length b" and "j \<le> length rs"
  shows "\<exists>i t. j \<le> i \<and> i \<le> length rs \<and> b = frames env (take i rs) @ t \<and> torn env lim t"
proof -
  have "\<exists>i t. i \<le> length rs \<and> b = frames env (take i rs) @ t \<and>
      (t = [] \<or> i < length rs \<and> strict_prefix t (frame env (rs ! i)))"
    using assms(2)
  proof (induction rs arbitrary: b)
    case (Cons r rs)
    show ?case
    proof (cases "prefix (frame env r) b")
      case True
      then obtain b' where b: "b = frame env r @ b'" by (auto simp: prefix_def)
      then obtain i t where "i \<le> length rs" "b' = frames env (take i rs) @ t"
          "t = [] \<or> i < length rs \<and> strict_prefix t (frame env (rs ! i))"
        using Cons.IH [of b'] Cons.prems by auto
      then show ?thesis using b by (intro exI [of _ "Suc i"] exI [of _ t]) simp
    next
      case False
      then have "strict_prefix b (frame env r)"
        using Cons.prems by (auto simp: strict_prefix_def prefix_append dest: prefix_order.antisym)
      then show ?thesis by (intro exI [of _ 0] exI [of _ b]) simp
    qed
  qed simp
  then obtain i t where it: "i \<le> length rs" "b = frames env (take i rs) @ t"
      "t = [] \<or> i < length rs \<and> strict_prefix t (frame env (rs ! i))" by blast
  have "j \<le> i"
  proof (rule ccontr)
    assume "\<not> j \<le> i"
    then have l: "i < j" by simp
    have "length t < length (frame env (rs ! i))"
      using it(3) prefix_length_less [of t "frame env (rs ! i)"] length_frame [of env "rs ! i"] by auto
    then show False using frames_longer [OF l assms(4), of env] assms(3) it(2) by simp
  qed
  moreover have "torn env lim t" using it(3) assms(1) by (auto simp: torn_def)
  ultimately show ?thesis using it(1,2) by blast
qed

text \<open>
  C10. After any run of operations without I/O failures, a power loss that cuts every file back to
  any length not below what was synced leaves a log that opens, and it opens with a meaning that the
  log had at or after its last successful sync: what was synced is never lost and nothing is invented.
\<close>

theorem power_loss_keeps_synced:
  assumes "wal_codec_ok env" and "wal_run env w V" and "room w" and "power_cut w d"
  shows "\<exists>w' s'. open_with_limits env pid (w_segment_max w) (w_limits w) \<lparr>dir = d, synced = synced w, script = []\<rparr> =
      (Inr w', s') \<and> contents w' \<in> V"
proof -
  let ?lim = "w_limits w"
  obtain lo rss0 where inv0: "wal_inv env w lo rss0" "sync_inv env w lo rss0 V" using run_inv [OF assms(1,2)] by blast
  obtain rss rs where rss: "rss0 = rss @ [rs]" using inv0(1) by (metis segs_on_disk_def rev_exhaust wal_inv_def)
  have inv: "wal_inv env w lo (rss @ [rs])" and syn: "sync_inv env w lo (rss @ [rs]) V" using inv0 rss by simp_all
  have dw: "segs_on_disk env (dir w) lo (rss @ [rs]) []" and fit: "fits env ?lim (concat (rss @ [rs]))"
    and lim: "limits_ok ?lim (w_segment_max w)" and size: "disk_size env (rss @ [rs]) [] \<le> max_disk_bytes ?lim"
    and n: "length (rss @ [rs]) \<le> max_segments ?lim" and b: "lo + length (rss @ [rs]) \<le> u64_max"
    using inv assms(3) by (auto simp: wal_inv_def room_def)
  have keys: "map fst d = map fst (dir w)"
    and cut: "\<And>name bs. map_of (dir w) name = Some bs \<Longrightarrow>
      \<exists>bs'. map_of d name = Some bs' \<and> prefix bs' bs \<and> synced_len w name \<le> length bs'"
    using assms(4) by (auto simp: power_cut_def)
  obtain j where j: "j \<le> length rs" "synced_len w (segment_path (lo + length rss)) = length (frames env (take j rs))"
      "\<And>i. j \<le> i \<Longrightarrow> i \<le> length rs \<Longrightarrow> fits env ?lim (concat rss @ take i rs) \<and> view env (concat rss @ take i rs) \<in> V"
    using syn by (auto simp: sync_inv_def)
  obtain bs where bs: "map_of d (segment_path (lo + length rss)) = Some bs" "prefix bs (frames env rs)"
      "length (frames env (take j rs)) \<le> length bs"
    using cut [OF segs_on_disk_last [OF dw]] j(2) by auto
  have fr: "r \<in> set rs \<Longrightarrow> frame_ok env ?lim r" for r using fit by (auto simp: fits_def readable_record_def)
  obtain i t where it: "j \<le> i" "i \<le> length rs" "bs = frames env (take i rs) @ t" "torn env ?lim t"
    using prefix_records [OF fr bs(2,3) j(1)] by blast
  have sealed: "map_of d (segment_path (lo + k)) = Some (frames env (rss ! k))" if k: "k < length rss" for k
  proof -
    have full: "synced_len w (segment_path (lo + k)) = length (frames env (rss ! k))"
      using syn k by (auto simp: sync_inv_def nth_append)
    have "map_of (dir w) (segment_path (lo + k)) = Some (frames env (rss ! k))"
      using segment_listed [OF dw, of k] k by (simp add: seg_content_def nth_append)
    from cut [OF this] obtain bs' where "map_of d (segment_path (lo + k)) = Some bs'" "prefix bs' (frames env (rss ! k))"
        "length (frames env (rss ! k)) \<le> length bs'" using full by auto
    then show ?thesis by (metis append_eq_conv_conj prefix_def prefix_length_le prefix_order.antisym take_all)
  qed
  have "dir_ok d lo (length (rss @ [take i rs]))" using dw dir_ok_keys [OF keys] by (simp add: segs_on_disk_def)
  then have d: "segs_on_disk env d lo (rss @ [take i rs]) t"
    using sealed bs(1) it(3) by (auto simp: segs_on_disk_def seg_content_def nth_append less_Suc_eq)
  have "length (frames env (take i rs) @ t) \<le> length (frames env rs)"
    using bs(2) it(3) prefix_length_le by blast
  then have "recoverable env ?lim d lo (rss @ [take i rs]) t"
    using d it(1,2,4) j(3) size n b by (simp add: recoverable_def disk_size_def)
  then have r: "recoverable env ?lim (dir \<lparr>dir = d, synced = synced w, script = []\<rparr>) lo (rss @ [take i rs]) t" by simp
  have sc: "script \<lparr>dir = d, synced = synced w, script = []\<rparr> = []" by simp
  obtain w' s' where o: "open_with_limits env pid (w_segment_max w) ?lim \<lparr>dir = d, synced = synced w, script = []\<rparr> = (Inr w', s')"
      "wal_inv env w' lo (rss @ [take i rs])"
    using open_ok [OF assms(1) lim sc r, of pid] by blast
  have "contents w' \<in> V" using inv_contents [OF o(2)] j(3) [OF it(1,2)] by simp
  then show ?thesis using o(1) by blast
qed

section \<open>An example\<close>

lemma example_typed:
  "submission_typed example_record (Some ''id'') None" "ack_typed ''n'' ''s'' 1"
  by (simp_all add: submission_typed_def ack_typed_def rust_record_def example_record_def utf8_valid_def utf8_lead_def u64_max_def)

lemma example_room: "room example_wal" "room example_wal1"
  by (simp_all add: room_def example_wal_eq example_submit u64_max_def)

lemma example_open: "\<exists>s'. open_with_limits example_env 7 1000 example_limits example_fs = (Inr example_wal, s')"
proof -
  have "limits_ok example_limits 1000" by (simp add: limits_ok_def example_limits_def isize_limit_def)
  then obtain w s' where o: "open_with_limits example_env 7 1000 example_limits example_fs = (Inr w, s')"
    using open_fresh_ok [of example_limits 1000 example_fs example_env 7] by (auto simp: example_fs_def dir_ok_def u64_max_def)
  then have "example_wal = w" by (simp add: example_wal_def)
  then show ?thesis using o by blast
qed

lemma example_fs_fresh: "dir_ok (dir example_fs) 1 0" "script example_fs = []" "synced example_fs = []"
  by (simp_all add: example_fs_def dir_ok_def u64_max_def)

lemma example_exec:
  "wal_exec example_env 7 (Submit example_record (Some ''id'') None) (example_wal\<lparr>script := []\<rparr>) = (Inr (Some (1, True)), example_wal1)"
  "wal_exec example_env 7 (Ack ''n'' ''s'' 1) (example_wal1\<lparr>script := [Done, Fault 0]\<rparr>) = (Inl Io, example_wal2)"
proof -
  show "wal_exec example_env 7 (Submit example_record (Some ''id'') None) (example_wal\<lparr>script := []\<rparr>) = (Inr (Some (1, True)), example_wal1)"
    by (simp add: then_do_def result_def example_submit(1))
  show "wal_exec example_env 7 (Ack ''n'' ''s'' 1) (example_wal1\<lparr>script := [Done, Fault 0]\<rparr>) = (Inl Io, example_wal2)"
  proof -
    have "wal_ack example_env 7 ''n'' ''s'' 1 (example_wal1\<lparr>script := [Done, Fault 0]\<rparr>) = (Inl Io, example_wal2)"
      using example_ack(1) by (simp only: example_wal2_def prod_eq_iff fst_conv snd_conv simp_thms)
    then show ?thesis by (simp add: then_do_def)
  qed
qed

lemma example_life: "wal_life example_env example_wal" "wal_life example_env example_wal1"
proof -
  show l: "wal_life example_env example_wal" using example_open wal_life.start [OF example_fs_fresh(1,2)] by blast
  have "wal_next example_env example_wal example_wal1"
    using example_typed(1) by (intro wal_next.step [OF _ example_room(1) example_exec(1) example_submit(2)]) simp
  then show "wal_life example_env example_wal1" using l wal_life.continue by blast
qed

theorem wal_recovers_witness:
  "\<exists>w' s'. open_with_limits example_env 8 1000 example_limits (after_crash example_wal2) = (Inr w', s') \<and>
    contents w' \<in> {contents example_wal1, wal_spec example_env (Ack ''n'' ''s'' 1) (contents example_wal1)}"
proof -
  have "op_typed (Ack ''n'' ''s'' 1)" using example_typed(2) by simp
  from wal_recovers [OF example_codec example_life(2) this example_room(2) example_exec(2), of 8]
  show ?thesis by (auto simp: example_submit)
qed

theorem power_loss_keeps_synced_witness:
  "\<exists>w' s'. open_with_limits example_env 8 1000 example_limits
      \<lparr>dir = [(lock_path, []), (segment_path 1, take 3 (frame example_env example_stored))], synced = [], script = []\<rparr> = (Inr w', s') \<and>
    contents w' \<in> {contents example_wal1, contents example_wal}"
proof -
  have "wal_run example_env example_wal {contents example_wal}"
    using example_open wal_run.first [OF example_fs_fresh(1,3,2)] by blast
  from wal_run.exec [OF this _ example_room(1) example_exec(1) example_submit(2)] example_typed(1)
  have run: "wal_run example_env example_wal1 {contents example_wal1, contents example_wal}" by simp
  have cut: "power_cut example_wal1 [(lock_path, []), (segment_path 1, take 3 (frame example_env example_stored))]"
    by (auto simp: power_cut_def example_submit synced_len_def take_is_prefix)
  show ?thesis
    using power_loss_keeps_synced [OF example_codec run example_room(2) cut, of 8] by (simp add: example_submit)
qed

theorem submission_accepted_once_witness:
  "\<exists>w2. wal_next example_env example_wal1 w2 \<and>
    append_submission example_env (w_pid w2) (example_record\<lparr>wr_seq := 5\<rparr>) (Some ''id'') None w2 = (Inr (1, False), w2)"
proof -
  obtain lo rss where inv: "wal_inv example_env example_wal1 lo rss" using life_inv [OF example_codec example_life(2)] by blast
  have lim: "limits_ok (w_limits example_wal1) (w_segment_max example_wal1)" using inv by (simp add: wal_inv_def)
  have ty: "op_typed (Ack ''n'' ''s'' 1)" using example_typed(2) by simp
  obtain w2 s' where o: "open_with_limits example_env 8 (w_segment_max example_wal1) (w_limits example_wal1)
      (after_crash example_wal2) = (Inr w2, s')"
    using settled_open [OF example_codec lim exec_settled(1) [OF example_codec inv ty example_room(2) example_exec(2)], of 8] by blast
  have n: "wal_next example_env example_wal1 w2" by (rule wal_next.reopen [OF ty example_room(2) example_exec(2) o])
  then have "(wal_next example_env)\<^sup>*\<^sup>* example_wal1 w2" by (rule r_into_rtranclp)
  from submission_accepted_once [OF example_codec example_life(1) example_typed(1) example_room(1) example_submit(1) this, of _ 5]
  show ?thesis using n by auto
qed

text \<open>
  The one gap: a checkpoint does not sync the segment that it seals. When the power fails before the
  old segments are removed, a torn record can be left in a segment that is no longer the last one, and
  the log does not open again.
\<close>

lemma checkpoint_power_loss:
  "\<exists>d. power_cut example_wal2 d \<and>
    fst (open_with_limits example_env 7 1000 example_limits \<lparr>dir = d, synced = synced example_wal2, script = []\<rparr>) =
      Inl Sealed_Corrupt"
proof -
  have "le_bytes 4 69 = 69 # le_bytes 3 0" using le_bytes.simps(2) [of 3 69] by simp
  then have "prefix [69] (frame example_env example_stored)" by (simp add: frame_def Let_def example_size)
  then have "power_cut example_wal2 [(lock_path, []), (segment_path 1, [69]), (segment_path 2, [])]"
    by (auto simp: power_cut_def example_ack synced_len_def)
  then show ?thesis using example_reopen by (auto simp: example_ack)
qed

end
