(* ===== verification/Frame.thy ===== *)
theory Frame
  imports Bytes "HOL-Library.Monad_Syntax"
begin

text \<open>
  The wire frames of \<^verbatim>\<open>crates/parrot-remote/src/frame.rs\<close> with the error payloads of \<^verbatim>\<open>error.rs\<close> and
  the connection codec of \<^verbatim>\<open>transport.rs\<close>.

  Integer fields are words of their width. A buffer is the list of its unread bytes; an operation that
  can panic on a short buffer or an index out of range returns an option, with \<^term>\<open>None\<close> for the panic.
  The size of the Rust type \<^verbatim>\<open>Frame\<close>, which bounds expanded batches, is the argument \<open>sz\<close>. Logging is
  left out, and the reason why a string is not UTF-8 is not kept in the error.
\<close>

section \<open>Error codes\<close>

datatype err_code =
    ActorNotFound | Timeout | Stopped | NotRemotable | CodecError | UnknownTypeKey | RouteUnreachable
  | ConnectionLost | DirectoryStale | Overloaded | NoCommonCodec | ProtocolViolation | Forbidden

primrec err_number :: "err_code \<Rightarrow> nat" where
  "err_number ActorNotFound = 1"
| "err_number Timeout = 2"
| "err_number Stopped = 3"
| "err_number NotRemotable = 4"
| "err_number CodecError = 5"
| "err_number UnknownTypeKey = 6"
| "err_number RouteUnreachable = 7"
| "err_number ConnectionLost = 8"
| "err_number DirectoryStale = 9"
| "err_number Overloaded = 10"
| "err_number NoCommonCodec = 11"
| "err_number ProtocolViolation = 12"
| "err_number Forbidden = 13"

definition err_from_u16 :: "nat \<Rightarrow> err_code option" where
  "err_from_u16 v =
     (if v = 1 then Some ActorNotFound else if v = 2 then Some Timeout else if v = 3 then Some Stopped
      else if v = 4 then Some NotRemotable else if v = 5 then Some CodecError
      else if v = 6 then Some UnknownTypeKey else if v = 7 then Some RouteUnreachable
      else if v = 8 then Some ConnectionLost else if v = 9 then Some DirectoryStale
      else if v = 10 then Some Overloaded else if v = 11 then Some NoCommonCodec
      else if v = 12 then Some ProtocolViolation else if v = 13 then Some Forbidden else None)"

definition encode_err_payload :: "err_code \<Rightarrow> string \<Rightarrow> byte list" where
  "encode_err_payload code detail = le_bytes 2 (err_number code) @ le_bytes 2 0 @ str_bytes detail"

datatype err_payload_error = Payload_Short nat | Payload_Reserved | Payload_Code nat | Payload_Utf8

definition decode_err_payload :: "byte list \<Rightarrow> err_payload_error + err_code \<times> string" where
  "decode_err_payload p =
     (if length p < 4 then Inl (Payload_Short (length p))
      else if p ! 2 \<noteq> 0 \<or> p ! 3 \<noteq> 0 then Inl Payload_Reserved
      else let code = from_le [p ! 0, p ! 1] in
        case err_from_u16 code of
          None \<Rightarrow> Inl (Payload_Code code)
        | Some c \<Rightarrow>
            if utf8_valid (bytes_str (drop 4 p)) then Inr (c, bytes_str (drop 4 p)) else Inl Payload_Utf8)"

section \<open>Frames\<close>

definition PROTOCOL_VERSION :: byte where "PROTOCOL_VERSION = 1"
definition MAX_FRAME_LEN :: nat where "MAX_FRAME_LEN = 16 * 1024 * 1024"
definition DEFAULT_HOP_LIMIT :: byte where "DEFAULT_HOP_LIMIT = 8"
definition MAX_BATCH_ITEMS :: nat where "MAX_BATCH_ITEMS = 1024"
definition TELL_COMPLETION_KEY :: string where "TELL_COMPLETION_KEY = ''parrot:completion#v1''"
definition TRACE_CONTEXT_BYTES :: nat where "TRACE_CONTEXT_BYTES = 25"
definition BODY_FIXED_OVERHEAD :: nat where "BODY_FIXED_OVERHEAD = 28"
definition DURABLE_KEY :: string where "DURABLE_KEY = ''parrot:durable#v1''"
definition READ_KEY :: string where "READ_KEY = ''parrot:directory:read#v1''"
definition CLIENT_KEY :: string where "CLIENT_KEY = ''parrot:directory:client#v1''"
definition RAFT_KEY :: string where "RAFT_KEY = ''parrot:directory:raft#v1''"

definition HANDSHAKE :: byte where "HANDSHAKE = 0x01"
definition HANDSHAKE_ACK :: byte where "HANDSHAKE_ACK = 0x02"
definition HEARTBEAT :: byte where "HEARTBEAT = 0x03"
definition HEARTBEAT_ACK :: byte where "HEARTBEAT_ACK = 0x04"
definition ASK :: byte where "ASK = 0x10"
definition REPLY :: byte where "REPLY = 0x11"
definition REPLY_ERR :: byte where "REPLY_ERR = 0x12"
definition TELL :: byte where "TELL = 0x13"
definition STOP :: byte where "STOP = 0x14"
definition FRAGMENT :: byte where "FRAGMENT = 0x15"
definition SYSTEM_EVENT :: byte where "SYSTEM_EVENT = 0x20"
definition RESOLVE_Q :: byte where "RESOLVE_Q = 0x21"
definition RESOLVE_R :: byte where "RESOLVE_R = 0x22"
definition INVALIDATE :: byte where "INVALIDATE = 0x23"
definition ROUTE_HINT :: byte where "ROUTE_HINT = 0x24"
definition ERROR :: byte where "ERROR = 0x7F"

lemmas type_defs = HANDSHAKE_def HANDSHAKE_ACK_def HEARTBEAT_def HEARTBEAT_ACK_def ASK_def REPLY_def
  REPLY_ERR_def TELL_def STOP_def FRAGMENT_def SYSTEM_EVENT_def RESOLVE_Q_def RESOLVE_R_def
  INVALIDATE_def ROUTE_HINT_def ERROR_def

definition flag_TRACING :: "16 word" where "flag_TRACING = push_bit 1 1"
definition flag_BATCH :: "16 word" where "flag_BATCH = push_bit 2 1"
definition flag_URGENT :: "16 word" where "flag_URGENT = push_bit 3 1"
definition flag_TELL_ACK :: "16 word" where "flag_TELL_ACK = push_bit 4 1"
definition flag_TRACE_CONTEXT :: "16 word" where "flag_TRACE_CONTEXT = push_bit 6 1"
definition flag_MIRROR_SHADOW :: "16 word" where "flag_MIRROR_SHADOW = push_bit 7 1"

lemmas flag_defs = flag_TRACING_def flag_BATCH_def flag_URGENT_def flag_TELL_ACK_def
  flag_TRACE_CONTEXT_def flag_MIRROR_SHADOW_def

datatype frame_error =
    Io
  | Truncated nat "nat option"
  | TooLarge nat nat
  | VersionMismatch byte byte
  | UnknownFrameType byte
  | MalformedLengths nat nat nat
  | Utf8 string
  | ReservedNotZero nat
  | HopExceeded byte byte
  | UnsupportedFlags "16 word"
  | InvalidTraceContext
  | BatchLimit string nat
  | BatchMalformed nat nat
  | BatchEmpty nat

primrec to_errcode :: "frame_error \<Rightarrow> err_code" where
  "to_errcode Io = ConnectionLost"
| "to_errcode (Truncated r e) = ProtocolViolation"
| "to_errcode (UnsupportedFlags f) = ProtocolViolation"
| "to_errcode (BatchLimit w m) = ProtocolViolation"
| "to_errcode InvalidTraceContext = ProtocolViolation"
| "to_errcode (TooLarge l m) = ProtocolViolation"
| "to_errcode (VersionMismatch e g) = ProtocolViolation"
| "to_errcode (UnknownFrameType g) = ProtocolViolation"
| "to_errcode (MalformedLengths f p k) = ProtocolViolation"
| "to_errcode (Utf8 f) = ProtocolViolation"
| "to_errcode (ReservedNotZero g) = ProtocolViolation"
| "to_errcode (HopExceeded c l) = RouteUnreachable"
| "to_errcode (BatchMalformed p t) = ProtocolViolation"
| "to_errcode (BatchEmpty g) = ProtocolViolation"

record frame_header =
  fh_len :: "32 word"
  fh_version :: byte
  fh_type :: byte
  fh_flags :: "16 word"
  fh_cid :: "64 word"
  fh_hop_count :: byte
  fh_hop_limit :: byte
  fh_seq :: "32 word"

record wire_frame =
  fr_header :: frame_header
  fr_path :: string
  fr_key :: string
  fr_payload :: "byte list"

definition has_flag :: "wire_frame \<Rightarrow> 16 word \<Rightarrow> bool" where
  "has_flag f m \<longleftrightarrow> fh_flags (fr_header f) AND m \<noteq> 0"

section \<open>Constructors\<close>

definition new_header :: "byte \<Rightarrow> 64 word \<Rightarrow> frame_header" where
  "new_header t cid = \<lparr>fh_len = 0, fh_version = PROTOCOL_VERSION, fh_type = t, fh_flags = 0, fh_cid = cid,
     fh_hop_count = 0, fh_hop_limit = DEFAULT_HOP_LIMIT, fh_seq = 0\<rparr>"

definition frame_ask :: "64 word \<Rightarrow> string \<Rightarrow> string \<Rightarrow> byte list \<Rightarrow> string option \<Rightarrow> wire_frame" where
  "frame_ask cid path key payload reply_to =
     \<lparr>fr_header = new_header ASK cid, fr_path = path, fr_key = key,
      fr_payload = (case reply_to of
          Some r \<Rightarrow> le_bytes 4 (length r) @ str_bytes r
        | None \<Rightarrow> le_bytes 4 0) @ payload\<rparr>"

definition frame_tell :: "string \<Rightarrow> string \<Rightarrow> byte list \<Rightarrow> wire_frame" where
  "frame_tell path key payload =
     \<lparr>fr_header = new_header TELL 0, fr_path = path, fr_key = key, fr_payload = payload\<rparr>"

definition tell_with_ack :: "64 word \<Rightarrow> string \<Rightarrow> string \<Rightarrow> byte list \<Rightarrow> wire_frame" where
  "tell_with_ack cid path key payload =
     (let f = frame_tell path key payload; h = fr_header f in
      f\<lparr>fr_header := h\<lparr>fh_cid := cid, fh_flags := fh_flags h OR flag_TELL_ACK\<rparr>\<rparr>)"

definition tell_with_seq :: "string \<Rightarrow> string \<Rightarrow> byte list \<Rightarrow> 32 word \<Rightarrow> wire_frame" where
  "tell_with_seq path key payload n =
     (let f = frame_tell path key payload in f\<lparr>fr_header := (fr_header f)\<lparr>fh_seq := n\<rparr>\<rparr>)"

definition frame_reply :: "64 word \<Rightarrow> string \<Rightarrow> string \<Rightarrow> byte list \<Rightarrow> wire_frame" where
  "frame_reply cid path key payload =
     \<lparr>fr_header = new_header REPLY cid, fr_path = path, fr_key = key, fr_payload = payload\<rparr>"

definition tell_completed :: "64 word \<Rightarrow> wire_frame" where
  "tell_completed cid = frame_reply cid [] TELL_COMPLETION_KEY []"

definition reply_err :: "64 word \<Rightarrow> string \<Rightarrow> err_code \<Rightarrow> string \<Rightarrow> wire_frame" where
  "reply_err cid path code detail =
     \<lparr>fr_header = new_header REPLY_ERR cid, fr_path = path, fr_key = [],
      fr_payload = encode_err_payload code detail\<rparr>"

definition frame_stop :: "string \<Rightarrow> wire_frame" where
  "frame_stop path = \<lparr>fr_header = new_header STOP 0, fr_path = path, fr_key = [], fr_payload = []\<rparr>"

definition control_frame :: "byte \<Rightarrow> byte list \<Rightarrow> wire_frame" where
  "control_frame t payload = \<lparr>fr_header = new_header t 0, fr_path = [], fr_key = [], fr_payload = payload\<rparr>"

definition error_frame :: "err_code \<Rightarrow> string \<Rightarrow> wire_frame" where
  "error_frame code detail = control_frame ERROR (encode_err_payload code detail)"

definition try_route_hint :: "string \<Rightarrow> string \<Rightarrow> frame_error + wire_frame" where
  "try_route_hint node addr =
     (if length node > 65535 \<or> length addr > 65535
      then Inl (MalformedLengths 0 (min (length node) (2 ^ 32 - 1)) (min (length addr) (2 ^ 32 - 1)))
      else Inr (control_frame ROUTE_HINT
        (le_bytes 2 (length node) @ str_bytes node @ le_bytes 2 (length addr) @ str_bytes addr)))"

definition parse_route_hint :: "byte list \<Rightarrow> frame_error + string \<times> string" where
  "parse_route_hint p =
     (let bad = (\<lambda>n. Inl (MalformedLengths (n mod 2 ^ 32) 0 0)) in
      if length p < 4 then bad (length p)
      else let nlen = from_le (take 2 p) in
      if length p < 2 + nlen + 2 then bad (length p)
      else let node = bytes_str (take nlen (drop 2 p)) in
      if \<not> utf8_valid node then bad nlen
      else let alen = from_le (take 2 (drop (2 + nlen) p)); aoff = 2 + nlen + 2 in
      if length p < aoff + alen then bad (length p)
      else let addr = bytes_str (take alen (drop aoff p)) in
      if \<not> utf8_valid addr then bad alen else Inr (node, addr))"

section \<open>Encoding and decoding\<close>

definition body_size :: "wire_frame \<Rightarrow> nat" where
  "body_size f = BODY_FIXED_OVERHEAD + length (fr_path f) + length (fr_key f) + length (fr_payload f)"

definition validate_size :: "nat \<Rightarrow> wire_frame \<Rightarrow> frame_error + nat" where
  "validate_size limit f =
     (let limit = min limit MAX_FRAME_LEN in
      if body_size f > limit then Inl (TooLarge (min (body_size f) (2 ^ 32 - 1)) limit) else Inr (body_size f))"

definition frame_bytes :: "wire_frame \<Rightarrow> byte list" where
  "frame_bytes f =
     (let h = fr_header f in
      le_bytes 4 (body_size f) @ [fh_version h, fh_type h] @ le_bytes 2 (unat (fh_flags h)) @
      le_bytes 8 (unat (fh_cid h)) @ [fh_hop_count h, fh_hop_limit h] @ le_bytes 4 (unat (fh_seq h)) @
      [0, 0] @ le_bytes 4 (length (fr_path f)) @ str_bytes (fr_path f) @
      le_bytes 4 (length (fr_key f)) @ str_bytes (fr_key f) @ fr_payload f)"

definition frame_encode :: "wire_frame \<Rightarrow> byte list \<Rightarrow> frame_error + byte list" where
  "frame_encode f buf =
     sum_bind (validate_size MAX_FRAME_LEN f) (\<lambda>body.
     if fh_version (fr_header f) \<noteq> PROTOCOL_VERSION
     then Inl (VersionMismatch PROTOCOL_VERSION (fh_version (fr_header f)))
     else Inr (buf @ frame_bytes f))"

text \<open>Reading from the front of a buffer panics when it is too short.\<close>

definition copy_bytes :: "nat \<Rightarrow> byte list \<Rightarrow> (byte list \<times> byte list) option" where
  "copy_bytes n buf = (if n \<le> length buf then Some (take n buf, drop n buf) else None)"

definition get_u8 :: "byte list \<Rightarrow> (byte \<times> byte list) option" where
  "get_u8 buf = (case buf of [] \<Rightarrow> None | b # rest \<Rightarrow> Some (b, rest))"

definition get_le :: "nat \<Rightarrow> byte list \<Rightarrow> (nat \<times> byte list) option" where
  "get_le n buf = do { (bs, rest) \<leftarrow> copy_bytes n buf; Some (from_le bs, rest) }"

definition known_type :: "byte \<Rightarrow> bool" where
  "known_type t \<longleftrightarrow> t \<in> set [HANDSHAKE, HANDSHAKE_ACK, HEARTBEAT, HEARTBEAT_ACK, ASK, REPLY, REPLY_ERR, TELL,
     STOP, FRAGMENT, SYSTEM_EVENT, RESOLVE_Q, RESOLVE_R, INVALIDATE, ROUTE_HINT, ERROR]"

definition decode_strings :: "nat \<Rightarrow> frame_header \<Rightarrow> byte list \<Rightarrow> (frame_error + wire_frame) option" where
  "decode_strings body_len header buf = do {
     (path_len, buf) \<leftarrow> get_le 4 buf;
     if length buf < 4 \<or> path_len > length buf - 4
     then Some (Inl (MalformedLengths body_len path_len 0))
     else do {
       (path, buf) \<leftarrow> copy_bytes path_len buf;
       if \<not> utf8_valid (bytes_str path) then Some (Inl (Utf8 ''path''))
       else do {
         (key_len, buf) \<leftarrow> get_le 4 buf;
         if key_len > length buf then Some (Inl (MalformedLengths body_len path_len key_len))
         else do {
           (key, buf) \<leftarrow> copy_bytes key_len buf;
           if \<not> utf8_valid (bytes_str key) then Some (Inl (Utf8 ''type_key''))
           else Some (Inr \<lparr>fr_header = header, fr_path = bytes_str path, fr_key = bytes_str key,
                           fr_payload = buf\<rparr>)
         }
       }
     }
   }"

definition decode_body :: "nat \<Rightarrow> byte list \<Rightarrow> (frame_error + wire_frame) option" where
  "decode_body body_len buf = do {
     (version, buf) \<leftarrow> get_u8 buf;
     if version \<noteq> PROTOCOL_VERSION then Some (Inl (VersionMismatch PROTOCOL_VERSION version))
     else do {
       (ft, buf) \<leftarrow> get_u8 buf;
       if \<not> known_type ft then Some (Inl (UnknownFrameType ft))
       else do {
         (fl, buf) \<leftarrow> get_le 2 buf;
         (cid, buf) \<leftarrow> get_le 8 buf;
         (hop_count, buf) \<leftarrow> get_u8 buf;
         (hop_limit, buf) \<leftarrow> get_u8 buf;
         if hop_limit = 0 \<or> hop_count \<ge> hop_limit then Some (Inl (HopExceeded hop_count hop_limit))
         else do {
           (sequence, buf) \<leftarrow> get_le 4 buf;
           (reserved_hi, buf) \<leftarrow> get_le 2 buf;
           if reserved_hi \<noteq> 0 then Some (Inl (ReservedNotZero (reserved_hi * 2 ^ 32)))
           else decode_strings body_len
             \<lparr>fh_len = word_of_nat body_len, fh_version = version, fh_type = ft, fh_flags = word_of_nat fl,
              fh_cid = word_of_nat cid, fh_hop_count = hop_count, fh_hop_limit = hop_limit,
              fh_seq = word_of_nat sequence\<rparr> buf
         }
       }
     }
   }"

definition decode_with_limit :: "nat \<Rightarrow> byte list \<Rightarrow> ((frame_error + wire_frame option) \<times> byte list) option" where
  "decode_with_limit max_len buf =
     (let max_len = min max_len MAX_FRAME_LEN in
      if length buf < 4 then Some (Inr None, buf)
      else let body_len = from_le (take 4 buf) in
      if body_len > max_len then Some (Inl (TooLarge body_len max_len), buf)
      else if body_len < BODY_FIXED_OVERHEAD then Some (Inl (MalformedLengths body_len 0 0), buf)
      else if length buf < 4 + body_len then Some (Inr None, buf)
      else do {
        r \<leftarrow> decode_body body_len (drop 4 (take (4 + body_len) buf));
        Some (map_sum id Some r, drop (4 + body_len) buf)
      })"

definition frame_decode :: "byte list \<Rightarrow> ((frame_error + wire_frame option) \<times> byte list) option" where
  "frame_decode buf = decode_with_limit MAX_FRAME_LEN buf"

section \<open>The codec of a connection\<close>

definition set_max_frame_len :: "nat \<Rightarrow> nat" where
  "set_max_frame_len n = min (max n BODY_FIXED_OVERHEAD) MAX_FRAME_LEN"

definition negotiated_encode :: "nat \<Rightarrow> wire_frame \<Rightarrow> byte list \<Rightarrow> frame_error + byte list" where
  "negotiated_encode max_len f buf = sum_bind (validate_size max_len f) (\<lambda>_. frame_encode f buf)"

definition decode_eof :: "nat \<Rightarrow> byte list \<Rightarrow> ((frame_error + wire_frame option) \<times> byte list) option" where
  "decode_eof max_len buf = do {
     (r, buf) \<leftarrow> decode_with_limit max_len buf;
     Some (case r of
         Inl e \<Rightarrow> (Inl e, buf)
       | Inr (Some f) \<Rightarrow> (Inr (Some f), buf)
       | Inr None \<Rightarrow>
           if buf = [] then (Inr None, buf)
           else (Inl (Truncated (length buf)
                        (if 4 \<le> length buf then Some (4 + from_le (take 4 buf)) else None)), buf))
   }"

section \<open>Causal prefixes and reply addresses\<close>

definition decode_trace_parent :: "byte list \<Rightarrow> frame_error + trace_parent" where
  "decode_trace_parent bs =
     (if length bs < TRACE_CONTEXT_BYTES \<or> bs ! 0 \<noteq> 1 then Inl InvalidTraceContext
      else case trace_parent_new (take 16 (drop 1 bs)) (take 8 (drop 17 bs)) of
        None \<Rightarrow> Inl InvalidTraceContext
      | Some p \<Rightarrow> Inr p)"

definition split_trace_parent :: "wire_frame \<Rightarrow> frame_error + trace_parent option \<times> byte list" where
  "split_trace_parent f =
     (if \<not> has_flag f flag_TRACE_CONTEXT then Inr (None, fr_payload f)
      else if has_flag f flag_BATCH \<or> fh_type (fr_header f) \<notin> {ASK, TELL} then Inl InvalidTraceContext
      else sum_bind (decode_trace_parent (fr_payload f)) (\<lambda>p.
        Inr (Some p, drop TRACE_CONTEXT_BYTES (fr_payload f))))"

definition take_trace_parent :: "wire_frame \<Rightarrow> frame_error + trace_parent option \<times> wire_frame" where
  "take_trace_parent f =
     sum_bind (split_trace_parent f) (\<lambda>(parent, payload).
       Inr (parent, f\<lparr>fr_payload := payload,
         fr_header := (fr_header f)\<lparr>fh_flags := fh_flags (fr_header f) AND NOT flag_TRACE_CONTEXT,
                                    fh_len := 0\<rparr>\<rparr>))"

definition supported_flags :: "16 word" where
  "supported_flags = flag_TRACING OR flag_URGENT OR flag_TELL_ACK OR flag_BATCH OR flag_TRACE_CONTEXT
     OR flag_MIRROR_SHADOW"

definition flags_refused :: "wire_frame \<Rightarrow> bool" where
  "flags_refused f \<longleftrightarrow>
     (let h = fr_header f in
      (fr_key f = DURABLE_KEY \<and> (fh_type h \<noteq> TELL \<or> \<not> has_flag f flag_TELL_ACK))
      \<or> has_flag f (NOT supported_flags)
      \<or> (has_flag f flag_MIRROR_SHADOW \<and>
           (fh_type h \<noteq> TELL \<or> \<not> has_flag f flag_TELL_ACK \<or> has_flag f (flag_BATCH OR flag_URGENT)
            \<or> fr_key f \<in> set [DURABLE_KEY, READ_KEY, CLIENT_KEY, RAFT_KEY]))
      \<or> (has_flag f flag_TRACE_CONTEXT \<and> fh_type h \<notin> {ASK, TELL})
      \<or> (has_flag f flag_TELL_ACK \<and>
           (fh_type h \<noteq> TELL \<or> fh_seq h \<noteq> 0 \<or> (\<not> has_flag f flag_BATCH \<and> fh_cid h = 0)))
      \<or> fh_flags h AND (flag_BATCH OR flag_URGENT) = flag_BATCH OR flag_URGENT
      \<or> (has_flag f flag_BATCH \<and> fh_type h \<notin> {ASK, TELL, REPLY}))"

definition mirror_budget_ok :: "byte list \<Rightarrow> bool" where
  "mirror_budget_ok payload \<longleftrightarrow> 4 \<le> length payload \<and> 1 \<le> from_le (take 4 payload) \<and> from_le (take 4 payload) \<le> 60000"

definition validate_payload_flags :: "wire_frame \<Rightarrow> frame_error + unit" where
  "validate_payload_flags f =
     (if flags_refused f then Inl (UnsupportedFlags (fh_flags (fr_header f)))
      else sum_bind (if has_flag f flag_TRACE_CONTEXT \<and> \<not> has_flag f flag_BATCH
                     then sum_bind (split_trace_parent f) (\<lambda>_. Inr ()) else Inr ()) (\<lambda>_.
        if has_flag f flag_MIRROR_SHADOW
        then sum_bind (split_trace_parent f) (\<lambda>(_, payload).
          guard (mirror_budget_ok payload) (UnsupportedFlags (fh_flags (fr_header f))))
        else Inr ()))"

definition with_trace_parent :: "wire_frame \<Rightarrow> trace_parent \<Rightarrow> frame_error + wire_frame" where
  "with_trace_parent f parent =
     (if fh_type (fr_header f) \<notin> {ASK, TELL} \<or> has_flag f (flag_BATCH OR flag_TRACE_CONTEXT)
      then Inl InvalidTraceContext
      else sum_bind (validate_payload_flags f) (\<lambda>_.
        sum_bind (validate_size (MAX_FRAME_LEN - TRACE_CONTEXT_BYTES) f) (\<lambda>_.
        Inr (f\<lparr>fr_payload := [1] @ trace_id parent @ span_id parent @ fr_payload f,
               fr_header := (fr_header f)\<lparr>fh_flags := fh_flags (fr_header f) OR flag_TRACE_CONTEXT,
                                          fh_len := 0\<rparr>\<rparr>))))"

definition reply_to_parts :: "byte list \<Rightarrow> nat \<Rightarrow> frame_error + string option \<times> nat" where
  "reply_to_parts payload frame_len =
     (if length payload < 4 then Inl (MalformedLengths frame_len 0 0)
      else let rlen = from_le (take 4 payload) in
      if rlen > length payload - 4 then Inl (MalformedLengths frame_len rlen 0)
      else sum_bind
        (if rlen = 0 then Inr None
         else let r = bytes_str (take rlen (drop 4 payload)) in
           if utf8_valid r then Inr (Some r) else Inl (Utf8 ''reply_to''))
        (\<lambda>reply_to. Inr (reply_to, 4 + rlen)))"

definition split_reply_to :: "wire_frame \<Rightarrow> frame_error + string option \<times> byte list" where
  "split_reply_to f =
     sum_bind (split_trace_parent f) (\<lambda>(_, payload).
     sum_bind (reply_to_parts payload (unat (fh_len (fr_header f)))) (\<lambda>(reply_to, offset).
       Inr (reply_to, drop offset payload)))"

definition borrowed_ask_payload :: "wire_frame \<Rightarrow> frame_error + byte list" where
  "borrowed_ask_payload f =
     sum_bind (split_trace_parent f) (\<lambda>(parent, _).
     let start = (if parent \<noteq> None then TRACE_CONTEXT_BYTES else 0); payload = drop start (fr_payload f) in
     sum_bind (reply_to_parts payload (unat (fh_len (fr_header f)))) (\<lambda>(_, offset).
       Inr (drop offset payload)))"

definition frame_trace_id :: "wire_frame \<Rightarrow> 64 word option" where
  "frame_trace_id f = (if has_flag f flag_TRACING then Some (fh_cid (fr_header f)) else None)"

section \<open>Batches\<close>

definition batch_expanded_size :: "nat \<Rightarrow> nat \<Rightarrow> nat \<Rightarrow> nat \<Rightarrow> nat \<Rightarrow> frame_error + nat" where
  "batch_expanded_size sz previous path key payload =
     (case foldl (\<lambda>acc n. Option.bind acc (\<lambda>a. checked_add a n)) (Some previous) [path, key, payload, sz] of
        Some n \<Rightarrow> if n \<le> MAX_FRAME_LEN then Inr n else Inl (BatchLimit ''expanded bytes'' MAX_FRAME_LEN)
      | None \<Rightarrow> Inl (BatchLimit ''expanded bytes'' MAX_FRAME_LEN))"

record batch_totals =
  bt_encoded :: nat
  bt_expanded :: nat
  bt_hop_count :: byte
  bt_hop_limit :: byte

definition batchable :: "wire_frame \<Rightarrow> wire_frame \<Rightarrow> bool" where
  "batchable first f \<longleftrightarrow>
     (let h = fr_header f; h0 = fr_header first in
      \<not> (fh_type h \<notin> {ASK, TELL, REPLY} \<or> fh_type h \<noteq> fh_type h0 \<or> fr_path f \<noteq> fr_path first
         \<or> fr_key f \<noteq> fr_key first \<or> fh_flags h \<noteq> fh_flags h0 \<or> has_flag f (flag_BATCH OR flag_URGENT)
         \<or> fh_version h \<noteq> PROTOCOL_VERSION \<or> fh_seq h \<noteq> 0))"

definition batch_admit :: "nat \<Rightarrow> nat \<Rightarrow> wire_frame \<Rightarrow> batch_totals \<Rightarrow> wire_frame \<Rightarrow> frame_error + batch_totals" where
  "batch_admit sz n first t f =
     (let malformed = Inl (BatchMalformed 0 n); h = fr_header f in
      sum_bind (validate_payload_flags f) (\<lambda>_.
      if \<not> batchable first f then malformed
      else case Option.bind (checked_add (bt_encoded t) 12) (\<lambda>m. checked_add m (length (fr_payload f))) of
          None \<Rightarrow> malformed
        | Some encoded \<Rightarrow>
            sum_bind (batch_expanded_size sz (bt_expanded t) (length (fr_path f)) (length (fr_key f))
                        (length (fr_payload f))) (\<lambda>expanded.
            Inr \<lparr>bt_encoded = encoded, bt_expanded = expanded,
                 bt_hop_count = max (bt_hop_count t) (fh_hop_count h),
                 bt_hop_limit = min (bt_hop_limit t) (fh_hop_limit h)\<rparr>)))"

definition batch_item :: "wire_frame \<Rightarrow> byte list" where
  "batch_item f = le_bytes 8 (unat (fh_cid (fr_header f))) @ le_bytes 4 (length (fr_payload f)) @ fr_payload f"

definition frame_batch :: "nat \<Rightarrow> wire_frame list \<Rightarrow> frame_error + wire_frame" where
  "frame_batch sz frames =
     (case frames of
        [] \<Rightarrow> Inl (BatchEmpty 0)
      | first # _ \<Rightarrow>
          if length frames > MAX_BATCH_ITEMS then Inl (BatchLimit ''item count'' MAX_BATCH_ITEMS)
          else sum_bind (fold_sum (batch_admit sz (length frames) first) frames
              \<lparr>bt_encoded = 8, bt_expanded = 0, bt_hop_count = 0, bt_hop_limit = - 1\<rparr>) (\<lambda>t.
          if bt_hop_count t \<ge> bt_hop_limit t then Inl (HopExceeded (bt_hop_count t) (bt_hop_limit t))
          else case Option.bind (Option.bind (checked_add (bt_encoded t) BODY_FIXED_OVERHEAD)
                      (\<lambda>n. checked_add n (length (fr_path first))))
                      (\<lambda>n. checked_add n (length (fr_key first))) of
              None \<Rightarrow> Inl (BatchMalformed 0 (length frames))
            | Some body \<Rightarrow>
                if body > MAX_FRAME_LEN then Inl (BatchLimit ''encoded bytes'' MAX_FRAME_LEN)
                else Inr (first\<lparr>
                  fr_header := (fr_header first)\<lparr>fh_len := 0,
                    fh_flags := fh_flags (fr_header first) OR flag_BATCH, fh_cid := 0,
                    fh_hop_count := bt_hop_count t, fh_hop_limit := bt_hop_limit t\<rparr>,
                  fr_payload := le_bytes 8 (length frames) @ concat (map batch_item frames)\<rparr>)))"

text \<open>The validation loop of \<^verbatim>\<open>batch_frames\<close>, from a position and a number of items to go.\<close>

primrec check_items :: "nat \<Rightarrow> wire_frame \<Rightarrow> nat \<Rightarrow> nat \<Rightarrow> nat \<Rightarrow> frame_error + nat" where
  "check_items sz f 0 position expanded = Inr position"
| "check_items sz f (Suc items) position expanded =
     (let p = fr_payload f in
      if length p - position < 12 then Inl (BatchMalformed position (length p))
      else if has_flag f flag_TELL_ACK \<and> from_le (take 8 (drop position p)) = 0
      then Inl (BatchMalformed position (length p))
      else let size = from_le (take 4 (drop (position + 8) p)); position = position + 12 in
      if size > length p - position then Inl (BatchMalformed position (length p))
      else sum_bind (if has_flag f flag_TRACE_CONTEXT
                     then sum_bind (decode_trace_parent (take size (drop position p))) (\<lambda>_. Inr ())
                     else Inr ()) (\<lambda>_.
        sum_bind (batch_expanded_size sz expanded (length (fr_path f)) (length (fr_key f)) size) (\<lambda>expanded.
        check_items sz f items (position + size) expanded)))"

definition batch_frames :: "nat \<Rightarrow> wire_frame \<Rightarrow> frame_error + nat" where
  "batch_frames sz f =
     sum_bind (validate_payload_flags f) (\<lambda>_.
     let h = fr_header f; p = fr_payload f in
     if \<not> has_flag f flag_BATCH \<or> fh_version h \<noteq> PROTOCOL_VERSION \<or> fh_seq h \<noteq> 0
     then Inl (BatchMalformed 0 (length p))
     else if fh_hop_count h \<ge> fh_hop_limit h then Inl (HopExceeded (fh_hop_count h) (fh_hop_limit h))
     else if length p < 8 then Inl (BatchEmpty (length p))
     else let items = from_le (take 8 p) in
     if items = 0 then Inl (BatchEmpty 0)
     else if items > MAX_BATCH_ITEMS then Inl (BatchLimit ''item count'' MAX_BATCH_ITEMS)
     else sum_bind (check_items sz f items 8 0) (\<lambda>position.
       if position \<noteq> length p then Inl (BatchMalformed position (length p)) else Inr items))"

text \<open>\<^verbatim>\<open>BatchFrames::next\<close>, with the position and the number of items that remain; slicing may panic.\<close>

definition batch_next :: "wire_frame \<Rightarrow> nat \<Rightarrow> (wire_frame \<times> nat) option" where
  "batch_next f position = do {
     let p = fr_payload f;
     cid \<leftarrow> slice p position (position + 8);
     len \<leftarrow> slice p (position + 8) (position + 12);
     let position = position + 12;
     payload \<leftarrow> slice p position (position + from_le len);
     Some (f\<lparr>fr_header := (fr_header f)\<lparr>fh_flags := fh_flags (fr_header f) AND NOT flag_BATCH, fh_len := 0,
                                        fh_cid := word_of_nat (from_le cid)\<rparr>,
             fr_payload := payload\<rparr>, position + from_le len)
   }"

primrec batch_collect :: "wire_frame \<Rightarrow> nat \<Rightarrow> nat \<Rightarrow> wire_frame list option" where
  "batch_collect f position 0 = Some []"
| "batch_collect f position (Suc remaining) = do {
     (member, position) \<leftarrow> batch_next f position;
     rest \<leftarrow> batch_collect f position remaining;
     Some (member # rest)
   }"

definition iter_batch :: "nat \<Rightarrow> wire_frame \<Rightarrow> (frame_error + wire_frame list) option" where
  "iter_batch sz f =
     (case batch_frames sz f of
        Inl e \<Rightarrow> Some (Inl e)
      | Inr items \<Rightarrow> map_option Inr (batch_collect f 8 items))"

end
