(* ===== verification/Frame_Codec.thy ===== *)
theory Frame_Codec
  imports Frame "HOL-Library.Sublist"
begin

text \<open>
  The frame codec: decoding is exact (a frame is read if and only if the buffer starts with its encoding),
  never panics, and delivers a stream of frames whatever the chunks in which the bytes arrive. The
  last fact is proved once, for the codecs of the locale \<open>stream_codec\<close>.
\<close>

section \<open>Codecs over a byte stream\<close>

text \<open>
  The reader of a framed connection: after every chunk it decodes until the decoder asks for more bytes
  or reports an error.
\<close>

partial_function (option) drain ::
  "('b list \<Rightarrow> (('e + 'f option) \<times> 'b list) option) \<Rightarrow> 'b list \<Rightarrow> ('f list \<times> 'e option \<times> 'b list) option" where
  "drain dec buf = do {
     (r, rest) \<leftarrow> dec buf;
     case r of
       Inl e \<Rightarrow> Some ([], Some e, rest)
     | Inr None \<Rightarrow> Some ([], None, rest)
     | Inr (Some f) \<Rightarrow> do { (fs, e, rest) \<leftarrow> drain dec rest; Some (f # fs, e, rest) }
   }"

primrec receive ::
  "('b list \<Rightarrow> (('e + 'f option) \<times> 'b list) option) \<Rightarrow> 'b list \<Rightarrow> 'b list list \<Rightarrow>
     ('f list \<times> 'e option \<times> 'b list) option" where
  "receive dec buf [] = Some ([], None, buf)"
| "receive dec buf (c # cs) = do {
     (fs, e, rest) \<leftarrow> drain dec (buf @ c);
     case e of
       Some e \<Rightarrow> Some (fs, Some e, rest)
     | None \<Rightarrow> do { (gs, e, rest) \<leftarrow> receive dec rest cs; Some (fs @ gs, e, rest) }
   }"

locale stream_codec =
  fixes good :: "'f \<Rightarrow> bool" and enc :: "'f \<Rightarrow> 'b list" and norm :: "'f \<Rightarrow> 'f"
    and dec :: "'b list \<Rightarrow> (('e + 'f option) \<times> 'b list) option"
  assumes dec_enc: "good f \<Longrightarrow> dec (enc f @ rest) = Some (Inr (Some (norm f)), rest)"
    and dec_short: "good f \<Longrightarrow> strict_prefix buf (enc f) \<Longrightarrow> dec buf = Some (Inr None, buf)"
    and dec_empty: "dec [] = Some (Inr None, [])"
    and enc_nonempty: "enc f \<noteq> []"
begin

text \<open>What is left in the buffer when the reader waits: nothing, or part of the next frame.\<close>

definition awaits :: "'b list \<Rightarrow> 'f list \<Rightarrow> bool" where
  "awaits buf fs \<longleftrightarrow> buf = [] \<or> (\<exists>f gs. fs = f # gs \<and> strict_prefix buf (enc f))"

lemma drain_stream:
  assumes "\<forall>f \<in> set fs. good f" and "data @ future = concat (map enc fs)"
  shows "\<exists>k rest. drain dec data = Some (map norm (take k fs), None, rest) \<and>
    rest @ future = concat (map enc (drop k fs)) \<and> awaits rest (drop k fs)"
  using assms
proof (induction fs arbitrary: data)
  case Nil
  then have "drain dec data = Some ([], None, [])" by (subst drain.simps) (simp add: dec_empty)
  then show ?case using Nil by (auto simp: awaits_def)
next
  case (Cons f fs)
  have split: "data @ future = enc f @ concat (map enc fs)" and g: "good f" using Cons.prems by auto
  show ?case
  proof (cases "prefix (enc f) data")
    case True
    then obtain data' where d: "data = enc f @ data'" by (auto elim: prefixE)
    then obtain k rest where k: "drain dec data' = Some (map norm (take k fs), None, rest)"
      "rest @ future = concat (map enc (drop k fs))" "awaits rest (drop k fs)"
      using Cons.IH [of data'] Cons.prems split by auto
    have "drain dec data = Some (norm f # map norm (take k fs), None, rest)"
      by (subst drain.simps) (simp add: d dec_enc [OF g] k(1))
    then show ?thesis using k(2,3) by (intro exI [of _ "Suc k"] exI [of _ rest]) simp
  next
    case False
    have "prefix data (enc f) \<or> prefix (enc f) data"
      by (rule prefix_same_cases [of _ "data @ future"]) (simp_all add: split, simp flip: split)
    then have short: "strict_prefix data (enc f)" using False by (auto simp: strict_prefix_def)
    have "drain dec data = Some ([], None, data)"
      by (subst drain.simps) (simp add: dec_short [OF g short])
    then show ?thesis using Cons.prems(2) short by (intro exI [of _ 0] exI [of _ data]) (auto simp: awaits_def)
  qed
qed

lemma receive_stream:
  assumes "\<forall>f \<in> set fs. good f" and "buf @ concat chunks @ future = concat (map enc fs)" and "awaits buf fs"
  shows "\<exists>k rest. receive dec buf chunks = Some (map norm (take k fs), None, rest) \<and>
    rest @ future = concat (map enc (drop k fs)) \<and> awaits rest (drop k fs)"
  using assms
proof (induction chunks arbitrary: buf fs)
  case Nil
  then show ?case by (intro exI [of _ 0] exI [of _ buf]) simp
next
  case (Cons c cs)
  obtain k rest where k: "drain dec (buf @ c) = Some (map norm (take k fs), None, rest)"
    "rest @ concat cs @ future = concat (map enc (drop k fs))" "awaits rest (drop k fs)"
    using drain_stream [OF Cons.prems(1), of "buf @ c" "concat cs @ future"] Cons.prems(2) by auto
  have "\<forall>f \<in> set (drop k fs). good f" using Cons.prems(1) by (auto dest: in_set_dropD)
  then obtain l rest' where l: "receive dec rest cs = Some (map norm (take l (drop k fs)), None, rest')"
    "rest' @ future = concat (map enc (drop l (drop k fs)))" "awaits rest' (drop l (drop k fs))"
    using Cons.IH k(2,3) by blast
  have "receive dec buf (c # cs) = Some (map norm (take (k + l) fs), None, rest')"
    by (simp add: k(1) l(1) take_add)
  then show ?case using l(2,3) by (intro exI [of _ "k + l"] exI [of _ rest']) (simp add: add.commute)
qed

lemma awaits_decode: "awaits buf fs \<Longrightarrow> \<forall>f \<in> set fs. good f \<Longrightarrow> dec buf = Some (Inr None, buf)"
  by (auto simp: awaits_def dec_empty dec_short)

lemma awaits_complete: "awaits rest fs \<Longrightarrow> rest = concat (map enc fs) \<Longrightarrow> fs = [] \<and> rest = []"
  by (cases fs) (auto simp: awaits_def enc_nonempty strict_prefix_def prefix_def)

end

section \<open>Exact decoding\<close>

lemma get_u8_iff [opt_iffs]: "get_u8 buf = Some (b, rest) \<longleftrightarrow> buf = b # rest"
  by (auto simp: get_u8_def split: list.splits)

lemma copy_bytes_iff [opt_iffs]: "copy_bytes n buf = Some (bs, rest) \<longleftrightarrow> buf = bs @ rest \<and> length bs = n"
  by (auto simp: copy_bytes_def append_eq_conv_conj)

lemma get_le_iff [opt_iffs]: "get_le n buf = Some (v, rest) \<longleftrightarrow> buf = le_bytes n v @ rest \<and> v < 256 ^ n"
proof
  assume "get_le n buf = Some (v, rest)"
  then obtain bs where "buf = bs @ rest" "length bs = n" "v = from_le bs"
    by (auto simp: get_le_def bind_eq_Some_conv copy_bytes_iff)
  then show "buf = le_bytes n v @ rest \<and> v < 256 ^ n" using le_bytes_from_le [of bs] from_le_less [of bs] by auto
next
  assume "buf = le_bytes n v @ rest \<and> v < 256 ^ n"
  then show "get_le n buf = Some (v, rest)"
    by (auto simp: get_le_def bind_eq_Some_conv copy_bytes_iff from_le_bytes intro: exI [of _ "le_bytes n v"])
qed

lemma get_u8_Cons [simp]: "get_u8 (b # rest) = Some (b, rest)"
  by (simp add: get_u8_iff)

lemma copy_bytes_append [simp]: "copy_bytes (length bs) (bs @ rest) = Some (bs, rest)"
  by (simp add: copy_bytes_iff)

lemma get_le_append [simp]: "v < 256 ^ n \<Longrightarrow> get_le n (le_bytes n v @ rest) = Some (v, rest)"
  by (simp add: get_le_iff)

definition strings_bytes :: "wire_frame \<Rightarrow> byte list" where
  "strings_bytes f = le_bytes 4 (length (fr_path f)) @ str_bytes (fr_path f) @
     le_bytes 4 (length (fr_key f)) @ str_bytes (fr_key f) @ fr_payload f"

definition header_bytes :: "frame_header \<Rightarrow> byte list" where
  "header_bytes h = [fh_version h, fh_type h] @ le_bytes 2 (unat (fh_flags h)) @ le_bytes 8 (unat (fh_cid h)) @
     [fh_hop_count h, fh_hop_limit h] @ le_bytes 4 (unat (fh_seq h)) @ [0, 0]"

definition header_ok :: "frame_header \<Rightarrow> bool" where
  "header_ok h \<longleftrightarrow> fh_version h = PROTOCOL_VERSION \<and> known_type (fh_type h) \<and> fh_hop_count h < fh_hop_limit h"

definition strings_ok :: "wire_frame \<Rightarrow> bool" where
  "strings_ok f \<longleftrightarrow> utf8_valid (fr_path f) \<and> utf8_valid (fr_key f)"

lemma frame_bytes_split: "frame_bytes f = le_bytes 4 (body_size f) @ header_bytes (fr_header f) @ strings_bytes f"
  by (simp add: frame_bytes_def header_bytes_def strings_bytes_def Let_def)

lemma length_header_bytes [simp]: "length (header_bytes h) = 20"
  by (simp add: header_bytes_def)

lemma length_strings_bytes: "length (strings_bytes f) = 8 + length (fr_path f) + length (fr_key f) + length (fr_payload f)"
  by (simp add: strings_bytes_def)

lemma length_frame_bytes: "length (frame_bytes f) = 4 + body_size f"
  by (simp add: frame_bytes_split length_strings_bytes body_size_def BODY_FIXED_OVERHEAD_def)

lemma decode_strings_iff:
  assumes "length buf < 2 ^ 32"
  shows "decode_strings n h buf = Some (Inr f) \<longleftrightarrow> fr_header f = h \<and> strings_ok f \<and> buf = strings_bytes f"
proof
  assume "decode_strings n h buf = Some (Inr f)"
  then obtain path key payload where "buf = le_bytes 4 (length path) @ path @ le_bytes 4 (length key) @ key @ payload"
    "utf8_valid (bytes_str path)" "utf8_valid (bytes_str key)"
    "f = \<lparr>fr_header = h, fr_path = bytes_str path, fr_key = bytes_str key, fr_payload = payload\<rparr>"
    by (auto simp: decode_strings_def bind_eq_Some_conv opt_iffs split: if_splits)
  then show "fr_header f = h \<and> strings_ok f \<and> buf = strings_bytes f"
    by (simp add: strings_ok_def strings_bytes_def)
next
  assume r: "fr_header f = h \<and> strings_ok f \<and> buf = strings_bytes f"
  then have "length (fr_path f) < 256 ^ 4" "length (fr_key f) < 256 ^ 4"
    using assms length_strings_bytes [of f] by simp_all
  then show "decode_strings n h buf = Some (Inr f)"
    using r copy_bytes_append [of "str_bytes (fr_path f)"] copy_bytes_append [of "str_bytes (fr_key f)"]
    by (auto simp: decode_strings_def strings_bytes_def strings_ok_def)
qed

lemma le_word [simp]:
  "unat (w :: 16 word) < 65536" "unat (x :: 64 word) < 18446744073709551616" "unat (y :: 32 word) < 4294967296"
  using unsigned_less [of w, where 'a = nat] unsigned_less [of x, where 'a = nat] unsigned_less [of y, where 'a = nat]
  by simp_all

lemma hop_test: "l = 0 \<or> l \<le> c \<longleftrightarrow> \<not> c < l" for c l :: byte
  by auto

lemma le_bytes_2_0: "le_bytes 2 0 = [0, 0]"
  by (simp add: numeral_2_eq_2)

lemma decode_body_iff:
  assumes "length buf < 2 ^ 32"
  shows "decode_body n buf = Some (Inr f) \<longleftrightarrow> header_ok (fr_header f) \<and> fh_len (fr_header f) = word_of_nat n \<and>
    strings_ok f \<and> buf = header_bytes (fr_header f) @ strings_bytes f"
proof
  assume "decode_body n buf = Some (Inr f)"
  then obtain ft fl cid hc hl sq rest where buf: "buf = [PROTOCOL_VERSION, ft] @ le_bytes 2 fl @ le_bytes 8 cid @
      [hc, hl] @ le_bytes 4 sq @ le_bytes 2 0 @ rest"
    and ok: "known_type ft" "hc < hl" and bounds: "fl < 256 ^ 2" "cid < 256 ^ 8" "sq < 256 ^ 4"
    and strings: "decode_strings n \<lparr>fh_len = word_of_nat n, fh_version = PROTOCOL_VERSION, fh_type = ft,
      fh_flags = word_of_nat fl, fh_cid = word_of_nat cid, fh_hop_count = hc, fh_hop_limit = hl,
      fh_seq = word_of_nat sq\<rparr> rest = Some (Inr f)"
    by (auto simp: decode_body_def bind_eq_Some_conv opt_iffs hop_test split: if_splits)
  have "length rest < 2 ^ 32" using assms buf by simp
  note f = decode_strings_iff [OF this, THEN iffD1, OF strings]
  have "unat (word_of_nat fl :: 16 word) = fl" "unat (word_of_nat cid :: 64 word) = cid"
    "unat (word_of_nat sq :: 32 word) = sq"
    using bounds by (simp_all add: unat_of_nat)
  then show "header_ok (fr_header f) \<and> fh_len (fr_header f) = word_of_nat n \<and> strings_ok f \<and>
      buf = header_bytes (fr_header f) @ strings_bytes f"
    using f ok by (simp add: buf header_ok_def header_bytes_def le_bytes_2_0)
next
  assume r: "header_ok (fr_header f) \<and> fh_len (fr_header f) = word_of_nat n \<and> strings_ok f \<and>
    buf = header_bytes (fr_header f) @ strings_bytes f"
  then have "length (strings_bytes f) < 2 ^ 32" using assms by simp
  then have "decode_strings n (fr_header f) (strings_bytes f) = Some (Inr f)"
    using r decode_strings_iff by blast
  moreover have "get_le 2 (0 # 0 # rest) = Some (0, rest)" for rest
    using get_le_append [of 0 2 rest] by (simp add: le_bytes_2_0)
  ultimately show "decode_body n buf = Some (Inr f)"
    using r by (cases "fr_header f") (simp add: decode_body_def header_bytes_def header_ok_def hop_test)
qed

text \<open>The frames that a connection with a given limit carries.\<close>

definition wire_ok :: "nat \<Rightarrow> wire_frame \<Rightarrow> bool" where
  "wire_ok lim f \<longleftrightarrow> body_size f \<le> min lim MAX_FRAME_LEN \<and> header_ok (fr_header f) \<and> strings_ok f"

definition sized :: "wire_frame \<Rightarrow> wire_frame" where
  "sized f = f\<lparr>fr_header := (fr_header f)\<lparr>fh_len := word_of_nat (body_size f)\<rparr>\<rparr>"

lemma sized_simps [simp]:
  "frame_bytes (sized f) = frame_bytes f" "wire_ok lim (sized f) \<longleftrightarrow> wire_ok lim f" "body_size (sized f) = body_size f"
  by (simp_all add: sized_def frame_bytes_def wire_ok_def body_size_def header_ok_def strings_ok_def Let_def)

lemma map_sum_Some: "map_sum id Some r = Inr (Some f) \<longleftrightarrow> r = Inr f"
  by (cases r) auto

lemma decode_iff:
  "decode_with_limit lim buf = Some (Inr (Some f), rest) \<longleftrightarrow>
     wire_ok lim f \<and> f = sized f \<and> buf = frame_bytes f @ rest"
proof
  assume d: "decode_with_limit lim buf = Some (Inr (Some f), rest)"
  let ?n = "from_le (take 4 buf)" and ?body = "drop 4 (take (4 + from_le (take 4 buf)) buf)"
  have b: "decode_body ?n ?body = Some (Inr f)" "rest = drop (4 + ?n) buf" "4 + ?n \<le> length buf"
    and n: "?n \<le> min lim MAX_FRAME_LEN"
    using d by (auto simp: decode_with_limit_def Let_def bind_eq_Some_conv map_sum_Some split: if_splits)
  have len: "length ?body = ?n" using b(3) by simp
  then have "length ?body < 2 ^ 32" using n by (simp add: MAX_FRAME_LEN_def)
  note f = decode_body_iff [OF this, THEN iffD1, OF b(1)]
  then have size: "body_size f = ?n"
    using len by (simp add: body_size_def BODY_FIXED_OVERHEAD_def length_strings_bytes)
  have "buf = take 4 buf @ ?body @ rest"
    using b(2) by (metis append_take_drop_id drop_drop drop_take add_diff_cancel_left' add.commute)
  moreover have "take 4 buf = le_bytes 4 ?n" using le_bytes_from_le [of "take 4 buf"] b(3) by simp
  ultimately have "buf = frame_bytes f @ rest" using f size by (simp add: frame_bytes_split)
  then show "wire_ok lim f \<and> f = sized f \<and> buf = frame_bytes f @ rest"
    using f n size by (simp add: wire_ok_def sized_def)
next
  assume r: "wire_ok lim f \<and> f = sized f \<and> buf = frame_bytes f @ rest"
  let ?n = "body_size f"
  have n: "?n \<le> min lim MAX_FRAME_LEN" "?n < 2 ^ 32" "BODY_FIXED_OVERHEAD \<le> ?n"
    using r by (auto simp: wire_ok_def MAX_FRAME_LEN_def body_size_def)
  have buf: "buf = le_bytes 4 ?n @ (header_bytes (fr_header f) @ strings_bytes f) @ rest"
    using r by (simp add: frame_bytes_split)
  have len: "length (header_bytes (fr_header f) @ strings_bytes f) = ?n"
    by (simp add: length_strings_bytes body_size_def BODY_FIXED_OVERHEAD_def)
  have "decode_body ?n (header_bytes (fr_header f) @ strings_bytes f) = Some (Inr f)"
  proof (rule decode_body_iff [THEN iffD2])
    show "length (header_bytes (fr_header f) @ strings_bytes f) < 2 ^ 32" using len n(2) by simp
    have "fh_len (fr_header f) = fh_len (fr_header (sized f))" using r by simp
    then show "header_ok (fr_header f) \<and> fh_len (fr_header f) = word_of_nat ?n \<and> strings_ok f \<and>
        header_bytes (fr_header f) @ strings_bytes f = header_bytes (fr_header f) @ strings_bytes f"
      using r by (simp add: wire_ok_def sized_def)
  qed
  moreover have "take 4 buf = le_bytes 4 ?n" by (simp add: buf)
  moreover have "length buf = 4 + ?n + length rest" using len by (simp add: buf)
  moreover have "drop 4 (take (4 + ?n) buf) = header_bytes (fr_header f) @ strings_bytes f" "drop (4 + ?n) buf = rest"
    using len by (simp_all add: buf)
  ultimately show "decode_with_limit lim buf = Some (Inr (Some f), rest)"
    using n by (simp add: decode_with_limit_def Let_def from_le_4 not_less)
qed

lemma decode_prefix:
  assumes "wire_ok lim f" and "strict_prefix buf (frame_bytes f)"
  shows "decode_with_limit lim buf = Some (Inr None, buf)"
proof -
  let ?n = "body_size f"
  obtain tail where tail: "frame_bytes f = buf @ tail" "tail \<noteq> []"
    using assms(2) by (auto simp: strict_prefix_def prefix_def)
  have n: "?n \<le> min lim MAX_FRAME_LEN" "?n < 2 ^ 32" "BODY_FIXED_OVERHEAD \<le> ?n"
    using assms(1) by (auto simp: wire_ok_def MAX_FRAME_LEN_def body_size_def)
  have len: "length buf < 4 + ?n" using tail length_frame_bytes [of f] by (metis add_less_cancel_left length_append length_greater_0_conv less_add_same_cancel1)
  have "take 4 buf = le_bytes 4 ?n" if "4 \<le> length buf"
  proof -
    have "take 4 (frame_bytes f) = le_bytes 4 ?n" by (simp add: frame_bytes_split)
    then show ?thesis using that tail(1) by simp
  qed
  then show ?thesis using len n by (cases "length buf < 4") (simp_all add: decode_with_limit_def Let_def from_le_4 not_less)
qed

interpretation frames: stream_codec "wire_ok lim" frame_bytes sized "decode_with_limit lim" for lim
proof
  fix f rest
  assume "wire_ok lim f"
  then show "decode_with_limit lim (frame_bytes f @ rest) = Some (Inr (Some (sized f)), rest)"
    using decode_iff [of lim "frame_bytes f @ rest" "sized f" rest] by (simp add: sized_def frame_bytes_def body_size_def wire_ok_def header_ok_def strings_ok_def Let_def)
next
  show "decode_with_limit lim [] = Some (Inr None, [])" by (simp add: decode_with_limit_def)
next
  fix f show "frame_bytes f \<noteq> []" using length_frame_bytes [of f] by auto
qed (rule decode_prefix)

section \<open>Arbitrary input\<close>

lemma get_total:
  "length buf \<ge> n \<Longrightarrow> copy_bytes n buf = Some (take n buf, drop n buf)"
  "length buf \<ge> n \<Longrightarrow> get_le n buf = Some (from_le (take n buf), drop n buf)"
  "length buf \<ge> 1 \<Longrightarrow> get_u8 buf = Some (hd buf, tl buf)"
  by (auto simp: copy_bytes_def get_le_def get_u8_def split: list.splits)

lemma decode_strings_total: "8 \<le> length buf \<Longrightarrow> \<exists>r. decode_strings n h buf = Some r"
  by (auto simp: decode_strings_def get_total not_less)

lemma decode_body_total: "BODY_FIXED_OVERHEAD \<le> length buf \<Longrightarrow> \<exists>r. decode_body n buf = Some r"
proof -
  assume "BODY_FIXED_OVERHEAD \<le> length buf"
  then have len: "28 \<le> length buf" by (simp add: BODY_FIXED_OVERHEAD_def)
  have "8 \<le> length (drop 2 (drop 4 (tl (tl (drop 8 (drop 2 (tl (tl buf))))))))" using len by simp
  then have "\<exists>r. decode_strings n h (drop 2 (drop 4 (tl (tl (drop 8 (drop 2 (tl (tl buf)))))))) = Some r" for h
    by (rule decode_strings_total)
  then show ?thesis using len by (simp add: decode_body_def get_total)
qed

lemma decode_total: "\<exists>r rest. decode_with_limit lim buf = Some (r, rest)"
proof -
  let ?n = "from_le (take 4 buf)"
  have "\<exists>r. decode_body ?n (drop 4 (take (4 + ?n) buf)) = Some r"
    if "BODY_FIXED_OVERHEAD \<le> ?n" "4 + ?n \<le> length buf"
    by (rule decode_body_total) (use that in simp)
  then show ?thesis by (auto simp: decode_with_limit_def Let_def not_less)
qed

lemma map_sum_not_None [simp]: "map_sum id Some r \<noteq> Inr None"
  by (cases r) auto

lemma decode_waits:
  "decode_with_limit lim buf = Some (Inr None, rest) \<Longrightarrow> rest = buf \<and> length buf < 4 + max 4 (min lim MAX_FRAME_LEN) \<and>
     (length buf < 4 \<or> length buf < 4 + from_le (take 4 buf))"
  by (auto simp: decode_with_limit_def Let_def bind_eq_Some_conv split: if_splits)

lemma decode_refuses:
  assumes "decode_with_limit lim buf = Some (Inl e, rest)" and "wire_ok lim f"
  shows "\<not> prefix (frame_bytes f) (buf @ next)"
proof
  assume "prefix (frame_bytes f) (buf @ next)"
  then consider "prefix (frame_bytes f) buf" | "strict_prefix buf (frame_bytes f)"
    using prefix_same_cases [of buf "buf @ next" "frame_bytes f"] by (auto simp: strict_prefix_def)
  then show False
  proof cases
    case 1
    then obtain rest' where "buf = frame_bytes f @ rest'" by (auto elim: prefixE)
    then show ?thesis using frames.dec_enc [OF assms(2)] assms(1) by simp
  next
    case 2
    then show ?thesis using decode_prefix [OF assms(2)] assms(1) by simp
  qed
qed

lemma decode_error_consumes:
  "decode_with_limit lim buf = Some (Inl e, rest) \<Longrightarrow> rest = buf \<or> rest = drop (4 + from_le (take 4 buf)) buf"
  by (auto simp: decode_with_limit_def Let_def bind_eq_Some_conv split: if_splits)

lemma encode_ok:
  "negotiated_encode lim f buf = Inr out \<longleftrightarrow> out = buf @ frame_bytes f \<and> body_size f \<le> min lim MAX_FRAME_LEN \<and>
     fh_version (fr_header f) = PROTOCOL_VERSION"
  by (auto simp: negotiated_encode_def frame_encode_def validate_size_def Let_def sum_bind_Inr split: if_splits)

lemma encode_all:
  "fold_sum (\<lambda>buf f. negotiated_encode lim f buf) fs buf = Inr out \<Longrightarrow>
     out = buf @ concat (map frame_bytes fs) \<and>
     (\<forall>f \<in> set fs. body_size f \<le> min lim MAX_FRAME_LEN \<and> fh_version (fr_header f) = PROTOCOL_VERSION)"
proof (induction fs arbitrary: buf)
  case (Cons f fs)
  from Cons.prems have "fold_sum (\<lambda>buf f. negotiated_encode lim f buf) fs (buf @ frame_bytes f) = Inr out"
    and "body_size f \<le> min lim MAX_FRAME_LEN \<and> fh_version (fr_header f) = PROTOCOL_VERSION"
    by (auto simp: sum_bind_Inr encode_ok)
  then show ?case using Cons.IH by fastforce
qed simp

lemma eof_waiting:
  assumes "decode_with_limit lim buf = Some (Inr None, buf)"
  shows "decode_eof lim buf = (if buf = [] then Some (Inr None, [])
    else Some (Inl (Truncated (length buf) (if 4 \<le> length buf then Some (4 + from_le (take 4 buf)) else None)), buf))"
  using assms by (simp add: decode_eof_def)

section \<open>Properties of the codec\<close>

text \<open>
  C2. Decoding is exact and safe on every input. Whatever bytes a peer has sent, the decoder does not panic.
  It reads a frame if and only if the buffer starts with the encoding of a well-formed frame within the limit,
  and consumes exactly that. It waits only while the frame that the length announces is incomplete, with
  fewer bytes than the limit allows, consuming nothing. It reports an error only when no continuation of the
  bytes could start with a well-formed frame, and then never consumes beyond the frame that the length announces.
\<close>

theorem decode_exact:
  "\<exists>r rest. decode_with_limit lim buf = Some (r, rest) \<and>
    ((\<exists>f. r = Inr (Some f)) \<longleftrightarrow> (\<exists>f. wire_ok lim f \<and> prefix (frame_bytes f) buf)) \<and>
    (case r of
       Inr (Some f) \<Rightarrow> wire_ok lim f \<and> f = sized f \<and> frame_encode f [] = Inr (frame_bytes f) \<and> buf = frame_bytes f @ rest
     | Inr None \<Rightarrow> rest = buf \<and> length buf < 4 + max 4 (min lim MAX_FRAME_LEN) \<and>
         (length buf < 4 \<or> length buf < 4 + from_le (take 4 buf))
     | Inl e \<Rightarrow> \<not> (\<exists>f next. wire_ok lim f \<and> prefix (frame_bytes f) (buf @ next)) \<and>
         (rest = buf \<or> rest = drop (4 + from_le (take 4 buf)) buf))"
proof -
  obtain r rest where d: "decode_with_limit lim buf = Some (r, rest)" using decode_total by blast
  have reads: "(\<exists>f. r = Inr (Some f)) \<longleftrightarrow> (\<exists>f. wire_ok lim f \<and> prefix (frame_bytes f) buf)"
    using d decode_iff [of lim buf] frames.dec_enc [of lim] by (fastforce simp: prefix_def)
  have "case r of
       Inr (Some f) \<Rightarrow> wire_ok lim f \<and> f = sized f \<and> frame_encode f [] = Inr (frame_bytes f) \<and> buf = frame_bytes f @ rest
     | Inr None \<Rightarrow> rest = buf \<and> length buf < 4 + max 4 (min lim MAX_FRAME_LEN) \<and>
         (length buf < 4 \<or> length buf < 4 + from_le (take 4 buf))
     | Inl e \<Rightarrow> \<not> (\<exists>f next. wire_ok lim f \<and> prefix (frame_bytes f) (buf @ next)) \<and>
         (rest = buf \<or> rest = drop (4 + from_le (take 4 buf)) buf)"
  proof (cases r)
    case (Inl e)
    then show ?thesis using d decode_refuses decode_error_consumes by fastforce
  next
    case (Inr x)
    then show ?thesis
    proof (cases x)
      case None
      then show ?thesis using d Inr decode_waits by simp
    next
      case (Some f)
      then have "wire_ok lim f \<and> f = sized f \<and> buf = frame_bytes f @ rest" using d Inr decode_iff by simp
      moreover from this have "frame_encode f [] = Inr (frame_bytes f)"
        by (auto simp: wire_ok_def header_ok_def frame_encode_def validate_size_def)
      ultimately show ?thesis using Inr Some by simp
    qed
  qed
  then show ?thesis using d reads by blast
qed

text \<open>
  What a frame needs beyond what the encoder checks: a type that the decoder knows, hops to spare, and texts in UTF-8
  (which in the source every string is).
\<close>

definition frame_carried :: "wire_frame \<Rightarrow> bool" where
  "frame_carried f \<longleftrightarrow> known_type (fh_type (fr_header f)) \<and> fh_hop_count (fr_header f) < fh_hop_limit (fr_header f) \<and> strings_ok f"

lemma header_bytes_inj:
  assumes "header_bytes g = header_bytes h"
  shows "fh_type g = fh_type h \<and> fh_hop_count g = fh_hop_count h \<and> fh_hop_limit g = fh_hop_limit h"
  using assms by (simp add: header_bytes_def append_eq_append_conv)

lemma le_bytes_inj: "le_bytes k m = le_bytes k n \<Longrightarrow> m < 256 ^ k \<Longrightarrow> n < 256 ^ k \<Longrightarrow> m = n"
  by (metis from_le_bytes)

lemma strings_bytes_inj:
  assumes "strings_bytes f = strings_bytes g" and "length (strings_bytes f) < 2 ^ 32"
  shows "fr_path f = fr_path g \<and> fr_key f = fr_key g"
proof -
  have less: "length (fr_path f) < 256 ^ 4" "length (fr_path g) < 256 ^ 4" "length (fr_key f) < 256 ^ 4" "length (fr_key g) < 256 ^ 4"
    using assms length_strings_bytes [of f] length_strings_bytes [of g] by simp_all
  have "le_bytes 4 (length (fr_path f)) = le_bytes 4 (length (fr_path g))"
    using assms(1) by (simp add: strings_bytes_def append_eq_append_conv)
  then have len: "length (fr_path f) = length (fr_path g)" using less(1,2) le_bytes_inj by blast
  then have "le_bytes 4 (length (fr_key f)) = le_bytes 4 (length (fr_key g))" "str_bytes (fr_path f) = str_bytes (fr_path g)"
    using assms(1) by (simp_all add: strings_bytes_def append_eq_append_conv)
  moreover from this have klen: "length (fr_key f) = length (fr_key g)" using less(3,4) le_bytes_inj by blast
  moreover have "str_bytes (fr_key f) = str_bytes (fr_key g)"
    using assms(1) len klen by (simp add: strings_bytes_def append_eq_append_conv)
  ultimately show ?thesis by (metis bytes_str_bytes)
qed

lemma decoded_carried:
  assumes "decode_with_limit lim (frame_bytes f @ rest) = Some (Inr (Some g), rest')" and "body_size f \<le> MAX_FRAME_LEN"
  shows "frame_carried f"
proof -
  have g: "wire_ok lim g" "frame_bytes f @ rest = frame_bytes g @ rest'" using assms(1) by (simp_all add: decode_iff)
  then have "le_bytes 4 (body_size f) = le_bytes 4 (body_size g)" by (simp add: frame_bytes_split append_eq_append_conv)
  moreover have "body_size f < 256 ^ 4" "body_size g < 256 ^ 4" using assms(2) g(1) by (auto simp: MAX_FRAME_LEN_def wire_ok_def)
  ultimately have "body_size f = body_size g" using le_bytes_inj by blast
  then have "frame_bytes f = frame_bytes g" using g(2) by (simp add: append_eq_append_conv length_frame_bytes)
  then have b: "header_bytes (fr_header f) = header_bytes (fr_header g)" "strings_bytes f = strings_bytes g"
    by (simp_all add: frame_bytes_split append_eq_append_conv)
  have "length (strings_bytes f) < 2 ^ 32"
    using assms(2) by (simp add: length_strings_bytes body_size_def BODY_FIXED_OVERHEAD_def MAX_FRAME_LEN_def)
  then show ?thesis
    using header_bytes_inj [OF b(1)] strings_bytes_inj [OF b(2)] g(1)
    by (simp add: frame_carried_def wire_ok_def header_ok_def strings_ok_def)
qed

lemma stream_delivered:
  assumes sent: "fold_sum (\<lambda>buf f. negotiated_encode lim f buf) fs [] = Inr (concat chunks @ lost)"
    and typed: "\<forall>f \<in> set fs. frame_carried f"
  shows "\<exists>k rest. receive (decode_with_limit lim) [] chunks = Some (map sized (take k fs), None, rest) \<and>
    rest @ lost = concat (map frame_bytes (drop k fs)) \<and>
    (lost = [] \<longrightarrow> take k fs = fs \<and> rest = []) \<and>
    decode_eof lim rest = (if rest = [] then Some (Inr None, [])
      else Some (Inl (Truncated (length rest) (if 4 \<le> length rest then Some (4 + from_le (take 4 rest)) else None)), rest))"
proof -
  have good: "\<forall>f \<in> set fs. wire_ok lim f" and bytes: "concat chunks @ lost = concat (map frame_bytes fs)"
    using encode_all [OF sent] typed by (auto simp: wire_ok_def header_ok_def frame_carried_def)
  obtain k rest where k: "receive (decode_with_limit lim) [] chunks = Some (map sized (take k fs), None, rest)"
    "rest @ lost = concat (map frame_bytes (drop k fs))" "frames.awaits rest (drop k fs)"
    using frames.receive_stream [OF good, of "[]" chunks lost] bytes by (auto simp: frames.awaits_def)
  have "\<forall>f \<in> set (drop k fs). wire_ok lim f" using good by (auto dest: in_set_dropD)
  then have "decode_with_limit lim rest = Some (Inr None, rest)" by (rule frames.awaits_decode [OF k(3)])
  note eof = eof_waiting [OF this]
  have "lost = [] \<longrightarrow> take k fs = fs \<and> rest = []"
    using frames.awaits_complete [OF k(3)] k(2) by auto
  then show ?thesis using k(1,2) eof by (intro exI [of _ k] exI [of _ rest] conjI)
qed

text \<open>
  C34. Frames survive the stream. Of the frames that the encoder of a connection accepted, the decoder reads exactly those with
  a type it knows, fewer hops than their limit and texts in UTF-8, and refuses the others. If all frames are of
  this kind they are delivered in order, with their length filled in, whatever the chunks in which the bytes
  arrive and wherever the stream is cut: the reader delivers the complete ones and keeps the bytes of the next. When
  everything arrived, all frames are delivered. At the end of the stream a cut between frames is a clean end and a
  cut inside a frame is reported as truncation.
\<close>

theorem frames_survive_chunking:
  assumes "fold_sum (\<lambda>buf f. negotiated_encode lim f buf) fs [] = Inr (concat chunks @ lost)"
  shows "(\<forall>f \<in> set fs. \<forall>rest. decode_with_limit lim (frame_bytes f @ rest) = Some (Inr (Some (sized f)), rest) \<and> frame_carried f \<or>
       (\<exists>e rest'. decode_with_limit lim (frame_bytes f @ rest) = Some (Inl e, rest')) \<and> \<not> frame_carried f) \<and>
    ((\<forall>f \<in> set fs. frame_carried f) \<longrightarrow>
      (\<exists>k rest. receive (decode_with_limit lim) [] chunks = Some (map sized (take k fs), None, rest) \<and>
        rest @ lost = concat (map frame_bytes (drop k fs)) \<and>
        (lost = [] \<longrightarrow> take k fs = fs \<and> rest = []) \<and>
        decode_eof lim rest = (if rest = [] then Some (Inr None, [])
          else Some (Inl (Truncated (length rest) (if 4 \<le> length rest then Some (4 + from_le (take 4 rest)) else None)), rest))))"
proof -
  have ok: "body_size f \<le> min lim MAX_FRAME_LEN \<and> fh_version (fr_header f) = PROTOCOL_VERSION" if "f \<in> set fs" for f
    using encode_all [OF assms] that by blast
  have "decode_with_limit lim (frame_bytes f @ rest) = Some (Inr (Some (sized f)), rest) \<and> frame_carried f \<or>
      (\<exists>e rest'. decode_with_limit lim (frame_bytes f @ rest) = Some (Inl e, rest')) \<and> \<not> frame_carried f"
    if f: "f \<in> set fs" for f rest
  proof (cases "frame_carried f")
    case True
    then have "wire_ok lim f" using ok [OF f] by (simp add: frame_carried_def wire_ok_def header_ok_def)
    then show ?thesis using frames.dec_enc True by blast
  next
    case False
    let ?buf = "frame_bytes f @ rest"
    obtain r rest' where d: "decode_with_limit lim ?buf = Some (r, rest')" using decode_total by blast
    have "take 4 ?buf = le_bytes 4 (body_size f)" by (simp add: frame_bytes_split)
    then have n: "from_le (take 4 ?buf) = body_size f" using ok [OF f] by (simp add: from_le_bytes MAX_FRAME_LEN_def)
    have "r \<noteq> Inr None"
    proof
      assume "r = Inr None"
      then have "length ?buf < 4 \<or> length ?buf < 4 + from_le (take 4 ?buf)" using d decode_waits by blast
      then show False unfolding n by (simp add: length_frame_bytes)
    qed
    moreover have "r \<noteq> Inr (Some g)" for g using False d decoded_carried [of lim f rest g] ok [OF f] by auto
    ultimately obtain e where "r = Inl e" by (metis obj_sumE option.exhaust)
    then show ?thesis using False d by blast
  qed
  then show ?thesis using stream_delivered [OF assms] by blast
qed

definition example_tell :: wire_frame where
  "example_tell = tell_with_seq ''parrot://b/user/echo'' ''echo'' [1, 2, 3] 7"

theorem frames_survive_chunking_witness:
  "\<exists>bytes. frame_bytes example_tell = bytes \<and> length bytes = 59 \<and>
     receive (decode_with_limit MAX_FRAME_LEN) [] [take 30 bytes, drop 30 bytes] = Some ([sized example_tell], None, [])"
proof -
  let ?b = "frame_bytes example_tell"
  have len: "length ?b = 59" by code_simp
  have "body_size example_tell = 55" using len by (simp add: length_frame_bytes)
  then have sent: "fold_sum (\<lambda>buf f. negotiated_encode MAX_FRAME_LEN f buf) [example_tell] [] =
      Inr (concat [take 30 ?b, drop 30 ?b] @ [])"
    by (simp add: sum_bind_Inr encode_ok MAX_FRAME_LEN_def example_tell_def tell_with_seq_def frame_tell_def new_header_def Let_def)
  have typed: "\<forall>f \<in> set [example_tell]. frame_carried f" by code_simp
  obtain k rest where "receive (decode_with_limit MAX_FRAME_LEN) [] [take 30 ?b, drop 30 ?b] =
      Some (map sized (take k [example_tell]), None, rest)" "take k [example_tell] = [example_tell]" "rest = []"
    using frames_survive_chunking [OF sent] typed by blast
  then show ?thesis using len by (intro exI [of _ ?b]) (simp del: receive.simps)
qed

end
