(* ===== verification/Reorder.thy ===== *)
theory Reorder
  imports Frame Tables Acl
begin

text \<open>
  Delivery of one-way messages in the order of their sequence numbers: the sequence counter of a sender
  (\<^verbatim>\<open>ref_.rs\<close>) and the reorder workers of a receiver (\<^verbatim>\<open>ingress.rs\<close>).

  A worker keeps the sequence number it expects and a \<^verbatim>\<open>BTreeMap\<close> of frames that came early, here a list
  of pairs in key order. Sequence numbers are \<^typ>\<open>32 word\<close>s, with the wrapping arithmetic of the source.
  What a worker delivers is the result of its operations; the channel in front of it is a queue, so
  the frames of one source reach its worker in the order of arrival. The timers are events. Counters of the metrics are left out.
\<close>

section \<open>The sender\<close>

definition next_seq :: "string \<Rightarrow> (string \<times> 32 word) list \<Rightarrow> 32 word \<times> (string \<times> 32 word) list" where
  "next_seq node counters =
     (let c = (case map_of counters node of None \<Rightarrow> 0 | Some c \<Rightarrow> c) + 1;
          c = (if c = 0 then 1 else c)
      in (c, AList.update node c counters))"

section \<open>The worker of one source\<close>

record reorder =
  ro_expected :: "32 word"
  ro_buf :: "(32 word \<times> wire_frame) list"

definition reorder_new :: reorder where
  "reorder_new = \<lparr>ro_expected = 1, ro_buf = []\<rparr>"

fun btree_insert :: "'k :: linorder \<Rightarrow> 'v \<Rightarrow> ('k \<times> 'v) list \<Rightarrow> ('k \<times> 'v) list" where
  "btree_insert k v [] = [(k, v)]"
| "btree_insert k v ((l, w) # m) =
     (if k < l then (k, v) # (l, w) # m else if k = l then (k, v) # m else (l, w) # btree_insert k v m)"

text \<open>The loop that releases the frames that follow without a gap.\<close>

fun release :: "32 word \<Rightarrow> (32 word \<times> wire_frame) list \<Rightarrow> wire_frame list \<times> 32 word \<times> (32 word \<times> wire_frame) list" where
  "release e [] = ([], e, [])"
| "release e ((k, f) # m) =
     (if k = e then (case release (e + 1) m of (fs, e', m') \<Rightarrow> (f # fs, e', m')) else ([], e, (k, f) # m))"

text \<open>The smallest buffered frame and its successors are released, and the gap before it is skipped.\<close>

definition skip_gap :: "reorder \<Rightarrow> wire_frame list \<times> reorder" where
  "skip_gap s =
     (case ro_buf s of
        [] \<Rightarrow> ([], s)
      | (k, f) # m \<Rightarrow>
          (case release (k + 1) m of (fs, e, m') \<Rightarrow>
             (f # fs, s\<lparr>ro_expected := e, ro_buf := m'\<rparr>)))"

definition reorder_frame :: "nat \<Rightarrow> wire_frame \<Rightarrow> reorder \<Rightarrow> wire_frame list \<times> reorder" where
  "reorder_frame cap f s =
     (let n = fh_seq (fr_header f) in
      if n = ro_expected s then
        (case release (ro_expected s + 1) (ro_buf s) of (fs, e, m) \<Rightarrow>
           (f # fs, s\<lparr>ro_expected := e, ro_buf := m\<rparr>))
      else if n - ro_expected s > 0x7FFFFFFF then ([], s)
      else
        let s = s\<lparr>ro_buf := btree_insert n f (ro_buf s)\<rparr> in
        if length (ro_buf s) > cap then skip_gap s else ([], s))"

text \<open>
  What happens to a worker: a frame arrives, the gap timer fires (it runs only while frames are buffered), or
  the idle timer retires the worker (only while none is) and the next frame of the source starts a new one.
\<close>

datatype reorder_event = Arrive wire_frame | Gap_Timeout | Idle_Timeout

primrec reorder_step :: "nat \<Rightarrow> reorder_event \<Rightarrow> reorder \<Rightarrow> wire_frame list \<times> reorder" where
  "reorder_step cap (Arrive f) s = reorder_frame cap f s"
| "reorder_step cap Gap_Timeout s = (if ro_buf s \<noteq> [] then skip_gap s else ([], s))"
| "reorder_step cap Idle_Timeout s = (if ro_buf s = [] then ([], reorder_new) else ([], s))"

primrec reorder_run :: "nat \<Rightarrow> reorder_event list \<Rightarrow> reorder \<Rightarrow> wire_frame list \<times> reorder" where
  "reorder_run cap [] s = ([], s)"
| "reorder_run cap (ev # evs) s =
     (case reorder_step cap ev s of (fs, s') \<Rightarrow> case reorder_run cap evs s' of (gs, s'') \<Rightarrow> (fs @ gs, s''))"

section \<open>Which messages are reordered\<close>

definition target_node :: "string \<Rightarrow> string option" where
  "target_node path =
     Option.bind (strip_prefix ''parrot://'' path) (\<lambda>rest.
       if CHR ''/'' \<in> set rest then Some (takeWhile (\<lambda>c. c \<noteq> CHR ''/'') rest) else None)"

record reorder_table =
  rt_workers :: "(string \<times> reorder) list"
  rt_cancelled :: bool

text \<open>
  \<^verbatim>\<open>on_tell\<close> with the name of the node when it routes for others. A message without a sequence number, for another
  node or relayed is handed on at once; every other one goes to the worker of its source, which is created on demand.
\<close>

definition on_tell :: "nat \<Rightarrow> string option \<Rightarrow> wire_frame \<Rightarrow> string \<Rightarrow> reorder_table \<Rightarrow> wire_frame list \<times> reorder_table" where
  "on_tell cap me f from t =
     (if rt_cancelled t then ([], t)
      else let here = (case me of None \<Rightarrow> True
                       | Some me \<Rightarrow> (case target_node (fr_path f) of None \<Rightarrow> True | Some n \<Rightarrow> n = me)) in
      if fh_seq (fr_header f) = 0 \<or> \<not> here \<or> fh_hop_count (fr_header f) > 0 then ([f], t)
      else
        let w = (case map_of (rt_workers t) from of None \<Rightarrow> reorder_new | Some w \<Rightarrow> w) in
        case reorder_frame cap f w of (fs, w') \<Rightarrow> (fs, t\<lparr>rt_workers := AList.update from w' (rt_workers t)\<rparr>))"

section \<open>The buffer\<close>

abbreviation frame_seq :: "wire_frame \<Rightarrow> nat" where
  "frame_seq f \<equiv> unat (fh_seq (fr_header f))"

definition buf_ok :: "(32 word \<times> wire_frame) list \<Rightarrow> bool" where
  "buf_ok m \<longleftrightarrow> sorted_wrt (<) (map fst m) \<and> (\<forall>(k, f) \<in> set m. k = fh_seq (fr_header f))"

lemma buf_ok_simps [simp]:
  "buf_ok []"
  "buf_ok ((k, f) # m) \<longleftrightarrow> k = fh_seq (fr_header f) \<and> (\<forall>x \<in> set m. k < fst x) \<and> buf_ok m"
  by (auto simp: buf_ok_def)

lemma set_btree_insert:
  "sorted_wrt (<) (map fst m) \<Longrightarrow> set (btree_insert k v m) = insert (k, v) {x \<in> set m. fst x \<noteq> k}"
  by (induction k v m rule: btree_insert.induct) auto

lemma btree_insert_ok: "buf_ok m \<Longrightarrow> buf_ok (btree_insert (fh_seq (fr_header f)) f m)"
proof (induction m)
  case (Cons x m)
  obtain l g where [simp]: "x = (l, g)" by force
  have "sorted_wrt (<) (map fst m)" using Cons.prems by (simp add: buf_ok_def)
  then show ?case using Cons by (auto simp: set_btree_insert)
qed simp

lemma keys_distinct: "buf_ok m \<Longrightarrow> distinct (map fst m)"
  by (auto simp: buf_ok_def strict_sorted_iff)

text \<open>What is released is the front of the buffer.\<close>

lemma release_front: "release e m = (fs, e', m') \<Longrightarrow> map snd m = fs @ map snd m' \<and> length m' \<le> length m"
proof (induction e m arbitrary: fs e' m' rule: release.induct)
  case (2 e k f m)
  show ?case
  proof (cases "k = e")
    case True
    then show ?thesis using 2 by (cases "release (e + 1) m") fastforce
  qed (use 2 in auto)
qed simp

section \<open>Below the wrap of sequence numbers\<close>

definition half :: nat where
  "half = 2 ^ 31"

definition buffer_ahead :: "nat \<Rightarrow> (32 word \<times> wire_frame) list \<Rightarrow> bool" where
  "buffer_ahead e m \<longleftrightarrow> buf_ok m \<and> (\<forall>x \<in> set m. e < unat (fst x) \<and> unat (fst x) < half)"

text \<open>The released frames carry consecutive numbers from the expected one on.\<close>

lemma release_numbers:
  assumes "release e m = (fs, e', m')" and "buf_ok m" and "\<forall>x \<in> set m. unat e \<le> unat (fst x) \<and> unat (fst x) < half"
    and "unat e \<le> half"
  shows "map frame_seq fs = [unat e..<unat e'] \<and> unat e \<le> unat e' \<and> unat e' \<le> half \<and> buffer_ahead (unat e') m' \<and> set m' \<subseteq> set m"
  using assms
proof (induction e m arbitrary: fs e' m' rule: release.induct)
  case (1 e)
  then show ?case by (simp add: buffer_ahead_def)
next
  case (2 e k f m)
  show ?case
  proof (cases "k = e")
    case True
    obtain gs where r: "release (e + 1) m = (gs, e', m')" and fs: "fs = f # gs"
      using 2(2) True by (cases "release (e + 1) m") auto
    have e: "unat (e + 1) = Suc (unat e)"
      using 2(4) True by (auto simp: half_def unat_word_ariths)
    have later: "\<forall>x \<in> set m. k < fst x" "buf_ok m" "fh_seq (fr_header f) = e" using 2(3) True by auto
    have "map frame_seq gs = [unat (e + 1)..<unat e'] \<and> unat (e + 1) \<le> unat e' \<and> unat e' \<le> half \<and> buffer_ahead (unat e') m' \<and> set m' \<subseteq> set m"
      using 2(1) [OF True r later(2)] 2(4) later(1) True e by (auto simp: word_less_nat_alt Suc_le_eq)
    then show ?thesis using later(3) e by (auto simp: fs upt_conv_Cons)
  next
    case False
    then have out: "fs = []" "e' = e" "m' = (k, f) # m" using 2(2) by auto
    have "unat e < unat k" using False 2(4) by (auto simp: le_less word_unat_eq_iff)
    then show ?thesis using 2(3-5) out by (auto simp: buffer_ahead_def word_less_nat_alt)
  qed
qed

lemma ahead_distance:
  fixes n e :: "32 word"
  assumes "1 \<le> unat n" and "unat n < half" and "unat e \<le> half" and "1 \<le> unat e" and "n \<noteq> e"
  shows "n - e > 0x7FFFFFFF \<longleftrightarrow> unat n < unat e"
proof (cases "unat e \<le> unat n")
  case True
  then have "unat (n - e) = unat n - unat e" by (simp add: unat_sub word_le_nat_alt)
  then show ?thesis using True assms by (simp add: word_less_nat_alt half_def)
next
  case False
  then have "unat (n - e) = 2 ^ 32 - (unat e - unat n)"
    using assms by (subst unat_sub_if_size) (simp add: word_size word_le_nat_alt)
  then show ?thesis using False assms by (simp add: word_less_nat_alt half_def)
qed

definition worker_ok :: "nat \<Rightarrow> reorder \<Rightarrow> bool" where
  "worker_ok cap s \<longleftrightarrow> 1 \<le> unat (ro_expected s) \<and> unat (ro_expected s) \<le> half \<and>
     buffer_ahead (unat (ro_expected s)) (ro_buf s) \<and> length (ro_buf s) \<le> cap"

primrec arrived :: "reorder_event \<Rightarrow> wire_frame set" where
  "arrived (Arrive f) = {f}"
| "arrived Gap_Timeout = {}"
| "arrived Idle_Timeout = {}"

text \<open>Events in the life of one worker, with sequence numbers below the middle of their range.\<close>

primrec in_range :: "reorder_event \<Rightarrow> bool" where
  "in_range (Arrive f) \<longleftrightarrow> 1 \<le> frame_seq f \<and> frame_seq f < half"
| "in_range Gap_Timeout \<longleftrightarrow> True"
| "in_range Idle_Timeout \<longleftrightarrow> False"

lemma worker_ok_new: "worker_ok cap reorder_new"
  by (simp add: worker_ok_def reorder_new_def buffer_ahead_def half_def)

lemma skip_gap_front:
  "skip_gap s = (out, s') \<Longrightarrow> map snd (ro_buf s) = out @ map snd (ro_buf s') \<and>
     (ro_buf s = [] \<or> length (ro_buf s') < length (ro_buf s))"
  by (cases "ro_buf s") (auto simp: skip_gap_def split: prod.splits dest!: release_front)

lemma skip_gap_ok:
  assumes "skip_gap s = (out, s')" and "buffer_ahead e (ro_buf s)" and "ro_buf s \<noteq> []"
  shows "\<exists>k > e. map frame_seq out = [k..<unat (ro_expected s')] \<and> k < unat (ro_expected s') \<and>
    unat (ro_expected s') \<le> half \<and> buffer_ahead (unat (ro_expected s')) (ro_buf s')"
proof -
  obtain k f m where buf: "ro_buf s = (k, f) # m" using assms(3) by (cases "ro_buf s") auto
  obtain fs e' m' where r: "release (k + 1) m = (fs, e', m')" by (cases "release (k + 1) m")
  have out: "out = f # fs" "ro_expected s' = e'" "ro_buf s' = m'" using assms(1) buf r by (auto simp: skip_gap_def)
  have k: "e < unat k" "unat k < half" "k = fh_seq (fr_header f)" "buf_ok m" "\<forall>x \<in> set m. k < fst x \<and> unat (fst x) < half"
    using assms(2) buf by (auto simp: buffer_ahead_def)
  have k1: "unat (k + 1) = Suc (unat k)" using k(2) by (auto simp: half_def unat_word_ariths)
  have "map frame_seq fs = [unat (k + 1)..<unat e'] \<and> unat (k + 1) \<le> unat e' \<and> unat e' \<le> half \<and> buffer_ahead (unat e') m'"
    using release_numbers [OF r k(4)] k(2,5) k1 by (auto simp: word_less_nat_alt Suc_le_eq)
  then show ?thesis using k(1,3) k1 by (intro exI [of _ "unat k"]) (auto simp: out upt_conv_Cons)
qed

definition seqs :: "wire_frame list \<Rightarrow> nat set" where
  "seqs fs = frame_seq ` set fs"

lemma seqs_simps [simp]: "seqs [] = {}" "seqs (f # fs) = insert (frame_seq f) (seqs fs)" "seqs (fs @ gs) = seqs fs \<union> seqs gs"
  by (auto simp: seqs_def)

lemma in_seqs: "n \<in> seqs fs \<longleftrightarrow> (\<exists>g \<in> set fs. frame_seq g = n)"
  by (auto simp: seqs_def)

definition step_ok :: "nat \<Rightarrow> reorder \<Rightarrow> wire_frame set \<Rightarrow> wire_frame list \<Rightarrow> reorder \<Rightarrow> bool" where
  "step_ok cap s new out s' \<longleftrightarrow> worker_ok cap s' \<and> unat (ro_expected s) \<le> unat (ro_expected s') \<and>
     sorted_wrt (<) (map frame_seq out) \<and>
     seqs out \<subseteq> {unat (ro_expected s)..<unat (ro_expected s')} \<and>
     set (out @ map snd (ro_buf s')) \<subseteq> set (map snd (ro_buf s)) \<union> new \<and>
     seqs (map snd (ro_buf s)) \<union> {frame_seq f | f. f \<in> new \<and> unat (ro_expected s) \<le> frame_seq f}
       \<subseteq> seqs (out @ map snd (ro_buf s'))"

lemma gap_step_ok:
  assumes "worker_ok (Suc cap) s" and "skip_gap s = (out, s')" and "ro_buf s \<noteq> []"
  shows "step_ok cap s {} out s'"
proof -
  obtain k where k: "unat (ro_expected s) < k" "map frame_seq out = [k..<unat (ro_expected s')]" "k < unat (ro_expected s')"
    "unat (ro_expected s') \<le> half" "buffer_ahead (unat (ro_expected s')) (ro_buf s')"
    using skip_gap_ok [OF assms(2) _ assms(3)] assms(1) by (auto simp: worker_ok_def)
  have "seqs out = {k..<unat (ro_expected s')}" using arg_cong [OF k(2), of set] by (simp add: seqs_def)
  moreover have front: "map snd (ro_buf s) = out @ map snd (ro_buf s')" "length (ro_buf s') < length (ro_buf s)"
    using skip_gap_front [OF assms(2)] assms(3) by auto
  ultimately show ?thesis
    using k assms(1) unfolding step_ok_def front(1) by (auto simp: worker_ok_def)
qed

lemma btree_insert_frames:
  assumes "buf_ok m"
  shows "set (map snd (btree_insert (fh_seq (fr_header f)) f m)) \<subseteq> insert f (set (map snd m))"
    and "seqs (map snd (btree_insert (fh_seq (fr_header f)) f m)) = insert (frame_seq f) (seqs (map snd m))"
    and "length (btree_insert (fh_seq (fr_header f)) f m) \<le> Suc (length m)"
proof -
  have m: "set (btree_insert (fh_seq (fr_header f)) f m) = insert (fh_seq (fr_header f), f) {x \<in> set m. fst x \<noteq> fh_seq (fr_header f)}"
    using assms by (intro set_btree_insert) (simp add: buf_ok_def)
  have key: "fst x = fh_seq (fr_header (snd x))" if "x \<in> set m" for x
    using assms that by (auto simp: buf_ok_def)
  show "set (map snd (btree_insert (fh_seq (fr_header f)) f m)) \<subseteq> insert f (set (map snd m))"
    using m by auto
  show "seqs (map snd (btree_insert (fh_seq (fr_header f)) f m)) = insert (frame_seq f) (seqs (map snd m))"
    using m key by (auto simp: seqs_def image_iff) metis
  show "length (btree_insert (fh_seq (fr_header f)) f m) \<le> Suc (length m)"
    by (induction "fh_seq (fr_header f)" f m rule: btree_insert.induct) auto
qed

lemma frame_step_ok:
  assumes ok: "worker_ok cap s" and range: "1 \<le> frame_seq f" "frame_seq f < half" and step: "reorder_frame cap f s = (out, s')"
  shows "step_ok cap s {f} out s'"
proof -
  let ?n = "fh_seq (fr_header f)" and ?e = "ro_expected s"
  have e: "1 \<le> unat ?e" "unat ?e \<le> half" and buf: "buffer_ahead (unat ?e) (ro_buf s)" "length (ro_buf s) \<le> cap"
    using ok by (auto simp: worker_ok_def)
  consider "?n = ?e" | "?n \<noteq> ?e" "frame_seq f < unat ?e" | "?n \<noteq> ?e" "unat ?e < frame_seq f"
    by (meson linorder_neqE_nat word_unat_eq_iff)
  then show ?thesis
  proof cases
    case 1
    obtain fs e' m where r: "release (?e + 1) (ro_buf s) = (fs, e', m)" by (cases "release (?e + 1) (ro_buf s)")
    have out: "out = f # fs" "s' = s\<lparr>ro_expected := e', ro_buf := m\<rparr>" using step 1 r by (auto simp: reorder_frame_def)
    have e1: "unat (?e + 1) = Suc (unat ?e)" using range(2) 1 by (auto simp: half_def unat_word_ariths)
    have n: "map frame_seq fs = [unat (?e + 1)..<unat e']" "unat (?e + 1) \<le> unat e'" "unat e' \<le> half" "buffer_ahead (unat e') m"
      using release_numbers [OF r] buf(1) e1 range(2) 1 by (auto simp: buffer_ahead_def Suc_le_eq)
    have "seqs fs = {Suc (unat ?e)..<unat e'}" using arg_cong [OF n(1), of set] e1 by (simp add: seqs_def)
    moreover have front: "map snd (ro_buf s) = fs @ map snd m" "length m \<le> length (ro_buf s)" using release_front [OF r] by auto
    ultimately show ?thesis
      using n e1 1 e buf(2) unfolding step_ok_def front(1) out worker_ok_def by auto
  next
    case 2
    then have "out = []" "s' = s" using step ahead_distance [OF range e(2,1)] by (auto simp: reorder_frame_def)
    then show ?thesis using ok 2 by (auto simp: step_ok_def)
  next
    case 3
    let ?s = "s\<lparr>ro_buf := btree_insert ?n f (ro_buf s)\<rparr>"
    have out: "(out, s') = (if length (ro_buf ?s) > cap then skip_gap ?s else ([], ?s))"
      using step 3 ahead_distance [OF range e(2,1)] by (auto simp: reorder_frame_def Let_def)
    have bok: "buf_ok (ro_buf s)" using buf(1) by (simp add: buffer_ahead_def)
    note ins = btree_insert_frames [OF bok, of f]
    have "x = (?n, f) \<or> x \<in> set (ro_buf s)" if "x \<in> set (btree_insert ?n f (ro_buf s))" for x
      using set_btree_insert [of "ro_buf s" ?n f] bok that by (auto simp: buf_ok_def)
    then have "buffer_ahead (unat ?e) (btree_insert ?n f (ro_buf s))"
      using btree_insert_ok [OF bok] buf(1) 3 range(2) by (fastforce simp: buffer_ahead_def)
    then have ok1: "worker_ok (Suc cap) ?s" using e buf(2) ins(3) by (auto simp: worker_ok_def)
    show ?thesis
    proof (cases "length (ro_buf ?s) > cap")
      case True
      then have "ro_buf ?s \<noteq> []" by auto
      then have st: "step_ok cap ?s {} out s'" using gap_step_ok [OF ok1] out True by simp
      have "set (out @ map snd (ro_buf s')) \<subseteq> set (map snd (ro_buf ?s))" using st by (simp add: step_ok_def)
      also have "\<dots> \<subseteq> insert f (set (map snd (ro_buf s)))" using ins(1) by simp
      finally show ?thesis using st ins(2) by (simp add: step_ok_def) blast
    next
      case False
      then show ?thesis using out ok1 ins(1,2) by (auto simp: step_ok_def worker_ok_def)
    qed
  qed
qed

lemma event_step_ok:
  assumes "worker_ok cap s" and "in_range ev" and "reorder_step cap ev s = (out, s')"
  shows "step_ok cap s (arrived ev) out s'"
proof (cases ev)
  case (Arrive f)
  then show ?thesis using frame_step_ok assms by simp
next
  case Gap_Timeout
  have "worker_ok (Suc cap) s" using assms(1) by (simp add: worker_ok_def)
  then show ?thesis using gap_step_ok Gap_Timeout assms by (cases "ro_buf s = []") (auto simp: step_ok_def)
qed (use assms in simp)

section \<open>Runs\<close>

lemma reorder_run_append:
  "reorder_run cap (xs @ ys) s =
     (case reorder_run cap xs s of (fs, s1) \<Rightarrow> case reorder_run cap ys s1 of (gs, s2) \<Rightarrow> (fs @ gs, s2))"
  by (induction xs arbitrary: s) (auto split: prod.splits)

lemma run_ok:
  assumes "worker_ok cap s" and "list_all in_range evs" and "reorder_run cap evs s = (out, s')"
  shows "worker_ok cap s' \<and> unat (ro_expected s) \<le> unat (ro_expected s') \<and> sorted_wrt (<) (map frame_seq out) \<and>
    seqs out \<subseteq> {unat (ro_expected s)..<unat (ro_expected s')} \<and>
    set (out @ map snd (ro_buf s')) \<subseteq> set (map snd (ro_buf s)) \<union> \<Union> (arrived ` set evs) \<and>
    seqs (map snd (ro_buf s)) \<subseteq> seqs (out @ map snd (ro_buf s'))"
  using assms
proof (induction evs arbitrary: s out)
  case (Cons ev evs)
  obtain fs s1 gs where st: "reorder_step cap ev s = (fs, s1)" and r: "reorder_run cap evs s1 = (gs, s')" and out: "out = fs @ gs"
    using Cons.prems(3) by (auto split: prod.splits)
  have one: "step_ok cap s (arrived ev) fs s1" using event_step_ok Cons.prems(1,2) st by simp
  then have ok1: "worker_ok cap s1" by (simp add: step_ok_def)
  have "list_all in_range evs" using Cons.prems(2) by simp
  note IH = Cons.IH [OF ok1 this r]
  have "\<forall>f \<in> set fs. \<forall>g \<in> set gs. frame_seq f < frame_seq g"
    using one IH unfolding step_ok_def seqs_def by fastforce
  then have "sorted_wrt (<) (map frame_seq out)"
    using one IH by (simp add: out step_ok_def sorted_wrt_append)
  moreover have "set (out @ map snd (ro_buf s')) \<subseteq> set (map snd (ro_buf s)) \<union> \<Union> (arrived ` set (ev # evs))"
    using one IH unfolding step_ok_def out by (simp only: set_append list.set image_insert Union_insert) blast
  moreover have "seqs (map snd (ro_buf s)) \<subseteq> seqs (out @ map snd (ro_buf s'))"
    using one IH unfolding step_ok_def out by (simp only: seqs_simps) blast
  ultimately show ?case using one IH unfolding step_ok_def out by (auto simp: subset_iff)
qed simp

lemma not_lost:
  assumes "worker_ok cap s" and "list_all in_range (xs @ Arrive f # ys)" and "reorder_run cap (xs @ Arrive f # ys) s = (out, s')"
    and "unat (ro_expected (snd (reorder_run cap xs s))) \<le> frame_seq f"
  shows "frame_seq f \<in> seqs (out @ map snd (ro_buf s'))"
proof -
  obtain o1 s1 where 1: "reorder_run cap xs s = (o1, s1)" by force
  obtain o2 s2 where 2: "reorder_frame cap f s1 = (o2, s2)" by force
  obtain o3 where 3: "reorder_run cap ys s2 = (o3, s')" and out: "out = o1 @ o2 @ o3"
    using assms(3) 1 2 by (auto simp: reorder_run_append split: prod.splits)
  have ok1: "worker_ok cap s1" using run_ok [OF assms(1) _ 1] assms(2) by simp
  then have one: "step_ok cap s1 {f} o2 s2" using frame_step_ok [OF _ _ _ 2] assms(2) by simp
  then have "frame_seq f \<in> seqs (o2 @ map snd (ro_buf s2))" using assms(4) 1 by (auto simp: step_ok_def)
  moreover have "seqs (map snd (ro_buf s2)) \<subseteq> seqs (o3 @ map snd (ro_buf s'))"
    using run_ok [OF _ _ 3] one assms(2) by (simp add: step_ok_def)
  ultimately show ?thesis by (auto simp: out)
qed

lemma gaps_drain:
  "\<exists>n \<le> length (ro_buf s). \<exists>s'. reorder_run cap (replicate n Gap_Timeout) s = (map snd (ro_buf s), s') \<and> ro_buf s' = []"
proof (induction "length (ro_buf s)" arbitrary: s rule: less_induct)
  case less
  show ?case
  proof (cases "ro_buf s = []")
    case False
    obtain fs s1 where g: "skip_gap s = (fs, s1)" by force
    then have front: "map snd (ro_buf s) = fs @ map snd (ro_buf s1)" "length (ro_buf s1) < length (ro_buf s)"
      using skip_gap_front False by auto
    obtain n s' where n: "n \<le> length (ro_buf s1)" "reorder_run cap (replicate n Gap_Timeout) s1 = (map snd (ro_buf s1), s')" "ro_buf s' = []"
      using less [OF front(2)] by blast
    have "reorder_run cap (replicate (Suc n) Gap_Timeout) s = (map snd (ro_buf s), s')"
      using False g n(2) front(1) by simp
    then show ?thesis using n(1,3) front(2) by (intro exI [of _ "Suc n"]) auto
  qed simp
qed

section \<open>A complete stream\<close>

text \<open>A sender numbers its messages to one node as it sends them.\<close>

primrec number_frames :: "string \<Rightarrow> (string \<times> 32 word) list \<Rightarrow> wire_frame list \<Rightarrow> wire_frame list" where
  "number_frames node cs [] = []"
| "number_frames node cs (f # fs) =
     (case next_seq node cs of (n, cs') \<Rightarrow>
        f\<lparr>fr_header := (fr_header f)\<lparr>fh_seq := n\<rparr>\<rparr> # number_frames node cs' fs)"

lemma numbered:
  "(case map_of cs node of None \<Rightarrow> 0 | Some c \<Rightarrow> c) = word_of_nat k \<Longrightarrow> k + length fs < 2 ^ 32 \<Longrightarrow>
     map frame_seq (number_frames node cs fs) = [Suc k..<Suc (k + length fs)]"
proof (induction fs arbitrary: k cs)
  case (Cons f fs)
  let ?n = "word_of_nat (Suc k) :: 32 word"
  have n: "unat ?n = Suc k" using Cons.prems(2) by (subst unat_of_nat) simp
  then have "?n \<noteq> 0" by (metis nat.distinct(1) unat_0)
  then have "next_seq node cs = (?n, AList.update node ?n cs)"
    using Cons.prems(1) by (simp add: next_seq_def Let_def add.commute)
  moreover have "map frame_seq (number_frames node (AList.update node ?n cs) fs) = [Suc (Suc k)..<Suc (Suc k + length fs)]"
    using Cons.prems(2) by (intro Cons.IH) (simp_all add: map_of_update)
  ultimately show ?case using n by (simp add: upt_conv_Cons del: upt_Suc)
qed simp

lemma frame_in_order:
  assumes ok: "worker_ok cap s" and range: "1 \<le> frame_seq f" "frame_seq f < half" and step: "reorder_frame cap f s = (out, s')"
    and new: "unat (ro_expected s) \<le> frame_seq f"
    and fits: "fh_seq (fr_header f) = ro_expected s \<or> length (btree_insert (fh_seq (fr_header f)) f (ro_buf s)) \<le> cap"
  shows "map frame_seq out = [unat (ro_expected s)..<unat (ro_expected s')]"
proof (cases "fh_seq (fr_header f) = ro_expected s")
  case True
  obtain fs e' m where r: "release (ro_expected s + 1) (ro_buf s) = (fs, e', m)" by (cases "release (ro_expected s + 1) (ro_buf s)")
  have e1: "unat (ro_expected s + 1) = Suc (unat (ro_expected s))" using range(2) True by (auto simp: half_def unat_word_ariths)
  have "map frame_seq fs = [unat (ro_expected s + 1)..<unat e']" "unat (ro_expected s + 1) \<le> unat e'"
    using release_numbers [OF r] ok e1 range(2) True by (auto simp: worker_ok_def buffer_ahead_def Suc_le_eq)
  then show ?thesis using step True r e1 by (auto simp: reorder_frame_def upt_conv_Cons)
next
  case False
  then have "out = []" "ro_expected s' = ro_expected s"
    using step fits ahead_distance [OF range, of "ro_expected s"] ok new by (auto simp: reorder_frame_def worker_ok_def Let_def)
  then show ?thesis by simp
qed

text \<open>The buffer of early frames is bounded by how far a frame can be overtaken.\<close>

lemma early_fit:
  assumes "buf_ok m" and "seqs (map snd m) \<subseteq> {e<..e + cap}"
  shows "length m \<le> cap"
proof -
  let ?keys = "map unat (map fst m)"
  have "set ?keys \<subseteq> {e<..e + cap}" using assms by (fastforce simp: buf_ok_def seqs_def)
  then have "card (set ?keys) \<le> cap" using card_mono [of "{e<..e + cap}" "set ?keys"] by simp
  moreover have "distinct ?keys"
    unfolding distinct_map [of unat] using keys_distinct [OF assms(1)] by (simp add: inj_on_def word_unat_eq_iff)
  then have "card (set ?keys) = length ?keys" by (rule distinct_card)
  ultimately show ?thesis by simp
qed

definition in_order :: "nat \<Rightarrow> wire_frame list \<Rightarrow> bool" where
  "in_order cap xs \<longleftrightarrow> (\<exists>out s. reorder_run cap (map Arrive xs) reorder_new = (out, s) \<and> worker_ok cap s \<and>
     map frame_seq out = [1..<unat (ro_expected s)] \<and>
     seqs xs = {1..<unat (ro_expected s)} \<union> seqs (map snd (ro_buf s)))"

lemma in_order_step:
  assumes inv: "in_order cap xs" and x: "1 \<le> frame_seq x" "frame_seq x < half" "frame_seq x \<notin> seqs xs"
    and bound: "\<And>e. e < frame_seq x \<Longrightarrow> 1 \<le> e \<Longrightarrow> e \<notin> seqs xs \<Longrightarrow> \<forall>y \<in> seqs xs \<union> {frame_seq x}. y \<le> e + cap"
  shows "in_order cap (xs @ [x])"
proof -
  obtain out s where r: "reorder_run cap (map Arrive xs) reorder_new = (out, s)" and ok: "worker_ok cap s"
    and out: "map frame_seq out = [1..<unat (ro_expected s)]"
    and seen: "seqs xs = {1..<unat (ro_expected s)} \<union> seqs (map snd (ro_buf s))"
    using inv by (auto simp: in_order_def)
  obtain fs s' where st: "reorder_frame cap x s = (fs, s')" by force
  let ?e = "unat (ro_expected s)" and ?n = "fh_seq (fr_header x)"
  have bok: "buf_ok (ro_buf s)" and e: "1 \<le> ?e" and later: "\<forall>k \<in> seqs (map snd (ro_buf s)). ?e < k"
    using ok by (fastforce simp: worker_ok_def buffer_ahead_def seqs_def buf_ok_def)+
  have new: "?e \<le> frame_seq x" using x seen by (auto simp: not_le)
  have "length (btree_insert ?n x (ro_buf s)) \<le> cap" if "?n \<noteq> ro_expected s"
  proof (rule early_fit)
    have less: "?e < frame_seq x" using new that by (auto simp: le_less word_unat_eq_iff)
    moreover have "?e \<notin> seqs xs" using seen later by auto
    ultimately have "\<forall>y \<in> seqs xs \<union> {frame_seq x}. y \<le> ?e + cap" using bound e by blast
    then show "seqs (map snd (btree_insert ?n x (ro_buf s))) \<subseteq> {?e<..?e + cap}"
      using btree_insert_frames(2) [OF bok, of x] less later seen by auto
  qed (rule btree_insert_ok [OF bok])
  then have fs: "map frame_seq fs = [?e..<unat (ro_expected s')]" using frame_in_order [OF ok x(1,2) st new] by blast
  have one: "step_ok cap s {x} fs s'" by (rule frame_step_ok [OF ok x(1,2) st])
  have "seqs fs = {?e..<unat (ro_expected s')}" using arg_cong [OF fs, of set] by (simp add: seqs_def)
  moreover have "seqs fs \<union> seqs (map snd (ro_buf s')) = insert (frame_seq x) (seqs (map snd (ro_buf s)))"
  proof
    have "frame_seq ` set (fs @ map snd (ro_buf s')) \<subseteq> frame_seq ` (set (map snd (ro_buf s)) \<union> {x})"
      using one unfolding step_ok_def by (intro image_mono) blast
    then show "seqs fs \<union> seqs (map snd (ro_buf s')) \<subseteq> insert (frame_seq x) (seqs (map snd (ro_buf s)))"
      by (simp add: seqs_def image_Un)
    show "insert (frame_seq x) (seqs (map snd (ro_buf s))) \<subseteq> seqs fs \<union> seqs (map snd (ro_buf s'))"
      using one new by (auto simp: step_ok_def)
  qed
  moreover have le: "?e \<le> unat (ro_expected s')" using one by (simp add: step_ok_def)
  ultimately have "seqs (xs @ [x]) = {1..<unat (ro_expected s')} \<union> seqs (map snd (ro_buf s'))"
    using seen e ivl_disj_un_two(3) [OF e le] by auto
  moreover have "map frame_seq (out @ fs) = [1..<unat (ro_expected s')]"
    using out fs upt_add_eq_append [OF e, of "unat (ro_expected s') - ?e"] le by simp
  ultimately show ?thesis using r st one by (auto simp: in_order_def reorder_run_append step_ok_def)
qed

lemma seqs_range: "seqs arr = {1..n} \<Longrightarrow> f \<in> set arr \<Longrightarrow> 1 \<le> frame_seq f \<and> frame_seq f \<le> n"
  unfolding seqs_def by (metis atLeastAtMost_iff imageI)

lemma in_order_prefix:
  assumes "distinct (map frame_seq arr)" and all: "seqs arr = {1..n}" and "n < half"
    and near: "\<forall>i j. i < j \<and> j < length arr \<longrightarrow> frame_seq (arr ! i) \<le> frame_seq (arr ! j) + cap"
  shows "k \<le> length arr \<Longrightarrow> in_order cap (take k arr)"
proof (induction k)
  case 0
  show ?case using worker_ok_new by (simp add: in_order_def reorder_new_def)
next
  case (Suc k)
  let ?x = "arr ! k"
  have k: "k < length arr" using Suc.prems by simp
  then have "frame_seq ?x \<in> {1..n}" unfolding all [symmetric] by (simp add: seqs_def)
  moreover have fresh: "frame_seq ?x \<notin> seqs (take k arr)"
    using assms(1) k by (auto simp: seqs_def in_set_conv_nth distinct_conv_nth)
  moreover have "\<forall>y \<in> seqs (take k arr) \<union> {frame_seq ?x}. y \<le> e + cap"
    if "e < frame_seq ?x" "1 \<le> e" "e \<notin> seqs (take k arr)" for e
  proof
    have "e \<in> seqs arr" using that calculation(1) unfolding all by simp
    then obtain j where j: "j < length arr" "e = frame_seq (arr ! j)" by (auto simp: seqs_def in_set_conv_nth)
    moreover have "arr ! j \<in> set (take k arr)" if "j < k" using that j(1) by (auto simp: in_set_conv_nth)
    then have "\<not> j < k" using that(3) j(2) by (auto simp: seqs_def)
    ultimately have "k < j" using that(1) by (cases "j = k") auto
    fix y assume "y \<in> seqs (take k arr) \<union> {frame_seq ?x}"
    then have "y \<in> seqs (take (Suc k) arr)" using k by (auto simp: take_Suc_conv_app_nth)
    then obtain f where "f \<in> set (take (Suc k) arr)" "y = frame_seq f" by (auto simp: seqs_def)
    then obtain i where "i \<le> k" "y = frame_seq (arr ! i)" by (auto simp: in_set_conv_nth less_Suc_eq_le)
    then show "y \<le> e + cap" using near j \<open>k < j\<close> by simp
  qed
  ultimately show ?case
    using in_order_step [OF Suc.IH, of ?x] k assms(3) by (auto simp: take_Suc_conv_app_nth)
qed

text \<open>
  C33. Reordering restores the order of sending. If a sender numbers fewer than \<open>2\<^sup>3\<^sup>1\<close> messages to a node and all of
  them reach a new worker there, in any order in which no message is overtaken by one that is more than the
  capacity of the buffer ahead of it, then the worker delivers every message exactly once and in the order of
  sending, without waiting for a timer, and keeps nothing back.
\<close>

theorem reorder_restores_order:
  assumes sent: "mset arr = mset (number_frames node [] fs)" and few: "length fs < half"
    and near: "\<forall>i j. i < j \<and> j < length arr \<longrightarrow> frame_seq (arr ! i) \<le> frame_seq (arr ! j) + cap"
  shows "reorder_run cap (map Arrive arr) reorder_new =
    (number_frames node [] fs, \<lparr>ro_expected = word_of_nat (Suc (length fs)), ro_buf = []\<rparr>)"
proof -
  let ?num = "number_frames node [] fs" and ?n = "length fs"
  have num: "map frame_seq ?num = [1..<Suc ?n]" using numbered [of "[]" node 0 fs] few by (simp add: half_def)
  have same: "mset (map frame_seq arr) = mset [1..<Suc ?n]" using sent num by (metis mset_map)
  have dist: "distinct (map frame_seq arr)" using mset_eq_imp_distinct_iff [OF same] distinct_upt by blast
  have all: "seqs arr = {1..?n}"
    using mset_eq_setD [OF same] by (simp add: seqs_def atLeastLessThanSuc_atLeastAtMost del: upt_Suc)
  obtain out s where r: "reorder_run cap (map Arrive arr) reorder_new = (out, s)" and ok: "worker_ok cap s"
    and out: "map frame_seq out = [1..<unat (ro_expected s)]"
    and seen: "{1..?n} = {1..<unat (ro_expected s)} \<union> seqs (map snd (ro_buf s))"
    using in_order_prefix [OF dist all few near, of "length arr"] all by (auto simp: in_order_def)
  let ?e = "unat (ro_expected s)"
  have later: "\<forall>k \<in> seqs (map snd (ro_buf s)). ?e < k" and e: "1 \<le> ?e"
    using ok by (fastforce simp: worker_ok_def buffer_ahead_def seqs_def buf_ok_def)+
  have "seqs (map snd (ro_buf s)) = {}"
  proof (rule ccontr)
    assume "seqs (map snd (ro_buf s)) \<noteq> {}"
    then obtain k where "k \<in> seqs (map snd (ro_buf s))" by blast
    then have "?e < k" "k \<in> {1..?n}" using later seen by blast+
    then have "?e \<in> {1..?n}" using e by simp
    then have "?e \<in> seqs (map snd (ro_buf s))" unfolding seen by simp
    then show False using later by blast
  qed
  then have buf: "ro_buf s = []" and "{1..?n} = {1..<?e}" using seen by (simp_all add: seqs_def)
  from arg_cong [OF this(2), of card] e have e_eq: "?e = Suc ?n" by simp
  have "list_all in_range (map Arrive arr)"
    using few seqs_range [OF all] by (auto simp: list_all_iff intro: le_less_trans)
  then have "set out \<subseteq> set arr" using run_ok [OF worker_ok_new _ r] by (auto simp: reorder_new_def)
  then have "set out \<subseteq> set ?num" using mset_eq_setD [OF sent] by simp
  moreover have "inj_on frame_seq (set ?num)" using num distinct_map [of frame_seq ?num] by (metis distinct_upt)
  ultimately have "out = ?num"
    using out num e_eq by (intro map_inj_on [of frame_seq]) (simp_all add: Un_absorb1 del: upt_Suc)
  moreover have "ro_expected s = word_of_nat (Suc ?n)" by (simp only: e_eq [symmetric]) simp
  ultimately show ?thesis using r buf by (cases s) simp
qed

definition example_sent :: "wire_frame list" where
  "example_sent = number_frames ''b'' [] [frame_tell ''/a'' ''k'' [1], frame_tell ''/a'' ''k'' [2], frame_tell ''/a'' ''k'' [3]]"

theorem reorder_restores_order_witness:
  "reorder_run 2 (map Arrive [example_sent ! 2, example_sent ! 0, example_sent ! 1]) reorder_new =
     (example_sent, \<lparr>ro_expected = 4, ro_buf = []\<rparr>)"
proof -
  let ?arr = "[example_sent ! 2, example_sent ! 0, example_sent ! 1]"
  have sent: "example_sent = [example_sent ! 0, example_sent ! 1, example_sent ! 2]" by code_simp
  have "mset ?arr = mset example_sent" by (subst (3) sent) simp
  moreover have "map frame_seq ?arr = [3, 1, 2]" by code_simp
  then have s: "frame_seq (?arr ! 0) = 3" "frame_seq (?arr ! 1) = 1" "frame_seq (?arr ! 2) = 2" by simp_all
  have "frame_seq (?arr ! i) \<le> frame_seq (?arr ! j) + 2" if "i < j \<and> j < length ?arr" for i j
  proof -
    from that have "i \<in> {0, 1} \<and> j \<in> {1, 2}" by auto
    then show ?thesis using s by auto
  qed
  ultimately show ?thesis
    using reorder_restores_order [of ?arr "''b''" "[frame_tell ''/a'' ''k'' [1], frame_tell ''/a'' ''k'' [2], frame_tell ''/a'' ''k'' [3]]" 2]
    by (simp add: example_sent_def half_def)
qed

text \<open>
  C17. A reorder worker is safe and does not block. Whatever frames with sequence numbers below \<open>2\<^sup>3\<^sup>1\<close> arrive and
  whenever the gap timer fires: delivered sequence numbers strictly increase, so nothing is delivered twice or
  backwards; only frames that arrived are delivered; the buffer stays within its capacity; a frame
  whose number had not been passed when it arrived is delivered or still buffered; and from there at most
  as many firings of the gap timer as there are buffered frames deliver all of them in order.
\<close>

theorem reorder_safe:
  assumes run: "reorder_run cap evs reorder_new = (out, s)" and range: "list_all in_range evs"
  shows "sorted_wrt (<) (map frame_seq out) \<and> set out \<subseteq> \<Union> (arrived ` set evs) \<and> length (ro_buf s) \<le> cap \<and>
    (\<forall>xs f ys. evs = xs @ Arrive f # ys \<and> unat (ro_expected (snd (reorder_run cap xs reorder_new))) \<le> frame_seq f \<longrightarrow>
      (\<exists>g \<in> set (out @ map snd (ro_buf s)). frame_seq g = frame_seq f)) \<and>
    (\<exists>n \<le> length (ro_buf s). \<exists>s'. reorder_run cap (replicate n Gap_Timeout) s = (map snd (ro_buf s), s') \<and> ro_buf s' = [])"
proof (intro conjI)
  note ok = run_ok [OF worker_ok_new range run]
  show "sorted_wrt (<) (map frame_seq out)" "length (ro_buf s) \<le> cap" using ok by (simp_all add: worker_ok_def)
  show "set out \<subseteq> \<Union> (arrived ` set evs)" using ok by (auto simp: reorder_new_def)
  show "\<forall>xs f ys. evs = xs @ Arrive f # ys \<and> unat (ro_expected (snd (reorder_run cap xs reorder_new))) \<le> frame_seq f \<longrightarrow>
      (\<exists>g \<in> set (out @ map snd (ro_buf s)). frame_seq g = frame_seq f)"
  proof (intro allI impI)
    fix xs f ys
    assume a: "evs = xs @ Arrive f # ys \<and> unat (ro_expected (snd (reorder_run cap xs reorder_new))) \<le> frame_seq f"
    then have "frame_seq f \<in> seqs (out @ map snd (ro_buf s))"
      using not_lost [OF worker_ok_new [of cap], of xs f ys out s] run range by blast
    then show "\<exists>g \<in> set (out @ map snd (ro_buf s)). frame_seq g = frame_seq f"
      by (simp only: in_seqs)
  qed
qed (rule gaps_drain)

theorem reorder_safe_witness:
  "sorted_wrt (<) (map frame_seq (fst (reorder_run 2 [Arrive (example_sent ! 1), Gap_Timeout, Arrive (example_sent ! 0)] reorder_new)))"
proof -
  let ?evs = "[Arrive (example_sent ! 1), Gap_Timeout, Arrive (example_sent ! 0)]"
  have "list_all in_range ?evs" by (simp add: half_def) code_simp
  then show ?thesis using reorder_safe [of 2 ?evs] by (metis prod.collapse)
qed

section \<open>At the wrap\<close>

text \<open>
  Beyond \<open>2\<^sup>3\<^sup>1\<close> the worker does not keep these promises. A worker that was retired after idling starts again with
  the expected number 1, from where every number above \<open>2\<^sup>3\<^sup>1\<close> counts as late: the messages are dropped.
\<close>

lemma late_after_idle:
  assumes "2 ^ 31 < frame_seq f"
  shows "reorder_frame cap f reorder_new = ([], reorder_new)"
proof -
  have "(1 :: 32 word) \<le> fh_seq (fr_header f)" using assms by (simp add: word_le_nat_alt)
  then have "unat (fh_seq (fr_header f) - 1) = frame_seq f - 1" by (simp add: unat_sub)
  then have "fh_seq (fr_header f) - 1 > 0x7FFFFFFF" using assms by (simp add: word_less_nat_alt)
  moreover have "fh_seq (fr_header f) \<noteq> 1" using assms by auto
  ultimately show ?thesis by (simp add: reorder_frame_def reorder_new_def)
qed

text \<open>
  The buffer is ordered by the plain number, not by the distance from the expected one. When the counter wraps,
  a later message with a small number is released before an earlier one with a large number.
\<close>

definition wrap_tell :: "32 word \<Rightarrow> wire_frame" where
  "wrap_tell n = tell_with_seq ''/a'' ''k'' [] n"

lemma wrap_reverses_order:
  "map (\<lambda>f. fh_seq (fr_header f)) (fst (reorder_run 1024
     [Arrive (wrap_tell 1), Arrive (wrap_tell (- 1)), Arrive (wrap_tell (- 2)), Gap_Timeout, Gap_Timeout]
     \<lparr>ro_expected = - 2, ro_buf = []\<rparr>)) = [- 2, 1, - 1]"
  by code_simp

end
