(* ===== verification/Receptionist.thy ===== *)
theory Receptionist
  imports Acl
begin

text \<open>
  Service discovery: the receptionist table with its subscriptions and its facade (\<^verbatim>\<open>receptionist.rs\<close>), the
  exchange of snapshots between nodes (\<^verbatim>\<open>system/receptionist.rs\<close>), the qualification of paths
  (\<^verbatim>\<open>actor_path.rs\<close>), and the registration scope of an actor generation
  (\<^verbatim>\<open>crates/parrot-api/src/receptionist_scope.rs\<close>).

  A hash map is an association list in its iteration order. The channel of a subscription is the list of the
  events sent into it with the number the consumer has taken; sending fails when the consumer is gone or when
  as many events wait as the channel has room for. Channels are kept in the order of their creation and the
  table refers to them by position. The largest capacity of a channel is the argument \<open>cap_max\<close>. A scope is a
  number. Deferred wake-ups, locks and panics of consumer callbacks are left out.
\<close>

section \<open>Paths\<close>

definition canonical :: "string \<Rightarrow> bool" where
  "canonical p \<longleftrightarrow> length p \<le> 4096 \<and> prefix ''/'' p \<and>
     \<not> (has_control p \<or> CHR ''?'' \<in> set p \<or> CHR ''#'' \<in> set p) \<and>
     (p = ''/'' \<or> (\<forall>s \<in> set (segments (tl p)). s \<noteq> [] \<and> s \<noteq> ''.'' \<and> s \<noteq> ''..''))"

definition native_actix :: "string \<Rightarrow> bool" where
  "native_actix p \<longleftrightarrow> prefix ''actix://'' p \<and> length p > 8 \<and> canonical (drop 7 p)"

definition split_once :: "string \<Rightarrow> (string \<times> string) option" where
  "split_once s =
     (if CHR ''/'' \<in> set s then Some (takeWhile (\<lambda>c. c \<noteq> CHR ''/'') s, tl (dropWhile (\<lambda>c. c \<noteq> CHR ''/'') s)) else None)"

definition path_split :: "string \<Rightarrow> (string \<times> string) option" where
  "path_split p =
     (if length p > 4096 then None
      else case strip_prefix ''parrot://'' p of
        None \<Rightarrow> None
      | Some rest \<Rightarrow>
          (case split_once rest of
             None \<Rightarrow> None
           | Some (node, _) \<Rightarrow>
               if \<not> validate_node_id node then None
               else let tail = drop (length node) rest in
                 case strip_prefix ''/'' tail of
                   Some native \<Rightarrow>
                     if native_actix native then Some (node, native)
                     else if tail \<noteq> ''/'' \<and> canonical tail then Some (node, tail) else None
                 | None \<Rightarrow> if tail \<noteq> ''/'' \<and> canonical tail then Some (node, tail) else None))"

definition path_qualify :: "string \<Rightarrow> string \<Rightarrow> string option" where
  "path_qualify node p =
     (if length p > 4096 then None
      else
        let q = (if native_actix p then ''parrot://'' @ node @ ''/'' @ p
                 else if p \<noteq> ''/'' \<and> canonical p then ''parrot://'' @ node @ p
                 else p)
        in case path_split q of
             None \<Rightarrow> None
           | Some (n, _) \<Rightarrow> if n = node then Some q else None)"

section \<open>The table\<close>

record rec_entry =
  re_key :: string
  re_path :: string
  re_node :: string

datatype rec_event = Registered string string | Unregistered string string

primrec event_key :: "rec_event \<Rightarrow> string" where
  "event_key (Registered k p) = k"
| "event_key (Unregistered k p) = k"

record channel =
  ch_room :: nat
  ch_sent :: "rec_event list"
  ch_taken :: nat
  ch_open :: bool

definition try_send :: "rec_event \<Rightarrow> channel \<Rightarrow> channel option" where
  "try_send ev c =
     (if \<not> ch_open c \<or> length (ch_sent c) - ch_taken c \<ge> ch_room c then None
      else Some (c\<lparr>ch_sent := ch_sent c @ [ev]\<rparr>))"

record receptionist =
  rc_entries :: "(string \<times> rec_entry list) list"
  rc_subscribers :: "(string \<times> nat list) list"
  rc_owners :: "((string \<times> string) \<times> nat) list"
  rc_channels :: "channel list"

definition receptionist_new :: receptionist where
  "receptionist_new = \<lparr>rc_entries = [], rc_subscribers = [], rc_owners = [], rc_channels = []\<rparr>"

definition entries_of :: "string \<Rightarrow> receptionist \<Rightarrow> rec_entry list" where
  "entries_of k r = (case map_of (rc_entries r) k of None \<Rightarrow> [] | Some es \<Rightarrow> es)"

definition subscribers_of :: "string \<Rightarrow> receptionist \<Rightarrow> nat list" where
  "subscribers_of k r = (case map_of (rc_subscribers r) k of None \<Rightarrow> [] | Some cs \<Rightarrow> cs)"

definition rec_register :: "string \<Rightarrow> string \<Rightarrow> string \<Rightarrow> receptionist \<Rightarrow> rec_event \<times> receptionist" where
  "rec_register node key path r =
     (let e = \<lparr>re_key = key, re_path = path, re_node = node\<rparr>;
          es = entries_of key r
      in (Registered key path,
          r\<lparr>rc_owners := AList.delete (key, path) (rc_owners r),
            rc_entries := AList.update key (if e \<in> set es then es else es @ [e]) (rc_entries r)\<rparr>))"

definition rec_deregister :: "string \<Rightarrow> string \<Rightarrow> receptionist \<Rightarrow> rec_event \<times> receptionist" where
  "rec_deregister key path r =
     (Unregistered key path,
      r\<lparr>rc_owners := AList.delete (key, path) (rc_owners r),
        rc_entries :=
          (case map_of (rc_entries r) key of
             None \<Rightarrow> rc_entries r
           | Some es \<Rightarrow>
               let es = filter (\<lambda>e. re_path e \<noteq> path) es in
               if es = [] then AList.delete key (rc_entries r) else AList.update key es (rc_entries r))\<rparr>)"

definition drop_empty :: "('k \<times> 'v list) list \<Rightarrow> ('k \<times> 'v list) list" where
  "drop_empty m = filter (\<lambda>(k, vs). vs \<noteq> []) m"

text \<open>Sending the snapshot of a new subscription panics if it does not fit, which its capacity excludes.\<close>

primrec send_snapshot :: "rec_event list \<Rightarrow> channel \<Rightarrow> channel option" where
  "send_snapshot [] c = Some c"
| "send_snapshot (ev # evs) c = Option.bind (try_send ev c) (send_snapshot evs)"

definition subscribe_deferred :: "nat \<Rightarrow> string \<Rightarrow> nat \<Rightarrow> receptionist \<Rightarrow> (nat \<times> receptionist) option" where
  "subscribe_deferred cap_max key buf r =
     (let subs = drop_empty (map (\<lambda>(k, cs). (k, filter (\<lambda>c. ch_open (rc_channels r ! c)) cs)) (rc_subscribers r));
          snapshot = entries_of key r;
          room = min (saturating_add (length snapshot) (max buf 1)) cap_max;
          c = length (rc_channels r)
      in map_option (\<lambda>chan. (c, r\<lparr>
             rc_subscribers := AList.update key ((case map_of subs key of None \<Rightarrow> [] | Some cs \<Rightarrow> cs) @ [c]) subs,
             rc_channels := rc_channels r @ [chan]\<rparr>))
           (send_snapshot (map (\<lambda>e. Registered (re_key e) (re_path e)) snapshot)
              \<lparr>ch_room = room, ch_sent = [], ch_taken = 0, ch_open = True\<rparr>))"

text \<open>The subscribers that took an event stay, with their channels; the others are retired.\<close>

fun offer :: "rec_event \<Rightarrow> nat list \<Rightarrow> channel list \<Rightarrow> nat list \<times> channel list" where
  "offer ev [] chans = ([], chans)"
| "offer ev (c # cs) chans =
     (case try_send ev (chans ! c) of
        None \<Rightarrow> offer ev cs chans
      | Some chan \<Rightarrow> (case offer ev cs (chans[c := chan]) of (kept, chans') \<Rightarrow> (c # kept, chans')))"

definition rec_broadcast :: "rec_event \<Rightarrow> receptionist \<Rightarrow> receptionist" where
  "rec_broadcast ev r =
     (case map_of (rc_subscribers r) (event_key ev) of
        None \<Rightarrow> r
      | Some cs \<Rightarrow>
          (case offer ev cs (rc_channels r) of (kept, chans) \<Rightarrow>
             r\<lparr>rc_channels := chans,
               rc_subscribers := (if kept = [] then AList.delete (event_key ev) (rc_subscribers r)
                                  else AList.update (event_key ev) kept (rc_subscribers r))\<rparr>))"

definition forget_removed_owners :: "rec_event list \<Rightarrow> receptionist \<Rightarrow> receptionist" where
  "forget_removed_owners evs r = r\<lparr>rc_owners := fold (\<lambda>ev os. case ev of
      Unregistered k p \<Rightarrow> AList.delete (k, p) os | Registered k p \<Rightarrow> os) evs (rc_owners r)\<rparr>"

record rec_sync =
  sy_from :: string
  sy_entries :: "rec_entry list"

definition gone :: "rec_entry \<Rightarrow> rec_event" where
  "gone e = Unregistered (re_key e) (re_path e)"

definition come :: "rec_entry \<Rightarrow> rec_event" where
  "come e = Registered (re_key e) (re_path e)"

text \<open>The retaining pass of \<^verbatim>\<open>merge_sync\<close>: entries that are still announced leave the pending set.\<close>

fun retain_list :: "string \<Rightarrow> rec_entry list \<Rightarrow> rec_entry list \<Rightarrow> rec_entry list \<times> rec_entry list \<times> rec_event list" where
  "retain_list from pending [] = ([], pending, [])"
| "retain_list from pending (e # es) =
     (if re_node e \<noteq> from then
        (case retain_list from pending es of (kept, pending', evs) \<Rightarrow> (e # kept, pending', evs))
      else if e \<in> set pending then
        (case retain_list from (removeAll e pending) es of (kept, pending', evs) \<Rightarrow> (e # kept, pending', evs))
      else (case retain_list from pending es of (kept, pending', evs) \<Rightarrow> (kept, pending', gone e # evs)))"

fun retain_all :: "string \<Rightarrow> rec_entry list \<Rightarrow> (string \<times> rec_entry list) list \<Rightarrow>
    (string \<times> rec_entry list) list \<times> rec_entry list \<times> rec_event list" where
  "retain_all from pending [] = ([], pending, [])"
| "retain_all from pending ((k, es) # m) =
     (case retain_list from pending es of (kept, pending', evs) \<Rightarrow>
      case retain_all from pending' m of (m', pending'', evs') \<Rightarrow>
        (if kept = [] then m' else (k, kept) # m', pending'', evs @ evs'))"

fun upsert :: "rec_entry list \<Rightarrow> rec_entry list \<Rightarrow> (string \<times> rec_entry list) list \<Rightarrow>
    (string \<times> rec_entry list) list \<times> rec_event list" where
  "upsert pending [] m = (m, [])"
| "upsert pending (e # es) m =
     (if e \<in> set pending then
        (case upsert (removeAll e pending) es
            (AList.update (re_key e) ((case map_of m (re_key e) of None \<Rightarrow> [] | Some xs \<Rightarrow> xs) @ [e]) m) of
           (m', evs) \<Rightarrow> (m', come e # evs))
      else upsert pending es m)"

definition merge_sync :: "rec_sync \<Rightarrow> receptionist \<Rightarrow> rec_event list \<times> receptionist" where
  "merge_sync s r =
     (if \<exists>e \<in> set (sy_entries s). re_node e \<noteq> sy_from s then ([], r)
      else
        case retain_all (sy_from s) (sy_entries s) (rc_entries r) of (m, pending, evs) \<Rightarrow>
        case upsert pending (sy_entries s) m of (m', evs') \<Rightarrow>
          (evs @ evs', forget_removed_owners (evs @ evs') (r\<lparr>rc_entries := m'\<rparr>)))"

text \<open>Removal by a test on the entries; \<^verbatim>\<open>remove_node\<close> and \<^verbatim>\<open>remove_unavailable\<close> differ in the test only.\<close>

definition remove_where :: "(rec_entry \<Rightarrow> bool) \<Rightarrow> receptionist \<Rightarrow> rec_event list \<times> receptionist" where
  "remove_where P r =
     (let evs = concat (map (\<lambda>(k, es). map gone (filter P es)) (rc_entries r)) in
      (evs, forget_removed_owners evs
         (r\<lparr>rc_entries := drop_empty (map (\<lambda>(k, es). (k, filter (\<lambda>e. \<not> P e) es)) (rc_entries r))\<rparr>)))"

definition remove_node :: "string \<Rightarrow> receptionist \<Rightarrow> rec_event list \<times> receptionist" where
  "remove_node node r = remove_where (\<lambda>e. re_node e = node) r"

definition remove_unavailable :: "string \<Rightarrow> string list \<Rightarrow> receptionist \<Rightarrow> rec_event list \<times> receptionist" where
  "remove_unavailable me available r = remove_where (\<lambda>e. re_node e \<noteq> me \<and> re_node e \<notin> set available) r"

definition rec_snapshot :: "string \<Rightarrow> receptionist \<Rightarrow> rec_entry list" where
  "rec_snapshot node r = filter (\<lambda>e. re_node e = node) (concat (map snd (rc_entries r)))"

definition rec_lookup :: "string \<Rightarrow> receptionist \<Rightarrow> rec_entry list" where
  "rec_lookup key r = entries_of key r"

definition broadcast_all :: "rec_event list \<Rightarrow> receptionist \<Rightarrow> receptionist" where
  "broadcast_all evs r = fold rec_broadcast evs r"

section \<open>Registration scopes\<close>

record rec_scope =
  sc_closed :: bool
  sc_retiring :: bool
  sc_bindings :: "(string \<times> string) list"

definition scope_new :: rec_scope where
  "scope_new = \<lparr>sc_closed = False, sc_retiring = False, sc_bindings = []\<rparr>"

definition MAX_BINDINGS :: nat where
  "MAX_BINDINGS = 1024"

datatype rec_error = Scope_Stopped | Scope_Full | Key_Forbidden | Path_Foreign | System_Stopped | Rec_Panic

definition scope_publish :: "string \<times> string \<Rightarrow> rec_scope \<Rightarrow> rec_error + rec_scope" where
  "scope_publish b sc =
     (if sc_closed sc then Inl Scope_Stopped
      else if b \<notin> set (sc_bindings sc) \<and> length (sc_bindings sc) \<ge> MAX_BINDINGS then Inl Scope_Full
      else Inr (sc\<lparr>sc_bindings := List.insert b (sc_bindings sc)\<rparr>))"

definition scope_withdraw :: "string \<times> string \<Rightarrow> rec_scope \<Rightarrow> rec_error + rec_scope" where
  "scope_withdraw b sc =
     (if sc_closed sc then Inl Scope_Stopped else Inr (sc\<lparr>sc_bindings := removeAll b (sc_bindings sc)\<rparr>))"

section \<open>The facade of a node\<close>

text \<open>
  The node, its rules, whether the facade belongs to a remote system or stands alone, and whether that system
  is shutting down or gone; \<open>ho_scopes\<close> gives the scope of each actor generation. A facade on its own takes
  paths as they are and is never stopped.
\<close>

record rec_host =
  ho_node :: string
  ho_acl :: acl_rules
  ho_system :: bool
  ho_down :: bool
  ho_table :: receptionist
  ho_scopes :: "nat \<Rightarrow> rec_scope"

definition registration_path :: "string \<Rightarrow> rec_host \<Rightarrow> rec_error + string" where
  "registration_path path h =
     (if \<not> ho_system h then Inr path
      else case path_qualify (ho_node h) path of None \<Rightarrow> Inl Path_Foreign | Some p \<Rightarrow> Inr p)"

definition facade_live :: "rec_host \<Rightarrow> bool" where
  "facade_live h \<longleftrightarrow> \<not> (ho_system h \<and> ho_down h)"

definition rec_enter :: "string \<Rightarrow> string \<Rightarrow> rec_host \<Rightarrow> rec_error + string" where
  "rec_enter key path h =
     (if acl_check (ho_node h) key (ho_acl h) \<noteq> Allow then Inl Key_Forbidden
      else case registration_path path h of
          Inl e \<Rightarrow> Inl e
        | Inr p \<Rightarrow> if facade_live h then Inr p else Inl System_Stopped)"

definition publish_event :: "rec_event \<times> receptionist \<Rightarrow> receptionist" where
  "publish_event x = rec_broadcast (fst x) (snd x)"

definition facade_register :: "string \<Rightarrow> string \<Rightarrow> rec_host \<Rightarrow> (rec_error + unit) \<times> rec_host" where
  "facade_register key path h =
     (case rec_enter key path h of
        Inl e \<Rightarrow> (Inl e, h)
      | Inr p \<Rightarrow> (Inr (), h\<lparr>ho_table := publish_event (rec_register (ho_node h) key p (ho_table h))\<rparr>))"

definition facade_deregister :: "string \<Rightarrow> string \<Rightarrow> rec_host \<Rightarrow> (rec_error + unit) \<times> rec_host" where
  "facade_deregister key path h =
     (case rec_enter key path h of
        Inl e \<Rightarrow> (Inl e, h)
      | Inr p \<Rightarrow> (Inr (), h\<lparr>ho_table := publish_event (rec_deregister key p (ho_table h))\<rparr>))"

definition facade_subscribe :: "nat \<Rightarrow> string \<Rightarrow> rec_host \<Rightarrow> (rec_error + nat) \<times> rec_host" where
  "facade_subscribe cap_max key h =
     (if acl_check (ho_node h) key (ho_acl h) \<noteq> Allow then (Inl Key_Forbidden, h)
      else if \<not> facade_live h then (Inl System_Stopped, h)
      else case subscribe_deferred cap_max key 64 (ho_table h) of
          None \<Rightarrow> (Inl Rec_Panic, h)
        | Some (c, r) \<Rightarrow> (Inr c, h\<lparr>ho_table := r\<rparr>))"

definition register_scoped :: "string \<Rightarrow> string \<Rightarrow> nat \<Rightarrow> rec_host \<Rightarrow> (rec_error + unit) \<times> rec_host" where
  "register_scoped key path g h =
     (case rec_enter key path h of
        Inl e \<Rightarrow> (Inl e, h)
      | Inr p \<Rightarrow>
          (case scope_publish (key, p) (ho_scopes h g) of
             Inl e \<Rightarrow> (Inl e, h)
           | Inr sc \<Rightarrow>
               (case rec_register (ho_node h) key p (ho_table h) of (ev, r) \<Rightarrow>
                  (Inr (), h\<lparr>ho_scopes := (ho_scopes h)(g := sc),
                             ho_table := rec_broadcast ev
                               (r\<lparr>rc_owners := AList.update (key, p) g (rc_owners r)\<rparr>)\<rparr>))))"

text \<open>A generation removes a registration only while it owns it.\<close>

definition remove_owned :: "nat \<Rightarrow> string \<times> string \<Rightarrow> receptionist \<Rightarrow> receptionist" where
  "remove_owned g b r =
     (if map_of (rc_owners r) b = Some g then publish_event (rec_deregister (fst b) (snd b) r) else r)"

definition deregister_scoped :: "string \<Rightarrow> string \<Rightarrow> nat \<Rightarrow> rec_host \<Rightarrow> (rec_error + unit) \<times> rec_host" where
  "deregister_scoped key path g h =
     (case rec_enter key path h of
        Inl e \<Rightarrow> (Inl e, h)
      | Inr p \<Rightarrow>
          (case scope_withdraw (key, p) (ho_scopes h g) of
             Inl e \<Rightarrow> (Inl e, h)
           | Inr sc \<Rightarrow>
               (Inr (), h\<lparr>ho_scopes := (ho_scopes h)(g := sc), ho_table := remove_owned g (key, p) (ho_table h)\<rparr>)))"

definition scope_close :: "nat \<Rightarrow> rec_host \<Rightarrow> rec_host" where
  "scope_close g h = h\<lparr>ho_scopes := (ho_scopes h)(g := (ho_scopes h g)\<lparr>sc_closed := True\<rparr>)\<rparr>"

definition scope_retire :: "nat \<Rightarrow> rec_host \<Rightarrow> rec_host" where
  "scope_retire g h =
     (let sc = ho_scopes h g in
      if sc_retiring sc then h\<lparr>ho_scopes := (ho_scopes h)(g := sc\<lparr>sc_closed := True\<rparr>)\<rparr>
      else h\<lparr>ho_scopes := (ho_scopes h)(g := \<lparr>sc_closed = True, sc_retiring = True, sc_bindings = []\<rparr>),
             ho_table := fold (remove_owned g) (sc_bindings sc) (ho_table h)\<rparr>)"

section \<open>Snapshots between nodes\<close>

text \<open>What the receiver of a snapshot knows of the connection it came over.\<close>

record rec_peer =
  pe_node :: string
  pe_cluster :: bool
  pe_sync :: bool
  pe_native :: bool
  pe_current :: bool

definition sync_refused :: "rec_peer \<Rightarrow> rec_sync \<Rightarrow> rec_host \<Rightarrow> bool" where
  "sync_refused p s h \<longleftrightarrow>
     sy_from s \<noteq> pe_node p \<or> sy_from s = ho_node h \<or> \<not> pe_cluster p \<or> \<not> pe_sync p \<or>
     (\<exists>e \<in> set (sy_entries s). re_node e \<noteq> sy_from s \<or>
        (case path_split (re_path e) of
           None \<Rightarrow> True
         | Some (node, local) \<Rightarrow> node \<noteq> sy_from s \<or> (prefix ''actix://'' local \<and> \<not> pe_native p)) \<or>
        acl_check (sy_from s) (re_key e) (ho_acl h) \<noteq> Allow)"

text \<open>The first result says whether the connection is closed; \<open>alive\<close> are the members that are not dead.\<close>

definition receive_sync :: "string list \<Rightarrow> rec_peer \<Rightarrow> rec_sync \<Rightarrow> rec_host \<Rightarrow> bool \<times> rec_host" where
  "receive_sync alive p s h =
     (if sync_refused p s h then (True, h)
      else if sy_from s \<notin> set alive \<or> ho_down h \<or> \<not> pe_current p then (False, h)
      else case merge_sync s (ho_table h) of (evs, r) \<Rightarrow> (False, h\<lparr>ho_table := broadcast_all evs r\<rparr>))"

text \<open>One turn of the periodic task: members that are gone are swept, and the local snapshot is sent.\<close>

definition sweep :: "string list \<Rightarrow> rec_host \<Rightarrow> rec_sync \<times> rec_host" where
  "sweep alive h =
     (case remove_unavailable (ho_node h) alive (ho_table h) of (evs, r) \<Rightarrow>
        let r = broadcast_all evs r in
        (\<lparr>sy_from = ho_node h, sy_entries = rec_snapshot (ho_node h) r\<rparr>, h\<lparr>ho_table := r\<rparr>))"

end
