(* ===== verification/Receptionist_Theorems.thy ===== *)
theory Receptionist_Theorems
  imports Receptionist
begin

text \<open>
  Service discovery is consistent: what a subscriber has been told adds up to what the table holds, whatever local
  registrations, snapshots of peers, departures and retired actors have changed in it.
\<close>

declare map_of_eq_Some_iff [simp del] Some_eq_map_of_iff [simp del]

section \<open>Tables of lists\<close>

definition lst :: "('k \<times> 'v list) list \<Rightarrow> 'k \<Rightarrow> 'v list" where
  "lst m k = (case map_of m k of None \<Rightarrow> [] | Some xs \<Rightarrow> xs)"

lemma lst_simps [simp]:
  "lst [] k = []" "lst ((k', xs) # m) k = (if k = k' then xs else lst m k)"
  by (simp_all add: lst_def)

lemma lst_update [simp]: "lst (AList.update k' xs m) k = (if k = k' then xs else lst m k)"
  by (simp add: lst_def map_of_update)

lemma lst_delete [simp]: "lst (AList.delete k' m) k = (if k = k' then [] else lst m k)"
  by (simp add: lst_def map_of_delete)

lemma lst_map: "f [] = [] \<Longrightarrow> lst (map (\<lambda>(k, xs). (k, f xs)) m) k = f (lst m k)"
  by (induction m) auto

lemma lst_absent: "k \<notin> fst ` set m \<Longrightarrow> lst m k = []"
  by (simp add: lst_def map_of_eq_None_iff [THEN iffD2])

lemma lst_drop_empty: "distinct (map fst m) \<Longrightarrow> lst (drop_empty m) k = lst m k"
  by (induction m) (auto simp: drop_empty_def lst_absent split: if_splits)

lemma keys_drop_empty: "distinct (map fst m) \<Longrightarrow> distinct (map fst (drop_empty m))"
  by (auto simp: drop_empty_def distinct_map_filter)

lemma entries_of_lst: "entries_of k r = lst (rc_entries r) k"
  by (simp add: entries_of_def lst_def)

lemma subscribers_of_lst: "subscribers_of k r = lst (rc_subscribers r) k"
  by (simp add: subscribers_of_def lst_def)

section \<open>Channels\<close>

definition apply_event :: "rec_event \<Rightarrow> string set \<Rightarrow> string set" where
  "apply_event ev S = (case ev of Registered k p \<Rightarrow> insert p S | Unregistered k p \<Rightarrow> S - {p})"

text \<open>The paths that a consumer knows after the events of its stream.\<close>

definition event_view :: "rec_event list \<Rightarrow> string set" where
  "event_view evs = fold apply_event evs {}"

lemma view_append: "event_view (xs @ ys) = fold apply_event ys (event_view xs)"
  by (simp add: event_view_def)

lemma fold_gone: "fold apply_event (map gone es) S = S - re_path ` set es"
  by (induction es arbitrary: S) (auto simp: apply_event_def gone_def)

lemma fold_come: "fold apply_event (map come es) S = S \<union> re_path ` set es"
  by (induction es arbitrary: S) (auto simp: apply_event_def come_def)

definition subs_ok :: "receptionist \<Rightarrow> bool" where
  "subs_ok r \<longleftrightarrow> distinct (map fst (rc_subscribers r)) \<and> (\<forall>k. distinct (lst (rc_subscribers r) k)) \<and>
     (\<forall>k k' c. c \<in> set (lst (rc_subscribers r) k) \<and> c \<in> set (lst (rc_subscribers r) k') \<longrightarrow> k = k') \<and>
     (\<forall>k. \<forall>c \<in> set (lst (rc_subscribers r) k). c < length (rc_channels r))"

lemma subs_ok_subset:
  assumes "subs_ok r" and "\<And>k. set (lst (rc_subscribers r') k) \<subseteq> set (lst (rc_subscribers r) k)"
    and "\<And>k. distinct (lst (rc_subscribers r') k)" and "distinct (map fst (rc_subscribers r'))"
    and "length (rc_channels r) \<le> length (rc_channels r')"
  shows "subs_ok r'"
proof -
  have "\<forall>k k' c. c \<in> set (lst (rc_subscribers r') k) \<and> c \<in> set (lst (rc_subscribers r') k') \<longrightarrow> k = k'"
    using assms(1,2) unfolding subs_ok_def by blast
  moreover have "\<forall>k. \<forall>c \<in> set (lst (rc_subscribers r') k). c < length (rc_channels r')"
    using assms(1,2,5) unfolding subs_ok_def by (meson less_le_trans subsetD)
  ultimately show ?thesis using assms(3,4) by (simp add: subs_ok_def)
qed

lemma try_send_Some: "try_send ev c = Some c' \<Longrightarrow> ch_sent c' = ch_sent c @ [ev]"
  by (auto simp: try_send_def split: if_splits)

lemma offer_spec:
  assumes "offer ev cs chans = (kept, chans')" and "distinct cs" and "\<forall>c \<in> set cs. c < length chans"
  shows "length chans' = length chans \<and> set kept \<subseteq> set cs \<and> distinct kept \<and>
    (\<forall>c. c \<notin> set kept \<longrightarrow> chans' ! c = chans ! c) \<and> (\<forall>c \<in> set kept. ch_sent (chans' ! c) = ch_sent (chans ! c) @ [ev])"
  using assms
proof (induction ev cs chans arbitrary: kept chans' rule: offer.induct)
  case (2 ev c cs chans)
  show ?case
  proof (cases "try_send ev (chans ! c)")
    case None
    then show ?thesis using 2(1) [OF None] 2(3-5) by auto
  next
    case (Some chan)
    obtain kept1 where r: "offer ev cs (chans[c := chan]) = (kept1, chans')" and kept: "kept = c # kept1"
      using 2(3) Some by (auto split: prod.splits)
    have c: "c < length chans" "c \<notin> set cs" using 2(4,5) by auto
    have IH: "length chans' = length chans \<and> set kept1 \<subseteq> set cs \<and> distinct kept1 \<and>
        (\<forall>x. x \<notin> set kept1 \<longrightarrow> chans' ! x = chans[c := chan] ! x) \<and>
        (\<forall>x \<in> set kept1. ch_sent (chans' ! x) = ch_sent (chans[c := chan] ! x) @ [ev])"
      using 2(2) [OF Some r] 2(4,5) by simp
    then have notin: "c \<notin> set kept1" using c(2) by blast
    have eq: "\<forall>x \<in> set kept1. chans[c := chan] ! x = chans ! x" using notin by (metis nth_list_update_neq)
    have rest: "\<forall>x. x \<notin> set kept \<longrightarrow> chans[c := chan] ! x = chans ! x" by (simp add: kept)
    have "ch_sent (chans' ! c) = ch_sent (chans ! c) @ [ev]"
      using IH notin c(1) try_send_Some [OF Some] by simp
    then show ?thesis using IH notin eq rest kept by auto
  qed
qed auto

lemma broadcast_spec:
  assumes "subs_ok r"
  shows "subs_ok (rec_broadcast ev r)" and "rc_entries (rec_broadcast ev r) = rc_entries r"
    and "rc_owners (rec_broadcast ev r) = rc_owners r"
    and "length (rc_channels (rec_broadcast ev r)) = length (rc_channels r)"
    and "\<forall>k. \<forall>c \<in> set (lst (rc_subscribers (rec_broadcast ev r)) k). c \<in> set (lst (rc_subscribers r) k) \<and>
      ch_sent (rc_channels (rec_broadcast ev r) ! c) = ch_sent (rc_channels r ! c) @ filter (\<lambda>ev. event_key ev = k) [ev]"
proof -
  let ?k = "event_key ev" and ?r = "rec_broadcast ev r"
  have "subs_ok ?r \<and> rc_entries ?r = rc_entries r \<and> rc_owners ?r = rc_owners r \<and> length (rc_channels ?r) = length (rc_channels r) \<and>
    (\<forall>k. \<forall>c \<in> set (lst (rc_subscribers ?r) k). c \<in> set (lst (rc_subscribers r) k) \<and>
      ch_sent (rc_channels ?r ! c) = ch_sent (rc_channels r ! c) @ filter (\<lambda>ev. event_key ev = k) [ev])"
  proof (cases "map_of (rc_subscribers r) ?k")
    case None
    then show ?thesis using assms by (auto simp: rec_broadcast_def lst_def)
  next
    case (Some cs)
    then have cs: "lst (rc_subscribers r) ?k = cs" by (simp add: lst_def)
    obtain kept chans where o: "offer ev cs (rc_channels r) = (kept, chans)" by force
    have spec: "length chans = length (rc_channels r)" "set kept \<subseteq> set cs" "distinct kept"
      "\<forall>c. c \<notin> set kept \<longrightarrow> chans ! c = rc_channels r ! c" "\<forall>c \<in> set kept. ch_sent (chans ! c) = ch_sent (rc_channels r ! c) @ [ev]"
      using offer_spec [OF o] assms cs by (auto simp: subs_ok_def)
    have r: "rc_channels ?r = chans" "rc_entries ?r = rc_entries r" "rc_owners ?r = rc_owners r"
      "rc_subscribers ?r = (if kept = [] then AList.delete ?k (rc_subscribers r) else AList.update ?k kept (rc_subscribers r))"
      using Some o by (simp_all add: rec_broadcast_def)
    have subs: "lst (rc_subscribers ?r) k = (if k = ?k then kept else lst (rc_subscribers r) k)" for k
      by (simp add: r)
    have keys: "distinct (map fst (rc_subscribers ?r))"
      using assms by (simp add: r subs_ok_def distinct_keys_delete distinct_update)
    have apart: "\<forall>k. k \<noteq> ?k \<longrightarrow> (\<forall>c \<in> set (lst (rc_subscribers r) k). c \<notin> set kept)"
      using assms spec(2) cs unfolding subs_ok_def by blast
    have sub: "set (lst (rc_subscribers ?r) k) \<subseteq> set (lst (rc_subscribers r) k)" for k
      using spec(2) cs by (simp add: subs)
    have "subs_ok ?r"
    proof (rule subs_ok_subset [OF assms])
      show "distinct (lst (rc_subscribers ?r) k)" for k using assms spec(3) by (simp add: subs subs_ok_def)
    qed (use sub keys r(1) spec(1) in simp_all)
    moreover have "ch_sent (chans ! c) = ch_sent (rc_channels r ! c) @ filter (\<lambda>ev. event_key ev = k) [ev]"
      if "c \<in> set (lst (rc_subscribers ?r) k)" for k c
      using that spec(4,5) apart by (cases "k = ?k") (auto simp: subs)
    ultimately show ?thesis using sub spec(1) unfolding r(1-3) by blast
  qed
  then show "subs_ok ?r" "rc_entries ?r = rc_entries r" "rc_owners ?r = rc_owners r"
    "length (rc_channels ?r) = length (rc_channels r)"
    "\<forall>k. \<forall>c \<in> set (lst (rc_subscribers ?r) k). c \<in> set (lst (rc_subscribers r) k) \<and>
      ch_sent (rc_channels ?r ! c) = ch_sent (rc_channels r ! c) @ filter (\<lambda>ev. event_key ev = k) [ev]"
    by blast+
qed

lemma broadcast_all_spec:
  assumes "subs_ok r"
  shows "subs_ok (broadcast_all evs r) \<and> rc_entries (broadcast_all evs r) = rc_entries r \<and>
    rc_owners (broadcast_all evs r) = rc_owners r \<and> length (rc_channels (broadcast_all evs r)) = length (rc_channels r) \<and>
    (\<forall>k. \<forall>c \<in> set (lst (rc_subscribers (broadcast_all evs r)) k). c \<in> set (lst (rc_subscribers r) k) \<and>
      ch_sent (rc_channels (broadcast_all evs r) ! c) = ch_sent (rc_channels r ! c) @ filter (\<lambda>ev. event_key ev = k) evs)"
  using assms
proof (induction evs arbitrary: r)
  case (Cons ev evs)
  note one = broadcast_spec [OF Cons.prems, of ev]
  note IH = Cons.IH [OF one(1)]
  have step: "broadcast_all (ev # evs) r = broadcast_all evs (rec_broadcast ev r)" by (simp add: broadcast_all_def)
  have "c \<in> set (lst (rc_subscribers r) k) \<and>
      ch_sent (rc_channels (broadcast_all (ev # evs) r) ! c) = ch_sent (rc_channels r ! c) @ filter (\<lambda>ev. event_key ev = k) (ev # evs)"
    if "c \<in> set (lst (rc_subscribers (broadcast_all (ev # evs) r)) k)" for k c
  proof -
    have "c \<in> set (lst (rc_subscribers (rec_broadcast ev r)) k)" "ch_sent (rc_channels (broadcast_all (ev # evs) r) ! c) =
        ch_sent (rc_channels (rec_broadcast ev r) ! c) @ filter (\<lambda>ev. event_key ev = k) evs"
      using IH that unfolding step by blast+
    then show ?thesis using one(5) by simp
  qed
  then show ?case using one(2-4) IH unfolding step by simp
qed (simp add: broadcast_all_def)

section \<open>Entries\<close>

text \<open>
  What holds of every entry: it stands under a key that the rules grant to its node; in the table of a remote system
  (\<open>None\<close>) it names a path of its own node, and in the table of a facade on its own (\<open>Some\<close>) it belongs to the node
  of the facade.
\<close>

type_synonym table_law = "string option \<times> acl_rules"

definition homed :: "table_law \<Rightarrow> rec_entry \<Rightarrow> bool" where
  "homed law e \<longleftrightarrow> acl_check (re_node e) (re_key e) (snd law) = Allow \<and>
     (case fst law of None \<Rightarrow> \<exists>l. path_split (re_path e) = Some (re_node e, l) | Some node \<Rightarrow> re_node e = node)"

definition list_ok :: "table_law \<Rightarrow> string \<Rightarrow> rec_entry list \<Rightarrow> bool" where
  "list_ok law k es \<longleftrightarrow> distinct es \<and> (\<forall>e \<in> set es. re_key e = k \<and> homed law e)"

definition entries_ok :: "table_law \<Rightarrow> (string \<times> rec_entry list) list \<Rightarrow> bool" where
  "entries_ok law m \<longleftrightarrow> distinct (map fst m) \<and> (\<forall>(k, es) \<in> set m. list_ok law k es)"

lemma list_ok_simps [simp]: "list_ok law k []"
  by (simp add: list_ok_def)

lemma list_ok_filter: "list_ok law k es \<Longrightarrow> list_ok law k (filter P es)"
  by (simp add: list_ok_def)

lemma list_ok_lst: "entries_ok law m \<Longrightarrow> list_ok law k (lst m k)"
  by (cases "map_of m k") (auto simp: lst_def entries_ok_def dest: map_of_SomeD)

lemma list_ok_inj: "list_ok law k es \<Longrightarrow> inj_on re_path (set es)"
proof (rule inj_onI)
  fix x y
  assume ok: "list_ok law k es" and in_es: "x \<in> set es" "y \<in> set es" and path: "re_path x = re_path y"
  have "re_key x = k" "re_key y = k" "homed law x" "homed law y" using ok in_es by (simp_all add: list_ok_def)
  then show "x = y" using path by (cases "fst law") (auto simp: homed_def intro: rec_entry.equality)
qed

lemma entries_ok_update: "entries_ok law m \<Longrightarrow> list_ok law k es \<Longrightarrow> entries_ok law (AList.update k es m)"
  by (auto simp: entries_ok_def distinct_update dest!: update_entries)

lemma entries_ok_delete: "entries_ok law m \<Longrightarrow> entries_ok law (AList.delete k m)"
  by (auto simp: entries_ok_def AList.delete_eq distinct_map_filter)

text \<open>What the events of a change tell a subscriber is what the change does to the list.\<close>

definition moves :: "rec_entry list \<Rightarrow> rec_event list \<Rightarrow> rec_entry list \<Rightarrow> bool" where
  "moves es evs es' \<longleftrightarrow> (\<exists>G A. evs = map gone G @ map come A \<and> set G \<subseteq> set es \<and> set es' = (set es - set G) \<union> set A)"

lemma moves_view:
  assumes "moves es evs es'" and "inj_on re_path (set es)"
  shows "fold apply_event evs (re_path ` set es) = re_path ` set es'"
proof -
  obtain G A where m: "evs = map gone G @ map come A" "set G \<subseteq> set es" "set es' = (set es - set G) \<union> set A"
    using assms(1) by (auto simp: moves_def)
  have "re_path ` set es - re_path ` set G = re_path ` (set es - set G)"
    using inj_on_image_set_diff [OF assms(2), of "set es" "set G"] m(2) by auto
  then show ?thesis by (simp add: m(1,3) fold_gone fold_come image_Un)
qed

definition keeps :: "string \<Rightarrow> rec_entry list \<Rightarrow> rec_entry \<Rightarrow> bool" where
  "keeps src pending e \<longleftrightarrow> re_node e \<noteq> src \<or> e \<in> set pending"

lemma retain_list_spec:
  "retain_list src pending es = (kept, pending', evs) \<Longrightarrow> distinct es \<Longrightarrow>
     kept = filter (keeps src pending) es \<and> evs = map gone (filter (\<lambda>e. \<not> keeps src pending e) es) \<and>
     set pending' = set pending - {e \<in> set es. re_node e = src}"
proof (induction src pending es arbitrary: kept pending' evs rule: retain_list.induct)
  case (2 src pending e es)
  have later: "filter (keeps src (removeAll e pending)) es = filter (keeps src pending) es"
    "filter (\<lambda>x. \<not> keeps src (removeAll e pending) x) es = filter (\<lambda>x. \<not> keeps src pending x) es"
    using "2.prems"(2) by (auto simp: keeps_def intro!: filter_cong)
  consider (other) "re_node e \<noteq> src" | (kept) "re_node e = src" "e \<in> set pending" | (dropped) "re_node e = src" "e \<notin> set pending"
    by blast
  then show ?case
  proof cases
    case other
    obtain k1 where r: "retain_list src pending es = (k1, pending', evs)" and k: "kept = e # k1"
      using "2.prems"(1) other by (auto split: prod.splits)
    show ?thesis using "2.IH"(1) [OF other r] "2.prems"(2) other by (auto simp: k keeps_def)
  next
    case kept
    have n: "\<not> re_node e \<noteq> src" using kept by simp
    obtain k1 where r: "retain_list src (removeAll e pending) es = (k1, pending', evs)" and k: "kept = e # k1"
      using "2.prems"(1) kept by (auto split: prod.splits)
    have "k1 = filter (keeps src pending) es \<and> evs = map gone (filter (\<lambda>x. \<not> keeps src pending x) es) \<and>
        set pending' = set pending - {e} - {x \<in> set es. re_node x = src}"
      using "2.IH"(2) [OF n kept(2) r] "2.prems"(2) unfolding later by simp
    moreover have "set pending - {e} - {x \<in> set es. re_node x = src} = set pending - {x \<in> set (e # es). re_node x = src}"
      using kept(1) by auto
    moreover have "keeps src pending e" using kept(2) by (simp add: keeps_def)
    ultimately show ?thesis by (simp add: k)
  next
    case dropped
    have n: "\<not> re_node e \<noteq> src" using dropped by simp
    obtain evs1 where r: "retain_list src pending es = (kept, pending', evs1)" and k: "evs = gone e # evs1"
      using "2.prems"(1) dropped by (auto split: prod.splits)
    show ?thesis using "2.IH"(3) [OF n dropped(2) r] "2.prems"(2) dropped by (auto simp: k keeps_def)
  qed
qed simp

lemma gone_of_key:
  assumes "\<forall>e \<in> set es. re_key e = k'"
  shows "filter (\<lambda>ev. event_key ev = k) (map gone es) = (if k = k' then map gone es else [])"
  using assms by (induction es) (auto simp: gone_def)

lemma come_of_key:
  "filter (\<lambda>ev. event_key ev = k) (map come es) = map come (filter (\<lambda>e. re_key e = k) es)"
  by (induction es) (auto simp: come_def)

lemma entries_ok_Cons:
  "entries_ok law ((k, es) # m) \<longleftrightarrow> k \<notin> fst ` set m \<and> list_ok law k es \<and> entries_ok law m"
  by (auto simp: entries_ok_def)

lemma retain_all_spec:
  assumes "retain_all src pending m = (m', pending', evs)" and "entries_ok law m"
  shows "entries_ok law m' \<and> fst ` set m' \<subseteq> fst ` set m \<and> (\<forall>k. lst m' k = filter (keeps src pending) (lst m k)) \<and>
    (\<forall>k. filter (\<lambda>ev. event_key ev = k) evs = map gone (filter (\<lambda>e. \<not> keeps src pending e) (lst m k))) \<and>
    set pending' = set pending - {e. e \<in> set (lst m (re_key e)) \<and> re_node e = src}"
  using assms
proof (induction m arbitrary: pending m' pending' evs)
  case (Cons x m)
  obtain k0 es where x: "x = (k0, es)" by force
  obtain kept p1 ev1 where r1: "retain_list src pending es = (kept, p1, ev1)" by (cases "retain_list src pending es")
  obtain m2 ev2 where r2: "retain_all src p1 m = (m2, pending', ev2)"
    and out: "m' = (if kept = [] then m2 else (k0, kept) # m2)" "evs = ev1 @ ev2"
    using Cons.prems(1) r1 by (auto simp: x split: prod.splits)
  have ok: "k0 \<notin> fst ` set m" "list_ok law k0 es" "entries_ok law m" using Cons.prems(2) by (auto simp: x entries_ok_Cons)
  have one: "kept = filter (keeps src pending) es" "ev1 = map gone (filter (\<lambda>e. \<not> keeps src pending e) es)"
    "set p1 = set pending - {e \<in> set es. re_node e = src}"
    using retain_list_spec [OF r1] ok(2) by (auto simp: list_ok_def)
  note IH = Cons.IH [OF r2 ok(3)]
  have key: "re_key e = k" if "e \<in> set (lst m k)" for e k using list_ok_lst [OF ok(3)] that by (auto simp: list_ok_def)
  have key0: "\<forall>e \<in> set es. re_key e = k0" using ok(2) by (auto simp: list_ok_def)
  have none: "lst m k0 = []" using ok(1) by (rule lst_absent)
  have same: "keeps src p1 e \<longleftrightarrow> keeps src pending e" if "e \<in> set (lst m k)" for e k
    using one(3) key [OF that] key0 none that by (cases "k = k0") (auto simp: keeps_def)
  then have filters: "filter (keeps src p1) (lst m k) = filter (keeps src pending) (lst m k)"
    "filter (\<lambda>e. \<not> keeps src p1 e) (lst m k) = filter (\<lambda>e. \<not> keeps src pending e) (lst m k)" for k
    by (auto intro!: filter_cong)
  have lists: "lst m' k = filter (keeps src pending) (lst (x # m) k)" for k
    using IH filters none by (auto simp: out one(1) x)
  have absent: "lst m2 k0 = []" "k0 \<notin> fst ` set m2" using IH ok(1) none by auto
  have "filter (\<lambda>ev. event_key ev = k) ev1 = (if k = k0 then map gone (filter (\<lambda>e. \<not> keeps src pending e) es) else [])" for k
    unfolding one(2) using key0 by (intro gone_of_key) simp
  then have events: "filter (\<lambda>ev. event_key ev = k) evs = map gone (filter (\<lambda>e. \<not> keeps src pending e) (lst (x # m) k))" for k
    using IH filters none by (simp add: out x)
  have "set pending' = set pending - {e. e \<in> set (lst (x # m) (re_key e)) \<and> re_node e = src}"
    using IH one(3) key0 none by (auto simp: x split: if_splits)
  moreover have "entries_ok law m'"
    using IH ok(2) absent(2) by (auto simp: out one(1) entries_ok_Cons list_ok_filter)
  moreover have "fst ` set m' \<subseteq> fst ` set (x # m)" using IH by (auto simp: out x)
  ultimately show ?case using lists events by blast
qed (simp add: entries_ok_def)

lemma upsert_spec:
  assumes "upsert pending es m = (m', evs)" and "entries_ok law m" and "\<forall>e \<in> set es. homed law e"
    and "\<forall>e \<in> set pending. e \<notin> set (lst m (re_key e))"
  shows "entries_ok law m' \<and> (\<forall>k. \<exists>A. lst m' k = lst m k @ A \<and> filter (\<lambda>ev. event_key ev = k) evs = map come A)"
  using assms
proof (induction pending es m arbitrary: m' evs rule: upsert.induct)
  case (2 pending e es m)
  show ?case
  proof (cases "e \<in> set pending")
    case True
    let ?m = "AList.update (re_key e) (lst m (re_key e) @ [e]) m"
    obtain ev1 where r: "upsert (removeAll e pending) es ?m = (m', ev1)" and out: "evs = come e # ev1"
      using 2(3) True by (auto simp: lst_def split: prod.splits)
    have "list_ok law (re_key e) (lst m (re_key e) @ [e])"
      using list_ok_lst [OF 2(4)] 2(5,6) True by (auto simp: list_ok_def)
    then have ok: "entries_ok law ?m" using 2(4) by (rule entries_ok_update [rotated])
    have pend: "\<forall>x \<in> set (removeAll e pending). x \<notin> set (lst ?m (re_key x))" using 2(6) by auto
    have IH: "entries_ok law m' \<and> (\<forall>k. \<exists>A. lst m' k = lst ?m k @ A \<and> filter (\<lambda>ev. event_key ev = k) ev1 = map come A)"
      by (rule 2(1) [OF True, folded lst_def, OF r ok _ pend]) (use 2(5) in simp)
    have "\<exists>A. lst m' k = lst m k @ A \<and> filter (\<lambda>ev. event_key ev = k) evs = map come A" for k
    proof -
      obtain A where "lst m' k = lst ?m k @ A" "filter (\<lambda>ev. event_key ev = k) ev1 = map come A" using IH by blast
      then show ?thesis
        by (intro exI [of _ "(if k = re_key e then [e] else []) @ A"]) (auto simp: out come_def)
    qed
    then show ?thesis using IH by blast
  next
    case False
    then show ?thesis using 2(2) [OF False] 2(3-6) by simp
  qed
qed auto

section \<open>The table and its subscribers\<close>

definition discovery_ok :: "table_law \<Rightarrow> receptionist \<Rightarrow> bool" where
  "discovery_ok law r \<longleftrightarrow> subs_ok r \<and> entries_ok law (rc_entries r) \<and>
     (\<forall>k. \<forall>c \<in> set (lst (rc_subscribers r) k). event_view (ch_sent (rc_channels r ! c)) = re_path ` set (lst (rc_entries r) k))"

definition change_ok :: "table_law \<Rightarrow> receptionist \<Rightarrow> rec_event list \<Rightarrow> receptionist \<Rightarrow> bool" where
  "change_ok law r evs r' \<longleftrightarrow> entries_ok law (rc_entries r') \<and> rc_subscribers r' = rc_subscribers r \<and> rc_channels r' = rc_channels r \<and>
     (\<forall>k. fold apply_event (filter (\<lambda>ev. event_key ev = k) evs) (re_path ` set (lst (rc_entries r) k)) =
        re_path ` set (lst (rc_entries r') k))"

lemma change_broadcast:
  assumes ok: "discovery_ok law r" and change: "change_ok law r evs r'"
  shows "discovery_ok law (broadcast_all evs r')"
proof -
  let ?b = "broadcast_all evs r'"
  have subs: "subs_ok r'" using ok change by (simp add: discovery_ok_def change_ok_def subs_ok_def)
  note spec = broadcast_all_spec [OF subs, of evs]
  have "event_view (ch_sent (rc_channels ?b ! c)) = re_path ` set (lst (rc_entries ?b) k)"
    if "c \<in> set (lst (rc_subscribers ?b) k)" for k c
  proof -
    have c: "c \<in> set (lst (rc_subscribers r) k)" and sent: "ch_sent (rc_channels ?b ! c) = ch_sent (rc_channels r ! c) @ filter (\<lambda>ev. event_key ev = k) evs"
      using spec that change unfolding change_ok_def by force+
    have "event_view (ch_sent (rc_channels r ! c)) = re_path ` set (lst (rc_entries r) k)" using ok c by (simp add: discovery_ok_def)
    then show ?thesis using spec change by (simp add: sent view_append change_ok_def)
  qed
  then show ?thesis using spec change by (simp add: discovery_ok_def change_ok_def)
qed

lemma moves_change:
  assumes "entries_ok law (rc_entries r)" and "entries_ok law (rc_entries r')"
    and "rc_subscribers r' = rc_subscribers r" and "rc_channels r' = rc_channels r"
    and "\<And>k. moves (lst (rc_entries r) k) (filter (\<lambda>ev. event_key ev = k) evs) (lst (rc_entries r') k)"
  shows "change_ok law r evs r'"
  using assms moves_view [OF assms(5) list_ok_inj [OF list_ok_lst [OF assms(1)]]] by (simp add: change_ok_def)

lemma forget_fields [simp]:
  "rc_entries (forget_removed_owners evs r) = rc_entries r" "rc_subscribers (forget_removed_owners evs r) = rc_subscribers r"
  "rc_channels (forget_removed_owners evs r) = rc_channels r"
  by (simp_all add: forget_removed_owners_def)

lemma merge_change:
  assumes "merge_sync s r = (evs, r')" and ok: "entries_ok law (rc_entries r)" and homed: "\<forall>e \<in> set (sy_entries s). homed law e"
  shows "change_ok law r evs r'"
proof (cases "\<exists>e \<in> set (sy_entries s). re_node e \<noteq> sy_from s")
  case True
  then have "evs = []" "r' = r" using assms(1) by (auto simp: merge_sync_def)
  then show ?thesis using ok by (simp add: change_ok_def)
next
  case False
  let ?m = "rc_entries r" and ?keep = "keeps (sy_from s) (sy_entries s)"
  obtain m pending ev1 where r1: "retain_all (sy_from s) (sy_entries s) ?m = (m, pending, ev1)"
    by (cases "retain_all (sy_from s) (sy_entries s) ?m")
  obtain m' ev2 where r2: "upsert pending (sy_entries s) m = (m', ev2)" by force
  have out: "evs = ev1 @ ev2" "r' = forget_removed_owners evs (r\<lparr>rc_entries := m'\<rparr>)"
    using assms(1) False r1 r2 by (auto simp: merge_sync_def)
  note one = retain_all_spec [OF r1 ok]
  have "\<forall>e \<in> set pending. e \<notin> set (lst m (re_key e))" using one False by auto
  then have two: "entries_ok law m'" "\<forall>k. \<exists>A. lst m' k = lst m k @ A \<and> filter (\<lambda>ev. event_key ev = k) ev2 = map come A"
    using upsert_spec [OF r2] one homed by blast+
  show ?thesis
  proof (rule moves_change [OF ok])
    fix k
    obtain A where A: "lst m' k = lst m k @ A" "filter (\<lambda>ev. event_key ev = k) ev2 = map come A" using two(2) by blast
    show "moves (lst ?m k) (filter (\<lambda>ev. event_key ev = k) evs) (lst (rc_entries r') k)"
      unfolding moves_def
      by (intro exI [of _ "filter (\<lambda>e. \<not> ?keep e) (lst ?m k)"] exI [of _ A]) (use one A in \<open>auto simp: out\<close>)
  qed (use two(1) out in simp_all)
qed

lemma remove_change:
  assumes "remove_where P r = (evs, r')" and ok: "entries_ok law (rc_entries r)"
  shows "change_ok law r evs r'"
proof (rule moves_change [OF ok])
  let ?m = "rc_entries r" and ?f = "\<lambda>(k, es). (k, filter (\<lambda>e. \<not> P e) es)"
  have evs: "evs = concat (map (\<lambda>(k, es). map gone (filter P es)) ?m)"
    and r': "r' = forget_removed_owners evs (r\<lparr>rc_entries := drop_empty (map ?f ?m)\<rparr>)"
    using assms(1) by (auto simp: remove_where_def Let_def)
  have keys: "map fst (map ?f ?m) = map fst ?m" by (auto simp: comp_def split: prod.splits)
  have dist: "distinct (map fst (map ?f ?m))" using ok unfolding keys by (simp add: entries_ok_def)
  show "entries_ok law (rc_entries r')"
    using ok keys_drop_empty [OF dist] by (auto simp: r' entries_ok_def drop_empty_def list_ok_filter)
  show "rc_subscribers r' = rc_subscribers r" "rc_channels r' = rc_channels r" by (simp_all add: r')
  have lists: "lst (rc_entries r') k = filter (\<lambda>e. \<not> P e) (lst ?m k)" for k
    using lst_drop_empty [OF dist, of k] lst_map [of "filter (\<lambda>e. \<not> P e)" ?m k] by (simp add: r')
  have "filter (\<lambda>ev. event_key ev = k) (concat (map (\<lambda>(k, es). map gone (filter P es)) m)) = map gone (filter P (lst m k))"
    if "entries_ok law m" for m k
    using that
  proof (induction m)
    case (Cons x m)
    obtain k0 es where x: "x = (k0, es)" by force
    have o: "k0 \<notin> fst ` set m" "list_ok law k0 es" "entries_ok law m" using Cons.prems by (auto simp: x entries_ok_Cons)
    then have "filter (\<lambda>ev. event_key ev = k) (map gone (filter P es)) = (if k = k0 then map gone (filter P es) else [])"
      by (intro gone_of_key) (simp add: list_ok_def)
    then show ?case using Cons.IH [OF o(3)] lst_absent [OF o(1)] by (simp add: x)
  qed simp
  then have "filter (\<lambda>ev. event_key ev = k) evs = map gone (filter P (lst ?m k))" for k using ok by (simp add: evs)
  then show "moves (lst ?m k) (filter (\<lambda>ev. event_key ev = k) evs) (lst (rc_entries r') k)" for k
    unfolding moves_def by (intro exI [of _ "filter P (lst ?m k)"] exI [of _ "[]"]) (auto simp: lists)
qed

lemma register_change:
  assumes "entries_ok law (rc_entries r)" and "homed law \<lparr>re_key = key, re_path = p, re_node = node\<rparr>"
  shows "change_ok law r [fst (rec_register node key p r)] (snd (rec_register node key p r))"
proof -
  let ?e = "\<lparr>re_key = key, re_path = p, re_node = node\<rparr>" and ?es = "lst (rc_entries r) key"
  have "list_ok law key (if ?e \<in> set ?es then ?es else ?es @ [?e])"
    using list_ok_lst [OF assms(1), of key] assms(2) by (auto simp: list_ok_def)
  then have "entries_ok law (AList.update key (if ?e \<in> set ?es then ?es else ?es @ [?e]) (rc_entries r))"
    by (rule entries_ok_update [OF assms(1)])
  moreover have "insert p (re_path ` set ?es) = re_path ` set (if ?e \<in> set ?es then ?es else ?es @ [?e])"
    using image_eqI [of p re_path ?e "set ?es"] by auto
  ultimately show ?thesis
    by (simp add: change_ok_def rec_register_def Let_def entries_of_lst apply_event_def)
qed

lemma deregister_change:
  assumes "entries_ok law (rc_entries r)"
  shows "change_ok law r [fst (rec_deregister key p r)] (snd (rec_deregister key p r))"
proof -
  let ?es = "lst (rc_entries r) key" and ?r = "snd (rec_deregister key p r)"
  have ok: "list_ok law key (filter (\<lambda>e. re_path e \<noteq> p) ?es)" using list_ok_lst [OF assms] by (rule list_ok_filter)
  have lists: "lst (rc_entries ?r) k = (if k = key then filter (\<lambda>e. re_path e \<noteq> p) ?es else lst (rc_entries r) k)" for k
    by (auto simp: rec_deregister_def Let_def lst_def map_of_update map_of_delete split: option.splits)
  have "entries_ok law (rc_entries ?r)"
  proof (cases "map_of (rc_entries r) key")
    case (Some es)
    then have "list_ok law key (filter (\<lambda>e. re_path e \<noteq> p) es)" using ok by (simp add: lst_def)
    then show ?thesis using Some assms by (simp add: rec_deregister_def Let_def entries_ok_update entries_ok_delete)
  qed (use assms in \<open>simp add: rec_deregister_def\<close>)
  moreover have "fold apply_event (filter (\<lambda>ev. event_key ev = k) [Unregistered key p]) (re_path ` set (lst (rc_entries r) k)) =
      re_path ` set (lst (rc_entries ?r) k)" for k
    by (auto simp: lists apply_event_def)
  ultimately show ?thesis by (simp add: change_ok_def rec_deregister_def)
qed

lemma publish_ok:
  "discovery_ok law r \<Longrightarrow> change_ok law r [ev] r' \<Longrightarrow> discovery_ok law (rec_broadcast ev r')"
  using change_broadcast [of law r "[ev]" r'] by (simp add: broadcast_all_def)

lemma owners_irrelevant: "change_ok law r evs r' \<Longrightarrow> change_ok law r evs (r'\<lparr>rc_owners := os\<rparr>)"
  by (simp add: change_ok_def)

lemma table_entries: "discovery_ok law r \<Longrightarrow> entries_ok law (rc_entries r)"
  by (simp add: discovery_ok_def)

lemma remove_owned_ok: "discovery_ok law r \<Longrightarrow> discovery_ok law (remove_owned g b r)"
  by (auto simp: remove_owned_def publish_event_def intro: publish_ok deregister_change table_entries)

lemma fold_remove_owned_ok: "discovery_ok law r \<Longrightarrow> discovery_ok law (fold (remove_owned g) bs r)"
  by (induction bs arbitrary: r) (auto intro: remove_owned_ok)

lemma send_snapshot_sent: "send_snapshot evs c = Some c' \<Longrightarrow> ch_sent c' = ch_sent c @ evs"
  by (induction evs arbitrary: c) (auto simp: bind_eq_Some_conv dest!: try_send_Some)

text \<open>A new subscription starts with the snapshot and does not panic while the snapshot fits a channel.\<close>

lemma send_snapshot_fits:
  "ch_open c \<Longrightarrow> length (ch_sent c) - ch_taken c + length evs \<le> ch_room c \<Longrightarrow> ch_taken c \<le> length (ch_sent c) \<Longrightarrow>
     \<exists>c'. send_snapshot evs c = Some c'"
  by (induction evs arbitrary: c) (auto simp: try_send_def)

lemma subscribe_total:
  assumes "length (lst (rc_entries r) key) \<le> cap_max" and "length (lst (rc_entries r) key) \<le> u64_max"
  shows "subscribe_deferred cap_max key buf r \<noteq> None"
proof -
  let ?n = "length (lst (rc_entries r) key)"
  have "?n \<le> min (saturating_add ?n (max buf 1)) cap_max" using assms by (simp add: saturating_add_def)
  then show ?thesis
    using send_snapshot_fits [of "\<lparr>ch_room = min (saturating_add ?n (max buf 1)) cap_max, ch_sent = [], ch_taken = 0, ch_open = True\<rparr>"
        "map (\<lambda>e. Registered (re_key e) (re_path e)) (lst (rc_entries r) key)"]
    by (auto simp: subscribe_deferred_def Let_def entries_of_lst)
qed

lemma come_eq: "(\<lambda>e. Registered (re_key e) (re_path e)) = come"
  by (simp add: fun_eq_iff come_def)

lemma subscribe_ok:
  assumes ok: "discovery_ok law r" and sub: "subscribe_deferred cap_max key buf r = Some (c, r')"
  shows "discovery_ok law r' \<and> c = length (rc_channels r) \<and> c \<in> set (lst (rc_subscribers r') key) \<and> rc_owners r' = rc_owners r"
proof -
  let ?f = "\<lambda>(k, cs). (k, filter (\<lambda>c. ch_open (rc_channels r ! c)) cs)"
  let ?subs = "drop_empty (map ?f (rc_subscribers r))"
  obtain chan where chan: "ch_sent chan = map come (lst (rc_entries r) key)"
    and c: "c = length (rc_channels r)"
    and r': "r' = r\<lparr>rc_subscribers := AList.update key (lst ?subs key @ [c]) ?subs, rc_channels := rc_channels r @ [chan]\<rparr>"
    using sub by (auto simp: subscribe_deferred_def Let_def entries_of_lst lst_def come_eq dest!: send_snapshot_sent)
  have subs: "subs_ok r" using ok by (simp add: discovery_ok_def)
  have keys: "map fst (map ?f (rc_subscribers r)) = map fst (rc_subscribers r)" by (auto simp: comp_def split: prod.splits)
  have dist: "distinct (map fst (map ?f (rc_subscribers r)))" using subs unfolding keys by (simp add: subs_ok_def)
  have old: "lst ?subs k = filter (\<lambda>c. ch_open (rc_channels r ! c)) (lst (rc_subscribers r) k)" for k
    using lst_drop_empty [OF dist, of k] lst_map [of "filter (\<lambda>c. ch_open (rc_channels r ! c))" "rc_subscribers r" k] by simp
  have new: "lst (rc_subscribers r') k = lst ?subs k @ (if k = key then [c] else [])" for k by (simp add: r')
  have below: "x < c" if "x \<in> set (lst ?subs k)" for x k using that subs c by (auto simp: old subs_ok_def)
  have one: "k = k'" if "x \<in> set (lst (rc_subscribers r') k)" "x \<in> set (lst (rc_subscribers r') k')" for x k k'
    using that subs below by (fastforce simp: new old subs_ok_def split: if_splits)
  have "subs_ok r'"
    unfolding subs_ok_def
  proof (intro conjI)
    show "distinct (map fst (rc_subscribers r'))" using keys_drop_empty [OF dist] by (simp add: r' distinct_update)
    show "\<forall>k. distinct (lst (rc_subscribers r') k)" using subs below by (fastforce simp: new old subs_ok_def)
    show "\<forall>k. \<forall>x \<in> set (lst (rc_subscribers r') k). x < length (rc_channels r')"
    proof (intro allI ballI)
      fix k x
      assume "x \<in> set (lst (rc_subscribers r') k)"
      then have "x \<le> c" using below [of x k] by (auto simp: new split: if_splits)
      then show "x < length (rc_channels r')" by (simp add: r' c)
    qed
  qed (use one in blast)
  moreover have "event_view (ch_sent (rc_channels r' ! x)) = re_path ` set (lst (rc_entries r') k)"
    if "x \<in> set (lst (rc_subscribers r') k)" for x k
  proof (cases "x = c")
    case True
    then have "k = key" using that below by (auto simp: new split: if_splits)
    then show ?thesis using True by (simp add: r' c chan event_view_def fold_come)
  next
    case False
    then have "x \<in> set (lst (rc_subscribers r) k)" "x < c" using that below by (auto simp: new old split: if_splits)
    then show ?thesis using ok by (simp add: r' c nth_append discovery_ok_def)
  qed
  ultimately show ?thesis using ok new c by (auto simp: discovery_ok_def r')
qed

section \<open>A node over time\<close>

datatype rec_op =
    Op_Register string string | Op_Deregister string string | Op_Subscribe string
  | Op_Register_Scoped string string nat | Op_Deregister_Scoped string string nat
  | Op_Close nat | Op_Retire nat
  | Op_Sync "string list" rec_peer rec_sync | Op_Sweep "string list"
  | Op_Take nat nat | Op_Hang_Up nat | Op_Shut_Down

text \<open>A consumer takes events that wait for it, or goes away.\<close>

definition on_channel :: "nat \<Rightarrow> (channel \<Rightarrow> channel) \<Rightarrow> receptionist \<Rightarrow> receptionist" where
  "on_channel c f r = (if c < length (rc_channels r) then r\<lparr>rc_channels := (rc_channels r)[c := f (rc_channels r ! c)]\<rparr> else r)"

text \<open>Only a remote system receives snapshots and runs the periodic task.\<close>

primrec rec_step :: "nat \<Rightarrow> rec_op \<Rightarrow> rec_host \<Rightarrow> rec_host" where
  "rec_step cap (Op_Register k p) h = snd (facade_register k p h)"
| "rec_step cap (Op_Deregister k p) h = snd (facade_deregister k p h)"
| "rec_step cap (Op_Subscribe k) h = snd (facade_subscribe cap k h)"
| "rec_step cap (Op_Register_Scoped k p g) h = snd (register_scoped k p g h)"
| "rec_step cap (Op_Deregister_Scoped k p g) h = snd (deregister_scoped k p g h)"
| "rec_step cap (Op_Close g) h = scope_close g h"
| "rec_step cap (Op_Retire g) h = scope_retire g h"
| "rec_step cap (Op_Sync alive p s) h = (if ho_system h then snd (receive_sync alive p s h) else h)"
| "rec_step cap (Op_Sweep alive) h = (if ho_system h then snd (sweep alive h) else h)"
| "rec_step cap (Op_Take c n) h = h\<lparr>ho_table := on_channel c (\<lambda>ch. ch\<lparr>ch_taken := min (ch_taken ch + n) (length (ch_sent ch))\<rparr>) (ho_table h)\<rparr>"
| "rec_step cap (Op_Hang_Up c) h = h\<lparr>ho_table := on_channel c (\<lambda>ch. ch\<lparr>ch_open := False\<rparr>) (ho_table h)\<rparr>"
| "rec_step cap Op_Shut_Down h = h\<lparr>ho_down := True\<rparr>"

definition host_new :: "bool \<Rightarrow> string \<Rightarrow> acl_rules \<Rightarrow> rec_host" where
  "host_new sys node acl = \<lparr>ho_node = node, ho_acl = acl, ho_system = sys, ho_down = False, ho_table = receptionist_new, ho_scopes = (\<lambda>_. scope_new)\<rparr>"

definition table_law_of :: "rec_host \<Rightarrow> table_law" where
  "table_law_of h = (if ho_system h then None else Some (ho_node h), ho_acl h)"

definition rec_run :: "nat \<Rightarrow> rec_op list \<Rightarrow> rec_host \<Rightarrow> rec_host" where
  "rec_run cap ops h = fold (rec_step cap) ops h"

lemma on_channel_ok:
  assumes "discovery_ok acl r" and "\<And>ch. ch_sent (f ch) = ch_sent ch"
  shows "discovery_ok acl (on_channel c f r)"
proof -
  have "ch_sent (rc_channels (on_channel c f r) ! x) = ch_sent (rc_channels r ! x)" for x
    using assms(2) by (cases "x = c") (auto simp: on_channel_def)
  moreover have "rc_subscribers (on_channel c f r) = rc_subscribers r" "rc_entries (on_channel c f r) = rc_entries r"
    "length (rc_channels (on_channel c f r)) = length (rc_channels r)" by (simp_all add: on_channel_def)
  ultimately show ?thesis using assms(1) by (simp add: discovery_ok_def subs_ok_def)
qed

lemma qualify_home: "path_qualify node p = Some q \<Longrightarrow> \<exists>l. path_split q = Some (node, l)"
  by (auto simp: path_qualify_def Let_def split: if_splits option.splits)

lemma table_law_simps [simp]:
  "table_law_of (h\<lparr>ho_table := r\<rparr>) = table_law_of h" "table_law_of (h\<lparr>ho_scopes := scs\<rparr>) = table_law_of h"
  "table_law_of (h\<lparr>ho_scopes := scs, ho_table := r\<rparr>) = table_law_of h" "table_law_of (h\<lparr>ho_down := d\<rparr>) = table_law_of h"
  by (simp_all add: table_law_of_def)

lemma enter_homed:
  "rec_enter key path h = Inr p \<Longrightarrow> homed (table_law_of h) \<lparr>re_key = key, re_path = p, re_node = ho_node h\<rparr>"
  by (auto simp: rec_enter_def registration_path_def table_law_of_def homed_def split: if_splits option.splits sum.splits dest: qualify_home)

lemma sync_homed:
  "\<not> sync_refused p s h \<Longrightarrow> ho_system h \<Longrightarrow> \<forall>e \<in> set (sy_entries s). homed (table_law_of h) e"
  by (fastforce simp: sync_refused_def homed_def table_law_of_def split: option.splits)

lemma step_table_ok:
  assumes ok: "discovery_ok (table_law_of h) (ho_table h)"
  shows "discovery_ok (table_law_of h) (ho_table (rec_step cap op h)) \<and> table_law_of (rec_step cap op h) = table_law_of h"
proof (cases op)
  case (Op_Register k p)
  then show ?thesis using ok
    by (auto simp: facade_register_def publish_event_def split: sum.splits
        intro!: publish_ok register_change table_entries enter_homed)
next
  case (Op_Deregister k p)
  then show ?thesis using ok
    by (auto simp: facade_deregister_def publish_event_def split: sum.splits
        intro!: publish_ok deregister_change table_entries)
next
  case (Op_Subscribe k)
  then show ?thesis using ok by (auto simp: facade_subscribe_def split: option.splits dest: subscribe_ok)
next
  case (Op_Register_Scoped k p g)
  show ?thesis
  proof (cases "rec_enter k p h")
    case (Inr q)
    have "discovery_ok (table_law_of h) (rec_broadcast (fst x) ((snd x)\<lparr>rc_owners := os\<rparr>))"
      if "x = rec_register (ho_node h) k q (ho_table h)" for x os
      unfolding that using ok enter_homed [OF Inr]
      by (intro publish_ok [OF ok] owners_irrelevant register_change table_entries [OF ok])
    then show ?thesis using ok Inr Op_Register_Scoped
      by (auto simp: register_scoped_def split: sum.splits prod.splits)
  qed (use ok Op_Register_Scoped in \<open>simp add: register_scoped_def\<close>)
next
  case (Op_Sync alive p s)
  have "discovery_ok (table_law_of h) (broadcast_all evs r)" if "merge_sync s (ho_table h) = (evs, r)" "\<not> sync_refused p s h" "ho_system h" for evs r
    using that by (intro change_broadcast [OF ok] merge_change [OF _ table_entries [OF ok]] sync_homed)
  then show ?thesis using ok Op_Sync by (auto simp: receive_sync_def split: prod.splits)
next
  case (Op_Sweep alive)
  have "discovery_ok (table_law_of h) (broadcast_all evs r)" if "remove_unavailable (ho_node h) alive (ho_table h) = (evs, r)" for evs r
    using that unfolding remove_unavailable_def by (intro change_broadcast [OF ok] remove_change [OF _ table_entries [OF ok]])
  then show ?thesis using ok Op_Sweep by (auto simp: sweep_def Let_def split: prod.splits)
qed (use ok in \<open>auto simp: deregister_scoped_def scope_close_def scope_retire_def Let_def
      split: sum.splits intro: remove_owned_ok fold_remove_owned_ok on_channel_ok\<close>)

lemma run_table_ok:
  "discovery_ok (table_law_of h) (ho_table h) \<Longrightarrow> discovery_ok (table_law_of h) (ho_table (rec_run cap ops h)) "
proof (induction ops arbitrary: h)
  case (Cons op ops)
  note st = step_table_ok [OF Cons.prems, of cap op]
  then show ?case using Cons.IH [of "rec_step cap op h"] by (simp add: rec_run_def)
qed (simp add: rec_run_def)

lemma new_table_ok: "discovery_ok law receptionist_new"
  by (simp add: discovery_ok_def receptionist_new_def subs_ok_def entries_ok_def)

text \<open>
  C14. Discovery is consistent. Whatever registrations, deregistrations and subscriptions the node serves, whatever
  actor generations retire, whatever snapshots peers send and members depart, and however slowly consumers read:
  every entry of the table stands under its key, which the access rules grant to the node of the entry, and no two
  entries of a key have the same path; in a remote system every entry names a path of its own node, and in a
  facade on its own, which takes paths as they are, every entry belongs to the node of the facade; and the events that
  a live subscription has been sent, taken in order, add up to exactly the paths that the table holds for its key.
\<close>

theorem subscribers_see_the_table:
  assumes run: "h = rec_run cap ops (host_new sys node acl)"
  shows "distinct (map re_path (rec_lookup k (ho_table h))) \<and>
    (\<forall>e \<in> set (rec_lookup k (ho_table h)). re_key e = k \<and> acl_check (re_node e) k acl = Allow \<and>
       (if sys then \<exists>l. path_split (re_path e) = Some (re_node e, l) else re_node e = node)) \<and>
    (\<forall>c \<in> set (subscribers_of k (ho_table h)). c < length (rc_channels (ho_table h)) \<and>
       event_view (ch_sent (rc_channels (ho_table h) ! c)) = re_path ` set (rec_lookup k (ho_table h)))"
proof -
  let ?law = "(if sys then None else Some node, acl)"
  have "table_law_of (host_new sys node acl) = ?law" "ho_table (host_new sys node acl) = receptionist_new"
    by (auto simp: host_new_def table_law_of_def)
  then have ok: "discovery_ok ?law (ho_table h)"
    using run_table_ok [of "host_new sys node acl" cap ops] new_table_ok by (simp add: run)
  then have es: "list_ok ?law k (lst (rc_entries (ho_table h)) k)" by (intro list_ok_lst table_entries)
  then have "distinct (map re_path (lst (rc_entries (ho_table h)) k))"
    using list_ok_inj [OF es] by (simp add: list_ok_def distinct_map)
  then show ?thesis
    using ok es by (auto simp: discovery_ok_def subs_ok_def rec_lookup_def entries_of_lst subscribers_of_lst list_ok_def homed_def)
qed

definition example_discovery :: "rec_op list" where
  "example_discovery =
     [Op_Register ''edge/echo'' ''/user/a'', Op_Subscribe ''edge/echo'', Op_Register ''edge/echo'' ''/user/b'',
      Op_Sync [''n2''] \<lparr>pe_node = ''n2'', pe_cluster = True, pe_sync = True, pe_native = False, pe_current = True\<rparr>
        \<lparr>sy_from = ''n2'', sy_entries = [\<lparr>re_key = ''edge/echo'', re_path = ''parrot://n2/user/c'', re_node = ''n2''\<rparr>]\<rparr>,
      Op_Deregister ''edge/echo'' ''/user/a'']"

theorem subscribers_see_the_table_witness:
  "event_view (ch_sent (rc_channels (ho_table (rec_run 100 example_discovery (host_new True ''n1'' acl_permissive))) ! 0)) =
     {''parrot://n1/user/b'', ''parrot://n2/user/c''}"
proof -
  let ?h = "rec_run 100 example_discovery (host_new True ''n1'' acl_permissive)"
  have sub: "0 \<in> set (subscribers_of ''edge/echo'' (ho_table ?h))" by code_simp
  have "map re_path (rec_lookup ''edge/echo'' (ho_table ?h)) = [''parrot://n1/user/b'', ''parrot://n2/user/c'']" by code_simp
  from arg_cong [OF this, of set]
  have eq: "re_path ` set (rec_lookup ''edge/echo'' (ho_table ?h)) = {''parrot://n1/user/b'', ''parrot://n2/user/c''}"
    by (simp only: set_map list.set)
  have "event_view (ch_sent (rc_channels (ho_table ?h) ! 0)) = re_path ` set (rec_lookup ''edge/echo'' (ho_table ?h))"
    using subscribers_see_the_table [OF refl, of "''edge/echo''" 100 example_discovery True "''n1''" acl_permissive] sub by blast
  then show ?thesis using eq by (rule trans)
qed

section \<open>Actor generations\<close>

text \<open>A registration that a generation owns is one of its bindings.\<close>

definition owners_ok :: "rec_host \<Rightarrow> bool" where
  "owners_ok h \<longleftrightarrow> (\<forall>b g. map_of (rc_owners (ho_table h)) b = Some g \<longrightarrow> b \<in> set (sc_bindings (ho_scopes h g)))"

lemma broadcast_owners [simp]: "rc_owners (rec_broadcast ev r) = rc_owners r"
  by (auto simp: rec_broadcast_def split: option.splits prod.splits)

lemma broadcast_all_owners [simp]: "rc_owners (broadcast_all evs r) = rc_owners r"
  by (induction evs arbitrary: r) (simp_all add: broadcast_all_def)

lemma forget_owners:
  "map_of (rc_owners (forget_removed_owners evs r)) b = Some g \<Longrightarrow> map_of (rc_owners r) b = Some g"
proof -
  have "map_of (fold (\<lambda>ev os. case ev of Unregistered k p \<Rightarrow> AList.delete (k, p) os | Registered k p \<Rightarrow> os) evs os) b = Some g
      \<Longrightarrow> map_of os b = Some g" for os
  proof (induction evs arbitrary: os)
    case (Cons ev evs)
    then show ?case by (cases ev) (force simp: map_of_delete split: if_splits)+
  qed simp
  then show "map_of (rc_owners (forget_removed_owners evs r)) b = Some g \<Longrightarrow> map_of (rc_owners r) b = Some g"
    by (simp add: forget_removed_owners_def)
qed

lemma merge_owners: "merge_sync s r = (evs, r') \<Longrightarrow> map_of (rc_owners r') b = Some g \<Longrightarrow> map_of (rc_owners r) b = Some g"
  by (auto simp: merge_sync_def split: if_splits prod.splits dest: forget_owners)

lemma remove_where_owners: "remove_where P r = (evs, r') \<Longrightarrow> map_of (rc_owners r') b = Some g \<Longrightarrow> map_of (rc_owners r) b = Some g"
  by (auto simp: remove_where_def Let_def dest: forget_owners)

lemma remove_owned_owners:
  "map_of (rc_owners (remove_owned g b r)) b' = (if b' = b \<and> map_of (rc_owners r) b = Some g then None else map_of (rc_owners r) b')"
  by (cases b) (auto simp: remove_owned_def publish_event_def rec_deregister_def map_of_delete)

lemma fold_remove_owned_owners:
  "map_of (rc_owners (fold (remove_owned g) bs r)) b = Some g' \<Longrightarrow>
     map_of (rc_owners r) b = Some g' \<and> \<not> (b \<in> set bs \<and> g' = g)"
  by (induction bs arbitrary: r) (fastforce simp: remove_owned_owners split: if_splits)+

lemma scope_bindings:
  "scope_publish b sc = Inr sc' \<Longrightarrow> set (sc_bindings sc') = insert b (set (sc_bindings sc))"
  "scope_withdraw b sc = Inr sc' \<Longrightarrow> set (sc_bindings sc') = set (sc_bindings sc) - {b}"
  by (auto simp: scope_publish_def scope_withdraw_def split: if_splits)

lemma step_owners_ok:
  assumes "owners_ok h"
  shows "owners_ok (rec_step cap op h)"
proof (cases op)
  case (Op_Register k p)
  then show ?thesis using assms
    by (auto simp: owners_ok_def facade_register_def publish_event_def rec_register_def Let_def map_of_delete split: sum.splits)
next
  case (Op_Deregister k p)
  then show ?thesis using assms
    by (auto simp: owners_ok_def facade_deregister_def publish_event_def rec_deregister_def map_of_delete split: sum.splits)
next
  case (Op_Subscribe k)
  have "rc_owners r = rc_owners (ho_table h)" if "subscribe_deferred cap k 64 (ho_table h) = Some (c, r)" for c r
    using that by (auto simp: subscribe_deferred_def Let_def)
  then show ?thesis using assms Op_Subscribe by (auto simp: owners_ok_def facade_subscribe_def split: option.splits)
next
  case (Op_Register_Scoped k p g)
  then show ?thesis using assms
    by (auto simp: owners_ok_def register_scoped_def rec_register_def Let_def map_of_update map_of_delete scope_bindings(1)
        split: sum.splits if_splits)
next
  case (Op_Deregister_Scoped k p g)
  then show ?thesis using assms
    by (auto simp: owners_ok_def deregister_scoped_def remove_owned_owners scope_bindings(2) split: sum.splits if_splits)
next
  case (Op_Retire g)
  then show ?thesis using assms
    by (fastforce simp: owners_ok_def scope_retire_def Let_def dest: fold_remove_owned_owners)
next
  case (Op_Sync alive p s)
  then show ?thesis using assms
    by (auto simp: owners_ok_def receive_sync_def split: prod.splits dest: merge_owners)
next
  case (Op_Sweep alive)
  then show ?thesis using assms
    by (auto simp: owners_ok_def sweep_def Let_def remove_unavailable_def split: prod.splits dest: remove_where_owners)
qed (use assms in \<open>auto simp: owners_ok_def scope_close_def on_channel_def\<close>)

lemma run_owners_ok: "owners_ok h \<Longrightarrow> owners_ok (rec_run cap ops h)"
  by (induction ops arbitrary: h) (auto simp: rec_run_def step_owners_ok)

text \<open>A retired generation owns no registration, and never will again.\<close>

definition retired :: "nat \<Rightarrow> rec_host \<Rightarrow> bool" where
  "retired g h \<longleftrightarrow> sc_closed (ho_scopes h g) \<and> (\<forall>b. map_of (rc_owners (ho_table h)) b \<noteq> Some g)"

lemma retire_retires: "owners_ok h \<Longrightarrow> \<not> sc_retiring (ho_scopes h g) \<Longrightarrow> retired g (scope_retire g h)"
  by (fastforce simp: owners_ok_def retired_def scope_retire_def Let_def dest: fold_remove_owned_owners)

lemma retired_step:
  assumes "retired g h"
  shows "retired g (rec_step cap op h)"
proof (cases op)
  case (Op_Register k p)
  then show ?thesis using assms
    by (auto simp: retired_def facade_register_def publish_event_def rec_register_def Let_def map_of_delete split: sum.splits)
next
  case (Op_Deregister k p)
  then show ?thesis using assms
    by (auto simp: retired_def facade_deregister_def publish_event_def rec_deregister_def map_of_delete split: sum.splits)
next
  case (Op_Subscribe k)
  have "rc_owners r = rc_owners (ho_table h)" if "subscribe_deferred cap k 64 (ho_table h) = Some (c, r)" for c r
    using that by (auto simp: subscribe_deferred_def Let_def)
  then show ?thesis using assms Op_Subscribe by (auto simp: retired_def facade_subscribe_def split: option.splits)
next
  case (Op_Register_Scoped k p g')
  have "g' \<noteq> g \<and> \<not> sc_closed sc" if "scope_publish b (ho_scopes h g') = Inr sc" for b sc
    using that assms by (auto simp: retired_def scope_publish_def split: if_splits)
  then show ?thesis using assms Op_Register_Scoped
    by (auto simp: retired_def register_scoped_def rec_register_def Let_def map_of_update map_of_delete split: sum.splits)
next
  case (Op_Deregister_Scoped k p g')
  have "g' \<noteq> g" if "scope_withdraw b (ho_scopes h g') = Inr sc" for b sc
    using that assms by (auto simp: retired_def scope_withdraw_def split: if_splits)
  then show ?thesis using assms Op_Deregister_Scoped
    by (auto simp: retired_def deregister_scoped_def remove_owned_owners split: sum.splits)
next
  case (Op_Retire g')
  then show ?thesis using assms
    by (fastforce simp: retired_def scope_retire_def Let_def dest: fold_remove_owned_owners)
next
  case (Op_Sync alive p s)
  then show ?thesis using assms by (auto simp: retired_def receive_sync_def split: prod.splits dest: merge_owners)
next
  case (Op_Sweep alive)
  then show ?thesis using assms
    by (auto simp: retired_def sweep_def Let_def remove_unavailable_def split: prod.splits dest: remove_where_owners)
qed (use assms in \<open>auto simp: retired_def scope_close_def on_channel_def\<close>)

lemma retired_forever: "retired g h \<Longrightarrow> retired g (rec_run cap ops h)"
  by (induction ops arbitrary: h) (auto simp: rec_run_def retired_step)

end
