(* ===== verification/Topology.thy ===== *)
theory Topology
  imports Newest Bytes Tables "HOL-Library.Product_Lexorder"
begin

text \<open>
  Routes between nodes: entries, tables, gossip and compaction (\<^verbatim>\<open>topology.rs\<close>), the relay of a hub with its
  bounded map of correlations (\<^verbatim>\<open>roles/hub.rs\<close>) and the route reflector (\<^verbatim>\<open>roles/route_reflector.rs\<close>).

  A hash map is an association list; where the source walks through one, the order of the walk is the
  argument \<open>it\<close>. A \<^verbatim>\<open>None\<close> of \<open>compact\<close> is the panic of its \<^verbatim>\<open>expect\<close>, a \<^verbatim>\<open>None\<close> of \<open>relay_ask\<close> the overflow of the counter.
\<close>

section \<open>Reversed orders\<close>

text \<open>\<^verbatim>\<open>std::cmp::Reverse\<close>.\<close>

datatype 'a reverse = Reverse 'a

primrec unreverse :: "'a reverse \<Rightarrow> 'a" where
  "unreverse (Reverse x) = x"

instantiation reverse :: (linorder) linorder
begin

definition less_eq_reverse :: "'a reverse \<Rightarrow> 'a reverse \<Rightarrow> bool" where
  "less_eq_reverse a b \<longleftrightarrow> unreverse b \<le> unreverse a"

definition less_reverse :: "'a reverse \<Rightarrow> 'a reverse \<Rightarrow> bool" where
  "less_reverse a b \<longleftrightarrow> unreverse b < unreverse a"

instance
proof
  fix a b c :: "'a reverse"
  show "a < b \<longleftrightarrow> a \<le> b \<and> \<not> b \<le> a" by (auto simp: less_eq_reverse_def less_reverse_def)
  show "a \<le> a" by (simp add: less_eq_reverse_def)
  show "a \<le> b \<Longrightarrow> b \<le> c \<Longrightarrow> a \<le> c" by (simp add: less_eq_reverse_def)
  show "a \<le> b \<Longrightarrow> b \<le> a \<Longrightarrow> a = b" by (cases a; cases b) (simp add: less_eq_reverse_def)
  show "a \<le> b \<or> b \<le> a" by (auto simp: less_eq_reverse_def)
qed

end

lemma reverse_simps [simp]:
  "Reverse a \<le> Reverse b \<longleftrightarrow> b \<le> a" "Reverse a < Reverse b \<longleftrightarrow> b < a"
  by (simp_all add: less_eq_reverse_def less_reverse_def)

text \<open>\<^verbatim>\<open>Iterator::min_by\<close>: the first of the least elements.\<close>

fun min_by :: "('a \<Rightarrow> 'k :: linorder) \<Rightarrow> 'a list \<Rightarrow> 'a option" where
  "min_by key [] = None"
| "min_by key (x # xs) =
     (case min_by key xs of None \<Rightarrow> Some x | Some y \<Rightarrow> if key y < key x then Some y else Some x)"

primrec find_map :: "('a \<Rightarrow> 'b option) \<Rightarrow> 'a list \<Rightarrow> 'b option" where
  "find_map f [] = None"
| "find_map f (x # xs) = (case f x of None \<Rightarrow> find_map f xs | Some y \<Rightarrow> Some y)"

section \<open>Route tables\<close>

record route_entry =
  rt_prefix :: string
  rt_next_hop :: string
  rt_cost :: nat
  rt_version :: nat

record route_gossip =
  rg_entries :: "route_entry list"
  rg_digest :: u64w

type_synonym route_table = "(string \<times> route_entry) list"

definition route_key :: "route_entry \<Rightarrow> nat reverse \<times> nat \<times> string" where
  "route_key e = (Reverse (rt_version e), rt_cost e, rt_next_hop e)"

definition preferred_to :: "route_entry \<Rightarrow> route_entry \<Rightarrow> bool" where
  "preferred_to e cur \<longleftrightarrow> route_key e < route_key cur"

definition mix64 :: "u64w \<Rightarrow> u64w" where
  "mix64 z =
     (let z = (z XOR drop_bit 30 z) * 0xbf58476d1ce4e5b9;
          z = (z XOR drop_bit 27 z) * 0x94d049bb133111eb
      in z XOR drop_bit 31 z)"

definition route_bytes :: "route_entry \<Rightarrow> byte list" where
  "route_bytes e =
     le_bytes 8 (length (rt_prefix e)) @ str_bytes (rt_prefix e) @ le_bytes 8 (length (rt_next_hop e)) @
     str_bytes (rt_next_hop e) @ le_bytes 4 (rt_cost e) @ le_bytes 8 (rt_version e)"

definition route_digest :: "route_entry list \<Rightarrow> u64w" where
  "route_digest es = foldl (\<lambda>d e. d XOR mix64 (fnv_bytes fnv_offset (route_bytes e))) 0 es"

definition table_resolve :: "string \<Rightarrow> route_table \<Rightarrow> route_entry option" where
  "table_resolve target t =
     min_by (\<lambda>e. (Reverse (length (rt_prefix e)), rt_cost e, rt_prefix e))
       (filter (\<lambda>e. prefix (rt_prefix e) target) (map snd t))"

definition improves :: "route_entry \<Rightarrow> route_table \<Rightarrow> bool" where
  "improves e t \<longleftrightarrow> (case map_of t (rt_prefix e) of Some cur \<Rightarrow> preferred_to e cur | None \<Rightarrow> True)"

definition install :: "route_entry \<Rightarrow> route_table \<Rightarrow> route_table" where
  "install e t = (if improves e t then AList.update (rt_prefix e) e t else t)"

definition route_merge :: "route_gossip \<Rightarrow> route_table \<Rightarrow> nat \<times> route_table" where
  "route_merge g t =
     foldl (\<lambda>(taken, t) e. (if improves e t then taken + 1 else taken, install e t)) (0, t) (rg_entries g)"

definition table_digest :: "route_table \<Rightarrow> u64w" where
  "table_digest t = route_digest (map snd t)"

definition direct_to :: "string \<Rightarrow> route_table \<Rightarrow> bool" where
  "direct_to node t \<longleftrightarrow> (\<exists>e \<in> set (map snd t). rt_next_hop e = node \<and> rt_cost e = 1)"

text \<open>One more hop within the limit; \<^term>\<open>None\<close> is \<^verbatim>\<open>HopExceeded\<close>.\<close>

definition hop_forward :: "byte \<Rightarrow> byte \<Rightarrow> byte option" where
  "hop_forward hops limit = (if hops \<noteq> 255 \<and> hops + 1 < limit then Some (hops + 1) else None)"

section \<open>Compaction\<close>

definition SUPERNET_THRESHOLD :: nat where
  "SUPERNET_THRESHOLD = 10000"

record supernet_report =
  sr_before :: nat
  sr_after :: nat
  sr_ratio :: nat

type_synonym buckets = "(string \<times> route_entry list) list"

record aggregator =
  ag_routes :: buckets
  ag_report :: supernet_report

definition bucket_of :: "string \<Rightarrow> buckets \<Rightarrow> route_entry list" where
  "bucket_of p m = (case map_of m p of None \<Rightarrow> [] | Some es \<Rightarrow> es)"

definition fill_buckets :: "route_entry list \<Rightarrow> buckets" where
  "fill_buckets es = foldl (\<lambda>m e. AList.update (rt_prefix e) (bucket_of (rt_prefix e) m @ [e]) m) [] es"

definition cheapest :: "route_entry list \<Rightarrow> route_entry option" where
  "cheapest es = min_by (\<lambda>e. (rt_cost e, rt_next_hop e)) es"

text \<open>
  The offsets at which a character of the target starts, from the end, after the length of the target itself.
  In UTF-8 these are the positions of the bytes that are not continuation bytes.
\<close>

definition char_start :: "string \<Rightarrow> nat \<Rightarrow> bool" where
  "char_start s i \<longleftrightarrow> \<not> (128 \<le> (of_char (s ! i) :: nat) \<and> (of_char (s ! i) :: nat) < 192)"

definition probe_ends :: "string \<Rightarrow> nat list" where
  "probe_ends target = length target # rev (filter (char_start target) [0..<length target])"

definition resolve_entries :: "buckets \<Rightarrow> string \<Rightarrow> route_entry option" where
  "resolve_entries m target =
     find_map (\<lambda>n. Option.bind (map_of m (take n target)) cheapest) (probe_ends target)"

definition covered :: "buckets \<Rightarrow> string \<Rightarrow> route_entry \<Rightarrow> bool" where
  "covered m p sel \<longleftrightarrow>
     (case resolve_entries m p of
        None \<Rightarrow> False
      | Some c \<Rightarrow> rt_next_hop c = rt_next_hop sel \<and> rt_cost c = rt_cost sel \<and> rt_version c = rt_version sel)"

primrec compact_loop :: "buckets \<Rightarrow> buckets \<Rightarrow> buckets option" where
  "compact_loop [] m = Some m"
| "compact_loop (b # bs) m =
     (case cheapest (snd b) of
        None \<Rightarrow> None
      | Some sel \<Rightarrow>
          compact_loop bs (if covered m (fst b) sel then m else AList.update (fst b) (snd b) m))"

definition bucket_count :: "buckets \<Rightarrow> nat" where
  "bucket_count m = sum_list (map (length \<circ> snd) m)"

definition compact :: "(buckets \<Rightarrow> buckets) \<Rightarrow> route_entry list \<Rightarrow> aggregator \<Rightarrow> aggregator option" where
  "compact it es a =
     (let before = length es; m = fill_buckets es in
      if before \<le> SUPERNET_THRESHOLD
      then Some \<lparr>ag_routes = m, ag_report = \<lparr>sr_before = before, sr_after = before, sr_ratio = 1000\<rparr>\<rparr>
      else map_option (\<lambda>out.
             \<lparr>ag_routes = out,
              ag_report = \<lparr>sr_before = before, sr_after = bucket_count out,
                           sr_ratio = bucket_count out * 1000 div before\<rparr>\<rparr>)
           (compact_loop (sort_key (\<lambda>b. length (fst b)) (it m)) []))"

definition agg_resolve :: "aggregator \<Rightarrow> string \<Rightarrow> route_entry option" where
  "agg_resolve a target = resolve_entries (ag_routes a) target"

section \<open>The relay of a hub\<close>

record cid_map =
  cm_cap :: nat
  cm_order :: "nat list"
  cm_map :: "(nat \<times> (nat \<times> string)) list"

definition cid_map_new :: "nat \<Rightarrow> cid_map" where
  "cid_map_new cap = \<lparr>cm_cap = cap, cm_order = [], cm_map = []\<rparr>"

definition cid_touch :: "nat \<Rightarrow> cid_map \<Rightarrow> cid_map" where
  "cid_touch cid m =
     (if cid \<in> set (cm_order m) then m\<lparr>cm_order := remove1 cid (cm_order m) @ [cid]\<rparr> else m)"

definition cid_insert :: "nat \<Rightarrow> nat \<times> string \<Rightarrow> cid_map \<Rightarrow> cid_map" where
  "cid_insert cid orig m =
     (if cm_cap m = 0 then m
      else if map_of (cm_map m) cid \<noteq> None then cid_touch cid (m\<lparr>cm_map := AList.update cid orig (cm_map m)\<rparr>)
      else
        let m = (if length (cm_map m) \<ge> cm_cap m
                 then (case cm_order m of [] \<Rightarrow> m
                       | old # rest \<Rightarrow> m\<lparr>cm_order := rest, cm_map := AList.delete old (cm_map m)\<rparr>)
                 else m)
        in m\<lparr>cm_map := AList.update cid orig (cm_map m), cm_order := cm_order m @ [cid]\<rparr>)"

definition cid_get :: "nat \<Rightarrow> cid_map \<Rightarrow> (nat \<times> string) option \<times> cid_map" where
  "cid_get cid m =
     (let m = (if map_of (cm_map m) cid \<noteq> None then cid_touch cid m else m) in (map_of (cm_map m) cid, m))"

record relay_hub =
  hub_routes :: route_table
  hub_cids :: cid_map
  hub_next_cid :: nat

definition relay_hub_new :: "route_table \<Rightarrow> relay_hub" where
  "relay_hub_new routes = \<lparr>hub_routes = routes, hub_cids = cid_map_new 65536, hub_next_cid = 1\<rparr>"

datatype relay_error = NoRoute | RelayHopExceeded

definition alloc_cid :: "relay_hub \<Rightarrow> (nat \<times> relay_hub) option" where
  "alloc_cid h = map_option (\<lambda>n. (n, h\<lparr>hub_next_cid := n\<rparr>)) (checked_add (hub_next_cid h) 1)"

definition relay_ask :: "nat \<Rightarrow> string \<Rightarrow> string \<Rightarrow> byte \<Rightarrow> byte \<Rightarrow> relay_hub \<Rightarrow>
    ((relay_error + string \<times> nat \<times> byte) \<times> relay_hub) option" where
  "relay_ask orig_cid target reply_to hops limit h =
     (case table_resolve target (hub_routes h) of
        None \<Rightarrow> Some (Inl NoRoute, h)
      | Some e \<Rightarrow>
          (case hop_forward hops limit of
             None \<Rightarrow> Some (Inl RelayHopExceeded, h)
           | Some hop \<Rightarrow>
               map_option (\<lambda>(cid, h). (Inr (rt_next_hop e, cid, hop),
                   h\<lparr>hub_cids := cid_insert cid (orig_cid, reply_to) (hub_cids h)\<rparr>))
                 (alloc_cid h)))"

definition relay_reply :: "nat \<Rightarrow> relay_hub \<Rightarrow> (nat \<times> string) option \<times> relay_hub" where
  "relay_reply cid h = (case cid_get cid (hub_cids h) of (r, m) \<Rightarrow> (r, h\<lparr>hub_cids := m\<rparr>))"

section \<open>The route reflector\<close>

record route_reflector =
  rr_id :: string
  rr_clients :: "string list"
  rr_table :: route_table

definition reflector_new :: "string \<Rightarrow> string list \<Rightarrow> route_reflector" where
  "reflector_new i clients = \<lparr>rr_id = i, rr_clients = clients, rr_table = []\<rparr>"

fun accept_all :: "route_entry list \<Rightarrow> route_table \<Rightarrow> route_entry list \<times> route_table" where
  "accept_all [] t = ([], t)"
| "accept_all (e # es) t =
     (if \<not> improves e t then accept_all es t
      else case accept_all es (AList.update (rt_prefix e) e t) of (acc, t') \<Rightarrow> (e # acc, t'))"

definition reflect_from :: "string \<Rightarrow> route_gossip \<Rightarrow> route_reflector \<Rightarrow>
    (string \<times> route_entry list) list \<times> route_reflector" where
  "reflect_from client g rr =
     (case accept_all (rg_entries g) (rr_table rr) of (acc, t) \<Rightarrow>
        (if acc = [] then [] else map (\<lambda>c. (c, acc)) (filter (\<lambda>c. c \<noteq> client) (rr_clients rr)), rr\<lparr>rr_table := t\<rparr>))"

definition advertise_local :: "route_entry \<Rightarrow> route_reflector \<Rightarrow> (string \<times> route_entry list) list \<times> route_reflector" where
  "advertise_local e rr =
     (map (\<lambda>c. (c, [e])) (rr_clients rr), rr\<lparr>rr_table := AList.update (rt_prefix e) e (rr_table rr)\<rparr>)"

definition reflector_digest :: "route_reflector \<Rightarrow> u64w" where
  "reflector_digest rr = table_digest (rr_table rr)"

end
