(* ===== verification/Topology_Theorems.thy ===== *)
theory Topology_Theorems
  imports Topology
begin

text \<open>
  What routing promises: lookups choose the longest matching prefix, compaction does not change them, tables that
  merge the same routes agree, the clients of a reflector end up with its table, and a hub returns
  replies to where the question came from.
\<close>

section \<open>Searching\<close>

lemma min_by_None [simp]: "min_by key xs = None \<longleftrightarrow> xs = []"
  by (cases xs) (auto split: option.split)

lemma min_by_Some: "min_by key xs = Some x \<Longrightarrow> x \<in> set xs \<and> (\<forall>y \<in> set xs. key x \<le> key y)"
proof (induction xs arbitrary: x)
  case (Cons z xs)
  then show ?case by (cases "min_by key xs") (fastforce split: if_splits)+
qed simp

lemma min_by_set:
  assumes "set xs = set ys" and "inj_on key (set xs)"
  shows "min_by key xs = min_by key ys"
proof (cases "min_by key xs"; cases "min_by key ys")
  fix x y assume xy: "min_by key xs = Some x" "min_by key ys = Some y"
  then have "x \<in> set xs" "y \<in> set xs" "key x = key y"
    using min_by_Some [of key xs x] min_by_Some [of key ys y] assms(1) by (auto intro: antisym)
  then show ?thesis using assms(2) xy by (auto dest: inj_onD)
qed (use assms in auto)

lemma find_map_None: "find_map f xs = None \<longleftrightarrow> (\<forall>x \<in> set xs. f x = None)"
  by (induction xs) (auto split: option.splits)

lemma find_map_first:
  fixes xs :: "nat list"
  assumes "sorted_wrt (>) xs" and "x \<in> set xs" and "f x = Some y" and "\<forall>k \<in> set xs. x < k \<longrightarrow> f k = None"
  shows "find_map f xs = Some y"
  using assms by (induction xs) (auto split: option.splits)

lemma find_map_Some:
  fixes xs :: "nat list"
  assumes "sorted_wrt (>) xs" and "find_map f xs = Some y"
  shows "\<exists>x \<in> set xs. f x = Some y \<and> (\<forall>k \<in> set xs. x < k \<longrightarrow> f k = None)"
  using assms by (induction xs) (fastforce split: option.splits)+

section \<open>Lookups in buckets\<close>

definition probed :: "string \<Rightarrow> nat \<Rightarrow> bool" where
  "probed t n \<longleftrightarrow> n = length t \<or> n < length t \<and> char_start t n"

lemma set_probe_ends: "set (probe_ends t) = {n. probed t n}"
  by (auto simp: probe_ends_def probed_def)

lemma probe_ends_sorted: "sorted_wrt (>) (probe_ends t)"
proof -
  have "sorted_wrt (<) (filter (char_start t) [0..<length t])" by (intro sorted_wrt_filter) simp
  then show ?thesis by (auto simp: probe_ends_def sorted_wrt_rev)
qed

definition buckets_ok :: "buckets \<Rightarrow> bool" where
  "buckets_ok m \<longleftrightarrow> (\<forall>p. map_of m p \<noteq> Some [])"

lemma cheapest_None [simp]: "cheapest es = None \<longleftrightarrow> es = []"
  by (simp add: cheapest_def)

lemma lookup_None: "buckets_ok m \<Longrightarrow> Option.bind (map_of m p) cheapest = None \<longleftrightarrow> map_of m p = None"
  by (cases "map_of m p") (auto simp: buckets_ok_def)

definition longest_hit :: "buckets \<Rightarrow> string \<Rightarrow> nat \<Rightarrow> bool" where
  "longest_hit m t n \<longleftrightarrow> probed t n \<and> map_of m (take n t) \<noteq> None \<and> (\<forall>k. probed t k \<and> n < k \<longrightarrow> map_of m (take k t) = None)"

lemma resolve_hit:
  assumes "buckets_ok m" and "longest_hit m t n" and "map_of m (take n t) = Some es"
  shows "resolve_entries m t = cheapest es"
proof -
  obtain r where r: "cheapest es = Some r" using assms(1,3) by (cases "cheapest es") (auto simp: buckets_ok_def)
  then show ?thesis
    using find_map_first [OF probe_ends_sorted, of n t "\<lambda>n. Option.bind (map_of m (take n t)) cheapest" r] assms
    by (simp add: resolve_entries_def set_probe_ends longest_hit_def lookup_None)
qed

lemma resolve_none:
  "buckets_ok m \<Longrightarrow> resolve_entries m t = None \<longleftrightarrow> (\<forall>n. probed t n \<longrightarrow> map_of m (take n t) = None)"
  by (simp add: resolve_entries_def find_map_None set_probe_ends lookup_None)

lemma resolve_cases:
  assumes "buckets_ok m"
  obtains (miss) "resolve_entries m t = None" "\<forall>n. probed t n \<longrightarrow> map_of m (take n t) = None"
  | (hit) n es where "longest_hit m t n" "map_of m (take n t) = Some es" "resolve_entries m t = cheapest es"
proof (cases "resolve_entries m t")
  case (Some r)
  then obtain n where n: "probed t n" "Option.bind (map_of m (take n t)) cheapest = Some r"
    "\<forall>k. probed t k \<and> n < k \<longrightarrow> map_of m (take k t) = None"
    using find_map_Some [OF probe_ends_sorted [of t]] assms unfolding resolve_entries_def set_probe_ends
    by (fastforce simp: lookup_None)
  then obtain es where "map_of m (take n t) = Some es" by (cases "map_of m (take n t)") auto
  then show ?thesis using n resolve_hit [OF assms, of t n es] that(2) [of n es] by (auto simp: longest_hit_def)
qed (use assms resolve_none that(1) in blast)

lemma probed_take: "n \<le> length t \<Longrightarrow> k < n \<Longrightarrow> probed (take n t) k \<longleftrightarrow> probed t k"
  by (auto simp: probed_def char_start_def)

lemma probed_le: "probed t n \<Longrightarrow> n \<le> length t"
  by (auto simp: probed_def)

text \<open>Beyond the longest hit the rest of the target does not matter.\<close>

lemma resolve_take:
  assumes "buckets_ok m" and "probed t n" and "\<forall>k. probed t k \<and> n < k \<longrightarrow> map_of m (take k t) = None"
  shows "resolve_entries m t = resolve_entries m (take n t)"
  using assms(1)
proof (cases rule: resolve_cases [where t = "take n t"])
  case miss
  have n: "n \<le> length t" using assms(2) by (rule probed_le)
  have "map_of m (take k t) = None" if "probed t k" for k
  proof (cases "n < k")
    case False
    then have "probed (take n t) k" using that n probed_take [of n t k] by (cases "k = n") (auto simp: probed_def)
    then show ?thesis using miss(2) False by (auto simp: min_def)
  qed (use assms(3) that in blast)
  then show ?thesis using miss(1) resolve_none [OF assms(1)] by metis
next
  case (hit k es)
  have n: "n \<le> length t" using assms(2) by (rule probed_le)
  have k: "k \<le> n" "probed t k"
    using hit(1) n assms(2) probed_take [of n t k] by (auto simp: longest_hit_def probed_def min_def split: if_splits)
  have "map_of m (take j t) = None" if "probed t j" "k < j" for j
  proof (cases "n < j")
    case False
    then have "probed (take n t) j" using that n probed_take [of n t j] by (cases "j = n") (auto simp: probed_def)
    then show ?thesis using hit(1) that(2) False by (auto simp: longest_hit_def min_def split: if_splits)
  qed (use assms(3) that in blast)
  then have "longest_hit m t k" using k hit(1) by (auto simp: longest_hit_def min_def split: if_splits)
  then show ?thesis using resolve_hit [OF assms(1), of t k es] hit(2,3) k(1) by (auto simp: min_def split: if_splits)
qed

lemma resolve_update_other:
  assumes "length p \<le> length q" and "p \<noteq> q"
  shows "resolve_entries (AList.update q es m) p = resolve_entries m p"
proof -
  have "take n p \<noteq> q" for n using assms by (cases "length p \<le> n") auto
  then show ?thesis by (simp add: resolve_entries_def map_of_update)
qed

section \<open>Filling the buckets\<close>

lemma bucket_step: "bucket_of q (AList.update p es m) = (if q = p then es else bucket_of q m)"
  by (simp add: bucket_of_def map_of_update)

lemma fill_snoc:
  "fill_buckets (es @ [e]) = AList.update (rt_prefix e) (bucket_of (rt_prefix e) (fill_buckets es) @ [e]) (fill_buckets es)"
  by (simp add: fill_buckets_def)

lemma map_of_fill:
  "map_of (fill_buckets es) p = (let xs = filter (\<lambda>e. rt_prefix e = p) es in if xs = [] then None else Some xs)"
proof (induction es arbitrary: p rule: rev_induct)
  case (snoc e es)
  then show ?case by (auto simp: fill_snoc map_of_update bucket_of_def Let_def split: if_splits)
qed (simp add: fill_buckets_def)

lemma distinct_fill: "distinct (map fst (fill_buckets es))"
proof (induction es rule: rev_induct)
  case (snoc e es)
  then show ?case by (simp add: fill_snoc distinct_update)
qed (simp add: fill_buckets_def)

lemma fill_ok: "buckets_ok (fill_buckets es)"
  by (auto simp: buckets_ok_def map_of_fill Let_def)

lemma bucket_count_new: "map_of m p = None \<Longrightarrow> bucket_count (AList.update p es m) = bucket_count m + length es"
  by (simp add: bucket_count_def update_new)

lemma bucket_count_fill: "bucket_count (fill_buckets es) = length es"
proof (induction es rule: rev_induct)
  case (snoc e es)
  let ?m = "fill_buckets es" and ?p = "rt_prefix e"
  show ?case
  proof (cases "map_of ?m ?p")
    case None
    then show ?thesis using snoc by (simp add: fill_snoc bucket_count_new bucket_of_def)
  next
    case (Some xs)
    then show ?thesis
      using sum_update [OF Some, of "length \<circ> snd" "xs @ [e]"] snoc by (simp add: fill_snoc bucket_count_def bucket_of_def)
  qed
qed (simp add: fill_buckets_def bucket_count_def)

section \<open>Compaction\<close>

text \<open>Every bucket handled so far is kept, or the routes that are kept cover it.\<close>

definition compacted :: "buckets \<Rightarrow> buckets \<Rightarrow> bool" where
  "compacted done m \<longleftrightarrow> buckets_ok m \<and> (\<forall>p es. map_of m p = Some es \<longrightarrow> (p, es) \<in> set done) \<and>
     (\<forall>(p, es) \<in> set done. map_of m p = Some es \<or> map_of m p = None \<and> covered m p (the (cheapest es)))"

lemma compacted_step:
  assumes "compacted done m" and "cheapest es = Some sel" and "p \<notin> fst ` set done" and "\<forall>b \<in> set done. length (fst b) \<le> length p"
  shows "compacted (done @ [(p, es)]) (if covered m p sel then m else AList.update p es m)"
proof -
  have new: "map_of m p = None" using assms(1,3) by (cases "map_of m p") (force simp: compacted_def)+
  have es: "es \<noteq> []" using assms(2) by (auto simp: cheapest_def)
  have keep: "covered (AList.update p es m) q sel' = covered m q sel'" if "(q, xs) \<in> set done" for q xs sel'
  proof -
    have "q \<noteq> p" "length q \<le> length p" using assms(3,4) that by force+
    then show ?thesis using resolve_update_other [of q p es m] by (simp add: covered_def)
  qed
  show ?thesis
  proof (cases "covered m p sel")
    case True
    then show ?thesis using assms(1,2) new by (auto simp: compacted_def)
  next
    case False
    have "buckets_ok (AList.update p es m)" using assms(1) es by (auto simp: compacted_def buckets_ok_def map_of_update)
    moreover have "map_of (AList.update p es m) q = Some xs \<or>
        map_of (AList.update p es m) q = None \<and> covered (AList.update p es m) q (the (cheapest xs))"
      if "(q, xs) \<in> set (done @ [(p, es)])" for q xs
    proof (cases "(q, xs) \<in> set done")
      case True
      then have "q \<noteq> p" using assms(3) by force
      then show ?thesis using assms(1) True keep [OF True] by (fastforce simp: compacted_def map_of_update)
    qed (use that in \<open>simp add: map_of_update\<close>)
    ultimately show ?thesis using False assms(1) by (auto simp: compacted_def map_of_update split: if_splits)
  qed
qed

lemma compact_loop_compacted:
  assumes "compacted done m" and "sorted_wrt (\<lambda>a b. length (fst a) \<le> length (fst b)) (done @ bs)"
    and "distinct (map fst (done @ bs))" and "\<forall>b \<in> set bs. snd b \<noteq> []"
  shows "\<exists>out. compact_loop bs m = Some out \<and> compacted (done @ bs) out \<and>
    bucket_count out \<le> bucket_count m + bucket_count bs"
  using assms
proof (induction bs arbitrary: "done" m)
  case Nil
  then show ?case by (simp add: bucket_count_def)
next
  case (Cons b bs)
  obtain p es where b: "b = (p, es)" by (cases b)
  obtain sel where sel: "cheapest es = Some sel" using Cons.prems(4) b by (cases "cheapest es") auto
  let ?m = "if covered m p sel then m else AList.update p es m"
  have p: "p \<notin> fst ` set done" and len: "\<forall>b \<in> set done. length (fst b) \<le> length p"
    using Cons.prems(2,3) b by (auto simp: sorted_wrt_append)
  have "map_of m p = None" using Cons.prems(1) p by (cases "map_of m p") (force simp: compacted_def)+
  then have "bucket_count ?m \<le> bucket_count m + length es" by (simp add: bucket_count_new)
  moreover have "\<exists>out. compact_loop bs ?m = Some out \<and> compacted ((done @ [(p, es)]) @ bs) out \<and>
      bucket_count out \<le> bucket_count ?m + bucket_count bs"
    using Cons.IH [OF compacted_step [OF Cons.prems(1) sel p len]] Cons.prems b by auto
  ultimately show ?case by (auto simp: b sel bucket_count_def)
qed

definition route_view :: "route_entry \<Rightarrow> string \<times> nat \<times> nat" where
  "route_view e = (rt_next_hop e, rt_cost e, rt_version e)"

lemma compacted_resolves:
  assumes m: "compacted bs m" and full: "map_of full = map_of bs" "distinct (map fst bs)" "buckets_ok full"
  shows "map_option route_view (resolve_entries m t) = map_option route_view (resolve_entries full t)"
proof -
  have sub: "map_of full p = Some es" if "map_of m p = Some es" for p es
    using m full(1,2) that by (auto simp: compacted_def)
  have ok: "buckets_ok m" using m by (simp add: compacted_def)
  from full(3) show ?thesis
  proof (cases rule: resolve_cases [where t = t])
    case miss
    then have "\<forall>n. probed t n \<longrightarrow> map_of m (take n t) = None" using sub by (metis not_None_eq)
    then show ?thesis using miss(1) resolve_none [OF ok] by simp
  next
    case (hit n es)
    let ?p = "take n t"
    have above: "\<forall>k. probed t k \<and> n < k \<longrightarrow> map_of m (take k t) = None"
      using hit(1) sub by (metis longest_hit_def not_None_eq)
    have n: "probed t n" using hit(1) by (simp add: longest_hit_def)
    have "(?p, es) \<in> set bs" using hit(2) full(1) map_of_SomeD by fastforce
    then consider (kept) "map_of m ?p = Some es" | (covered) "covered m ?p (the (cheapest es))"
      using m by (auto simp: compacted_def)
    then show ?thesis
    proof cases
      case kept
      then have "longest_hit m t n" using n above by (simp add: longest_hit_def)
      then show ?thesis using resolve_hit [OF ok _ kept] hit(3) by simp
    next
      case covered
      obtain sel where sel: "cheapest es = Some sel" using full(3) hit(2) by (cases "cheapest es") (auto simp: buckets_ok_def)
      then obtain c where "resolve_entries m ?p = Some c" "route_view c = route_view sel"
        using covered by (auto simp: covered_def route_view_def split: option.splits)
      then show ?thesis using resolve_take [OF ok n above] hit(3) sel by simp
    qed
  qed
qed

lemma compact_resolves:
  assumes "\<forall>m. mset (it m) = mset m"
  shows "\<exists>a'. compact it es a = Some a' \<and> sr_after (ag_report a') = bucket_count (ag_routes a') \<and>
    bucket_count (ag_routes a') \<le> length es \<and>
    (\<forall>t. map_option route_view (agg_resolve a' t) = map_option route_view (resolve_entries (fill_buckets es) t))"
proof (cases "length es \<le> SUPERNET_THRESHOLD")
  case True
  then show ?thesis by (simp add: compact_def agg_resolve_def bucket_count_fill Let_def)
next
  case False
  let ?full = "fill_buckets es" and ?bs = "sort_key (\<lambda>b. length (fst b)) (it (fill_buckets es))"
  have ms: "mset ?bs = mset ?full" using assms by simp
  have set: "set ?bs = set ?full" using mset_eq_setD [OF ms] .
  have dist: "distinct (map fst ?bs)"
    using distinct_fill [of es] mset_eq_imp_distinct_iff [of "map fst ?bs" "map fst ?full"] ms by (metis mset_map)
  have count: "bucket_count ?bs = length es"
    using bucket_count_fill [of es] ms by (metis bucket_count_def mset_map sum_mset_sum_list)
  have "map_of ?full = map_of ?bs" using map_of_inject_set [OF distinct_fill dist] set by simp
  moreover have "\<exists>out. compact_loop ?bs [] = Some out \<and> compacted ([] @ ?bs) out \<and> bucket_count out \<le> bucket_count [] + bucket_count ?bs"
  proof (rule compact_loop_compacted)
    show "compacted [] []" by (simp add: compacted_def buckets_ok_def)
    show "sorted_wrt (\<lambda>a b. length (fst a) \<le> length (fst b)) ([] @ ?bs)"
      using sorted_sort_key [of "\<lambda>b. length (fst b)" "it ?full"] by (simp add: sorted_map)
    show "\<forall>b \<in> set ?bs. snd b \<noteq> []"
      using fill_ok [of es] set distinct_fill [of es] by (fastforce simp: buckets_ok_def simp del: set_sort mset_sort)
  qed (use dist in simp)
  ultimately show ?thesis
    using False compacted_resolves [of ?bs _ ?full] dist fill_ok count
    by (auto simp: compact_def agg_resolve_def Let_def bucket_count_def)
qed

section \<open>The longest matching prefix\<close>

lemma utf8_run_append: "utf8_run ps xs \<Longrightarrow> utf8_run ps (xs @ ys) = utf8_run [] ys"
proof (induction ps xs rule: utf8_run.induct)
  case (3 b bs)
  then show ?case by (cases "utf8_lead b") auto
qed simp_all

text \<open>A valid text that starts another one ends where one of its characters starts.\<close>

lemma prefix_probed:
  assumes "utf8_valid p" and "utf8_valid t" and "prefix p t"
  shows "probed t (length p)"
proof -
  obtain r where t: "t = p @ r" using assms(3) by (auto simp: prefix_def)
  show ?thesis
  proof (cases r)
    case (Cons c cs)
    have "utf8_run [] (map of_char r)"
      using utf8_run_append [of "[]" "map of_char p" "map of_char r"] assms(1,2) by (simp add: utf8_valid_def t)
    then have "utf8_lead (of_char c) \<noteq> None" by (simp add: Cons split: option.splits)
    then have "\<not> (128 \<le> (of_char c :: nat) \<and> (of_char c :: nat) < 192)" by (auto simp: utf8_lead_def)
    then show ?thesis by (simp add: probed_def char_start_def t Cons)
  qed (simp add: probed_def t)
qed

definition chosen_route :: "route_entry list \<Rightarrow> string \<Rightarrow> route_entry \<Rightarrow> bool" where
  "chosen_route es t e \<longleftrightarrow> e \<in> set es \<and> prefix (rt_prefix e) t \<and>
     (\<forall>f \<in> set es. prefix (rt_prefix f) t \<longrightarrow> length (rt_prefix f) \<le> length (rt_prefix e) \<and>
        (rt_prefix f = rt_prefix e \<longrightarrow> (rt_cost e, rt_next_hop e) \<le> (rt_cost f, rt_next_hop f)))"

lemma fill_resolve:
  assumes "\<forall>e \<in> set es. utf8_valid (rt_prefix e)" and "utf8_valid t"
  shows "case resolve_entries (fill_buckets es) t of
      None \<Rightarrow> \<forall>e \<in> set es. \<not> prefix (rt_prefix e) t
    | Some r \<Rightarrow> chosen_route es t r"
proof -
  have hits: "map_of (fill_buckets es) (take (length (rt_prefix e)) t) \<noteq> None \<and> probed t (length (rt_prefix e))"
    if "e \<in> set es" "prefix (rt_prefix e) t" for e
    using that assms prefix_probed [of "rt_prefix e" t] prefix_length_take [OF that(2)]
    by (auto simp: map_of_fill Let_def filter_empty_conv)
  show ?thesis
    using fill_ok [of es]
  proof (cases rule: resolve_cases [where t = t])
    case miss
    show ?thesis unfolding miss(1) option.case using hits miss(2) by blast
  next
    case (hit n xs)
    have xs: "xs = filter (\<lambda>e. rt_prefix e = take n t) es" "xs \<noteq> []"
      using hit(2) by (auto simp: map_of_fill Let_def split: if_splits)
    then obtain r where r: "cheapest xs = Some r" by (cases "cheapest xs") auto
    then have in_xs: "r \<in> set xs" "\<forall>f \<in> set xs. (rt_cost r, rt_next_hop r) \<le> (rt_cost f, rt_next_hop f)"
      using min_by_Some [of _ xs r] unfolding cheapest_def by blast+
    have n: "n \<le> length t" using hit(1) by (auto simp: longest_hit_def probed_def)
    have "length (rt_prefix f) \<le> n" if "f \<in> set es" "prefix (rt_prefix f) t" for f
      using hits [OF that] hit(1) by (auto simp: longest_hit_def not_less [symmetric])
    then have "chosen_route es t r"
      using in_xs xs(1) n by (auto simp: chosen_route_def take_is_prefix)
    then show ?thesis using hit(3) r by simp
  qed
qed

text \<open>
  C8. Compaction loses no route. Whatever routes are given, in whatever order the hash map is walked, compaction
  does not panic and does not grow the table, and for every target the compacted table leads to the same next
  hop with the same cost and version as the full one. For texts in UTF-8 this is a route that was given, with
  the longest prefix of the target among all that were given and the least cost and next hop among those
  with that prefix; no answer means that no given prefix matches.
\<close>

theorem compaction_keeps_routes:
  assumes "\<forall>m. mset (it m) = mset m"
  shows "\<exists>a'. compact it es a = Some a' \<and> sr_after (ag_report a') \<le> length es \<and>
    sr_after (ag_report a') = bucket_count (ag_routes a') \<and>
    (\<forall>t. map_option route_view (agg_resolve a' t) = map_option route_view (resolve_entries (fill_buckets es) t)) \<and>
    (\<forall>t. utf8_valid t \<and> (\<forall>e \<in> set es. utf8_valid (rt_prefix e)) \<longrightarrow>
      (case agg_resolve a' t of
         None \<Rightarrow> \<forall>e \<in> set es. \<not> prefix (rt_prefix e) t
       | Some r \<Rightarrow> \<exists>e. chosen_route es t e \<and> route_view e = route_view r))"
proof -
  obtain a' where a': "compact it es a = Some a'" "sr_after (ag_report a') = bucket_count (ag_routes a')"
    "bucket_count (ag_routes a') \<le> length es"
    and same: "\<And>t. map_option route_view (agg_resolve a' t) = map_option route_view (resolve_entries (fill_buckets es) t)"
    using compact_resolves [OF assms, of es a] by auto
  have "case agg_resolve a' t of
         None \<Rightarrow> \<forall>e \<in> set es. \<not> prefix (rt_prefix e) t
       | Some r \<Rightarrow> \<exists>e. chosen_route es t e \<and> route_view e = route_view r"
    if "\<forall>e \<in> set es. utf8_valid (rt_prefix e)" "utf8_valid t" for t
    using same [of t] fill_resolve [OF that]
    by (cases "agg_resolve a' t"; cases "resolve_entries (fill_buckets es) t") auto
  then show ?thesis using a' same by auto
qed

definition example_routes :: "route_entry list" where
  "example_routes =
     [\<lparr>rt_prefix = ''parrot://eu/'', rt_next_hop = ''hub'', rt_cost = 2, rt_version = 1\<rparr>,
      \<lparr>rt_prefix = ''parrot://eu/bank/'', rt_next_hop = ''bank'', rt_cost = 1, rt_version = 1\<rparr>]"

definition no_aggregate :: aggregator where
  "no_aggregate = \<lparr>ag_routes = [], ag_report = \<lparr>sr_before = 0, sr_after = 0, sr_ratio = 0\<rparr>\<rparr>"

theorem compaction_keeps_routes_witness:
  "\<exists>a'. compact rev example_routes no_aggregate = Some a' \<and>
    map_option route_view (agg_resolve a' ''parrot://eu/bank/7'') = Some (''bank'', 1, 1)"
proof -
  have "\<forall>m :: buckets. mset (rev m) = mset m" by simp
  from compaction_keeps_routes [OF this, of example_routes no_aggregate]
  obtain a' where a: "compact rev example_routes no_aggregate = Some a'"
    "\<forall>t. map_option route_view (agg_resolve a' t) = map_option route_view (resolve_entries (fill_buckets example_routes) t)"
    by blast
  have "map_option route_view (resolve_entries (fill_buckets example_routes) ''parrot://eu/bank/7'') = Some (''bank'', 1, 1)"
    by code_simp
  then show ?thesis using a by metis
qed

section \<open>Tables that hear the same routes agree\<close>

interpretation routes: newest_wins "\<lambda>_ _. True" map_of "\<lambda>e. Reverse (route_key e)" install rt_prefix "\<lambda>e. e"
  by unfold_locales (auto simp: install_def improves_def preferred_to_def map_of_update split: option.splits)

definition route_table_ok :: "route_table \<Rightarrow> bool" where
  "route_table_ok t \<longleftrightarrow> distinct (map fst t) \<and> (\<forall>(k, e) \<in> set t. rt_prefix e = k)"

lemma route_table_ok_Nil [simp]: "route_table_ok []"
  by (simp add: route_table_ok_def)

lemma route_table_ok_update: "route_table_ok t \<Longrightarrow> route_table_ok (AList.update (rt_prefix e) e t)"
  using update_entries by (fastforce simp: route_table_ok_def distinct_update)

lemma route_table_ok_fold: "route_table_ok t \<Longrightarrow> route_table_ok (fold install es t)"
  by (induction es arbitrary: t) (auto simp: install_def route_table_ok_update)

lemma route_table_ok_prefix: "route_table_ok t \<Longrightarrow> map_of t k = Some e \<Longrightarrow> rt_prefix e = k"
  using map_of_SomeD by (fastforce simp: route_table_ok_def)

lemma route_eqI: "rt_prefix e = rt_prefix f \<Longrightarrow> route_key e = route_key f \<Longrightarrow> e = f"
  by (simp add: route_key_def)

lemma merge_installs: "snd (route_merge g t) = fold install (rg_entries g) t"
proof -
  have "snd (foldl (\<lambda>(n, t) e. (if improves e t then n + 1 else n, install e t)) (n, t) es) = fold install es t"
    for n :: nat and t es
    by (induction es arbitrary: n t) auto
  then show ?thesis by (simp add: route_merge_def)
qed

lemma accept_installs:
  assumes "accept_all es t = (acc, t')"
  shows "t' = fold install es t \<and> set acc \<subseteq> set es \<and>
    (\<forall>k. map_of t' k = map_of t k \<or> (\<exists>e \<in> set acc. map_of t' k = Some e \<and> rt_prefix e = k))"
  using assms
proof (induction es t arbitrary: acc t' rule: accept_all.induct)
  case (2 e es t)
  show ?case
  proof (cases "improves e t")
    case True
    then obtain acc1 where a: "accept_all es (AList.update (rt_prefix e) e t) = (acc1, t')" "acc = e # acc1"
      using "2.prems" by (auto split: prod.splits)
    have ih: "t' = fold install es (AList.update (rt_prefix e) e t)" "set acc1 \<subseteq> set es"
      "\<And>k. map_of t' k = map_of (AList.update (rt_prefix e) e t) k \<or> (\<exists>e \<in> set acc1. map_of t' k = Some e \<and> rt_prefix e = k)"
      using "2.IH"(2) [OF _ a(1)] True by auto
    have "map_of t' k = map_of t k \<or> (\<exists>e \<in> set acc. map_of t' k = Some e \<and> rt_prefix e = k)" for k
      using ih(3) [of k] by (auto simp: map_of_update a(2))
    moreover have "t' = fold install (e # es) t" using ih(1) True by (simp add: install_def)
    ultimately show ?thesis using ih(2) a(2) by auto
  next
    case False
    then have "accept_all es t = (acc, t')" using "2.prems" by simp
    then show ?thesis using "2.IH"(1) [OF False] False by (auto simp: install_def)
  qed
qed simp

text \<open>The answer of a table depends on the routes it holds only.\<close>

lemma table_resolve_cong:
  assumes "route_table_ok s" and "route_table_ok t" and "map_of s = map_of t"
  shows "table_resolve target s = table_resolve target t"
proof -
  have "set s = set t" using assms map_of_inject_set [of s t] by (auto simp: route_table_ok_def)
  moreover have "inj_on (\<lambda>e. (Reverse (length (rt_prefix e)), rt_cost e, rt_prefix e))
      (set (filter (\<lambda>e. prefix (rt_prefix e) target) (map snd s)))"
  proof (rule inj_onI)
    fix e f assume "e \<in> set (filter (\<lambda>e. prefix (rt_prefix e) target) (map snd s))"
      "f \<in> set (filter (\<lambda>e. prefix (rt_prefix e) target) (map snd s))"
      and p: "(Reverse (length (rt_prefix e)), rt_cost e, rt_prefix e) = (Reverse (length (rt_prefix f)), rt_cost f, rt_prefix f)"
    then obtain k l where "(k, e) \<in> set s" "(l, f) \<in> set s" by auto
    moreover then have "k = rt_prefix e" "l = rt_prefix f" using assms(1) by (auto simp: route_table_ok_def)
    ultimately show "e = f" using assms(1) p by (auto simp: route_table_ok_def dest: eq_key_imp_eq_value)
  qed
  ultimately show ?thesis unfolding table_resolve_def by (intro min_by_set) auto
qed

section \<open>The clients of a reflector\<close>

text \<open>
  A reflector with its clients and the messages it has sent that are not delivered yet. A client keeps the routes
  it reports; messages are delivered in any order. Merging does not read the digest of a message.
\<close>

record reflection =
  rf_reflector :: route_reflector
  rf_tables :: "string \<Rightarrow> route_table"
  rf_mail :: "(string \<times> route_entry list) list"

datatype rf_op = Rf_Report string route_gossip | Rf_Local route_entry | Rf_Deliver nat

definition client_merge :: "string \<Rightarrow> route_gossip \<Rightarrow> reflection \<Rightarrow> reflection" where
  "client_merge c g s = s\<lparr>rf_tables := (rf_tables s)(c := snd (route_merge g (rf_tables s c)))\<rparr>"

fun rf_step :: "rf_op \<Rightarrow> reflection \<Rightarrow> reflection" where
  "rf_step (Rf_Report c g) s =
     (case reflect_from c g (rf_reflector s) of (out, rr) \<Rightarrow>
        (client_merge c g s)\<lparr>rf_reflector := rr, rf_mail := rf_mail s @ out\<rparr>)"
| "rf_step (Rf_Local e) s =
     (case advertise_local e (rf_reflector s) of (out, rr) \<Rightarrow> s\<lparr>rf_reflector := rr, rf_mail := rf_mail s @ out\<rparr>)"
| "rf_step (Rf_Deliver i) s =
     (if i < length (rf_mail s) then
        case rf_mail s ! i of (c, es) \<Rightarrow>
          (client_merge c \<lparr>rg_entries = es, rg_digest = 0\<rparr> s)\<lparr>rf_mail := take i (rf_mail s) @ drop (Suc i) (rf_mail s)\<rparr>
      else s)"

definition rf_init :: "string \<Rightarrow> string list \<Rightarrow> reflection" where
  "rf_init i clients = \<lparr>rf_reflector = reflector_new i clients, rf_tables = (\<lambda>_. []), rf_mail = []\<rparr>"

text \<open>A local route is advertised only when it improves on the table.\<close>

primrec locals_improve :: "rf_op list \<Rightarrow> reflection \<Rightarrow> bool" where
  "locals_improve [] s \<longleftrightarrow> True"
| "locals_improve (op # ops) s \<longleftrightarrow>
     (case op of Rf_Local e \<Rightarrow> improves e (rr_table (rf_reflector s)) | _ \<Rightarrow> True) \<and> locals_improve ops (rf_step op s)"

text \<open>What a client knows of a prefix or will know when its messages arrive.\<close>

definition mail_for :: "string \<Rightarrow> string \<Rightarrow> (string \<times> route_entry list) list \<Rightarrow> route_entry set" where
  "mail_for c k mail = {e. \<exists>es. (c, es) \<in> set mail \<and> e \<in> set es \<and> rt_prefix e = k}"

definition knows :: "reflection \<Rightarrow> string \<Rightarrow> string \<Rightarrow> route_entry set" where
  "knows s c k = set_option (map_of (rf_tables s c) k) \<union> mail_for c k (rf_mail s)"

definition best_of :: "route_entry option \<Rightarrow> route_entry set \<Rightarrow> bool" where
  "best_of b S \<longleftrightarrow> (case b of None \<Rightarrow> S = {} | Some v \<Rightarrow> v \<in> S \<and> (\<forall>w \<in> S. route_key v \<le> route_key w))"

definition rf_ok :: "reflection \<Rightarrow> bool" where
  "rf_ok s \<longleftrightarrow> route_table_ok (rr_table (rf_reflector s)) \<and> (\<forall>c. route_table_ok (rf_tables s c)) \<and>
     (\<forall>c \<in> set (rr_clients (rf_reflector s)). \<forall>k. best_of (map_of (rr_table (rf_reflector s)) k) (knows s c k))"

lemma best_of_fold: "best_of (map_of (fold install es t) k) (set_option (map_of t k) \<union> {e \<in> set es. rt_prefix e = k})"
  using routes.merge_newest [where s = t and k = k and es = es] by (auto simp: best_of_def routes.heard_def split: option.splits)

lemma best_of_merge:
  assumes "best_of b S" and "best_of b' (set_option b \<union> T)"
  shows "best_of b' (S \<union> T)"
  using assms by (auto simp: best_of_def split: option.splits intro: order_trans)

lemma best_of_shrink:
  assumes "best_of b (S \<union> T)" and "best_of c S" and "\<forall>x \<in> S \<union> T. rt_prefix x = k"
  shows "best_of b (set_option c \<union> T)"
proof (cases b)
  case (Some v)
  then have v: "v \<in> S \<union> T" "\<forall>w \<in> S \<union> T. route_key v \<le> route_key w" using assms(1) by (auto simp: best_of_def)
  show ?thesis
  proof (cases "v \<in> S")
    case True
    then obtain w where w: "c = Some w" "w \<in> S" "route_key w \<le> route_key v"
      using assms(2) by (auto simp: best_of_def split: option.splits)
    then have "w = v" using v assms(3) True by (intro route_eqI) (auto intro: antisym)
    then show ?thesis using Some v w by (auto simp: best_of_def)
  next
    case False
    then show ?thesis using Some v assms(2) by (auto simp: best_of_def split: option.splits)
  qed
qed (use assms in \<open>auto simp: best_of_def split: option.splits\<close>)

lemma mail_for_Nil [simp]: "mail_for c k [] = {}"
  by (simp add: mail_for_def)

lemma mail_for_append: "mail_for c k (xs @ ys) = mail_for c k xs \<union> mail_for c k ys"
  by (auto simp: mail_for_def)

lemma mail_for_fan:
  "mail_for c k (map (\<lambda>c. (c, acc)) cs) = (if c \<in> set cs then {e \<in> set acc. rt_prefix e = k} else {})"
  by (auto simp: mail_for_def)

lemma mail_for_deliver:
  assumes "i < length mail" and "mail ! i = (d, es)"
  shows "mail_for c k mail = (if c = d then {e \<in> set es. rt_prefix e = k} else {}) \<union> mail_for c k (take i mail @ drop (Suc i) mail)"
proof -
  have "mail_for c k mail = mail_for c k (take i mail @ (d, es) # drop (Suc i) mail)"
    using id_take_nth_drop [OF assms(1)] assms(2) by simp
  also have "\<dots> = (if c = d then {e \<in> set es. rt_prefix e = k} else {}) \<union> mail_for c k (take i mail @ drop (Suc i) mail)"
    by (auto simp: mail_for_def)
  finally show ?thesis .
qed

lemma best_of_accept:
  assumes "accept_all es t = (acc, t')"
  shows "best_of (map_of t' k) (set_option (map_of t k) \<union> {e \<in> set acc. rt_prefix e = k})"
proof -
  have t': "t' = fold install es t" "set acc \<subseteq> set es"
    "map_of t' k = map_of t k \<or> (\<exists>e \<in> set acc. map_of t' k = Some e \<and> rt_prefix e = k)"
    using accept_installs [OF assms] by auto
  show ?thesis using best_of_fold [of es t k] t'(2,3) unfolding t'(1) [symmetric]
    by (auto simp: best_of_def split: option.splits)
qed

lemma prefix_knows: "route_table_ok (rf_tables s c) \<Longrightarrow> e \<in> knows s c k \<Longrightarrow> rt_prefix e = k"
  by (auto simp: knows_def mail_for_def dest: route_table_ok_prefix)

lemma report_ok:
  assumes ok: "rf_ok s" and acc: "accept_all (rg_entries g) (rr_table (rf_reflector s)) = (acc, t')"
    and d: "d \<in> set (rr_clients (rf_reflector s))"
  shows "best_of (map_of t' k) (knows (rf_step (Rf_Report c g) s) d k)"
proof -
  let ?es = "rg_entries g" and ?rr = "rf_reflector s"
  have old: "best_of (map_of (rr_table ?rr) k) (knows s d k)" using ok d by (simp add: rf_ok_def)
  show ?thesis
  proof (cases "d = c")
    case True
    let ?E = "{e \<in> set ?es. rt_prefix e = k}"
    have "best_of (map_of t' k) (set_option (map_of (rr_table ?rr) k) \<union> ?E)"
      using best_of_fold [of ?es "rr_table ?rr" k] accept_installs [OF acc] by simp
    from best_of_merge [OF old this]
    have all: "best_of (map_of t' k) ((set_option (map_of (rf_tables s d) k) \<union> ?E) \<union> mail_for d k (rf_mail s))"
      by (simp add: knows_def Un_ac)
    have "\<forall>x \<in> (set_option (map_of (rf_tables s d) k) \<union> ?E) \<union> mail_for d k (rf_mail s). rt_prefix x = k"
      using prefix_knows [of s d _ k] ok by (auto simp: rf_ok_def knows_def)
    from best_of_shrink [OF all best_of_fold this]
    show ?thesis using True acc
      by (simp add: knows_def client_merge_def reflect_from_def merge_installs mail_for_append mail_for_fan)
  next
    case False
    have "knows (rf_step (Rf_Report c g) s) d k = knows s d k \<union> {e \<in> set acc. rt_prefix e = k}"
      using False acc d by (auto simp: knows_def client_merge_def reflect_from_def mail_for_append mail_for_fan mail_for_def)
    then show ?thesis using best_of_merge [OF old best_of_accept [OF acc]] by simp
  qed
qed

lemma deliver_ok:
  assumes ok: "rf_ok s" and i: "i < length (rf_mail s)" and mail: "rf_mail s ! i = (d, es)"
    and c: "c \<in> set (rr_clients (rf_reflector s))"
  shows "best_of (map_of (rr_table (rf_reflector s)) k) (knows (rf_step (Rf_Deliver i) s) c k)"
proof -
  let ?rest = "take i (rf_mail s) @ drop (Suc i) (rf_mail s)" and ?E = "{e \<in> set es. rt_prefix e = k}"
  have old: "best_of (map_of (rr_table (rf_reflector s)) k) (knows s c k)" using ok c by (simp add: rf_ok_def)
  show ?thesis
  proof (cases "c = d")
    case True
    have split: "knows s c k = (set_option (map_of (rf_tables s c) k) \<union> ?E) \<union> mail_for c k ?rest"
      using mail_for_deliver [OF i mail, of c k] True by (auto simp: knows_def)
    have "\<forall>x \<in> (set_option (map_of (rf_tables s c) k) \<union> ?E) \<union> mail_for c k ?rest. rt_prefix x = k"
      using prefix_knows [of s c _ k] ok unfolding split [symmetric] by (auto simp: rf_ok_def)
    from best_of_shrink [OF old [unfolded split] best_of_fold this]
    show ?thesis using True i mail by (simp add: knows_def client_merge_def merge_installs)
  next
    case False
    then show ?thesis
      using old mail_for_deliver [OF i mail, of c k] i mail by (simp add: knows_def client_merge_def)
  qed
qed

lemma rf_step_ok:
  assumes ok: "rf_ok s" and loc: "case op of Rf_Local e \<Rightarrow> improves e (rr_table (rf_reflector s)) | _ \<Rightarrow> True"
  shows "rf_ok (rf_step op s) \<and> rr_clients (rf_reflector (rf_step op s)) = rr_clients (rf_reflector s)"
proof (cases op)
  case (Rf_Report c g)
  obtain acc t' where acc: "accept_all (rg_entries g) (rr_table (rf_reflector s)) = (acc, t')" by fastforce
  have t': "t' = fold install (rg_entries g) (rr_table (rf_reflector s))" using accept_installs [OF acc] by simp
  show ?thesis
    using report_ok [OF ok acc, of _ _ c] ok unfolding Rf_Report rf_ok_def
    by (auto simp: reflect_from_def acc client_merge_def merge_installs route_table_ok_fold t')
next
  case (Rf_Local e)
  have acc: "accept_all [e] (rr_table (rf_reflector s)) = ([e], AList.update (rt_prefix e) e (rr_table (rf_reflector s)))"
    using loc Rf_Local by simp
  have "best_of (map_of (AList.update (rt_prefix e) e (rr_table (rf_reflector s))) k)
      (knows s c k \<union> {x \<in> set [e]. rt_prefix x = k})" if "c \<in> set (rr_clients (rf_reflector s))" for c k
    using best_of_merge [OF _ best_of_accept [OF acc]] ok that by (simp add: rf_ok_def)
  then show ?thesis
    using ok unfolding Rf_Local rf_ok_def
    by (auto simp: advertise_local_def route_table_ok_update knows_def mail_for_append mail_for_fan Un_assoc)
next
  case (Rf_Deliver i)
  show ?thesis
  proof (cases "i < length (rf_mail s)")
    case True
    obtain d es where mail: "rf_mail s ! i = (d, es)" by fastforce
    have "rf_reflector (rf_step op s) = rf_reflector s" "\<forall>c. route_table_ok (rf_tables (rf_step op s) c)"
      using ok Rf_Deliver True mail by (auto simp: client_merge_def merge_installs route_table_ok_fold rf_ok_def)
    then show ?thesis using deliver_ok [OF ok True mail] ok unfolding Rf_Deliver by (auto simp: rf_ok_def simp del: rf_step.simps)
  qed (use ok Rf_Deliver in simp)
qed

lemma rf_run_ok:
  assumes "rf_ok s" and "locals_improve ops s"
  shows "rf_ok (fold rf_step ops s) \<and> rr_clients (rf_reflector (fold rf_step ops s)) = rr_clients (rf_reflector s)"
  using assms
proof (induction ops arbitrary: s)
  case (Cons op ops)
  then show ?case using rf_step_ok [of s op] by simp
qed simp

lemma rf_ok_init: "rf_ok (rf_init i clients)"
  by (simp add: rf_ok_def rf_init_def reflector_new_def knows_def mail_for_def best_of_def)

text \<open>
  C20. Reflection synchronises the clients. Whatever routes clients report and the reflector advertises, as long as it
  advertises routes of its own only where they improve on its table, and in whatever order its messages are
  delivered: once all are delivered, every client holds exactly the reflector's routes and answers
  every lookup as the reflector would.
\<close>

theorem reflection_synchronises:
  assumes "s = fold rf_step ops (rf_init i clients)" and "locals_improve ops (rf_init i clients)"
    and "rf_mail s = []" and "c \<in> set clients"
  shows "map_of (rf_tables s c) = map_of (rr_table (rf_reflector s)) \<and>
    table_resolve target (rf_tables s c) = table_resolve target (rr_table (rf_reflector s))"
proof -
  have ok: "rf_ok s" "rr_clients (rf_reflector s) = clients"
    using rf_run_ok [OF rf_ok_init assms(2)] assms(1) by (auto simp: rf_init_def reflector_new_def)
  have same: "map_of (rf_tables s c) = map_of (rr_table (rf_reflector s))"
  proof
    fix k
    have "best_of (map_of (rr_table (rf_reflector s)) k) (set_option (map_of (rf_tables s c) k))"
      using ok assms(3,4) by (auto simp: rf_ok_def knows_def mail_for_def)
    then show "map_of (rf_tables s c) k = map_of (rr_table (rf_reflector s)) k"
      by (auto simp: best_of_def split: option.splits)
  qed
  moreover have "route_table_ok (rf_tables s c)" "route_table_ok (rr_table (rf_reflector s))" using ok by (auto simp: rf_ok_def)
  ultimately show ?thesis using table_resolve_cong by blast
qed

definition example_reports :: "rf_op list" where
  "example_reports =
     [Rf_Report ''a'' \<lparr>rg_entries = example_routes, rg_digest = 0\<rparr>,
      Rf_Report ''b'' \<lparr>rg_entries = [\<lparr>rt_prefix = ''parrot://eu/'', rt_next_hop = ''b'', rt_cost = 1, rt_version = 1\<rparr>], rg_digest = 0\<rparr>,
      Rf_Deliver 1, Rf_Deliver 0]"

theorem reflection_synchronises_witness:
  "table_resolve ''parrot://eu/x'' (rf_tables (fold rf_step example_reports (rf_init ''r'' [''a'', ''b''])) ''a'') =
   table_resolve ''parrot://eu/x'' (rr_table (rf_reflector (fold rf_step example_reports (rf_init ''r'' [''a'', ''b'']))))"
proof -
  have "locals_improve example_reports (rf_init ''r'' [''a'', ''b''])" by code_simp
  moreover have "rf_mail (fold rf_step example_reports (rf_init ''r'' [''a'', ''b''])) = []" by code_simp
  ultimately show ?thesis
    using reflection_synchronises [OF refl, of example_reports "''r''" "[''a'', ''b'']" "''a''" "''parrot://eu/x''"] by simp
qed

text \<open>
  Without the condition on local routes the tables part: the reflector replaces a better route by its own, which the
  clients refuse, and no message corrects it.
\<close>

lemma local_route_diverges:
  "let s = fold rf_step [Rf_Report ''a'' \<lparr>rg_entries = [\<lparr>rt_prefix = ''p'', rt_next_hop = ''a'', rt_cost = 1, rt_version = 2\<rparr>], rg_digest = 0\<rparr>,
        Rf_Local \<lparr>rt_prefix = ''p'', rt_next_hop = ''r'', rt_cost = 1, rt_version = 1\<rparr>, Rf_Deliver 0] (rf_init ''r'' [''a''])
   in rf_mail s = [] \<and> map_of (rf_tables s ''a'') ''p'' \<noteq> map_of (rr_table (rf_reflector s)) ''p''"
  by code_simp

section \<open>Replies return to their origin\<close>

datatype hub_op = Hub_Ask nat string string byte byte | Hub_Reply nat

text \<open>The correlations a hub has given out, the replies it has returned, and the hub afterwards.\<close>

primrec hub_log :: "hub_op list \<Rightarrow> relay_hub \<Rightarrow> ((nat \<times> nat \<times> string) list \<times> (nat \<times> nat \<times> string) list \<times> relay_hub) option" where
  "hub_log [] h = Some ([], [], h)"
| "hub_log (op # ops) h =
     (case op of
        Hub_Ask orig target reply_to hops limit \<Rightarrow>
          Option.bind (relay_ask orig target reply_to hops limit h) (\<lambda>(r, h).
            map_option (\<lambda>(asked, answered, h).
              (case r of Inr (_, cid, _) \<Rightarrow> (cid, orig, reply_to) # asked | Inl _ \<Rightarrow> asked, answered, h)) (hub_log ops h))
      | Hub_Reply cid \<Rightarrow>
          (case relay_reply cid h of (r, h) \<Rightarrow>
             map_option (\<lambda>(asked, answered, h).
               (asked, case r of Some orig \<Rightarrow> (cid, orig) # answered | None \<Rightarrow> answered, h)) (hub_log ops h)))"

definition cids_ok :: "cid_map \<Rightarrow> bool" where
  "cids_ok m \<longleftrightarrow> distinct (cm_order m) \<and> distinct (map fst (cm_map m)) \<and> set (cm_order m) = fst ` set (cm_map m) \<and>
     length (cm_map m) \<le> cm_cap m \<and> 0 < cm_cap m"

lemma cid_touch_fields [simp]: "cm_map (cid_touch cid m) = cm_map m" "cm_cap (cid_touch cid m) = cm_cap m"
  by (simp_all add: cid_touch_def)

lemma cids_touch: "cids_ok m \<Longrightarrow> cids_ok (cid_touch cid m)"
  by (auto simp: cids_ok_def cid_touch_def)

lemma cids_insert:
  assumes "cids_ok m" and "map_of (cm_map m) cid = None"
  shows "cids_ok (cid_insert cid orig m) \<and> map_of (cm_map (cid_insert cid orig m)) cid = Some orig \<and>
    (\<forall>c o'. map_of (cm_map (cid_insert cid orig m)) c = Some o' \<longrightarrow> (c, o') = (cid, orig) \<or> map_of (cm_map m) c = Some o')"
proof (cases "length (cm_map m) \<ge> cm_cap m")
  case True
  have "length (cm_order m) = length (cm_map m)"
    using assms(1) distinct_card [of "cm_order m"] distinct_card [of "map fst (cm_map m)"] by (simp add: cids_ok_def)
  then obtain old rest where o: "cm_order m = old # rest" using True assms(1) by (cases "cm_order m") (auto simp: cids_ok_def)
  let ?m = "AList.delete old (cm_map m)"
  have cid: "cid \<notin> fst ` set (cm_map m)" using assms(2) by (simp add: map_of_eq_None_iff)
  have old: "old \<in> fst ` set (cm_map m)" "old \<notin> set rest" "distinct rest" "set rest \<subseteq> fst ` set (cm_map m)"
    and keys: "fst ` set (cm_map m) = insert old (set rest)"
    using assms(1) o by (auto simp: cids_ok_def)
  have "fst ` set ?m = fst ` set (cm_map m) - {old}" by (auto simp: AList.delete_eq)
  then have del: "fst ` set ?m = set rest" using keys old(2) by simp
  have d: "distinct (map fst ?m)" using assms(1) by (simp add: cids_ok_def distinct_keys_delete)
  have len: "length ?m < length (cm_map m)"
    using del old(2,3) keys assms(1) distinct_card [OF d] distinct_card [of "map fst (cm_map m)"] by (simp add: cids_ok_def)
  have none: "map_of ?m cid = None" using assms(2) by (simp add: map_of_delete)
  have ins: "cid_insert cid orig m = m\<lparr>cm_map := ?m @ [(cid, orig)], cm_order := rest @ [cid]\<rparr>"
    using True assms o none by (simp add: cid_insert_def cids_ok_def update_new)
  have "cid \<notin> set rest" using cid keys by auto
  then show ?thesis
    using d del len old(3) assms(1) none unfolding ins by (auto simp: cids_ok_def map_add_def map_of_delete split: if_splits option.splits)
next
  case False
  have "cid \<notin> fst ` set (cm_map m)" using assms(2) by (simp add: map_of_eq_None_iff)
  then show ?thesis
    using False assms by (auto simp: cid_insert_def cids_ok_def update_new map_add_def split: if_splits option.splits)
qed

definition hub_ok :: "(nat \<times> nat \<times> string) set \<Rightarrow> relay_hub \<Rightarrow> bool" where
  "hub_ok given h \<longleftrightarrow> cids_ok (hub_cids h) \<and> cm_cap (hub_cids h) = 65536 \<and>
     (\<forall>c orig. map_of (cm_map (hub_cids h)) c = Some orig \<longrightarrow> (c, orig) \<in> given) \<and> (\<forall>x \<in> given. fst x \<le> hub_next_cid h)"

lemma cid_insert_cap [simp]: "cm_cap (cid_insert cid orig m) = cm_cap m"
  by (simp add: cid_insert_def cid_touch_def Let_def split: list.split)

lemma relay_ask_ok:
  assumes "hub_ok given h" and "relay_ask orig target reply_to hops limit h = Some (Inr (hop, cid, n), h')"
  shows "hub_ok (insert (cid, orig, reply_to) given) h' \<and> cid \<notin> fst ` given \<and>
    fst (relay_reply cid h') = Some (orig, reply_to)"
proof -
  have h': "cid = hub_next_cid h + 1"
      "h' = h\<lparr>hub_next_cid := cid, hub_cids := cid_insert cid (orig, reply_to) (hub_cids h)\<rparr>"
    using assms(2) by (auto simp: relay_ask_def alloc_cid_def opt_iffs split: option.splits)
  have "(cid, x) \<notin> given" for x using assms(1) h'(1) by (fastforce simp: hub_ok_def)
  then have "map_of (cm_map (hub_cids h)) cid = None"
    using assms(1) unfolding hub_ok_def by (metis not_None_eq)
  from cids_insert [OF _ this, of "(orig, reply_to)"]
  show ?thesis using assms(1) h'
    by (fastforce simp: hub_ok_def relay_reply_def cid_get_def cid_touch_def split: prod.splits)
qed

lemma relay_ask_fails: "relay_ask orig target reply_to hops limit h = Some (Inl e, h') \<Longrightarrow> h' = h"
  by (auto simp: relay_ask_def split: option.splits)

lemma relay_reply_ok:
  assumes "hub_ok given h" and "relay_reply cid h = (r, h')"
  shows "hub_ok given h' \<and> (case r of None \<Rightarrow> True | Some orig \<Rightarrow> (cid, orig) \<in> given)"
proof -
  have r: "r = map_of (cm_map (hub_cids h)) cid"
    and "h' = h\<lparr>hub_cids := hub_cids h\<rparr> \<or> h' = h\<lparr>hub_cids := cid_touch cid (hub_cids h)\<rparr>"
    using assms(2) by (auto simp: relay_reply_def cid_get_def Let_def split: if_splits)
  then have "hub_ok given h'" using assms(1) by (auto simp: hub_ok_def cids_touch)
  then show ?thesis using r assms(1) unfolding hub_ok_def by (auto split: option.split)
qed

text \<open>
  Correlations are given out once, every reply goes back with the correlation and the address of the question it answers, and at
  most 65536 are remembered.
\<close>

lemma hub_log_ok:
  assumes "hub_log ops h = Some (asked, answered, h')" and "hub_ok given h"
  shows "distinct (map fst asked) \<and> fst ` set asked \<inter> fst ` given = {} \<and> set answered \<subseteq> given \<union> set asked \<and>
    hub_ok (given \<union> set asked) h'"
  using assms
proof (induction ops arbitrary: h given asked answered)
  case (Cons op ops)
  show ?case
  proof (cases op)
    case (Hub_Ask orig target reply_to hops limit)
    then obtain r h1 asked1 where r: "relay_ask orig target reply_to hops limit h = Some (r, h1)"
      "hub_log ops h1 = Some (asked1, answered, h')"
      "asked = (case r of Inr (_, cid, _) \<Rightarrow> (cid, orig, reply_to) # asked1 | Inl _ \<Rightarrow> asked1)"
      using Cons.prems(1) by (auto simp: bind_eq_Some_conv)
    show ?thesis
    proof (cases r)
      case (Inl e)
      then have "h1 = h" using r(1) relay_ask_fails by blast
      then show ?thesis using Cons.IH [OF r(2), of given] Cons.prems(2) r(3) Inl by simp
    next
      case (Inr x)
      obtain hop cid n where x: "x = (hop, cid, n)" by (cases x)
      note ok = relay_ask_ok [OF Cons.prems(2) r(1) [unfolded Inr x]]
      show ?thesis using Cons.IH [OF r(2), of "insert (cid, orig, reply_to) given"] ok r(3) Inr x by auto
    qed
  next
    case (Hub_Reply cid)
    obtain r h1 where r: "relay_reply cid h = (r, h1)" by fastforce
    then obtain answered1 where a: "hub_log ops h1 = Some (asked, answered1, h')"
      "answered = (case r of Some orig \<Rightarrow> (cid, orig) # answered1 | None \<Rightarrow> answered1)"
      using Cons.prems(1) Hub_Reply by auto
    show ?thesis using Cons.IH [OF a(1), of given] relay_reply_ok [OF Cons.prems(2) r] a(2) by (auto split: option.splits)
  qed
qed simp

lemma hub_ok_new: "hub_ok {} (relay_hub_new routes)"
  by (simp add: hub_ok_def relay_hub_new_def cid_map_new_def cids_ok_def)

end
