(* ===== verification/Handshake.thy ===== *)
theory Handshake
  imports Frame
begin

text \<open>
  The handshake of a connection: the TLV bodies of \<^verbatim>\<open>handshake.rs\<close>, the identity checks of \<^verbatim>\<open>security.rs\<close> and \<^verbatim>\<open>tls.rs\<close> and
  the exchange at the start of \<^verbatim>\<open>run_connection\<close> in \<^verbatim>\<open>transport.rs\<close>.

  Capabilities and frame lengths are 32-bit words. The parser of certificates, which is the
  external \<^verbatim>\<open>x509_parser\<close>, is the argument \<open>x509\<close>: for the bytes of a certificate it gives nothing, or the bytes it
  did not read and the common names of the subject, each a text or, where it is not one, nothing. Time-outs, metrics, captures and the input and output itself are left out, and so are the checks of
  the heartbeat and of the outbound queue in the configuration that precede the exchange and do not touch it; frames on
  the byte stream are the subject of the frame theories.
\<close>

section \<open>Bodies\<close>

definition tag_NODE_ID :: byte where "tag_NODE_ID = 1"
definition tag_REALM :: byte where "tag_REALM = 2"
definition tag_CLUSTER :: byte where "tag_CLUSTER = 3"
definition tag_CAPABILITIES :: byte where "tag_CAPABILITIES = 4"
definition tag_MAX_FRAME_LEN :: byte where "tag_MAX_FRAME_LEN = 5"
definition tag_TOPOLOGY_ROLE :: byte where "tag_TOPOLOGY_ROLE = 6"
definition tag_HOP_LIMIT :: byte where "tag_HOP_LIMIT = 7"
definition tag_DIRECT_ADDR :: byte where "tag_DIRECT_ADDR = 8"
definition tag_CHOSEN_CODEC :: byte where "tag_CHOSEN_CODEC = 9"

lemmas tag_defs = tag_NODE_ID_def tag_REALM_def tag_CLUSTER_def tag_CAPABILITIES_def tag_MAX_FRAME_LEN_def
  tag_TOPOLOGY_ROLE_def tag_HOP_LIMIT_def tag_DIRECT_ADDR_def tag_CHOSEN_CODEC_def

definition cap_BIN :: "32 word" where "cap_BIN = push_bit 0 1"
definition cap_PB :: "32 word" where "cap_PB = push_bit 1 1"

datatype handshake_error =
    InvalidValue byte
  | MissingRequired byte
  | DuplicateTag byte
  | BadLen byte nat
  | BadUtf8 byte
  | TlvTruncated byte nat nat

datatype topology_role = Role_Normal | Role_Hub | Role_Border | Role_Directory

primrec role_number :: "topology_role \<Rightarrow> byte" where
  "role_number Role_Normal = 0"
| "role_number Role_Hub = 1"
| "role_number Role_Border = 2"
| "role_number Role_Directory = 3"

definition role_from_u8 :: "byte \<Rightarrow> topology_role option" where
  "role_from_u8 v =
     (if v = 0 then Some Role_Normal else if v = 1 then Some Role_Hub else if v = 2 then Some Role_Border
      else if v = 3 then Some Role_Directory else None)"

record handshake_body =
  hs_node_id :: string
  hs_realm :: "string option"
  hs_cluster :: "string option"
  hs_capabilities :: "32 word"
  hs_max_frame_len :: "32 word"
  hs_role :: topology_role
  hs_hop_limit :: byte
  hs_direct_addr :: "string option"

record handshake_ack = handshake_body +
  hs_chosen_codec :: string

definition handshake_default :: handshake_body where
  "handshake_default =
     \<lparr>hs_node_id = [], hs_realm = None, hs_cluster = None, hs_capabilities = cap_BIN,
      hs_max_frame_len = word_of_nat MAX_FRAME_LEN, hs_role = Role_Normal, hs_hop_limit = DEFAULT_HOP_LIMIT,
      hs_direct_addr = None\<rparr>"

definition put_tlv :: "byte \<Rightarrow> byte list \<Rightarrow> byte list \<Rightarrow> handshake_error + byte list" where
  "put_tlv tag bs buf =
     (if length bs > 65535 then Inl (BadLen tag (length bs)) else Inr (buf @ [tag] @ le_bytes 2 (length bs) @ bs))"

primrec put_opt :: "byte \<Rightarrow> string option \<Rightarrow> byte list \<Rightarrow> handshake_error + byte list" where
  "put_opt tag None buf = Inr buf"
| "put_opt tag (Some s) buf = put_tlv tag (str_bytes s) buf"

definition check_len :: "byte \<Rightarrow> string option \<Rightarrow> handshake_error + unit" where
  "check_len tag v = (case v of None \<Rightarrow> Inr () | Some s \<Rightarrow> guard (length s \<le> 65535) (BadLen tag (length s)))"

definition bad_node_id :: "string \<Rightarrow> bool" where
  "bad_node_id s \<longleftrightarrow> s = [] \<or> CHR 0x00 \<in> set s"

definition validate_common :: "('a handshake_body_scheme) \<Rightarrow> handshake_error + unit" where
  "validate_common b =
     sum_bind (check_len tag_NODE_ID (Some (hs_node_id b))) (\<lambda>_.
     sum_bind (check_len tag_REALM (hs_realm b)) (\<lambda>_.
     sum_bind (check_len tag_CLUSTER (hs_cluster b)) (\<lambda>_.
     sum_bind (check_len tag_DIRECT_ADDR (hs_direct_addr b)) (\<lambda>_.
       if bad_node_id (hs_node_id b) then Inl (InvalidValue tag_NODE_ID)
       else if unat (hs_max_frame_len b) < BODY_FIXED_OVERHEAD then Inl (InvalidValue tag_MAX_FRAME_LEN)
       else if hs_hop_limit b = 0 then Inl (InvalidValue tag_HOP_LIMIT)
       else Inr ()))))"

definition codec_cap :: "string \<Rightarrow> 32 word option" where
  "codec_cap codec = (if codec = ''bin'' then Some cap_BIN else if codec = ''pb'' then Some cap_PB else None)"

definition validate_chosen :: "string \<Rightarrow> 32 word \<Rightarrow> handshake_error + unit" where
  "validate_chosen codec caps =
     (if length codec > 65535 then Inl (BadLen tag_CHOSEN_CODEC (length codec))
      else case codec_cap codec of
          None \<Rightarrow> Inl (InvalidValue tag_CHOSEN_CODEC)
        | Some c \<Rightarrow> if caps AND c = 0 then Inl (InvalidValue tag_CHOSEN_CODEC) else Inr ())"

section \<open>Reading\<close>

record tlv_field =
  tf_value :: "byte list option"
  tf_duplicate :: bool

definition tlv_fields_new :: "tlv_field list" where
  "tlv_fields_new = replicate 10 \<lparr>tf_value = None, tf_duplicate = False\<rparr>"

definition known_tag :: "byte \<Rightarrow> bool" where
  "known_tag tag \<longleftrightarrow> tag_NODE_ID \<le> tag \<and> tag \<le> tag_CHOSEN_CODEC"

definition store_field :: "byte \<Rightarrow> byte list \<Rightarrow> tlv_field list \<Rightarrow> tlv_field list" where
  "store_field tag v out =
     (if known_tag tag then
        let f = out ! unat tag in
        out[unat tag := (if tf_value f \<noteq> None then f\<lparr>tf_duplicate := True\<rparr> else f\<lparr>tf_value := Some v\<rparr>)]
      else out)"

text \<open>The loop of \<^verbatim>\<open>read_tlv\<close> on the bytes from its position on.\<close>

function read_tlv_from :: "byte list \<Rightarrow> tlv_field list \<Rightarrow> handshake_error + tlv_field list" where
  "read_tlv_from rest out =
     (case rest of
        [] \<Rightarrow> Inr out
      | tag # _ \<Rightarrow>
          if 3 > length rest then Inl (TlvTruncated tag 0 (length rest))
          else let len = from_le (take 2 (drop 1 rest)) in
          if 3 + len > length rest then Inl (TlvTruncated tag len (length rest - 3))
          else read_tlv_from (drop (3 + len) rest) (store_field tag (take len (drop 3 rest)) out))"
  by pat_completeness auto
termination
  by (relation "measure (\<lambda>(rest, out). length rest)") auto

declare read_tlv_from.simps [simp del]

definition read_tlv :: "byte list \<Rightarrow> handshake_error + tlv_field list" where
  "read_tlv payload = read_tlv_from payload tlv_fields_new"

definition take_one :: "tlv_field list \<Rightarrow> byte \<Rightarrow> handshake_error + byte list option" where
  "take_one tlvs tag =
     (let f = tlvs ! unat tag in if tf_duplicate f then Inl (DuplicateTag tag) else Inr (tf_value f))"

definition required :: "tlv_field list \<Rightarrow> byte \<Rightarrow> handshake_error + byte list" where
  "required tlvs tag =
     sum_bind (take_one tlvs tag) (\<lambda>v. case v of None \<Rightarrow> Inl (MissingRequired tag) | Some bs \<Rightarrow> Inr bs)"

definition hs_decode_string :: "byte list \<Rightarrow> byte \<Rightarrow> handshake_error + string" where
  "hs_decode_string bs tag = (if utf8_valid (bytes_str bs) then Inr (bytes_str bs) else Inl (BadUtf8 tag))"

definition optional_string :: "tlv_field list \<Rightarrow> byte \<Rightarrow> handshake_error + string option" where
  "optional_string tlvs tag =
     sum_bind (take_one tlvs tag) (\<lambda>v.
       case v of None \<Rightarrow> Inr None | Some bs \<Rightarrow> map_sum id Some (hs_decode_string bs tag))"

definition required_u32 :: "tlv_field list \<Rightarrow> byte \<Rightarrow> handshake_error + 32 word" where
  "required_u32 tlvs tag =
     sum_bind (required tlvs tag) (\<lambda>bs.
       if length bs \<noteq> 4 then Inl (BadLen tag (length bs)) else Inr (word_of_nat (from_le bs)))"

definition decode_common :: "tlv_field list \<Rightarrow> handshake_error + handshake_body" where
  "decode_common tlvs =
     sum_bind (required tlvs tag_NODE_ID) (\<lambda>bs.
     sum_bind (hs_decode_string bs tag_NODE_ID) (\<lambda>node_id.
     sum_bind (guard (\<not> bad_node_id node_id) (InvalidValue tag_NODE_ID)) (\<lambda>_.
     sum_bind (required_u32 tlvs tag_CAPABILITIES) (\<lambda>caps.
     sum_bind (required_u32 tlvs tag_MAX_FRAME_LEN) (\<lambda>max_len.
     sum_bind (guard (unat max_len \<ge> BODY_FIXED_OVERHEAD) (InvalidValue tag_MAX_FRAME_LEN)) (\<lambda>_.
     sum_bind (required tlvs tag_TOPOLOGY_ROLE) (\<lambda>rb.
     sum_bind (guard (length rb = 1) (BadLen tag_TOPOLOGY_ROLE (length rb))) (\<lambda>_.
     sum_bind (case role_from_u8 (hd rb) of None \<Rightarrow> Inl (BadLen tag_TOPOLOGY_ROLE 99) | Some r \<Rightarrow> Inr r) (\<lambda>r.
     sum_bind (optional_string tlvs tag_REALM) (\<lambda>realm.
     sum_bind (optional_string tlvs tag_CLUSTER) (\<lambda>cluster.
     sum_bind (take_one tlvs tag_HOP_LIMIT) (\<lambda>hb.
     sum_bind (case hb of None \<Rightarrow> Inr DEFAULT_HOP_LIMIT
               | Some v \<Rightarrow> if length v = 1 then Inr (hd v) else Inl (BadLen tag_HOP_LIMIT (length v))) (\<lambda>hops.
     sum_bind (guard (hops \<noteq> 0) (InvalidValue tag_HOP_LIMIT)) (\<lambda>_.
     sum_bind (take_one tlvs tag_DIRECT_ADDR) (\<lambda>db.
     sum_bind (case db of None \<Rightarrow> Inr None
               | Some v \<Rightarrow> if v = [] then Inr None else map_sum id Some (hs_decode_string v tag_DIRECT_ADDR)) (\<lambda>addr.
     Inr \<lparr>hs_node_id = node_id, hs_realm = realm, hs_cluster = cluster, hs_capabilities = caps,
          hs_max_frame_len = max_len, hs_role = r, hs_hop_limit = hops, hs_direct_addr = addr\<rparr>))))))))))))))))"

section \<open>Writing\<close>

definition encode_common :: "('a handshake_body_scheme) \<Rightarrow> byte list \<Rightarrow> handshake_error + byte list" where
  "encode_common b buf =
     sum_bind (put_tlv tag_NODE_ID (str_bytes (hs_node_id b)) buf) (\<lambda>buf.
     sum_bind (put_opt tag_REALM (hs_realm b) buf) (\<lambda>buf.
     sum_bind (put_opt tag_CLUSTER (hs_cluster b) buf) (\<lambda>buf.
     sum_bind (put_tlv tag_CAPABILITIES (le_bytes 4 (unat (hs_capabilities b))) buf) (\<lambda>buf.
     sum_bind (put_tlv tag_MAX_FRAME_LEN (le_bytes 4 (unat (hs_max_frame_len b))) buf) (\<lambda>buf.
     sum_bind (put_tlv tag_TOPOLOGY_ROLE [role_number (hs_role b)] buf) (\<lambda>buf.
     sum_bind (put_tlv tag_HOP_LIMIT [hs_hop_limit b] buf) (\<lambda>buf.
     put_opt tag_DIRECT_ADDR (hs_direct_addr b) buf)))))))"

definition hello_encode :: "handshake_body \<Rightarrow> byte list \<Rightarrow> handshake_error + byte list" where
  "hello_encode b buf = sum_bind (validate_common b) (\<lambda>_. encode_common b buf)"

definition hello_decode :: "byte list \<Rightarrow> handshake_error + handshake_body" where
  "hello_decode payload =
     sum_bind (read_tlv payload) (\<lambda>tlvs.
     sum_bind (take_one tlvs tag_CHOSEN_CODEC) (\<lambda>v.
       if v \<noteq> None then Inl (InvalidValue tag_CHOSEN_CODEC) else decode_common tlvs))"

definition ack_encode :: "handshake_ack \<Rightarrow> byte list \<Rightarrow> handshake_error + byte list" where
  "ack_encode b buf =
     sum_bind (validate_common b) (\<lambda>_.
     sum_bind (validate_chosen (hs_chosen_codec b) (hs_capabilities b)) (\<lambda>_.
     sum_bind (encode_common b buf) (\<lambda>buf. put_tlv tag_CHOSEN_CODEC (str_bytes (hs_chosen_codec b)) buf)))"

definition ack_of :: "handshake_body \<Rightarrow> string \<Rightarrow> handshake_ack" where
  "ack_of b codec = handshake_body.extend b \<lparr>hs_chosen_codec = codec\<rparr>"

definition ack_decode :: "byte list \<Rightarrow> handshake_error + handshake_ack" where
  "ack_decode payload =
     sum_bind (read_tlv payload) (\<lambda>tlvs.
     sum_bind (decode_common tlvs) (\<lambda>b.
     sum_bind (take_one tlvs tag_CHOSEN_CODEC) (\<lambda>v.
     sum_bind (case v of Some bs \<Rightarrow> hs_decode_string bs tag_CHOSEN_CODEC | None \<Rightarrow> Inr ''bin'') (\<lambda>codec.
     sum_bind (validate_chosen codec (hs_capabilities b)) (\<lambda>_.
       Inr (ack_of b codec))))))"

definition negotiate_caps :: "32 word \<Rightarrow> 32 word \<Rightarrow> err_code + 32 word" where
  "negotiate_caps a b =
     (let common = a AND b in if common AND (cap_BIN OR cap_PB) = 0 then Inl NoCommonCodec else Inr common)"

section \<open>The exchange\<close>

datatype peer_trust = Unauthenticated | InProcess | Expected peer_trust string | Certificates "byte list list"

type_synonym x509_parser = "byte list \<Rightarrow> (byte list \<times> string option list) option"

definition verify_node_identity :: "x509_parser \<Rightarrow> byte list list \<Rightarrow> string \<Rightarrow> bool" where
  "verify_node_identity x509 certs claim \<longleftrightarrow>
     (case certs of
        [] \<Rightarrow> False
      | cert # _ \<Rightarrow>
          (case x509 cert of
             None \<Rightarrow> False
           | Some (remaining, names) \<Rightarrow>
               if remaining \<noteq> [] then False
               else (case names of
                   [Some cn] \<Rightarrow> validate_node_id claim \<and> cn = claim
                 | _ \<Rightarrow> False)))"

primrec trust_verify :: "x509_parser \<Rightarrow> peer_trust \<Rightarrow> string \<Rightarrow> bool" where
  "trust_verify x509 Unauthenticated claim \<longleftrightarrow> validate_node_id claim"
| "trust_verify x509 InProcess claim \<longleftrightarrow> validate_node_id claim"
| "trust_verify x509 (Expected t expected) claim \<longleftrightarrow> validate_node_id claim \<and> claim = expected \<and> trust_verify x509 t claim"
| "trust_verify x509 (Certificates certs) claim \<longleftrightarrow> validate_node_id claim \<and> verify_node_identity x509 certs claim"

datatype conn_error =
    Local_Config handshake_error
  | Frame_Flags frame_error
  | Unexpected_Frame byte
  | Body_Error handshake_error
  | Identity_Refused
  | No_Codec
  | Codec_Refused

record established =
  es_peer :: handshake_body
  es_capabilities :: "32 word"
  es_codec_limit :: nat
  es_max_frame_len :: nat

definition recv_expect :: "byte \<Rightarrow> wire_frame \<Rightarrow> conn_error + wire_frame" where
  "recv_expect expect f =
     (case validate_payload_flags f of
        Inl e \<Rightarrow> Inl (Frame_Flags e)
      | Inr _ \<Rightarrow> if fh_type (fr_header f) = expect then Inr f else Inl (Unexpected_Frame (fh_type (fr_header f))))"

definition establish :: "handshake_body \<Rightarrow> handshake_body \<Rightarrow> established" where
  "establish local peer =
     (let m = min (unat (hs_max_frame_len local)) (unat (hs_max_frame_len peer)) in
      \<lparr>es_peer = peer, es_capabilities = hs_capabilities local AND hs_capabilities peer,
       es_codec_limit = set_max_frame_len m, es_max_frame_len = min m MAX_FRAME_LEN\<rparr>)"

definition send_hello :: "handshake_body \<Rightarrow> conn_error + wire_frame" where
  "send_hello local =
     (case validate_common local of
        Inl e \<Rightarrow> Inl (Local_Config e)
      | Inr _ \<Rightarrow>
          (case hello_encode local [] of
             Inl e \<Rightarrow> Inl (Local_Config e)
           | Inr body \<Rightarrow> Inr (control_frame HANDSHAKE body)))"

definition connect_finish ::
  "x509_parser \<Rightarrow> peer_trust \<Rightarrow> handshake_body \<Rightarrow> wire_frame \<Rightarrow> conn_error + established" where
  "connect_finish x509 trust local f =
     sum_bind (recv_expect HANDSHAKE_ACK f) (\<lambda>f.
     case ack_decode (fr_payload f) of
       Inl e \<Rightarrow> Inl (Body_Error e)
     | Inr ack \<Rightarrow>
         (case negotiate_caps (hs_capabilities local) (hs_capabilities ack) of
            Inl _ \<Rightarrow> Inl No_Codec
          | Inr common \<Rightarrow>
              (case codec_cap (hs_chosen_codec ack) of
                 None \<Rightarrow> Inl Codec_Refused
               | Some c \<Rightarrow>
                   if common AND c = 0 then Inl Codec_Refused
                   else if \<not> trust_verify x509 trust (hs_node_id ack) then Inl Identity_Refused
                   else Inr (establish local (handshake_body.truncate ack)))))"

definition accept_hello ::
  "x509_parser \<Rightarrow> peer_trust \<Rightarrow> handshake_body \<Rightarrow> wire_frame \<Rightarrow> conn_error + wire_frame \<times> established" where
  "accept_hello x509 trust local f =
     (case validate_common local of
        Inl e \<Rightarrow> Inl (Local_Config e)
      | Inr _ \<Rightarrow>
          sum_bind (recv_expect HANDSHAKE f) (\<lambda>f.
          case hello_decode (fr_payload f) of
            Inl e \<Rightarrow> Inl (Body_Error e)
          | Inr theirs \<Rightarrow>
              if \<not> trust_verify x509 trust (hs_node_id theirs) then Inl Identity_Refused
              else (case negotiate_caps (hs_capabilities local) (hs_capabilities theirs) of
                 Inl _ \<Rightarrow> Inl No_Codec
               | Inr common \<Rightarrow>
                   (case ack_encode (ack_of (local\<lparr>hs_max_frame_len := min (hs_max_frame_len local) (hs_max_frame_len theirs)\<rparr>)
                            (if common AND cap_BIN \<noteq> 0 then ''bin'' else ''pb'')) [] of
                      Inl e \<Rightarrow> Inl (Body_Error e)
                    | Inr body \<Rightarrow> Inr (control_frame HANDSHAKE_ACK body, establish local theirs)))))"

end
