(* ===== verification/Handshake_Theorems.thy ===== *)
theory Handshake_Theorems
  imports Handshake
begin

text \<open>
  What the handshake promises: a body is read back from its encoding, with any unknown fields around and between its
  own; a body that was read is one that could be sent; and two sides that exchange hello and
  acknowledgement agree on capabilities, codec and frame length.
\<close>

section \<open>Fields\<close>

type_synonym tlv = "byte \<times> byte list"

definition tlv_bytes :: "tlv list \<Rightarrow> byte list" where
  "tlv_bytes fs = concat (map (\<lambda>(t, v). t # le_bytes 2 (length v) @ v) fs)"

definition tlvs_ok :: "tlv list \<Rightarrow> bool" where
  "tlvs_ok fs \<longleftrightarrow> (\<forall>x \<in> set fs. length (snd x) \<le> 65535)"

lemma tlv_bytes_simps [simp]:
  "tlv_bytes [] = []" "tlv_bytes ((t, v) # fs) = t # le_bytes 2 (length v) @ v @ tlv_bytes fs"
  "tlv_bytes (xs @ ys) = tlv_bytes xs @ tlv_bytes ys"
  by (simp_all add: tlv_bytes_def)

abbreviation store_all :: "tlv list \<Rightarrow> tlv_field list \<Rightarrow> tlv_field list" where
  "store_all fs \<equiv> fold (\<lambda>(t, v). store_field t v) fs"

lemma read_tlv_bytes: "tlvs_ok fs \<Longrightarrow> read_tlv_from (tlv_bytes fs) out = Inr (store_all fs out)"
proof (induction fs arbitrary: out)
  case Nil
  then show ?case by (simp add: read_tlv_from.simps)
next
  case (Cons x fs)
  obtain t v where x: "x = (t, v)" by (cases x)
  have v: "length v \<le> 65535" using Cons.prems x by (simp add: tlvs_ok_def)
  then have "from_le (le_bytes 2 (length v)) = length v" by (intro from_le_bytes) simp
  moreover have "drop (3 + length v) (tlv_bytes (x # fs)) = tlv_bytes fs" by (simp add: x numeral_3_eq_3)
  ultimately have "read_tlv_from (tlv_bytes (x # fs)) out = read_tlv_from (tlv_bytes fs) (store_field t v out)"
    by (subst read_tlv_from.simps) (simp add: x Let_def)
  then show ?case using Cons by (simp add: x tlvs_ok_def)
qed

text \<open>Conversely, what is read is a sequence of fields.\<close>

lemma read_tlv_fields:
  "read_tlv_from rest out = Inr tlvs \<Longrightarrow> \<exists>fs. rest = tlv_bytes fs \<and> tlvs_ok fs \<and> tlvs = store_all fs out"
proof (induction rest out rule: read_tlv_from.induct)
  case (1 rest out)
  show ?case
  proof (cases rest)
    case Nil
    then show ?thesis using "1.prems" by (intro exI [of _ "[]"]) (simp add: read_tlv_from.simps tlvs_ok_def)
  next
    case (Cons tag r)
    let ?len = "from_le (take 2 (drop 1 rest))"
    have ok: "\<not> 3 > length rest" "\<not> 3 + ?len > length rest"
      using "1.prems" Cons by (subst (asm) read_tlv_from.simps, auto simp: Let_def split: if_splits)+
    let ?v = "take ?len (drop 3 rest)"
    have cont: "read_tlv_from (drop (3 + ?len) rest) (store_field tag ?v out) = Inr tlvs"
      using "1.prems" ok Cons by (subst (asm) read_tlv_from.simps) (simp add: Let_def)
    obtain fs where fs: "drop (3 + ?len) rest = tlv_bytes fs" "tlvs_ok fs" "tlvs = store_all fs (store_field tag ?v out)"
      using "1.IH" [OF Cons ok(1) refl ok(2) cont] by auto
    have l2: "length (take 2 (drop 1 rest)) = 2" using ok(1) by simp
    have "le_bytes 2 ?len = take 2 (drop 1 rest)" using le_bytes_from_le [of "take 2 (drop 1 rest)"] l2 by simp
    moreover have "rest = tag # take 2 (drop 1 rest) @ drop 3 rest"
      using Cons by (simp add: numeral_3_eq_3 numeral_2_eq_2)
    moreover have "drop 3 rest = ?v @ drop (3 + ?len) rest"
      by (metis add.commute append_take_drop_id drop_drop)
    moreover have len: "length ?v = ?len" using ok by simp
    ultimately have "rest = tlv_bytes ((tag, ?v) # fs)" using fs(1) by (metis tlv_bytes_simps(2) append_assoc)
    moreover have "?len < 256 ^ 2" using from_le_less [of "take 2 (drop 1 rest)"] l2 by simp
    ultimately show ?thesis using fs(2,3) len by (intro exI [of _ "(tag, ?v) # fs"]) (simp add: tlvs_ok_def)
  qed
qed

text \<open>After reading, each known tag has its first value and knows whether there were more.\<close>

definition vals :: "tlv list \<Rightarrow> byte \<Rightarrow> byte list list" where
  "vals fs tag = map snd (filter (\<lambda>x. fst x = tag) fs)"

lemma vals_simps [simp]:
  "vals [] tag = []" "vals ((t, v) # fs) tag = (if t = tag then v # vals fs tag else vals fs tag)"
  "vals (xs @ ys) tag = vals xs tag @ vals ys tag"
  by (simp_all add: vals_def)

definition field_of :: "byte list list \<Rightarrow> tlv_field" where
  "field_of vs = \<lparr>tf_value = (case vs of [] \<Rightarrow> None | v # _ \<Rightarrow> Some v), tf_duplicate = (1 < length vs)\<rparr>"

lemma known_less: "known_tag tag \<Longrightarrow> unat tag < 10"
  by (auto simp: known_tag_def tag_defs word_le_nat_alt)

lemma store_field_nth:
  assumes "length out = 10" and "known_tag tag"
  shows "store_field t v out ! unat tag =
    (let f = out ! unat tag in
     if t = tag then (if tf_value f \<noteq> None then f\<lparr>tf_duplicate := True\<rparr> else f\<lparr>tf_value := Some v\<rparr>) else f)"
  using assms known_less [OF assms(2)] word_unat_eq_iff [of t tag] by (auto simp: store_field_def Let_def nth_list_update)

lemma length_store_field [simp]: "length (store_field t v out) = length out"
  by (simp add: store_field_def Let_def)

lemma str_bytes_Nil [simp]: "str_bytes s = [] \<longleftrightarrow> s = []"
  by (simp add: str_bytes_def)

lemma field_of_snoc:
  "field_of (vs @ [v]) =
     (let f = field_of vs in if tf_value f \<noteq> None then f\<lparr>tf_duplicate := True\<rparr> else f\<lparr>tf_value := Some v\<rparr>)"
  by (cases vs) (auto simp: field_of_def)

lemma store_all_field:
  "length (store_all fs tlv_fields_new) = 10 \<and>
   (\<forall>tag. known_tag tag \<longrightarrow> store_all fs tlv_fields_new ! unat tag = field_of (vals fs tag))"
proof (induction fs rule: rev_induct)
  case Nil
  then show ?case using known_less by (auto simp: tlv_fields_new_def field_of_def)
next
  case (snoc x fs)
  obtain t v where x: "x = (t, v)" by (cases x)
  then show ?case using snoc by (auto simp: store_field_nth field_of_snoc)
qed

lemma take_one_all:
  "known_tag tag \<Longrightarrow> take_one (store_all fs tlv_fields_new) tag =
     (case vals fs tag of [] \<Rightarrow> Inr None | [v] \<Rightarrow> Inr (Some v) | _ \<Rightarrow> Inl (DuplicateTag tag))"
  using store_all_field [of fs] by (auto simp: take_one_def field_of_def split: list.split)

lemma known_tags [simp]:
  "known_tag tag_NODE_ID" "known_tag tag_REALM" "known_tag tag_CLUSTER" "known_tag tag_CAPABILITIES"
  "known_tag tag_MAX_FRAME_LEN" "known_tag tag_TOPOLOGY_ROLE" "known_tag tag_HOP_LIMIT" "known_tag tag_DIRECT_ADDR"
  "known_tag tag_CHOSEN_CODEC"
  by (simp_all add: known_tag_def tag_defs)

lemma vals_known: "known_tag tag \<Longrightarrow> vals (filter (\<lambda>x. known_tag (fst x)) fs) tag = vals fs tag"
  by (auto simp: vals_def intro!: arg_cong [of _ _ "map snd"] filter_cong)

section \<open>Writing and reading\<close>

definition opt_field :: "byte \<Rightarrow> string option \<Rightarrow> tlv list" where
  "opt_field tag v = (case v of None \<Rightarrow> [] | Some s \<Rightarrow> [(tag, str_bytes s)])"

definition common_fields :: "('a handshake_body_scheme) \<Rightarrow> tlv list" where
  "common_fields b =
     [(tag_NODE_ID, str_bytes (hs_node_id b))] @ opt_field tag_REALM (hs_realm b) @ opt_field tag_CLUSTER (hs_cluster b) @
     [(tag_CAPABILITIES, le_bytes 4 (unat (hs_capabilities b))), (tag_MAX_FRAME_LEN, le_bytes 4 (unat (hs_max_frame_len b))),
      (tag_TOPOLOGY_ROLE, [role_number (hs_role b)]), (tag_HOP_LIMIT, [hs_hop_limit b])] @
     opt_field tag_DIRECT_ADDR (hs_direct_addr b)"

definition body_utf8 :: "('a handshake_body_scheme) \<Rightarrow> bool" where
  "body_utf8 b \<longleftrightarrow> utf8_valid (hs_node_id b) \<and> pred_option utf8_valid (hs_realm b) \<and>
     pred_option utf8_valid (hs_cluster b) \<and> pred_option utf8_valid (hs_direct_addr b)"

text \<open>An empty address is read as none.\<close>

definition read_back :: "('a handshake_body_scheme) \<Rightarrow> handshake_body" where
  "read_back b = handshake_body.truncate
     (b\<lparr>hs_direct_addr := (if hs_direct_addr b = Some [] then None else hs_direct_addr b)\<rparr>)"

lemma validate_common_Inr:
  "validate_common b = Inr () \<longleftrightarrow>
     length (hs_node_id b) \<le> 65535 \<and> pred_option (\<lambda>s. length s \<le> 65535) (hs_realm b) \<and>
     pred_option (\<lambda>s. length s \<le> 65535) (hs_cluster b) \<and> pred_option (\<lambda>s. length s \<le> 65535) (hs_direct_addr b) \<and>
     \<not> bad_node_id (hs_node_id b) \<and> BODY_FIXED_OVERHEAD \<le> unat (hs_max_frame_len b) \<and> hs_hop_limit b \<noteq> 0"
  by (auto simp: validate_common_def sum_bind_Inr check_len_def split: option.splits)

lemma put_opt_field:
  "pred_option (\<lambda>s. length s \<le> 65535) v \<Longrightarrow> put_opt tag v buf = Inr (buf @ tlv_bytes (opt_field tag v))"
  by (cases v) (simp_all add: opt_field_def put_tlv_def)

lemma encode_common_fields:
  "validate_common b = Inr () \<Longrightarrow> encode_common b buf = Inr (buf @ tlv_bytes (common_fields b))"
  unfolding validate_common_Inr encode_common_def common_fields_def
  by (simp add: put_opt_field put_tlv_def)

lemma common_fields_ok: "validate_common b = Inr () \<Longrightarrow> tlvs_ok (common_fields b)"
  unfolding validate_common_Inr
  by (cases "hs_realm b"; cases "hs_cluster b"; cases "hs_direct_addr b")
    (auto simp: tlvs_ok_def common_fields_def opt_field_def)

lemma role_roundtrip [simp]: "role_from_u8 (role_number r) = Some r"
  by (cases r) (simp_all add: role_from_u8_def)

lemma word_le_bytes: "word_of_nat (from_le (le_bytes 4 (unat (w :: 32 word)))) = w"
proof -
  have "unat w < 2 ^ 32" using unsigned_less [of w, where 'a = nat] by simp
  then show ?thesis by (simp add: from_le_4)
qed

lemma decode_common_fields:
  assumes vals: "\<And>tag. known_tag tag \<Longrightarrow> tag \<noteq> tag_CHOSEN_CODEC \<Longrightarrow> vals fs tag = vals (common_fields b) tag"
    and "validate_common b = Inr ()" and "body_utf8 b"
  shows "decode_common (store_all fs tlv_fields_new) = Inr (read_back b)"
proof -
  note ok = assms(2) [unfolded validate_common_Inr]
  have one: "take_one (store_all fs tlv_fields_new) tag =
      (case vals (common_fields b) tag of [] \<Rightarrow> Inr None | [v] \<Rightarrow> Inr (Some v) | _ \<Rightarrow> Inl (DuplicateTag tag))"
    if "known_tag tag" "tag \<noteq> tag_CHOSEN_CODEC" for tag
    using take_one_all [OF that(1)] vals [OF that] by simp
  have tags: "vals (common_fields b) tag_NODE_ID = [str_bytes (hs_node_id b)]"
    "vals (common_fields b) tag_CAPABILITIES = [le_bytes 4 (unat (hs_capabilities b))]"
    "vals (common_fields b) tag_MAX_FRAME_LEN = [le_bytes 4 (unat (hs_max_frame_len b))]"
    "vals (common_fields b) tag_TOPOLOGY_ROLE = [[role_number (hs_role b)]]"
    "vals (common_fields b) tag_HOP_LIMIT = [[hs_hop_limit b]]"
    "vals (common_fields b) tag_REALM = (case hs_realm b of None \<Rightarrow> [] | Some s \<Rightarrow> [str_bytes s])"
    "vals (common_fields b) tag_CLUSTER = (case hs_cluster b of None \<Rightarrow> [] | Some s \<Rightarrow> [str_bytes s])"
    "vals (common_fields b) tag_DIRECT_ADDR = (case hs_direct_addr b of None \<Rightarrow> [] | Some s \<Rightarrow> [str_bytes s])"
    by (simp_all add: common_fields_def opt_field_def tag_defs split: option.split)
  have distinct: "tag_NODE_ID \<noteq> tag_CHOSEN_CODEC" "tag_REALM \<noteq> tag_CHOSEN_CODEC" "tag_CLUSTER \<noteq> tag_CHOSEN_CODEC"
    "tag_CAPABILITIES \<noteq> tag_CHOSEN_CODEC" "tag_MAX_FRAME_LEN \<noteq> tag_CHOSEN_CODEC" "tag_TOPOLOGY_ROLE \<noteq> tag_CHOSEN_CODEC"
    "tag_HOP_LIMIT \<noteq> tag_CHOSEN_CODEC" "tag_DIRECT_ADDR \<noteq> tag_CHOSEN_CODEC"
    by (simp_all add: tag_defs)
  have str: "optional_string (store_all fs tlv_fields_new) tag_REALM = Inr (hs_realm b)"
    "optional_string (store_all fs tlv_fields_new) tag_CLUSTER = Inr (hs_cluster b)"
    using assms(3) distinct
    by (auto simp: optional_string_def one tags hs_decode_string_def body_utf8_def split: option.split)
  have addr: "sum_bind (take_one (store_all fs tlv_fields_new) tag_DIRECT_ADDR) (\<lambda>db.
      sum_bind (case db of None \<Rightarrow> Inr None
               | Some v \<Rightarrow> if v = [] then Inr None else map_sum id Some (hs_decode_string v tag_DIRECT_ADDR)) f) =
      f (if hs_direct_addr b = Some [] then None else hs_direct_addr b)" for f :: "string option \<Rightarrow> handshake_error + handshake_body"
    using assms(3) distinct
    by (auto simp: one tags hs_decode_string_def body_utf8_def split: option.split)
  show ?thesis
    unfolding decode_common_def addr str required_def required_u32_def
    using ok assms(3) distinct
    by (simp add: one tags hs_decode_string_def body_utf8_def word_le_bytes read_back_def handshake_body.defs)
qed

lemma vals_codec_none: "vals (common_fields b) tag_CHOSEN_CODEC = []"
  by (simp add: common_fields_def opt_field_def tag_defs split: option.split)

text \<open>Fields with unknown tags may stand anywhere.\<close>

lemma hello_roundtrip:
  assumes "hello_encode b [] = Inr bs" and "body_utf8 b" and "tlvs_ok fs"
    and "filter (\<lambda>x. known_tag (fst x)) fs = common_fields b"
  shows "bs = tlv_bytes (common_fields b) \<and> hello_decode (tlv_bytes fs) = Inr (read_back b)"
proof -
  have v: "validate_common b = Inr ()" using assms(1) by (auto simp: hello_encode_def sum_bind_Inr)
  have vals: "vals fs tag = vals (common_fields b) tag" if "known_tag tag" for tag
    using vals_known [OF that, of fs] assms(4) by simp
  show ?thesis
    using assms(1) v decode_common_fields [OF vals v assms(2)]
    by (simp add: hello_encode_def encode_common_fields hello_decode_def read_tlv_def read_tlv_bytes [OF assms(3)]
        take_one_all vals vals_codec_none)
qed

lemma opt_field_known: "known_tag tag \<Longrightarrow> filter (\<lambda>x. known_tag (fst x)) (opt_field tag v) = opt_field tag v"
  by (cases v) (simp_all add: opt_field_def)

lemma common_fields_known: "filter (\<lambda>x. known_tag (fst x)) (common_fields b) = common_fields b"
  by (simp add: common_fields_def opt_field_known)

lemma hello_simple:
  assumes "validate_common b = Inr ()" and "body_utf8 b"
  shows "hello_encode b [] = Inr (tlv_bytes (common_fields b)) \<and> hello_decode (tlv_bytes (common_fields b)) = Inr (read_back b)"
  using hello_roundtrip [OF _ assms(2) common_fields_ok [OF assms(1)] common_fields_known] assms(1)
  by (simp add: hello_encode_def encode_common_fields)

lemma ack_roundtrip:
  assumes "validate_common b = Inr ()" and "body_utf8 b" and "validate_chosen codec (hs_capabilities b) = Inr ()" and "utf8_valid codec"
  shows "\<exists>bs. ack_encode (ack_of b codec) [] = Inr bs \<and> ack_decode bs = Inr (ack_of (read_back b) codec)"
proof -
  let ?a = "ack_of b codec" and ?fs = "common_fields b @ [(tag_CHOSEN_CODEC, str_bytes codec)]"
  have same: "validate_common ?a = validate_common b" "common_fields ?a = common_fields b" "hs_capabilities ?a = hs_capabilities b"
    "hs_chosen_codec ?a = codec" "hs_capabilities (read_back b) = hs_capabilities b"
    by (simp_all add: ack_of_def handshake_body.defs validate_common_def common_fields_def read_back_def)
  have len: "length codec \<le> 65535" using assms(3) by (auto simp: validate_chosen_def split: if_splits)
  have enc: "ack_encode ?a [] = Inr (tlv_bytes ?fs)"
    using assms(1,3) len encode_common_fields [of ?a "[]"] by (simp add: ack_encode_def same put_tlv_def)
  have ok: "tlvs_ok ?fs" using common_fields_ok [OF assms(1)] len by (auto simp: tlvs_ok_def)
  have vals: "vals ?fs tag = vals (common_fields b) tag" if "known_tag tag" "tag \<noteq> tag_CHOSEN_CODEC" for tag
    using that by simp
  have "decode_common (store_all ?fs tlv_fields_new) = Inr (read_back b)"
    by (rule decode_common_fields [OF vals assms(1,2)])
  moreover have "take_one (store_all ?fs tlv_fields_new) tag_CHOSEN_CODEC = Inr (Some (str_bytes codec))"
    by (subst take_one_all) (simp_all add: vals_codec_none)
  ultimately have "ack_decode (tlv_bytes ?fs) = Inr (ack_of (read_back b) codec)"
    unfolding ack_decode_def read_tlv_def read_tlv_bytes [OF ok] using assms(3,4)
    by (simp add: hs_decode_string_def same)
  then show ?thesis using enc by blast
qed

section \<open>What was read could have been sent\<close>

lemma map_sum_Inr: "map_sum f g x = Inr y \<longleftrightarrow> (\<exists>z. x = Inr z \<and> y = g z)"
  by (cases x) auto

lemma take_one_len:
  assumes "tlvs_ok fs" and "known_tag tag" and "take_one (store_all fs tlv_fields_new) tag = Inr (Some v)"
  shows "length v \<le> 65535"
proof -
  have "v \<in> set (vals fs tag)" using assms(3) take_one_all [OF assms(2), of fs] by (auto split: list.splits)
  then show ?thesis using assms(1) by (auto simp: vals_def tlvs_ok_def)
qed

lemma decoded_hello_valid:
  assumes "hello_decode p = Inr b"
  shows "validate_common b = Inr () \<and> body_utf8 b \<and> read_back b = b"
proof -
  obtain tlvs where t: "read_tlv p = Inr tlvs" and d: "decode_common tlvs = Inr b"
    using assms by (auto simp: hello_decode_def sum_bind_Inr split: if_splits)
  obtain fs where fs: "tlvs_ok fs" "tlvs = store_all fs tlv_fields_new"
    using read_tlv_fields t unfolding read_tlv_def by blast
  note len = take_one_len [OF fs(1), folded fs(2)]
  have str: "length s \<le> 65535 \<and> utf8_valid s" if "take_one tlvs tag = Inr (Some v)" "hs_decode_string v tag = Inr s" "known_tag tag" for tag v s
    using len [OF that(3,1)] that(2) by (auto simp: hs_decode_string_def split: if_splits)
  have opt: "pred_option (\<lambda>s. length s \<le> 65535) r \<and> pred_option utf8_valid r"
    if "optional_string tlvs tag = Inr r" "known_tag tag" for tag r
    using that str [of tag] by (auto simp: optional_string_def sum_bind_Inr map_sum_Inr split: option.splits)
  note dec = d [unfolded decode_common_def sum_bind_Inr]
  obtain v where "take_one tlvs tag_NODE_ID = Inr (Some v)" "hs_decode_string v tag_NODE_ID = Inr (hs_node_id b)"
    using dec by (auto simp: required_def sum_bind_Inr split: option.splits)
  then have node: "length (hs_node_id b) \<le> 65535" "utf8_valid (hs_node_id b)" using str by auto
  have "optional_string tlvs tag_REALM = Inr (hs_realm b)" "optional_string tlvs tag_CLUSTER = Inr (hs_cluster b)"
    using dec by auto
  then have opts: "pred_option (\<lambda>s. length s \<le> 65535) (hs_realm b)" "pred_option utf8_valid (hs_realm b)"
    "pred_option (\<lambda>s. length s \<le> 65535) (hs_cluster b)" "pred_option utf8_valid (hs_cluster b)"
    using opt by auto
  have rest: "\<not> bad_node_id (hs_node_id b)" "BODY_FIXED_OVERHEAD \<le> unat (hs_max_frame_len b)" "hs_hop_limit b \<noteq> 0"
    using dec by auto
  obtain db where db: "take_one tlvs tag_DIRECT_ADDR = Inr db"
    "(case db of None \<Rightarrow> Inr None | Some v \<Rightarrow> if v = [] then Inr None else map_sum id Some (hs_decode_string v tag_DIRECT_ADDR)) =
       Inr (hs_direct_addr b)"
    using dec by (elim exE conjE) auto
  consider (none) "hs_direct_addr b = None"
    | (some) v s where "take_one tlvs tag_DIRECT_ADDR = Inr (Some v)" "v \<noteq> []" "hs_decode_string v tag_DIRECT_ADDR = Inr s" "hs_direct_addr b = Some s"
    using db by (cases db) (auto simp: map_sum_Inr split: if_splits)
  then show ?thesis
  proof cases
    case none
    then show ?thesis using node opts rest by (simp add: validate_common_Inr body_utf8_def read_back_def handshake_body.defs)
  next
    case (some v s)
    have "s \<noteq> []" using some(2,3) by (auto simp: hs_decode_string_def bytes_str_def split: if_splits)
    then show ?thesis
      using node opts rest str [OF some(1,3)] some(4)
      by (simp add: validate_common_Inr body_utf8_def read_back_def handshake_body.defs)
  qed
qed

section \<open>The exchange\<close>

lemma control_flags: "validate_payload_flags (control_frame t p) = Inr ()"
proof -
  have none: "has_flag (control_frame t p) m \<longleftrightarrow> False" for m
    by (simp add: has_flag_def control_frame_def new_header_def)
  have key: "fr_key (control_frame t p) \<noteq> DURABLE_KEY" by (simp add: control_frame_def DURABLE_KEY_def)
  have "flag_BATCH OR flag_URGENT \<noteq> 0" by (simp add: flag_defs)
  then have "\<not> flags_refused (control_frame t p)"
    using key unfolding flags_refused_def none Let_def by (simp add: control_frame_def new_header_def)
  then show ?thesis by (simp add: validate_payload_flags_def none)
qed

lemma recv_control: "recv_expect t (control_frame t p) = Inr (control_frame t p)"
  by (simp add: recv_expect_def control_flags) (simp add: control_frame_def new_header_def)

lemma codec_valid: "utf8_valid ''bin''" "utf8_valid ''pb''"
  by code_simp+

definition chosen_codec :: "32 word \<Rightarrow> string" where
  "chosen_codec common = (if common AND cap_BIN \<noteq> 0 then ''bin'' else ''pb'')"

lemma chosen_in_common:
  assumes "negotiate_caps a b = Inr common"
  shows "\<exists>c. codec_cap (chosen_codec common) = Some c \<and> common AND c \<noteq> 0"
proof -
  have "common AND (cap_BIN OR cap_PB) \<noteq> 0" using assms by (auto simp: negotiate_caps_def Let_def split: if_splits)
  then have "common AND cap_BIN \<noteq> 0 \<or> common AND cap_PB \<noteq> 0" by (auto simp: bit.conj_disj_distrib)
  then show ?thesis by (auto simp: chosen_codec_def codec_cap_def)
qed

lemma and_subset_zero:
  fixes a b c :: "32 word"
  assumes "(a AND b) AND c \<noteq> 0"
  shows "a AND c \<noteq> 0" and "b AND c \<noteq> 0"
proof -
  have "(a AND b) AND c = b AND (a AND c)" "(a AND b) AND c = a AND (b AND c)"
    by (simp_all only: and.assoc and.left_commute [of a b])
  then show "a AND c \<noteq> 0" "b AND c \<noteq> 0" using assms by auto
qed

lemma negotiate_comm: "negotiate_caps a b = negotiate_caps b a"
  unfolding negotiate_caps_def by (subst and.commute) (rule refl)

text \<open>What the side that accepts sends back.\<close>

definition ack_body :: "handshake_body \<Rightarrow> handshake_body \<Rightarrow> handshake_body" where
  "ack_body local theirs = local\<lparr>hs_max_frame_len := min (hs_max_frame_len local) (hs_max_frame_len theirs)\<rparr>"

lemma ack_body_valid:
  "validate_common local = Inr () \<Longrightarrow> validate_common theirs = Inr () \<Longrightarrow> validate_common (ack_body local theirs) = Inr ()"
  by (simp add: validate_common_Inr ack_body_def min_def)

lemma accept_hello_exact:
  fixes a b :: handshake_body
  assumes a: "validate_common a = Inr ()" "body_utf8 a" and b: "validate_common b = Inr ()" "body_utf8 b"
  shows "accept_hello x509 trust b (control_frame HANDSHAKE (tlv_bytes (common_fields a))) =
    (if \<not> trust_verify x509 trust (hs_node_id a) then Inl Identity_Refused
     else case negotiate_caps (hs_capabilities b) (hs_capabilities a) of
       Inl _ \<Rightarrow> Inl No_Codec
     | Inr common \<Rightarrow>
         (case ack_encode (ack_of (ack_body b (read_back a)) (chosen_codec common)) [] of
            Inl e \<Rightarrow> Inl (Body_Error e)
          | Inr body \<Rightarrow> Inr (control_frame HANDSHAKE_ACK body, establish b (read_back a))))"
proof -
  have "hs_node_id (read_back a) = hs_node_id a" "hs_capabilities (read_back a) = hs_capabilities a"
    by (simp_all add: read_back_def handshake_body.defs)
  then show ?thesis
    using b(1) hello_simple [OF a] unfolding accept_hello_def recv_control ack_body_def chosen_codec_def
    by (simp add: control_frame_def)
qed

lemma ack_of_fields:
  "hs_node_id (ack_of b c) = hs_node_id b" "hs_capabilities (ack_of b c) = hs_capabilities b" "hs_chosen_codec (ack_of b c) = c"
  "handshake_body.truncate (ack_of b c) = b"
  by (simp_all add: ack_of_def handshake_body.defs)

lemma acknowledged:
  fixes a b :: handshake_body
  assumes a: "validate_common a = Inr ()" "body_utf8 a" and b: "validate_common b = Inr ()" "body_utf8 b"
    and common: "negotiate_caps (hs_capabilities b) (hs_capabilities a) = Inr common"
  shows "\<exists>body. ack_encode (ack_of (ack_body b (read_back a)) (chosen_codec common)) [] = Inr body \<and>
    connect_finish x509 trust a (control_frame HANDSHAKE_ACK body) =
      (if trust_verify x509 trust (hs_node_id b) then Inr (establish a (read_back (ack_body b (read_back a)))) else Inl Identity_Refused)"
proof -
  let ?b = "ack_body b (read_back a)" and ?codec = "chosen_codec common"
  have ra: "validate_common (read_back a) = Inr ()"
    using decoded_hello_valid hello_simple [OF a] by blast
  have vb: "validate_common ?b = Inr ()" "body_utf8 ?b"
    using ack_body_valid [OF b(1) ra] b(2) by (simp_all add: body_utf8_def ack_body_def)
  have caps: "hs_capabilities ?b = hs_capabilities b" "hs_capabilities (read_back ?b) = hs_capabilities b"
    "hs_node_id (read_back ?b) = hs_node_id b"
    by (simp_all add: ack_body_def read_back_def handshake_body.defs)
  obtain c where c: "codec_cap ?codec = Some c" "common AND c \<noteq> 0" using chosen_in_common [OF common] by blast
  have and_eq: "common = hs_capabilities b AND hs_capabilities a"
    using common by (auto simp: negotiate_caps_def Let_def split: if_splits)
  have "hs_capabilities b AND c \<noteq> 0" using c(2) unfolding and_eq by (rule and_subset_zero)
  moreover have "length ?codec \<le> 65535" by (simp add: chosen_codec_def)
  ultimately have chosen: "validate_chosen ?codec (hs_capabilities ?b) = Inr ()"
    using c(1) by (simp add: validate_chosen_def caps)
  have valid: "utf8_valid ?codec" unfolding chosen_codec_def using codec_valid by (cases "common AND cap_BIN \<noteq> 0") auto
  obtain body where body: "ack_encode (ack_of ?b ?codec) [] = Inr body" "ack_decode body = Inr (ack_of (read_back ?b) ?codec)"
    using ack_roundtrip [OF vb chosen valid] by blast
  have "negotiate_caps (hs_capabilities a) (hs_capabilities b) = Inr common"
    using common by (simp only: negotiate_comm)
  then have "connect_finish x509 trust a (control_frame HANDSHAKE_ACK body) =
      (if trust_verify x509 trust (hs_node_id b) then Inr (establish a (read_back ?b)) else Inl Identity_Refused)"
    using body(2) c caps(2,3) unfolding connect_finish_def recv_control
    by (simp add: control_frame_def ack_of_fields)
  then show ?thesis using body(1) by blast
qed

lemma establish_agrees:
  "es_capabilities (establish a (read_back (ack_body b (read_back a)))) = es_capabilities (establish b (read_back a))"
  "es_codec_limit (establish a (read_back (ack_body b (read_back a)))) = es_codec_limit (establish b (read_back a))"
  "es_max_frame_len (establish a (read_back (ack_body b (read_back a)))) = es_max_frame_len (establish b (read_back a))"
proof -
  have m: "hs_max_frame_len (read_back (ack_body b (read_back a))) = min (hs_max_frame_len b) (hs_max_frame_len a)"
    "hs_max_frame_len (read_back a) = hs_max_frame_len a"
    "hs_capabilities (read_back (ack_body b (read_back a))) = hs_capabilities b" "hs_capabilities (read_back a) = hs_capabilities a"
    by (simp_all add: read_back_def ack_body_def handshake_body.defs)
  have "unat (min x y) = min (unat x) (unat y)" for x y :: "32 word" by (simp add: min_def word_le_nat_alt)
  then show
    "es_capabilities (establish a (read_back (ack_body b (read_back a)))) = es_capabilities (establish b (read_back a))"
    "es_codec_limit (establish a (read_back (ack_body b (read_back a)))) = es_codec_limit (establish b (read_back a))"
    "es_max_frame_len (establish a (read_back (ack_body b (read_back a)))) = es_max_frame_len (establish b (read_back a))"
    by (simp_all add: establish_def m Let_def and.commute min.commute min.left_commute)
qed

text \<open>
  C3. The two sides of a connection agree. For any two valid bodies, the side that accepts refuses exactly when the name of
  the other is not trusted or the two have no codec in common. Otherwise its acknowledgement is accepted by
  the side that connects, unless that one does not trust the name it reads; both then hold the same common
  capabilities and the same frame limits, which respect both bodies, and each holds the name of the other.
\<close>

theorem handshake_agreement:
  fixes a b :: handshake_body
  assumes "validate_common a = Inr ()" and "body_utf8 a" and "validate_common b = Inr ()" and "body_utf8 b"
  shows "\<exists>hello. send_hello a = Inr hello \<and>
    (case accept_hello x509 trust_b b hello of
       Inl e \<Rightarrow> e = Identity_Refused \<and> \<not> trust_verify x509 trust_b (hs_node_id a) \<or>
         e = No_Codec \<and> (hs_capabilities a AND hs_capabilities b) AND (cap_BIN OR cap_PB) = 0
     | Inr (ack, eb) \<Rightarrow> trust_verify x509 trust_b (hs_node_id a) \<and> hs_node_id (es_peer eb) = hs_node_id a \<and>
         (case connect_finish x509 trust_a a ack of
            Inl e \<Rightarrow> e = Identity_Refused \<and> \<not> trust_verify x509 trust_a (hs_node_id b)
          | Inr ea \<Rightarrow> trust_verify x509 trust_a (hs_node_id b) \<and> hs_node_id (es_peer ea) = hs_node_id b \<and>
              es_capabilities ea = es_capabilities eb \<and> es_capabilities ea = hs_capabilities a AND hs_capabilities b \<and>
              es_codec_limit ea = es_codec_limit eb \<and> es_max_frame_len ea = es_max_frame_len eb \<and>
              BODY_FIXED_OVERHEAD \<le> es_max_frame_len ea \<and> es_max_frame_len ea \<le> MAX_FRAME_LEN \<and>
              es_max_frame_len ea \<le> unat (hs_max_frame_len a) \<and> es_max_frame_len ea \<le> unat (hs_max_frame_len b)))"
proof -
  let ?hello = "control_frame HANDSHAKE (tlv_bytes (common_fields a))" and ?rb = "read_back (ack_body b (read_back a))"
  have send: "send_hello a = Inr ?hello" using assms(1) hello_simple [OF assms(1,2)] by (simp add: send_hello_def)
  note exact = accept_hello_exact [OF assms, of x509 trust_b]
  have len: "BODY_FIXED_OVERHEAD \<le> unat (hs_max_frame_len a)" "BODY_FIXED_OVERHEAD \<le> unat (hs_max_frame_len b)"
    using assms(1,3) by (simp_all add: validate_common_Inr)
  have fields: "hs_node_id ?rb = hs_node_id b" "hs_node_id (read_back a) = hs_node_id a" "hs_capabilities ?rb = hs_capabilities b"
    "hs_max_frame_len ?rb = min (hs_max_frame_len b) (hs_max_frame_len a)"
    by (simp_all add: ack_body_def read_back_def handshake_body.defs)
  have bounds: "BODY_FIXED_OVERHEAD \<le> es_max_frame_len (establish a ?rb)" "es_max_frame_len (establish a ?rb) \<le> MAX_FRAME_LEN"
    "es_max_frame_len (establish a ?rb) \<le> unat (hs_max_frame_len a)" "es_max_frame_len (establish a ?rb) \<le> unat (hs_max_frame_len b)"
    using len by (auto simp: establish_def fields Let_def min_def word_le_nat_alt BODY_FIXED_OVERHEAD_def MAX_FRAME_LEN_def)
  show ?thesis
  proof (cases "negotiate_caps (hs_capabilities b) (hs_capabilities a)")
    case (Inl e)
    then have "(hs_capabilities a AND hs_capabilities b) AND (cap_BIN OR cap_PB) = 0"
      by (auto simp: negotiate_caps_def Let_def and.commute split: if_splits)
    then show ?thesis using send exact Inl by simp
  next
    case (Inr common)
    obtain body where body: "ack_encode (ack_of (ack_body b (read_back a)) (chosen_codec common)) [] = Inr body"
      "connect_finish x509 trust_a a (control_frame HANDSHAKE_ACK body) =
         (if trust_verify x509 trust_a (hs_node_id b) then Inr (establish a ?rb) else Inl Identity_Refused)"
      using acknowledged [OF assms Inr, of x509 trust_a] by blast
    have peers: "es_peer (establish a ?rb) = ?rb" "es_peer (establish b (read_back a)) = read_back a"
      "es_capabilities (establish a ?rb) = hs_capabilities a AND hs_capabilities b"
      by (simp_all add: establish_def Let_def fields)
    show ?thesis
    proof (cases "trust_verify x509 trust_b (hs_node_id a)")
      case True
      then have acc: "accept_hello x509 trust_b b ?hello = Inr (control_frame HANDSHAKE_ACK body, establish b (read_back a))"
        using exact Inr body(1) by simp
      show ?thesis
        unfolding send using True bounds
        by (simp add: acc body(2) peers fields establish_agrees [of a b, symmetric])
    qed (use send exact Inr in simp)
  qed
qed

definition example_hello :: "string \<Rightarrow> 32 word \<Rightarrow> 32 word \<Rightarrow> handshake_body" where
  "example_hello node caps m =
     handshake_default\<lparr>hs_node_id := node, hs_realm := Some ''eu'', hs_capabilities := caps, hs_max_frame_len := m,
       hs_direct_addr := Some ''host:7''\<rparr>"

theorem handshake_agreement_witness:
  "\<exists>hello ack ea eb. send_hello (example_hello ''n1'' 3 4096) = Inr hello \<and>
     accept_hello (\<lambda>c. Some ([], [Some ''n2''])) (Expected InProcess ''n1'') (example_hello ''n2'' 2 1024) hello = Inr (ack, eb) \<and>
     connect_finish (\<lambda>c. Some ([], [Some ''n2''])) (Expected (Certificates [[48]]) ''n2'') (example_hello ''n1'' 3 4096) ack = Inr ea \<and>
     es_capabilities ea = 2 \<and> es_max_frame_len ea = es_max_frame_len eb \<and> es_max_frame_len eb \<le> 1024"
proof -
  let ?a = "example_hello ''n1'' 3 4096" and ?b = "example_hello ''n2'' 2 1024"
  have a: "validate_common ?a = Inr ()" and b: "validate_common ?b = Inr ()" by code_simp+
  have "utf8_valid ''n1''" "utf8_valid ''n2''" "utf8_valid ''eu''" "utf8_valid ''host:7''" by code_simp+
  then have utf8: "body_utf8 ?a" "body_utf8 ?b" by (simp_all add: body_utf8_def example_hello_def handshake_default_def)
  have ta: "trust_verify (\<lambda>c. Some ([], [Some ''n2''])) (Expected InProcess ''n1'') (hs_node_id ?a)" by code_simp
  have tb: "trust_verify (\<lambda>c. Some ([], [Some ''n2''])) (Expected (Certificates [[48]]) ''n2'') (hs_node_id ?b)" by code_simp
  have c: "(hs_capabilities ?a AND hs_capabilities ?b) AND (cap_BIN OR cap_PB) \<noteq> 0" "hs_capabilities ?a AND hs_capabilities ?b = 2"
    "unat (hs_max_frame_len ?b) = 1024" by code_simp+
  let ?x509 = "\<lambda>c. Some ([], [Some ''n2''])" and ?ta = "Expected (Certificates [[48]]) ''n2''" and ?tb = "Expected InProcess ''n1''"
  note agree = handshake_agreement [OF a utf8(1) b utf8(2), of ?x509 ?tb ?ta]
  obtain hello where hello: "send_hello ?a = Inr hello" using agree by blast
  obtain ack eb where acc: "accept_hello ?x509 ?tb ?b hello = Inr (ack, eb)"
    using agree hello ta c(1) by (cases "accept_hello ?x509 ?tb ?b hello") auto
  obtain ea where fin: "connect_finish ?x509 ?ta ?a ack = Inr ea"
    using agree hello acc tb by (cases "connect_finish ?x509 ?ta ?a ack") auto
  show ?thesis using agree hello acc fin c(2,3) by auto
qed

end
