(* ===== verification/Trace.thy ===== *)
theory Trace
  imports Bytes Tables "HOL-Library.Product_Lexorder" "HOL-Library.Monad_Syntax"
begin

text \<open>
  Tracing: the bounded recorder of completed spans (\<^verbatim>\<open>crates/parrot-api/src/trace/recording.rs\<close>) and the causal forest
  that is built from one of its snapshots (\<^verbatim>\<open>trace/forest.rs\<close>).

  A duration is its number of nanoseconds; the clock is an argument of the operations that read it. The owner of a span
  in flight is its unfinished record. \<^verbatim>\<open>u64\<close> counters saturate and raise a flag, as in the source. The debug form
  of a text, which depends on tables of Unicode, is the argument \<open>dbg\<close>. \<^term>\<open>None\<close> of the loops is an index out of
  range or a loop that does not end.
\<close>

section \<open>Records\<close>

datatype span_kind =
    TypedHandler | DynamicHandler | BusinessBatch | InboxTransaction | ManagedTask | StreamStarted | StreamItem
  | StreamFinished | StreamError | Application

datatype span_status = Span_Ok | Span_Error | Span_Panicked | Span_Cancelled

record span_record =
  sp_sequence :: nat
  sp_trace :: "byte list"
  sp_span :: "byte list"
  sp_parent :: "byte list option"
  sp_kind :: span_kind
  sp_target :: string
  sp_truncated :: bool
  sp_started :: nat
  sp_duration :: nat
  sp_status :: span_status

record span_counts =
  ct_started :: nat
  ct_in_flight :: nat
  ct_completed :: nat
  ct_ok :: nat
  ct_errors :: nat
  ct_panicked :: nat
  ct_cancelled :: nat
  ct_overwritten :: nat
  ct_drained :: nat
  ct_rejected :: nat
  ct_truncated :: nat
  ct_overflowed :: bool

definition span_counts_default :: span_counts where
  "span_counts_default =
     \<lparr>ct_started = 0, ct_in_flight = 0, ct_completed = 0, ct_ok = 0, ct_errors = 0, ct_panicked = 0, ct_cancelled = 0,
      ct_overwritten = 0, ct_drained = 0, ct_rejected = 0, ct_truncated = 0, ct_overflowed = False\<rparr>"

record trace_snapshot =
  sn_recorder_id :: "byte list"
  sn_capacity :: nat
  sn_retained :: nat
  sn_closed :: bool
  sn_terminal :: bool
  sn_counts :: span_counts
  sn_records :: "span_record list"

definition MAX_TARGET_BYTES :: nat where "MAX_TARGET_BYTES = 256"
definition MAX_RECORD_CAPACITY :: nat where "MAX_RECORD_CAPACITY = 65536"

section \<open>The recorder\<close>

record trace_recorder =
  tr_id :: "byte list"
  tr_capacity :: nat
  tr_records :: "span_record list"
  tr_counts :: span_counts
  tr_closed :: bool

record trace_context =
  tc_trace :: "byte list"
  tc_span :: "byte list"
  tc_parent :: "byte list option"

definition count_up :: "(span_counts \<Rightarrow> nat) \<Rightarrow> ((nat \<Rightarrow> nat) \<Rightarrow> span_counts \<Rightarrow> span_counts) \<Rightarrow> nat \<Rightarrow> span_counts \<Rightarrow> span_counts" where
  "count_up get upd k c =
     (case checked_add (get c) k of
        Some n \<Rightarrow> upd (\<lambda>_. n) c
      | None \<Rightarrow> (upd (\<lambda>_. u64_max) c)\<lparr>ct_overflowed := True\<rparr>)"

definition recorder_new :: "byte list \<Rightarrow> nat \<Rightarrow> trace_recorder option" where
  "recorder_new i capacity =
     (if \<not> (1 \<le> capacity \<and> capacity \<le> MAX_RECORD_CAPACITY) then None
      else Some \<lparr>tr_id = i, tr_capacity = capacity, tr_records = [], tr_counts = span_counts_default, tr_closed = False\<rparr>)"

definition recorder_close :: "trace_recorder \<Rightarrow> trace_recorder" where
  "recorder_close r = r\<lparr>tr_closed := True\<rparr>"

definition recorder_read :: "bool \<Rightarrow> trace_recorder \<Rightarrow> trace_snapshot \<times> trace_recorder" where
  "recorder_read drained r =
     (let records = tr_records r;
          r = (if drained
               then r\<lparr>tr_counts := count_up ct_drained ct_drained_update (length records) (tr_counts r), tr_records := []\<rparr>
               else r)
      in (\<lparr>sn_recorder_id = tr_id r, sn_capacity = tr_capacity r, sn_retained = length (tr_records r),
           sn_closed = tr_closed r, sn_terminal = (tr_closed r \<and> ct_in_flight (tr_counts r) = 0),
           sn_counts = tr_counts r, sn_records = records\<rparr>, r))"

text \<open>\<^verbatim>\<open>str::is_char_boundary\<close> on UTF-8 bytes, and the loop that cuts a target.\<close>

definition is_char_boundary :: "string \<Rightarrow> nat \<Rightarrow> bool" where
  "is_char_boundary s i \<longleftrightarrow>
     i = 0 \<or> i = length s \<or>
     (i < length s \<and> \<not> (128 \<le> (of_char (s ! i) :: nat) \<and> (of_char (s ! i) :: nat) < 192))"

primrec cut_at :: "string \<Rightarrow> nat \<Rightarrow> nat" where
  "cut_at s 0 = 0"
| "cut_at s (Suc n) = (if is_char_boundary s (Suc n) then Suc n else cut_at s n)"

definition recorder_start ::
  "trace_context \<Rightarrow> span_kind \<Rightarrow> string \<Rightarrow> nat \<Rightarrow> trace_recorder \<Rightarrow> span_record option \<times> trace_recorder" where
  "recorder_start ctx kind target now r =
     (let n = cut_at target (min (length target) MAX_TARGET_BYTES); truncated = (n \<noteq> length target) in
      if tr_closed r then (None, r\<lparr>tr_counts := count_up ct_rejected ct_rejected_update 1 (tr_counts r)\<rparr>)
      else
        let c = count_up ct_in_flight ct_in_flight_update 1 (count_up ct_started ct_started_update 1 (tr_counts r));
            c = (if truncated then count_up ct_truncated ct_truncated_update 1 c else c)
        in (Some \<lparr>sp_sequence = ct_started c, sp_trace = tc_trace ctx, sp_span = tc_span ctx, sp_parent = tc_parent ctx,
                  sp_kind = kind, sp_target = take n target, sp_truncated = truncated, sp_started = now, sp_duration = 0,
                  sp_status = Span_Cancelled\<rparr>, r\<lparr>tr_counts := c\<rparr>))"

primrec count_status :: "span_status \<Rightarrow> span_counts \<Rightarrow> span_counts" where
  "count_status Span_Ok c = count_up ct_ok ct_ok_update 1 c"
| "count_status Span_Error c = count_up ct_errors ct_errors_update 1 c"
| "count_status Span_Panicked c = count_up ct_panicked ct_panicked_update 1 c"
| "count_status Span_Cancelled c = count_up ct_cancelled ct_cancelled_update 1 c"

definition publish_span :: "span_status \<Rightarrow> nat \<Rightarrow> span_record \<Rightarrow> trace_recorder \<Rightarrow> trace_recorder" where
  "publish_span status now sp r =
     (let sp = sp\<lparr>sp_status := status, sp_duration := now - sp_started sp\<rparr>;
          c = tr_counts r;
          c = count_status status (count_up ct_completed ct_completed_update 1 (c\<lparr>ct_in_flight := ct_in_flight c - 1\<rparr>));
          full = (length (tr_records r) = tr_capacity r)
      in r\<lparr>tr_counts := (if full then count_up ct_overwritten ct_overwritten_update 1 c else c),
           tr_records := (if full then tl (tr_records r) else tr_records r) @ [sp]\<rparr>)"

section \<open>The forest\<close>

datatype parent_relation = P_Root | P_Recorded nat | P_Unobserved | P_Ambiguous | P_Cycle

record forest_diag =
  fd_reused :: nat
  fd_unobserved :: nat
  fd_ambiguous :: nat
  fd_cycle :: nat

record span_forest =
  sf_snapshot :: trace_snapshot
  sf_records :: "span_record list"
  sf_parents :: "parent_relation list"
  sf_children :: "nat list list"
  sf_roots :: "nat list"
  sf_diag :: forest_diag

datatype forest_error = InvalidCapacity | TargetTooLong nat | TextBudgetTooLarge | TextBudgetTooSmall nat

definition MAX_FOREST_TEXT_BYTES :: nat where "MAX_FOREST_TEXT_BYTES = 8 * 1024 * 1024"

type_synonym span_identity = "byte list \<times> byte list"

definition span_key :: "span_record \<Rightarrow> span_identity" where
  "span_key sp = (sp_trace sp, sp_span sp)"

definition record_order :: "span_record \<Rightarrow> byte list \<times> nat \<times> nat \<times> byte list" where
  "record_order sp = (sp_trace sp, sp_started sp, sp_sequence sp, sp_span sp)"

text \<open>An identity is mapped to its only index, or to nothing when it was seen twice.\<close>

definition index_identities :: "span_record list \<Rightarrow> (span_identity \<times> nat option) list" where
  "index_identities rs =
     fold (\<lambda>(i, sp) m. AList.update (span_key sp) (case map_of m (span_key sp) of Some _ \<Rightarrow> None | None \<Rightarrow> Some i) m)
       (enumerate 0 rs) []"

definition parent_of :: "(span_identity \<times> nat option) list \<Rightarrow> span_record \<Rightarrow> parent_relation" where
  "parent_of ids sp =
     (case sp_parent sp of
        None \<Rightarrow> P_Root
      | Some p \<Rightarrow>
          (case map_of ids (sp_trace sp, p) of
             Some (Some i) \<Rightarrow> P_Recorded i
           | Some None \<Rightarrow> P_Ambiguous
           | None \<Rightarrow> P_Unobserved))"

datatype visit = New | Open | Done

lemma count_open: "i < length st \<Longrightarrow> st ! i \<noteq> Open \<Longrightarrow> st ! i \<noteq> Done \<Longrightarrow> count_list (st[i := Open]) New < count_list st New"
proof (induction st arbitrary: i)
  case (Cons v st)
  then show ?case by (cases i; cases v) auto
qed simp

text \<open>The walk from a start towards the root, which stops at a node that was seen before.\<close>

function walk :: "nat option \<Rightarrow> nat list \<Rightarrow> visit list \<Rightarrow> parent_relation list \<Rightarrow> nat \<Rightarrow>
    (nat list \<times> visit list \<times> parent_relation list \<times> nat) option" where
  "walk next path st ps cycles =
     (case next of
        None \<Rightarrow> Some (path, st, ps, cycles)
      | Some i \<Rightarrow>
          if \<not> (i < length st \<and> i < length ps) then None
          else if st ! i = Done then Some (path, st, ps, cycles)
          else if st ! i = Open then
            if i \<notin> set path then None
            else let ring = dropWhile (\<lambda>n. n \<noteq> i) path in
            Some (path, st, fold (\<lambda>n ps. ps[n := P_Cycle]) ring ps, cycles + length ring)
          else walk (case ps ! i of P_Recorded p \<Rightarrow> Some p | _ \<Rightarrow> None) (path @ [i]) (st[i := Open]) ps cycles)"
  by pat_completeness auto
termination
  by (relation "measure (\<lambda>(next, path, st, ps, cycles). count_list st New)")
    (auto intro!: count_open intro: visit.exhaust)

declare walk.simps [simp del]

text \<open>One round of the outer loop, from a start to the next.\<close>

definition mark_done :: "nat list \<Rightarrow> visit list \<Rightarrow> visit list" where
  "mark_done path st = fold (\<lambda>n st. st[n := Done]) path st"

primrec break_cycles :: "nat list \<Rightarrow> visit list \<Rightarrow> parent_relation list \<Rightarrow> nat \<Rightarrow> (parent_relation list \<times> nat) option" where
  "break_cycles [] st ps cycles = Some (ps, cycles)"
| "break_cycles (start # starts) st ps cycles =
     (if st ! start \<noteq> New then break_cycles starts st ps cycles
      else do {
        (path, st, ps, cycles) \<leftarrow> walk (Some start) [] st ps cycles;
        break_cycles starts (mark_done path st) ps cycles
      })"

definition attach :: "parent_relation list \<Rightarrow> nat list list \<times> nat list" where
  "attach ps =
     fold (\<lambda>i (children, roots).
         case ps ! i of
           P_Recorded p \<Rightarrow> (children[p := children ! p @ [i]], roots)
         | _ \<Rightarrow> (children, roots @ [i]))
       [0..<length ps] (replicate (length ps) [], [])"

definition count_if :: "('a \<Rightarrow> bool) \<Rightarrow> 'a list \<Rightarrow> nat" where
  "count_if P xs = length (filter P xs)"

definition forest_new :: "trace_snapshot \<Rightarrow> (forest_error + span_forest) option" where
  "forest_new snap =
     (if \<not> (1 \<le> sn_capacity snap \<and> sn_capacity snap \<le> MAX_RECORD_CAPACITY) \<or>
         length (sn_records snap) > sn_capacity snap \<or> sn_retained snap > sn_capacity snap
      then Some (Inl InvalidCapacity)
      else case find (\<lambda>sp. length (sp_target sp) > MAX_TARGET_BYTES) (sn_records snap) of
          Some sp \<Rightarrow> Some (Inl (TargetTooLong (sp_sequence sp)))
        | None \<Rightarrow>
            let rs = sort_key record_order (sn_records snap);
                ids = index_identities rs;
                ps = map (parent_of ids) rs
            in do {
              (ps', cycles) \<leftarrow> break_cycles [0..<length rs] (replicate (length rs) New) ps 0;
              let (children, roots) = attach ps';
              Some (Inr \<lparr>sf_snapshot = snap, sf_records = rs, sf_parents = ps', sf_children = children, sf_roots = roots,
                sf_diag = \<lparr>fd_reused = count_if (\<lambda>sp. map_of ids (span_key sp) = Some None) rs,
                           fd_unobserved = count_if (\<lambda>p. p = P_Unobserved) ps,
                           fd_ambiguous = count_if (\<lambda>p. p = P_Ambiguous) ps,
                           fd_cycle = cycles\<rparr>\<rparr>)
            })"

section \<open>The text of a forest\<close>

definition hex_digit :: "nat \<Rightarrow> char" where
  "hex_digit d = (if d < 10 then char_of (48 + d) else char_of (87 + d))"

definition hex_str :: "byte list \<Rightarrow> string" where
  "hex_str bs = concat (map (\<lambda>b. [hex_digit (unat b div 16), hex_digit (unat b mod 16)]) bs)"

definition bool_str :: "bool \<Rightarrow> string" where
  "bool_str b = (if b then ''true'' else ''false'')"

primrec kind_str :: "span_kind \<Rightarrow> string" where
  "kind_str TypedHandler = ''TypedHandler''"
| "kind_str DynamicHandler = ''DynamicHandler''"
| "kind_str BusinessBatch = ''BusinessBatch''"
| "kind_str InboxTransaction = ''InboxTransaction''"
| "kind_str ManagedTask = ''ManagedTask''"
| "kind_str StreamStarted = ''StreamStarted''"
| "kind_str StreamItem = ''StreamItem''"
| "kind_str StreamFinished = ''StreamFinished''"
| "kind_str StreamError = ''StreamError''"
| "kind_str Application = ''Application''"

primrec status_str :: "span_status \<Rightarrow> string" where
  "status_str Span_Ok = ''Ok''"
| "status_str Span_Error = ''Error''"
| "status_str Span_Panicked = ''Panicked''"
| "status_str Span_Cancelled = ''Cancelled''"

primrec relation_str :: "parent_relation \<Rightarrow> string" where
  "relation_str P_Root = ''root''"
| "relation_str (P_Recorded p) = ''recorded''"
| "relation_str P_Unobserved = ''unobserved''"
| "relation_str P_Ambiguous = ''ambiguous''"
| "relation_str P_Cycle = ''cycle''"

definition forest_header :: "span_forest \<Rightarrow> nat \<Rightarrow> nat \<Rightarrow> string" where
  "forest_header f emitted omitted =
     (let snap = sf_snapshot f; c = sn_counts snap; d = sf_diag f in
      ''recorder='' @ hex_str (sn_recorder_id snap) @ '' records='' @ dec_str (length (sf_records f)) @
      '' emitted='' @ dec_str emitted @ '' omitted='' @ dec_str omitted @ '' closed='' @ bool_str (sn_closed snap) @
      '' terminal='' @ bool_str (sn_terminal snap) @ '' retained='' @ dec_str (sn_retained snap) @ [CHR 0x0A] @
      ''counts started='' @ dec_str (ct_started c) @ '' in_flight='' @ dec_str (ct_in_flight c) @
      '' completed='' @ dec_str (ct_completed c) @ '' ok='' @ dec_str (ct_ok c) @ '' errors='' @ dec_str (ct_errors c) @
      '' panicked='' @ dec_str (ct_panicked c) @ '' cancelled='' @ dec_str (ct_cancelled c) @
      '' overwritten='' @ dec_str (ct_overwritten c) @ '' drained='' @ dec_str (ct_drained c) @
      '' rejected_after_close='' @ dec_str (ct_rejected c) @ '' targets_truncated='' @ dec_str (ct_truncated c) @
      '' counters_overflowed='' @ bool_str (ct_overflowed c) @ [CHR 0x0A] @
      ''forest reused_identity_records='' @ dec_str (fd_reused d) @
      '' unobserved_parent_records='' @ dec_str (fd_unobserved d) @
      '' ambiguous_parent_records='' @ dec_str (fd_ambiguous d) @ '' cycle_records='' @ dec_str (fd_cycle d) @ [CHR 0x0A])"

definition forest_line :: "(string \<Rightarrow> string) \<Rightarrow> span_forest \<Rightarrow> nat \<Rightarrow> nat \<Rightarrow> string" where
  "forest_line dbg f i depth =
     (let sp = sf_records f ! i in
      replicate (min depth 16 * 2) CHR '' '' @ ''seq='' @ dec_str (sp_sequence sp) @ '' depth='' @ dec_str depth @
      '' trace='' @ hex_str (sp_trace sp) @ '' span='' @ hex_str (sp_span sp) @
      '' parent='' @ (case sp_parent sp of Some p \<Rightarrow> hex_str p | None \<Rightarrow> ''none'') @
      '' ['' @ relation_str (sf_parents f ! i) @ ''] '' @ kind_str (sp_kind sp) @ '' '' @ status_str (sp_status sp) @
      '' start_ns='' @ dec_str (sp_started sp) @ '' duration_ns='' @ dec_str (sp_duration sp) @
      '' target='' @ dbg (sp_target sp) @ '' target_truncated='' @ bool_str (sp_truncated sp) @ [CHR 0x0A])"

record forest_text =
  ft_text :: string
  ft_emitted :: nat
  ft_omitted :: nat

text \<open>The loop over the stack, whose top is the head of the list.\<close>

partial_function (option) render_loop ::
  "(nat \<Rightarrow> nat \<Rightarrow> string) \<Rightarrow> nat list list \<Rightarrow> nat \<Rightarrow> (nat \<times> nat) list \<Rightarrow> nat \<Rightarrow> string \<Rightarrow> (nat \<times> string) option" where
  "render_loop line children budget stack emitted body =
     (case stack of
        [] \<Rightarrow> Some (emitted, body)
      | (i, depth) # rest \<Rightarrow>
          if length (line i depth) > budget - length body then Some (emitted, body)
          else render_loop line children budget (map (\<lambda>c. (c, depth + 1)) (children ! i) @ rest) (emitted + 1)
                 (body @ line i depth))"

definition render_text :: "(string \<Rightarrow> string) \<Rightarrow> nat \<Rightarrow> span_forest \<Rightarrow> (forest_error + forest_text) option" where
  "render_text dbg max_bytes f =
     (if max_bytes > MAX_FOREST_TEXT_BYTES then Some (Inl TextBudgetTooLarge)
      else
        let n = length (sf_records f); reserve = length (forest_header f n n) in
        if max_bytes < reserve then Some (Inl (TextBudgetTooSmall reserve))
        else do {
          (emitted, body) \<leftarrow> render_loop (forest_line dbg f) (sf_children f) (max_bytes - reserve)
                               (map (\<lambda>i. (i, 0)) (sf_roots f)) 0 [];
          Some (Inr \<lparr>ft_text = forest_header f emitted (n - emitted) @ body, ft_emitted = emitted, ft_omitted = n - emitted\<rparr>)
        })"

end
