(* ===== verification/Trace_Forest.thy ===== *)
theory Trace_Forest
  imports Trace
begin

text \<open>
  The causal forest of a snapshot: identities, the removal of cycles, and the traversal of what is left.
\<close>

section \<open>Chains in a functional graph\<close>

lemma chain_reaches: "successively (\<lambda>a b. (a, b) \<in> R) (a # xs) \<Longrightarrow> x \<in> set xs \<Longrightarrow> (a, x) \<in> R\<^sup>+"
proof (induction xs arbitrary: a)
  case (Cons b xs)
  then show ?case by (cases "x = b") (auto intro: trancl_into_trancl2)
qed simp

lemma chain_continues:
  assumes "single_valued R" and "successively (\<lambda>a b. (a, b) \<in> R) (a # xs)" and "(a, x) \<in> R\<^sup>+"
  shows "x \<in> set xs \<or> (last (a # xs), x) \<in> R\<^sup>+"
  using assms(2,3)
proof (induction xs arbitrary: a)
  case (Cons b xs)
  obtain c where "(a, c) \<in> R" "c = x \<or> (c, x) \<in> R\<^sup>+" using Cons.prems(2) by (metis tranclD rtranclD)
  moreover then have "c = b" using assms(1) Cons.prems(1) by (auto dest: single_valuedD)
  ultimately show ?case using Cons.IH [of b] Cons.prems(1) by auto
qed simp

lemma chain_last: "successively P (path @ [j]) \<Longrightarrow> path \<noteq> [] \<Longrightarrow> P (last path) j"
  by (simp add: successively_append_iff)

lemma closed_trancl: "(a, x) \<in> R\<^sup>+ \<Longrightarrow> (\<And>b c. b \<in> S \<Longrightarrow> (b, c) \<in> R \<Longrightarrow> c \<in> S) \<Longrightarrow> a \<in> S \<Longrightarrow> x \<in> S"
  by (induction rule: trancl_induct) auto

text \<open>A chain whose end has no successor, or leads into a closed set it does not meet, has nobody on a cycle.\<close>

lemma chain_acyclic:
  assumes R: "single_valued R" and chain: "successively (\<lambda>a b. (a, b) \<in> R) path" and dist: "distinct path" and i: "i \<in> set path"
    and stop: "\<And>x. (last path, x) \<in> R\<^sup>+ \<Longrightarrow> x \<notin> set path"
  shows "(i, i) \<notin> R\<^sup>+"
proof
  assume c: "(i, i) \<in> R\<^sup>+"
  obtain us vs where p: "path = us @ i # vs" using i by (auto simp: in_set_conv_decomp)
  have "i \<in> set vs \<or> (last (i # vs), i) \<in> R\<^sup>+"
    using chain_continues [OF R _ c] chain by (simp add: p successively_append_iff)
  then show False using stop [of i] dist i by (auto simp: p)
qed

section \<open>Removing cycles\<close>

definition edges :: "parent_relation list \<Rightarrow> (nat \<times> nat) set" where
  "edges ps = {(i, j). i < length ps \<and> ps ! i = P_Recorded j}"

definition on_cycle :: "parent_relation list \<Rightarrow> nat \<Rightarrow> bool" where
  "on_cycle ps i \<longleftrightarrow> (i, i) \<in> (edges ps)\<^sup>+"

definition uncycled :: "parent_relation list \<Rightarrow> nat \<Rightarrow> parent_relation" where
  "uncycled ps i = (if on_cycle ps i then P_Cycle else ps ! i)"

definition parents_in_range :: "parent_relation list \<Rightarrow> bool" where
  "parents_in_range ps \<longleftrightarrow> (\<forall>(i, j) \<in> edges ps. j < length ps)"

lemma parents_in_rangeD: "parents_in_range ps \<Longrightarrow> (i, j) \<in> edges ps \<Longrightarrow> j < length ps \<and> i < length ps"
  by (auto simp: parents_in_range_def edges_def)

lemma edges_single: "single_valued (edges ps)"
  by (auto simp: edges_def single_valued_def)

definition step_to :: "parent_relation list \<Rightarrow> nat \<Rightarrow> nat option" where
  "step_to ps i = (case ps ! i of P_Recorded p \<Rightarrow> Some p | _ \<Rightarrow> None)"

lemma step_to_edge: "i < length ps \<Longrightarrow> step_to ps i = Some j \<longleftrightarrow> (i, j) \<in> edges ps"
  by (auto simp: step_to_def edges_def split: parent_relation.splits)

definition done_ok :: "parent_relation list \<Rightarrow> visit list \<Rightarrow> parent_relation list \<Rightarrow> bool" where
  "done_ok ps0 st ps \<longleftrightarrow> length st = length ps0 \<and> length ps = length ps0 \<and>
     (\<forall>i < length ps0. ps ! i = (if st ! i = Done then uncycled ps0 i else ps0 ! i)) \<and>
     (\<forall>(i, j) \<in> edges ps0. st ! i = Done \<longrightarrow> st ! j = Done)"

lemma done_okD:
  assumes "done_ok ps0 st ps"
  shows "length st = length ps0" "length ps = length ps0"
    "i < length ps0 \<Longrightarrow> ps ! i = (if st ! i = Done then uncycled ps0 i else ps0 ! i)"
    "(i, j) \<in> edges ps0 \<Longrightarrow> st ! i = Done \<Longrightarrow> st ! j = Done"
  using assms by (auto simp: done_ok_def)

definition walking :: "parent_relation list \<Rightarrow> nat option \<Rightarrow> nat list \<Rightarrow> visit list \<Rightarrow> bool" where
  "walking ps0 nxt path st \<longleftrightarrow> distinct path \<and> set path = {i. i < length ps0 \<and> st ! i = Open} \<and>
     successively (\<lambda>a b. (a, b) \<in> edges ps0) (path @ (case nxt of Some j \<Rightarrow> [j] | None \<Rightarrow> [])) \<and>
     (case nxt of Some j \<Rightarrow> j < length ps0 | None \<Rightarrow> path \<noteq> [] \<and> (\<forall>j. (last path, j) \<notin> edges ps0))"

definition walked :: "parent_relation list \<Rightarrow> visit list \<Rightarrow> nat list \<Rightarrow> visit list \<Rightarrow> parent_relation list \<Rightarrow> bool" where
  "walked ps0 st path st' ps' \<longleftrightarrow> length st' = length ps0 \<and> length ps' = length ps0 \<and> distinct path \<and>
     set path = {i. i < length ps0 \<and> st' ! i = Open} \<and>
     (\<forall>i < length ps0. (st' ! i = Done \<longleftrightarrow> st ! i = Done) \<and> (st ! i = Open \<longrightarrow> st' ! i = Open) \<and>
        (if st' ! i = New then ps' ! i = ps0 ! i else ps' ! i = uncycled ps0 i) \<and>
        (st' ! i \<noteq> New \<longrightarrow> (\<forall>j. (i, j) \<in> edges ps0 \<longrightarrow> st' ! j \<noteq> New)))"

lemma done_closed:
  assumes "done_ok ps0 st ps" and "parents_in_range ps0" and "(i, x) \<in> (edges ps0)\<^sup>+" and "i < length ps0" and "st ! i = Done"
  shows "x < length ps0 \<and> st ! x = Done"
proof -
  let ?S = "{i. i < length ps0 \<and> st ! i = Done}"
  have closed: "c \<in> ?S" if "b \<in> ?S" "(b, c) \<in> edges ps0" for b c
    using that done_okD(4) [OF assms(1) that(2)] parents_in_rangeD [OF assms(2) that(2)] by simp
  have "i \<in> ?S" using assms(4,5) by simp
  from closed_trancl [OF assms(3) closed this] show ?thesis by simp
qed

lemma chain_edge:
  assumes "successively (\<lambda>a b. (a, b) \<in> R) (path @ ys)" and "i \<in> set path" and "single_valued R" and "(i, j) \<in> R"
  shows "j \<in> set path \<or> (i = last path \<and> (ys \<noteq> [] \<longrightarrow> j = hd ys))"
proof -
  obtain us vs where p: "path = us @ i # vs" using assms(2) by (auto simp: in_set_conv_decomp)
  show ?thesis
  proof (cases vs)
    case Nil
    then show ?thesis using assms(1,3,4) p by (cases ys) (auto simp: successively_append_iff dest: single_valuedD)
  next
    case (Cons v ws)
    then have "(i, v) \<in> R" using assms(1) p by (simp add: successively_append_iff)
    then show ?thesis using assms(3,4) p Cons by (auto dest: single_valuedD)
  qed
qed

lemma fold_cycle_length [simp]: "length (fold (\<lambda>n ps. ps[n := P_Cycle]) ring ps) = length ps"
  by (induction ring arbitrary: ps) auto

lemma fold_cycle_nth: "i < length ps \<Longrightarrow> fold (\<lambda>n ps. ps[n := P_Cycle]) ring ps ! i = (if i \<in> set ring then P_Cycle else ps ! i)"
  by (induction ring arbitrary: ps) (auto simp: nth_list_update)

lemma walked_stop:
  assumes ok: "done_ok ps0 st ps" and rng: "parents_in_range ps0" and w: "walking ps0 nxt path st"
    and stop: "nxt = None \<or> (\<exists>j. nxt = Some j \<and> st ! j = Done)"
  shows "walked ps0 st path st ps"
proof -
  have open_iff: "i \<in> set path \<longleftrightarrow> i < length ps0 \<and> st ! i = Open" for i using w by (auto simp: walking_def)
  have chain: "successively (\<lambda>a b. (a, b) \<in> edges ps0) (path @ (case nxt of Some j \<Rightarrow> [j] | None \<Rightarrow> []))"
    and dist: "distinct path" using w by (auto simp: walking_def)
  have leaves: "st ! j \<noteq> New" if "i \<in> set path" "(i, j) \<in> edges ps0" for i j
  proof (cases "j \<in> set path")
    case False
    then have "i = last path \<and> ((case nxt of Some j \<Rightarrow> [j] | None \<Rightarrow> []) \<noteq> [] \<longrightarrow> j = hd (case nxt of Some j \<Rightarrow> [j] | None \<Rightarrow> []))"
      using chain_edge [OF chain that(1) edges_single that(2)] by blast
    then show ?thesis using w stop that(2) by (cases nxt) (simp_all add: walking_def)
  qed (simp add: open_iff)
  have "(last path, x) \<in> (edges ps0)\<^sup>+ \<Longrightarrow> x \<notin> set path" for x
  proof (cases nxt)
    case None
    then show "(last path, x) \<in> (edges ps0)\<^sup>+ \<Longrightarrow> x \<notin> set path" using w by (auto simp: walking_def dest: tranclD)
  next
    case (Some j)
    assume t: "(last path, x) \<in> (edges ps0)\<^sup>+"
    show "x \<notin> set path"
    proof (cases path)
      case (Cons a as)
      then have "(last path, j) \<in> edges ps0" using chain_last [of "\<lambda>a b. (a, b) \<in> edges ps0" path j] chain Some by simp
      then have "x = j \<or> (j, x) \<in> (edges ps0)\<^sup>+"
        using t edges_single by (metis tranclD rtranclD single_valuedD)
      moreover have "j < length ps0" "st ! j = Done" using w stop Some by (auto simp: walking_def)
      ultimately have "st ! x = Done" using done_closed [OF ok rng, of j x] by auto
      then show ?thesis using open_iff by auto
    qed simp
  qed
  then have "\<not> on_cycle ps0 i" if "i \<in> set path" for i
    using chain_acyclic [OF edges_single _ dist that] chain unfolding on_cycle_def by (auto simp: successively_append_iff)
  then have cut: "ps ! i = uncycled ps0 i" if "i \<in> set path" for i
    using that done_okD(3) [OF ok, of i] open_iff [of i] by (simp add: uncycled_def)
  have "st ! j \<noteq> New" if "(i, j) \<in> edges ps0" "st ! i \<noteq> New" for i j
    using leaves [OF _ that(1)] done_okD(4) [OF ok that(1)] that(2) open_iff [of i] parents_in_rangeD [OF rng that(1)]
    by (cases "st ! i") auto
  moreover have "if st ! i = New then ps ! i = ps0 ! i else ps ! i = uncycled ps0 i" if "i < length ps0" for i
    using done_okD(3) [OF ok that] cut [of i] that open_iff [of i] by (cases "st ! i") auto
  ultimately show ?thesis
    using done_okD(1,2) [OF ok] dist open_iff unfolding walked_def by blast
qed

lemma dropWhile_from: "j \<in> set path \<Longrightarrow> \<exists>vs. dropWhile (\<lambda>n. n \<noteq> j) path = j # vs"
  by (induction path) auto

lemma walked_ring:
  assumes ok: "done_ok ps0 st ps" and rng: "parents_in_range ps0" and w: "walking ps0 (Some j) path st" and j: "st ! j = Open"
  shows "j \<in> set path \<and>
    walked ps0 st path st (fold (\<lambda>n ps. ps[n := P_Cycle]) (dropWhile (\<lambda>n. n \<noteq> j) path) ps)"
proof -
  let ?R = "edges ps0" and ?ring = "dropWhile (\<lambda>n. n \<noteq> j) path"
  have open_iff: "i \<in> set path \<longleftrightarrow> i < length ps0 \<and> st ! i = Open" for i using w by (auto simp: walking_def)
  have chain: "successively (\<lambda>a b. (a, b) \<in> ?R) (path @ [j])" and dist: "distinct path" and jn: "j < length ps0"
    using w by (auto simp: walking_def)
  have jp: "j \<in> set path" using open_iff jn j by blast
  define us where "us = takeWhile (\<lambda>n. n \<noteq> j) path"
  obtain vs where ring: "?ring = j # vs" using dropWhile_from [OF jp] by blast
  have path: "path = us @ j # vs" using ring takeWhile_dropWhile_id [of "\<lambda>n. n \<noteq> j" path] us_def by simp
  have rchain: "successively (\<lambda>a b. (a, b) \<in> ?R) (j # vs @ [j])" using chain by (simp add: path successively_append_iff)
  have to_j: "(i, j) \<in> ?R\<^sup>+" if mem: "i \<in> set (j # vs)" for i
  proof -
    obtain as bs where "j # vs = as @ i # bs" using split_list [OF mem] by blast
    then have eq: "j # vs @ [j] = as @ (i # bs @ [j])" by (metis append_Cons append_assoc)
    have "successively (\<lambda>a b. (a, b) \<in> ?R) (i # bs @ [j])" using rchain unfolding eq by (simp only: successively_append_iff)
    then show ?thesis by (rule chain_reaches) simp
  qed
  have from_j: "(j, i) \<in> ?R\<^sup>+" if "i \<in> set (j # vs)" for i
    using chain_reaches [OF rchain, of i] that by auto
  have on: "on_cycle ps0 i" if "i \<in> set (j # vs)" for i
    unfolding on_cycle_def using to_j [OF that] from_j [OF that] by (rule trancl_trans)
  have closed: "c \<in> set (j # vs)" if "b \<in> set (j # vs)" "(b, c) \<in> ?R" for b c
  proof -
    have "successively (\<lambda>a b. (a, b) \<in> ?R) ((j # vs) @ [j])" using rchain by simp
    from chain_edge [OF this that(1) edges_single that(2)] show ?thesis by auto
  qed
  have off: "\<not> on_cycle ps0 i" if mem: "i \<in> set us" for i
  proof
    assume "on_cycle ps0 i"
    then have c: "(i, i) \<in> ?R\<^sup>+" by (simp add: on_cycle_def)
    obtain as bs where u: "us = as @ i # bs" using split_list [OF mem] by blast
    have eq: "path @ [j] = as @ (i # bs @ [j]) @ vs @ [j]" by (simp add: path u)
    have "successively (\<lambda>a b. (a, b) \<in> ?R) (i # bs @ [j])" using chain unfolding eq by (simp only: successively_append_iff)
    from chain_continues [OF edges_single this c] have "i \<in> set (bs @ [j]) \<or> (j, i) \<in> ?R\<^sup>+" by simp
    moreover have "i \<notin> set (bs @ [j])" "i \<notin> set (j # vs)" using dist by (auto simp: path u)
    moreover have "i \<in> set (j # vs)" if "(j, i) \<in> ?R\<^sup>+" by (rule closed_trancl [OF that], erule (1) closed) simp
    ultimately show False by blast
  qed
  let ?ps = "fold (\<lambda>n ps. ps[n := P_Cycle]) ?ring ps"
  have new: "?ps ! i = (if i \<in> set (j # vs) then P_Cycle else ps ! i)" if "i < length ps0" for i
    using fold_cycle_nth [of i ps ?ring] that done_okD(2) [OF ok] by (simp add: ring)
  have leaves: "st ! c \<noteq> New" if "b \<in> set path" "(b, c) \<in> ?R" for b c
    using chain_edge [OF chain that(1) edges_single that(2)] open_iff [of c] j by auto
  have edge: "st ! c \<noteq> New" if "(b, c) \<in> ?R" "st ! b \<noteq> New" for b c
    using leaves [OF _ that(1)] done_okD(4) [OF ok that(1)] that(2) open_iff [of b] parents_in_rangeD [OF rng that(1)]
    by (cases "st ! b") auto
  have cut: "if st ! i = New then ?ps ! i = ps0 ! i else ?ps ! i = uncycled ps0 i" if "i < length ps0" for i
  proof (cases "i \<in> set path")
    case True
    then have "st ! i = Open" using open_iff by simp
    then show ?thesis
      using True on [of i] off [of i] new [OF that] done_okD(3) [OF ok that] dist by (auto simp: path uncycled_def)
  next
    case False
    then have "i \<notin> set (j # vs)" "st ! i \<noteq> Open" using open_iff that by (auto simp: path)
    then show ?thesis using new [OF that] done_okD(3) [OF ok that] by (cases "st ! i") auto
  qed
  show ?thesis
    using jp done_okD(1,2) [OF ok] dist open_iff cut edge unfolding walked_def by auto
qed

lemma walk_walked:
  assumes "done_ok ps0 st ps" and "parents_in_range ps0" and "walking ps0 nxt path st"
  shows "\<exists>path' ps' st' cycles'. walk nxt path st ps cycles = Some (path', st', ps', cycles') \<and> walked ps0 st path' st' ps' \<and>
    set path \<union> set_option nxt \<subseteq> {i. st' ! i \<noteq> New}"
  using assms
proof (induction nxt path st ps cycles rule: walk.induct)
  case (1 nxt path st ps cycles)
  note ok = "1.prems"(1) and rng = "1.prems"(2) and w = "1.prems"(3)
  have opened: "i < length ps0 \<and> st ! i = Open" if "i \<in> set path" for i using w that by (auto simp: walking_def)
  show ?case
  proof (cases nxt)
    case None
    then have "walk nxt path st ps cycles = Some (path, st, ps, cycles)" by (simp add: walk.simps)
    then show ?thesis using walked_stop [OF ok rng w] None opened by auto
  next
    case (Some i)
    have i: "i < length ps0" "i < length st" "i < length ps" using w Some done_okD(1,2) [OF ok] by (auto simp: walking_def)
    show ?thesis
    proof (cases "st ! i")
      case Done
      then have "walk nxt path st ps cycles = Some (path, st, ps, cycles)" using i Some by (simp add: walk.simps)
      then show ?thesis using walked_stop [OF ok rng w] Some Done opened by auto
    next
      case Open
      note ring = walked_ring [OF ok rng w [unfolded Some] Open]
      then have "walk nxt path st ps cycles = Some (path, st, fold (\<lambda>n ps. ps[n := P_Cycle]) (dropWhile (\<lambda>n. n \<noteq> i) path) ps,
          cycles + length (dropWhile (\<lambda>n. n \<noteq> i) path))"
        using i Some Open by (simp add: walk.simps Let_def)
      then show ?thesis using ring Some Open opened by auto
    next
      case New
      let ?st = "st[i := Open]" and ?next = "case ps ! i of P_Recorded p \<Rightarrow> Some p | _ \<Rightarrow> None"
      have eq: "walk nxt path st ps cycles = walk ?next (path @ [i]) ?st ps cycles"
        using i Some New by (subst walk.simps) simp
      have psi: "ps ! i = ps0 ! i" using done_okD(3) [OF ok i(1)] New by simp
      have nexts: "?next = Some p \<longleftrightarrow> (i, p) \<in> edges ps0" for p
        using step_to_edge [OF i(1), of p] by (simp add: psi step_to_def)
      have ok': "done_ok ps0 ?st ps"
      proof -
        have "ps ! k = (if ?st ! k = Done then uncycled ps0 k else ps0 ! k)" if "k < length ps0" for k
          using done_okD(3) [OF ok that] New i by (cases "k = i") auto
        moreover have "?st ! b = Done" if "(a, b) \<in> edges ps0" "?st ! a = Done" for a b
        proof -
          have "st ! a = Done" using that(2) i by (cases "a = i") auto
          then have "st ! b = Done" using done_okD(4) [OF ok that(1)] by simp
          then show ?thesis using New by (cases "b = i") auto
        qed
        ultimately show ?thesis using done_okD(1,2) [OF ok] by (auto simp: done_ok_def)
      qed
      have "i \<notin> set path" using opened [of i] New by auto
      moreover have "set (path @ [i]) = {k. k < length ps0 \<and> ?st ! k = Open}"
        using w i by (auto simp: walking_def nth_list_update)
      moreover have "successively (\<lambda>a b. (a, b) \<in> edges ps0) ((path @ [i]) @ (case ?next of Some j \<Rightarrow> [j] | None \<Rightarrow> []))"
        using w Some nexts by (cases ?next) (auto simp: walking_def successively_append_iff)
      moreover have "case ?next of Some j \<Rightarrow> j < length ps0 | None \<Rightarrow> path @ [i] \<noteq> [] \<and> (\<forall>j. (last (path @ [i]), j) \<notin> edges ps0)"
        using nexts parents_in_rangeD [OF rng, of i] by (cases ?next) auto
      ultimately have w': "walking ps0 ?next (path @ [i]) ?st"
        using w unfolding walking_def by simp
      obtain path' ps' st' cycles' where r: "walk ?next (path @ [i]) ?st ps cycles = Some (path', st', ps', cycles')"
        "walked ps0 ?st path' st' ps'" "set (path @ [i]) \<union> set_option ?next \<subseteq> {k. st' ! k \<noteq> New}"
        using "1.IH" [OF Some _ _ _ ok' rng w'] i New by auto
      have "walked ps0 st path' st' ps'"
        using r(2) New i unfolding walked_def by (auto simp: nth_list_update split: if_splits)
      then show ?thesis using r(1,3) eq Some by auto
    qed
  qed
qed

lemma mark_done_length [simp]: "length (mark_done path st) = length st"
  unfolding mark_done_def by (induction path arbitrary: st) auto

lemma mark_done_nth: "i < length st \<Longrightarrow> mark_done path st ! i = (if i \<in> set path then Done else st ! i)"
  unfolding mark_done_def by (induction path arbitrary: st) (auto simp: nth_list_update)

lemma walked_done:
  assumes w: "walked ps0 st path st' ps'" and rng: "parents_in_range ps0"
  shows "done_ok ps0 (mark_done path st') ps' \<and> (\<forall>i < length ps0. mark_done path st' ! i \<noteq> Open) \<and>
    (\<forall>i < length ps0. st' ! i \<noteq> New \<longrightarrow> mark_done path st' ! i = Done)"
proof -
  have len: "length st' = length ps0" "length ps' = length ps0" using w by (auto simp: walked_def)
  have m: "mark_done path st' ! i = (if st' ! i = New then New else Done)" if "i < length ps0" for i
    using mark_done_nth [of i st' path] w that by (cases "st' ! i") (auto simp: walked_def)
  have "mark_done path st' ! j = Done" if "(i, j) \<in> edges ps0" "mark_done path st' ! i = Done" for i j
  proof -
    note ij = parents_in_rangeD [OF rng that(1)]
    then have "st' ! i \<noteq> New" using that(2) m [of i] by (auto split: if_splits)
    then have "st' ! j \<noteq> New" using w ij that(1) by (auto simp: walked_def)
    then show ?thesis using m [of j] ij by simp
  qed
  moreover have "ps' ! i = (if mark_done path st' ! i = Done then uncycled ps0 i else ps0 ! i)" if "i < length ps0" for i
    using w m [OF that] that by (auto simp: walked_def)
  ultimately show ?thesis using len m by (auto simp: done_ok_def)
qed

lemma break_cycles_cut:
  assumes "done_ok ps0 st ps" and "parents_in_range ps0" and "\<forall>i < length ps0. st ! i \<noteq> Open"
    and "\<forall>i < length ps0. i \<in> set starts \<or> st ! i = Done" and "\<forall>i \<in> set starts. i < length ps0"
  shows "\<exists>cycles'. break_cycles starts st ps cycles = Some (map (uncycled ps0) [0..<length ps0], cycles')"
  using assms
proof (induction starts arbitrary: st ps cycles)
  case Nil
  have "ps = map (uncycled ps0) [0..<length ps0]"
    using Nil.prems(4) done_okD [OF Nil.prems(1)] by (intro nth_equalityI) auto
  then show ?case by simp
next
  case (Cons s starts)
  have s: "s < length ps0" using Cons.prems(5) by simp
  show ?case
  proof (cases "st ! s = New")
    case False
    then have "st ! s = Done" using Cons.prems(3) s by (cases "st ! s") auto
    then have "\<forall>i < length ps0. i \<in> set starts \<or> st ! i = Done" using Cons.prems(4) by auto
    then show ?thesis using Cons.IH [OF Cons.prems(1-3)] Cons.prems(5) False by simp
  next
    case True
    have "walking ps0 (Some s) [] st" using Cons.prems(3) s by (auto simp: walking_def)
    then obtain path ps' st' cycles' where w: "walk (Some s) [] st ps cycles = Some (path, st', ps', cycles')"
      "walked ps0 st path st' ps'" "st' ! s \<noteq> New"
      using walk_walked [OF Cons.prems(1,2), of "Some s" "[]" cycles] by auto
    note d = walked_done [OF w(2) Cons.prems(2)]
    have "i \<in> set starts \<or> mark_done path st' ! i = Done" if i: "i < length ps0" for i
    proof (cases "i = s")
      case False
      then have "i \<in> set starts \<or> st' ! i = Done" using Cons.prems(4) i w(2) by (auto simp: walked_def)
      then show ?thesis using d i by auto
    qed (use d i w(3) in auto)
    then obtain c where "break_cycles starts (mark_done path st') ps' cycles' = Some (map (uncycled ps0) [0..<length ps0], c)"
      using Cons.IH [of "mark_done path st'" ps' cycles'] d Cons.prems(2,5) by auto
    then show ?thesis using True w(1) by simp
  qed
qed

text \<open>All that is left is acyclic, and nothing that was not on a cycle is lost.\<close>

lemma break_cycles_all:
  assumes "parents_in_range ps"
  shows "\<exists>cycles. break_cycles [0..<length ps] (replicate (length ps) New) ps 0 = Some (map (uncycled ps) [0..<length ps], cycles)"
  using break_cycles_cut [of ps "replicate (length ps) New" ps "[0..<length ps]" 0] assms
  by (simp add: done_ok_def edges_def)

lemma uncycled_edges: "edges (map (uncycled ps) [0..<length ps]) = {(i, j) \<in> edges ps. \<not> on_cycle ps i}"
  by (auto simp: edges_def uncycled_def split: if_splits)

lemma uncycled_acyclic: "acyclic (edges (map (uncycled ps) [0..<length ps]))"
proof -
  let ?E = "edges (map (uncycled ps) [0..<length ps])"
  have "(i, i) \<notin> ?E\<^sup>+" for i
  proof
    assume c: "(i, i) \<in> ?E\<^sup>+"
    then have "on_cycle ps i" unfolding on_cycle_def using trancl_mono [of "(i, i)" ?E "edges ps"] by (auto simp: uncycled_edges)
    moreover obtain j where "(i, j) \<in> ?E" using c by (meson tranclD)
    ultimately show False by (simp add: uncycled_edges)
  qed
  then show ?thesis by (simp add: acyclic_def)
qed

section \<open>Identities and children\<close>

definition positions :: "span_record list \<Rightarrow> span_identity \<Rightarrow> nat list" where
  "positions rs k = filter (\<lambda>i. span_key (rs ! i) = k) [0..<length rs]"

lemma positions_snoc: "positions (rs @ [sp]) k = positions rs k @ (if span_key sp = k then [length rs] else [])"
proof -
  have "filter (\<lambda>i. span_key ((rs @ [sp]) ! i) = k) [0..<length rs] = positions rs k"
    unfolding positions_def by (intro filter_cong) (auto simp: nth_append)
  then show ?thesis by (simp add: positions_def)
qed

lemma index_identities_at:
  "map_of (index_identities rs) k = (case positions rs k of [] \<Rightarrow> None | [i] \<Rightarrow> Some (Some i) | _ \<Rightarrow> Some None)"
proof (induction rs arbitrary: k rule: rev_induct)
  case Nil
  then show ?case by (simp add: index_identities_def positions_def)
next
  case (snoc sp rs)
  let ?k = "span_key sp"
  have "index_identities (rs @ [sp]) =
      AList.update ?k (case map_of (index_identities rs) ?k of Some _ \<Rightarrow> None | None \<Rightarrow> Some (length rs)) (index_identities rs)"
    by (simp add: index_identities_def enumerate_append_eq)
  then show ?case by (auto simp: map_of_update snoc positions_snoc split: list.splits option.splits)
qed

text \<open>The parent of a record by the identities of all records.\<close>

definition observed :: "span_record list \<Rightarrow> nat \<Rightarrow> parent_relation" where
  "observed rs i =
     (case sp_parent (rs ! i) of
        None \<Rightarrow> P_Root
      | Some p \<Rightarrow>
          (case positions rs (sp_trace (rs ! i), p) of [] \<Rightarrow> P_Unobserved | [j] \<Rightarrow> P_Recorded j | _ \<Rightarrow> P_Ambiguous))"

lemma parent_of_observed: "parent_of (index_identities rs) (rs ! i) = observed rs i"
  by (auto simp: parent_of_def observed_def index_identities_at split: option.split list.split)

lemma observed_all: "map (parent_of (index_identities rs)) rs = map (observed rs) [0..<length rs]"
  by (intro nth_equalityI) (simp_all add: parent_of_observed)

lemma observed_in_range: "parents_in_range (map (observed rs) [0..<length rs])"
proof -
  have "j < length rs" if rel: "observed rs i = P_Recorded j" for i j
  proof -
    obtain p where "positions rs (sp_trace (rs ! i), p) = [j]"
      using rel by (auto simp: observed_def split: option.splits list.splits)
    then have "j \<in> set (positions rs (sp_trace (rs ! i), p))" by simp
    then show ?thesis by (simp add: positions_def)
  qed
  then show ?thesis by (auto simp: parents_in_range_def edges_def)
qed

definition children_of :: "parent_relation list \<Rightarrow> nat \<Rightarrow> nat list" where
  "children_of ps p = filter (\<lambda>i. ps ! i = P_Recorded p) [0..<length ps]"

definition roots_of :: "parent_relation list \<Rightarrow> nat list" where
  "roots_of ps = filter (\<lambda>i. \<forall>p. ps ! i \<noteq> P_Recorded p) [0..<length ps]"

lemma attach_upto:
  assumes "parents_in_range ps" and "m \<le> length ps"
  shows "fold (\<lambda>i (children, roots).
         case ps ! i of
           P_Recorded p \<Rightarrow> (children[p := children ! p @ [i]], roots)
         | _ \<Rightarrow> (children, roots @ [i])) [0..<m] (replicate (length ps) [], []) =
    (map (\<lambda>p. filter (\<lambda>i. ps ! i = P_Recorded p) [0..<m]) [0..<length ps], filter (\<lambda>i. \<forall>p. ps ! i \<noteq> P_Recorded p) [0..<m])"
  using assms(2)
proof (induction m)
  case 0
  then show ?case by (simp add: map_replicate_const)
next
  case (Suc m)
  have r: "p < length ps" if "ps ! m = P_Recorded p" for p
    using assms(1) Suc.prems that parents_in_rangeD [OF assms(1), of m p] by (auto simp: edges_def)
  show ?case
  proof (cases "ps ! m")
    case (P_Recorded p)
    have "(map (\<lambda>p. filter (\<lambda>i. ps ! i = P_Recorded p) [0..<m]) [0..<length ps])
        [p := (map (\<lambda>p. filter (\<lambda>i. ps ! i = P_Recorded p) [0..<m]) [0..<length ps]) ! p @ [m]] =
      map (\<lambda>p. filter (\<lambda>i. ps ! i = P_Recorded p) [0..<Suc m]) [0..<length ps]"
      using r [OF P_Recorded] P_Recorded by (intro nth_equalityI) (auto simp: nth_list_update)
    then show ?thesis using Suc P_Recorded by simp
  qed (use Suc in simp_all)
qed

lemma attach_all: "parents_in_range ps \<Longrightarrow> attach ps = (map (children_of ps) [0..<length ps], roots_of ps)"
  using attach_upto [of ps "length ps"] by (simp add: attach_def children_of_def [abs_def] roots_of_def)

section \<open>The traversal\<close>

definition desc :: "parent_relation list \<Rightarrow> nat \<Rightarrow> nat set" where
  "desc ps i = {k. (k, i) \<in> (edges ps)\<^sup>*}"

lemma child_edge: "c \<in> set (children_of ps i) \<longleftrightarrow> (c, i) \<in> edges ps"
  by (auto simp: children_of_def edges_def)

lemma desc_children: "desc ps i = insert i (\<Union>c \<in> set (children_of ps i). desc ps c)"
  by (auto simp: desc_def child_edge elim: rtranclE intro: rtrancl_into_rtrancl)

lemma desc_finite: "finite (desc ps i)"
proof -
  have "desc ps i \<subseteq> insert i {..<length ps}" by (auto simp: desc_def edges_def elim: converse_rtranclE)
  then show ?thesis by (rule finite_subset) simp
qed

definition apart :: "parent_relation list \<Rightarrow> nat list \<Rightarrow> bool" where
  "apart ps = sorted_wrt (\<lambda>a b. desc ps a \<inter> desc ps b = {})"

lemma desc_meet: "k \<in> desc ps a \<Longrightarrow> k \<in> desc ps b \<Longrightarrow> (a, b) \<in> (edges ps)\<^sup>* \<or> (b, a) \<in> (edges ps)\<^sup>*"
  unfolding desc_def using single_valued_confluent [OF edges_single] by blast

lemma siblings_apart:
  assumes "acyclic (edges ps)" and "(a, i) \<in> edges ps" and "(b, i) \<in> edges ps" and "a \<noteq> b"
  shows "(a, b) \<notin> (edges ps)\<^sup>*"
proof
  assume "(a, b) \<in> (edges ps)\<^sup>*"
  then obtain c where "(a, c) \<in> edges ps" "(c, b) \<in> (edges ps)\<^sup>*" using assms(4) by (meson converse_rtranclE)
  then have "(i, b) \<in> (edges ps)\<^sup>*" using assms(2) edges_single by (metis single_valuedD)
  then have "(i, i) \<in> (edges ps)\<^sup>+" using assms(3) by (rule rtrancl_into_trancl1)
  then show False using assms(1) by (simp add: acyclic_def)
qed

lemma distinct_apart:
  assumes "distinct xs" and "\<And>a b. a \<in> set xs \<Longrightarrow> b \<in> set xs \<Longrightarrow> a \<noteq> b \<Longrightarrow> (a, b) \<notin> (edges ps)\<^sup>*"
  shows "apart ps xs"
  using assms
proof (induction xs)
  case (Cons x xs)
  have "desc ps x \<inter> desc ps y = {}" if "y \<in> set xs" for y
    using desc_meet [of _ ps x y] Cons.prems that by fastforce
  then show ?case using Cons by (simp add: apart_def)
qed (simp add: apart_def)

lemma children_apart: "acyclic (edges ps) \<Longrightarrow> apart ps (children_of ps i)"
  by (rule distinct_apart) (auto simp: child_edge siblings_apart, simp add: children_of_def)

lemma roots_apart: "apart ps (roots_of ps)"
proof (rule distinct_apart)
  fix a b assume "a \<in> set (roots_of ps)" "a \<noteq> b"
  then show "(a, b) \<notin> (edges ps)\<^sup>*" by (auto simp: roots_of_def edges_def elim: converse_rtranclE)
qed (simp add: roots_of_def)

lemma card_apart: "apart ps xs \<Longrightarrow> sum_list (map (\<lambda>i. card (desc ps i)) xs) = card (\<Union>i \<in> set xs. desc ps i)"
proof (induction xs)
  case (Cons x xs)
  have "desc ps x \<inter> (\<Union>i \<in> set xs. desc ps i) = {}" using Cons.prems by (auto simp: apart_def)
  then show ?case using Cons by (simp add: apart_def card_Un_disjoint desc_finite)
qed simp

lemma roots_cover:
  assumes "acyclic (edges ps)" and "parents_in_range ps"
  shows "(\<Union>i \<in> set (roots_of ps). desc ps i) = {..<length ps}"
proof -
  have fin: "finite (edges ps)"
    by (rule finite_subset [of _ "{..<length ps} \<times> {..<length ps}"]) (use parents_in_rangeD [OF assms(2)] in auto)
  have "\<exists>r \<in> set (roots_of ps). (k, r) \<in> (edges ps)\<^sup>*" if "k < length ps" for k
    using that
  proof (induction k rule: wf_induct_rule [OF finite_acyclic_wf_converse [OF fin assms(1)]])
    case (1 k)
    show ?case
    proof (cases "\<exists>j. (k, j) \<in> edges ps")
      case True
      then obtain j where j: "(k, j) \<in> edges ps" by blast
      then show ?thesis using 1 parents_in_rangeD [OF assms(2) j] by (meson converseI converse_rtrancl_into_rtrancl)
    next
      case False
      then have "k \<in> set (roots_of ps)" using 1(2) by (auto simp: roots_of_def edges_def)
      then show ?thesis by blast
    qed
  qed
  moreover have "k < length ps" if "(k, r) \<in> (edges ps)\<^sup>*" "r \<in> set (roots_of ps)" for k r
    using that by (auto simp: roots_of_def edges_def elim: converse_rtranclE)
  ultimately show ?thesis by (auto simp: desc_def)
qed

text \<open>How many lines of an order fit into what is left of a budget.\<close>

primrec fitting :: "(nat \<times> nat \<Rightarrow> string) \<Rightarrow> nat \<Rightarrow> nat \<Rightarrow> (nat \<times> nat) list \<Rightarrow> nat" where
  "fitting line budget used [] = 0"
| "fitting line budget used (x # xs) =
     (if length (line x) > budget - used then 0 else Suc (fitting line budget (used + length (line x)) xs))"

definition parents_first :: "parent_relation list \<Rightarrow> nat list \<Rightarrow> bool" where
  "parents_first ps = sorted_wrt (\<lambda>a b. ps ! a \<noteq> P_Recorded b)"

lemma traversal:
  assumes ps: "acyclic (edges ps)" "parents_in_range ps" and "apart ps (map fst stack)" and "\<forall>x \<in> set stack. fst x < length ps"
  shows "\<exists>order. distinct (map fst order) \<and> set (map fst order) = (\<Union>i \<in> set (map fst stack). desc ps i) \<and>
    parents_first ps (map fst order) \<and>
    (\<forall>line budget emitted body. render_loop line (map (children_of ps) [0..<length ps]) budget stack emitted body =
       (let k = fitting (\<lambda>(i, d). line i d) budget (length body) order in
        Some (emitted + k, body @ concat (map (\<lambda>(i, d). line i d) (take k order)))))"
  using assms(3,4)
proof (induction "sum_list (map (\<lambda>x. card (desc ps (fst x))) stack)" arbitrary: stack rule: less_induct)
  case less
  show ?case
  proof (cases stack)
    case Nil
    have "render_loop line ch budget [] emitted body = Some (emitted, body)" for line ch budget emitted body
      by (simp add: render_loop.simps)
    then show ?thesis by (intro exI [of _ "[]"]) (simp add: Nil parents_first_def)
  next
    case (Cons x rest)
    obtain i d where x: "x = (i, d)" by (cases x)
    let ?cs = "children_of ps i" and ?stack = "map (\<lambda>c. (c, d + 1)) (children_of ps i) @ rest"
    have i: "i < length ps" using less.prems(2) Cons x by simp
    have cyc: "i \<notin> (\<Union>c \<in> set ?cs. desc ps c)"
      using ps(1) by (auto simp: acyclic_def desc_def child_edge dest: rtrancl_into_trancl1)
    have disj: "desc ps i \<inter> (\<Union>y \<in> set rest. desc ps (fst y)) = {}" using less.prems(1) Cons x by (auto simp: apart_def)
    have fst_map: "map fst ?stack = ?cs @ map fst rest" by (simp add: comp_def)
    have apart': "apart ps (map fst ?stack)"
      using children_apart [OF ps(1), of i] less.prems(1) disj Cons x desc_children [of ps i]
      unfolding fst_map apart_def sorted_wrt_append by fastforce
    have range': "\<forall>y \<in> set ?stack. fst y < length ps" using less.prems(2) Cons by (auto simp: children_of_def)
    have "card (\<Union>c \<in> set ?cs. desc ps c) < card (desc ps i)"
      by (rule psubset_card_mono [OF desc_finite]) (use cyc desc_children [of ps i] in auto)
    then have "sum_list (map (\<lambda>c. card (desc ps c)) ?cs) < card (desc ps i)"
      using card_apart [OF children_apart [OF ps(1)]] by simp
    then have smaller: "sum_list (map (\<lambda>x. card (desc ps (fst x))) ?stack) < sum_list (map (\<lambda>x. card (desc ps (fst x))) stack)"
      by (simp add: Cons x comp_def)
    obtain order where o: "distinct (map fst order)" "set (map fst order) = (\<Union>i \<in> set (map fst ?stack). desc ps i)"
      "parents_first ps (map fst order)"
      and loop: "\<And>line budget emitted body. render_loop line (map (children_of ps) [0..<length ps]) budget ?stack emitted body =
       (let k = fitting (\<lambda>(i, d). line i d) budget (length body) order in
        Some (emitted + k, body @ concat (map (\<lambda>(i, d). line i d) (take k order))))"
      using less.hyps [OF smaller apart' range'] by blast
    have set_o: "set (map fst order) = (\<Union>c \<in> set ?cs. desc ps c) \<union> (\<Union>y \<in> set rest. desc ps (fst y))"
      using o(2) by auto
    have "i \<notin> set (map fst order)" using set_o cyc disj by (auto simp: desc_def)
    moreover have "ps ! i \<noteq> P_Recorded b" if "b \<in> set (map fst order)" for b
    proof
      assume "ps ! i = P_Recorded b"
      then have e: "(i, b) \<in> edges ps" using i by (simp add: edges_def)
      consider c where "c \<in> set ?cs" "b \<in> desc ps c" | y where "y \<in> set rest" "b \<in> desc ps (fst y)" using \<open>b \<in> set (map fst order)\<close> set_o by auto
      then show False
      proof cases
        case 1
        then have "i \<in> desc ps c" using e by (auto simp: desc_def intro: converse_rtrancl_into_rtrancl)
        then show False using cyc 1 by blast
      next
        case 2
        then have "i \<in> desc ps (fst y)" using e by (auto simp: desc_def intro: converse_rtrancl_into_rtrancl)
        then show False using disj 2 by (auto simp: desc_def)
      qed
    qed
    moreover have "render_loop line (map (children_of ps) [0..<length ps]) budget stack emitted body =
       (let k = fitting (\<lambda>(i, d). line i d) budget (length body) ((i, d) # order) in
        Some (emitted + k, body @ concat (map (\<lambda>(i, d). line i d) (take k ((i, d) # order)))))" for line budget emitted body
      using loop [of line budget "emitted + 1" "body @ line i d"] i
      by (subst render_loop.simps) (simp add: Cons x Let_def)
    moreover have "(\<Union>i \<in> set (map fst stack). desc ps i) = insert i (set (map fst order))"
      using set_o desc_children [of ps i] by (auto simp: Cons x)
    ultimately show ?thesis
      using o(1,3) by (intro exI [of _ "(i, d) # order"]) (simp add: parents_first_def)
  qed
qed

lemma fitting_le: "fitting line budget used order \<le> length order"
  by (induction order arbitrary: used) auto

lemma fitting_bytes:
  "used \<le> budget \<Longrightarrow> used + length (concat (map line (take (fitting line budget used order) order))) \<le> budget"
proof (induction order arbitrary: used)
  case (Cons x order)
  show ?case
  proof (cases "length (line x) > budget - used")
    case False
    then have "used + length (line x) \<le> budget" using Cons.prems by simp
    then show ?thesis using Cons.IH [of "used + length (line x)"] False by simp
  qed (use Cons.prems in simp)
qed simp

lemma fitting_maximal:
  "used \<le> budget \<Longrightarrow> fitting line budget used order < length order \<Longrightarrow>
     budget < used + length (concat (map line (take (fitting line budget used order) order))) +
       length (line (order ! fitting line budget used order))"
proof (induction order arbitrary: used)
  case (Cons x order)
  show ?case
  proof (cases "length (line x) > budget - used")
    case False
    then have "used + length (line x) \<le> budget" using Cons.prems by simp
    then show ?thesis using Cons.IH [of "used + length (line x)"] Cons.prems(2) False by simp
  qed (use Cons.prems in simp)
qed simp

lemma dec_str_mono: "m \<le> n \<Longrightarrow> length (dec_str m) \<le> length (dec_str n)"
proof (induction n arbitrary: m rule: dec_str.induct)
  case (1 n)
  show ?case
  proof (cases "m < 10")
    case True
    then have "length (dec_str m) = 1" by (simp add: dec_str.simps [of m])
    then show ?thesis by (subst dec_str.simps [of n]) simp
  next
    case False
    then have "length (dec_str (m div 10)) \<le> length (dec_str (n div 10))" using 1 by (simp add: div_le_mono)
    then show ?thesis using False 1(2) by (simp add: dec_str.simps [of m] dec_str.simps [of n])
  qed
qed

lemma header_mono: "e \<le> n \<Longrightarrow> d \<le> n \<Longrightarrow> length (forest_header f e d) \<le> length (forest_header f n n)"
  using dec_str_mono [of e n] dec_str_mono [of d n] by (simp add: forest_header_def Let_def)

end
