(* ===== verification/Trace_Theorems.thy ===== *)
theory Trace_Theorems
  imports Trace_Forest
begin

text \<open>
  What tracing promises: the counters of a recorder account for every span, a snapshot always yields a forest, the
  forest has exactly the edges of the recorded parents that are unique and not on a cycle, and its text is
  finished within its budget and shows each record at most once, parents first.
\<close>

section \<open>The accounts of a recorder\<close>

datatype trace_op = Tr_Start trace_context span_kind string nat | Tr_Finish nat span_status nat | Tr_Close | Tr_Read bool

text \<open>A recorder with the spans in flight; each of them is finished or dropped once.\<close>

fun trace_step :: "trace_op \<Rightarrow> trace_recorder \<times> span_record list \<Rightarrow> trace_recorder \<times> span_record list" where
  "trace_step (Tr_Start ctx kind target now) (r, own) =
     (case recorder_start ctx kind target now r of (sp, r) \<Rightarrow> (r, case sp of None \<Rightarrow> own | Some sp \<Rightarrow> own @ [sp]))"
| "trace_step (Tr_Finish i status now) (r, own) =
     (if i < length own then (publish_span status now (own ! i) r, take i own @ drop (Suc i) own) else (r, own))"
| "trace_step Tr_Close (r, own) = (recorder_close r, own)"
| "trace_step (Tr_Read drained) (r, own) = (snd (recorder_read drained r), own)"

definition counted :: "trace_recorder \<Rightarrow> span_record list \<Rightarrow> bool" where
  "counted r own \<longleftrightarrow>
     (let c = tr_counts r in
      ct_in_flight c = length own \<and> ct_started c = ct_in_flight c + ct_completed c \<and>
      ct_completed c = ct_ok c + ct_errors c + ct_panicked c + ct_cancelled c \<and>
      ct_completed c = length (tr_records r) + ct_overwritten c + ct_drained c)"

definition recorder_ok :: "nat \<Rightarrow> trace_recorder \<times> span_record list \<Rightarrow> bool" where
  "recorder_ok cap s \<longleftrightarrow>
     (case s of (r, own) \<Rightarrow>
        tr_capacity r = cap \<and> 1 \<le> cap \<and> cap \<le> MAX_RECORD_CAPACITY \<and> length (tr_records r) \<le> cap \<and>
        (\<forall>sp \<in> set (tr_records r @ own). length (sp_target sp) \<le> MAX_TARGET_BYTES) \<and>
        (\<not> ct_overflowed (tr_counts r) \<longrightarrow> counted r own))"

lemma cut_at_le: "cut_at s n \<le> n"
  by (induction n) auto

lemma start_ok:
  assumes "recorder_ok cap (r, own)"
  shows "recorder_ok cap (trace_step (Tr_Start ctx kind target now) (r, own))"
proof -
  have "length (take (cut_at target (min (length target) MAX_TARGET_BYTES)) target) \<le> MAX_TARGET_BYTES"
    using cut_at_le [of target "min (length target) MAX_TARGET_BYTES"] by simp
  then show ?thesis
    using assms
    by (auto simp: recorder_ok_def recorder_start_def counted_def Let_def count_up_def opt_iffs split: option.splits)
qed

lemma tl_records: "x \<in> set (tl xs) \<Longrightarrow> x \<in> set xs"
  by (cases xs) auto

lemma publish_counted:
  assumes "counted r own" and "i < length own" and "length (tr_records r) \<le> tr_capacity r" and "0 < tr_capacity r"
    and "\<not> ct_overflowed (tr_counts (publish_span status now sp r))"
  shows "counted (publish_span status now sp r) (take i own @ drop (Suc i) own)"
proof -
  have "length (take i own @ drop (Suc i) own) = length own - 1" using assms(2) by simp
  then show ?thesis
    using assms
    by (cases status)
      (auto simp: publish_span_def counted_def Let_def count_up_def opt_iffs split: option.splits if_splits)
qed

lemma publish_overflow: "ct_overflowed (tr_counts r) \<Longrightarrow> ct_overflowed (tr_counts (publish_span status now sp r))"
  by (cases status) (auto simp: publish_span_def Let_def count_up_def split: option.split)

lemma end_ok:
  assumes "recorder_ok cap (r, own)"
  shows "recorder_ok cap (trace_step (Tr_Finish i status now) (r, own))"
proof (cases "i < length own")
  case True
  let ?r = "publish_span status now (own ! i) r" and ?own = "take i own @ drop (Suc i) own"
  have fields: "tr_capacity ?r = tr_capacity r" "length (tr_records ?r) \<le> tr_capacity r"
    using assms by (auto simp: recorder_ok_def publish_span_def Let_def)
  have "length (sp_target sp) \<le> MAX_TARGET_BYTES" if "sp \<in> set (tr_records ?r @ ?own)" for sp
    using that assms True
    by (auto simp: recorder_ok_def publish_span_def Let_def split: if_splits dest: tl_records in_set_takeD in_set_dropD)
  then show ?thesis
    using assms fields True publish_counted [of r own i status now "own ! i"] publish_overflow [of r status now "own ! i"]
    by (auto simp: recorder_ok_def)
qed (use assms in simp)

lemma read_ok:
  assumes "recorder_ok cap (r, own)"
  shows "recorder_ok cap (trace_step (Tr_Read drained) (r, own))"
  using assms by (auto simp: recorder_ok_def recorder_read_def counted_def Let_def count_up_def opt_iffs split: option.splits)

lemma trace_step_ok: "recorder_ok cap s \<Longrightarrow> recorder_ok cap (trace_step op s)"
proof (cases s; cases op)
  fix r own assume "recorder_ok cap s" "s = (r, own)" "op = Tr_Close"
  then show ?thesis by (auto simp: recorder_ok_def recorder_close_def counted_def)
qed (use start_ok end_ok read_ok in \<open>auto simp del: trace_step.simps\<close>)

lemma trace_run_ok: "recorder_ok cap s \<Longrightarrow> recorder_ok cap (fold trace_step ops s)"
  by (induction ops arbitrary: s) (simp_all add: trace_step_ok)

lemma recorder_new_ok: "recorder_new i cap = Some r \<Longrightarrow> recorder_ok cap (r, [])"
  by (auto simp: recorder_new_def recorder_ok_def counted_def span_counts_default_def split: if_splits)

section \<open>The forest of a snapshot\<close>

definition snapshot_ok :: "trace_snapshot \<Rightarrow> bool" where
  "snapshot_ok snap \<longleftrightarrow> 1 \<le> sn_capacity snap \<and> sn_capacity snap \<le> MAX_RECORD_CAPACITY \<and>
     length (sn_records snap) \<le> sn_capacity snap \<and> sn_retained snap \<le> sn_capacity snap \<and>
     (\<forall>sp \<in> set (sn_records snap). length (sp_target sp) \<le> MAX_TARGET_BYTES)"

text \<open>The relations by identity, before cycles are cut.\<close>

definition relations :: "span_record list \<Rightarrow> parent_relation list" where
  "relations rs = map (observed rs) [0..<length rs]"

lemma length_relations [simp]: "length (relations rs) = length rs"
  by (simp add: relations_def)

lemma uncycled_in_range:
  "parents_in_range ps \<Longrightarrow> parents_in_range (map (uncycled ps) [0..<length ps])"
  using uncycled_edges [of ps] by (auto simp: parents_in_range_def)

lemma forest_new_result:
  assumes "snapshot_ok snap"
  defines "rs \<equiv> sort_key record_order (sn_records snap)"
  defines "ps \<equiv> map (uncycled (relations rs)) [0..<length rs]"
  shows "\<exists>f. forest_new snap = Some (Inr f) \<and> sf_snapshot f = snap \<and> sf_records f = rs \<and> sf_parents f = ps \<and>
    sf_children f = map (children_of ps) [0..<length ps] \<and> sf_roots f = roots_of ps \<and> acyclic (edges ps) \<and> parents_in_range ps"
proof -
  have rng: "parents_in_range (relations rs)" using observed_in_range by (simp add: relations_def)
  obtain cycles where c: "break_cycles [0..<length rs] (replicate (length rs) New) (relations rs) 0 = Some (ps, cycles)"
    using break_cycles_all [OF rng] by (auto simp: ps_def)
  have ok: "parents_in_range ps" "acyclic (edges ps)"
    using uncycled_in_range [OF rng] uncycled_acyclic [of "relations rs"] by (simp_all add: ps_def)
  have none: "find (\<lambda>sp. length (sp_target sp) > MAX_TARGET_BYTES) (sn_records snap) = None"
    using assms(1) by (auto simp: find_None_iff snapshot_ok_def)
  have rel: "map (parent_of (index_identities rs)) rs = relations rs" by (simp add: observed_all relations_def)
  show ?thesis
    using assms(1) c ok
    by (simp add: forest_new_def snapshot_ok_def none rs_def [symmetric] rel attach_all Let_def not_less)
qed

lemma forest_new_refuses:
  assumes bad: "\<not> snapshot_ok snap"
  shows "\<exists>e. forest_new snap = Some (Inl e)"
proof (cases "\<exists>sp \<in> set (sn_records snap). length (sp_target sp) > MAX_TARGET_BYTES")
  case True
  then obtain sp where "find (\<lambda>sp. length (sp_target sp) > MAX_TARGET_BYTES) (sn_records snap) = Some sp"
    by (metis find_None_iff not_None_eq)
  then show ?thesis by (simp add: forest_new_def)
next
  case False
  then show ?thesis using bad by (auto simp: forest_new_def snapshot_ok_def not_le not_less)
qed

text \<open>
  C28. A recorder accounts for every span. Whatever spans start, finish, fail or are dropped and whatever is read, drained or
  closed, as long as no counter has overflowed: the spans that were admitted are those in flight and those
  completed; the completed ones are split by their outcome, and each was overwritten, drained or is still
  retained. The buffer stays within its capacity, a reading calls itself terminal exactly when the recorder is
  closed and nothing is in flight, and every reading is one from which the forest can be built.
\<close>

theorem recorder_accounts:
  assumes "recorder_new i cap = Some r0" and "(r, own) = fold trace_step ops (r0, [])" and "(snap, r') = recorder_read drained r"
  shows "snapshot_ok snap \<and> length (sn_records snap) \<le> cap \<and> (\<exists>f. forest_new snap = Some (Inr f)) \<and>
    (\<not> ct_overflowed (sn_counts snap) \<longrightarrow>
      (let c = sn_counts snap in
       ct_started c = length own + ct_completed c \<and>
       ct_completed c = ct_ok c + ct_errors c + ct_panicked c + ct_cancelled c \<and>
       ct_completed c = sn_retained snap + ct_overwritten c + ct_drained c \<and>
       (sn_terminal snap \<longleftrightarrow> sn_closed snap \<and> own = [])))"
proof -
  have ok: "recorder_ok cap (r, own)" using trace_run_ok [OF recorder_new_ok [OF assms(1)]] assms(2) by metis
  have ok': "recorder_ok cap (r', own)" using read_ok [OF ok, of drained] assms(3) by (cases "recorder_read drained r") simp
  have snap: "sn_records snap = tr_records r" "sn_capacity snap = tr_capacity r'" "sn_retained snap = length (tr_records r')"
    "sn_counts snap = tr_counts r'" "sn_closed snap = tr_closed r'"
    "sn_terminal snap = (tr_closed r' \<and> ct_in_flight (tr_counts r') = 0)" "tr_capacity r' = tr_capacity r"
    using assms(3) by (auto simp: recorder_read_def Let_def)
  have "snapshot_ok snap" using ok ok' by (auto simp: snapshot_ok_def snap recorder_ok_def)
  then show ?thesis
    using ok ok' forest_new_result [of snap] by (auto simp: snap recorder_ok_def counted_def Let_def)
qed

definition example_spans :: "trace_op list" where
  "example_spans =
     [Tr_Start \<lparr>tc_trace = [1], tc_span = [1], tc_parent = None\<rparr> Application ''/a'' 0,
      Tr_Start \<lparr>tc_trace = [1], tc_span = [2], tc_parent = Some [1]\<rparr> TypedHandler ''/a/b'' 1,
      Tr_Start \<lparr>tc_trace = [1], tc_span = [3], tc_parent = Some [2]\<rparr> TypedHandler ''/a/c'' 2,
      Tr_Finish 0 Span_Ok 3, Tr_Finish 1 Span_Error 4, Tr_Close]"

definition example_recorder :: trace_recorder where
  "example_recorder = the (recorder_new [7] 2)"

definition example_reading :: trace_snapshot where
  "example_reading = fst (recorder_read False (fst (fold trace_step example_spans (example_recorder, []))))"

theorem recorder_accounts_witness:
  "ct_started (sn_counts example_reading) = 1 + ct_completed (sn_counts example_reading) \<and> \<not> sn_terminal example_reading"
proof -
  let ?s = "fold trace_step example_spans (example_recorder, [])"
  have new: "recorder_new [7] 2 = Some example_recorder" by code_simp
  have run: "(fst ?s, snd ?s) = ?s" by simp
  have "(example_reading, snd (recorder_read False (fst ?s))) = recorder_read False (fst ?s)" by (simp add: example_reading_def)
  note acc = recorder_accounts [OF new run this]
  have "\<not> ct_overflowed (sn_counts example_reading)" "length (snd ?s) = 1" by code_simp+
  then show ?thesis using acc by (auto simp: Let_def)
qed

text \<open>
  C21. The forest is causal. Building it never panics and refuses only readings outside the bounds of a recorder. Its nodes are
  the records, by trace and time of start; the parent of a node is the one record with the identity the node names, in the same trace; a name that
  nobody or several carry, or a node on a cycle of such names, is marked as such and is a root; what remains is acyclic.
\<close>

theorem forest_is_causal:
  "\<exists>r. forest_new snap = Some r \<and>
    (case r of
       Inl e \<Rightarrow> \<not> snapshot_ok snap
     | Inr f \<Rightarrow> snapshot_ok snap \<and> mset (sf_records f) = mset (sn_records snap) \<and>
         sorted (map record_order (sf_records f)) \<and>
         (\<forall>i < length (sf_records f). sf_parents f ! i =
            (if on_cycle (relations (sf_records f)) i then P_Cycle else observed (sf_records f) i)) \<and>
         length (sf_parents f) = length (sf_records f) \<and> acyclic (edges (sf_parents f)) \<and>
         set (sf_roots f) = {i. i < length (sf_records f) \<and> (\<forall>p. sf_parents f ! i \<noteq> P_Recorded p)} \<and>
         (\<forall>p < length (sf_records f). set (sf_children f ! p) = {i. i < length (sf_records f) \<and> sf_parents f ! i = P_Recorded p}))"
proof (cases "snapshot_ok snap")
  case True
  obtain f where f: "forest_new snap = Some (Inr f)" "sf_records f = sort_key record_order (sn_records snap)"
    "sf_parents f = map (uncycled (relations (sf_records f))) [0..<length (sf_records f)]"
    "sf_children f = map (children_of (sf_parents f)) [0..<length (sf_parents f)]" "sf_roots f = roots_of (sf_parents f)"
    "acyclic (edges (sf_parents f))"
    using forest_new_result [OF True] by auto
  have len: "length (sf_parents f) = length (sf_records f)" using f(3) by simp
  have "sf_parents f ! i = (if on_cycle (relations (sf_records f)) i then P_Cycle else observed (sf_records f) i)"
    if "i < length (sf_records f)" for i
    using that by (simp add: f(3) uncycled_def relations_def)
  moreover have "mset (sf_records f) = mset (sn_records snap)" "sorted (map record_order (sf_records f))"
    by (simp_all add: f(2))
  moreover have "set (sf_roots f) = {i. i < length (sf_records f) \<and> (\<forall>p. sf_parents f ! i \<noteq> P_Recorded p)}"
    by (auto simp: f(5) roots_of_def len)
  moreover have "set (sf_children f ! p) = {i. i < length (sf_records f) \<and> sf_parents f ! i = P_Recorded p}"
    if "p < length (sf_records f)" for p
    using that by (auto simp: f(4) children_of_def len)
  ultimately show ?thesis using f(1,6) True len by simp
next
  case False
  then show ?thesis using forest_new_refuses [OF False] by auto
qed

definition example_cycle :: trace_snapshot where
  "example_cycle =
     (let sp = (\<lambda>n p. \<lparr>sp_sequence = unat n, sp_trace = [1], sp_span = [n], sp_parent = Some [p], sp_kind = Application,
                sp_target = ''/a'', sp_truncated = False, sp_started = unat n, sp_duration = 1, sp_status = Span_Ok\<rparr>)
      in \<lparr>sn_recorder_id = [7], sn_capacity = 4, sn_retained = 3, sn_closed = True, sn_terminal = True,
          sn_counts = span_counts_default, sn_records = [sp 3 1, sp 1 2, sp 2 1]\<rparr>)"

theorem forest_is_causal_witness:
  "\<exists>f. forest_new example_cycle = Some (Inr f) \<and> sf_parents f = [P_Cycle, P_Cycle, P_Recorded 0] \<and>
     set (sf_roots f) = {0, 1} \<and> set (sf_children f ! 0) = {2} \<and> acyclic (edges (sf_parents f)) \<and>
     on_cycle (relations (sf_records f)) 0"
proof -
  have parents: "map_option (map_sum id sf_parents) (forest_new example_cycle) = Some (Inr [P_Cycle, P_Cycle, P_Recorded 0])"
    by code_simp
  obtain r where r: "forest_new example_cycle = Some r" using forest_is_causal [of example_cycle] by blast
  then obtain f where f: "r = Inr f" "sf_parents f = [P_Cycle, P_Cycle, P_Recorded 0]" using parents by (cases r) auto
  note causal = forest_is_causal [of example_cycle, unfolded r f(1), simplified]
  then have len: "length (sf_records f) = 3" using f(2) by simp
  have "sf_parents f ! 0 = (if on_cycle (relations (sf_records f)) 0 then P_Cycle else observed (sf_records f) 0)"
    using causal len by simp
  moreover have "observed (sf_records f) 0 \<noteq> P_Cycle" by (auto simp: observed_def split: option.split list.split)
  ultimately have "on_cycle (relations (sf_records f)) 0" using f(2) by (simp split: if_splits)
  moreover have "set (sf_roots f) = {i \<in> set [0..<3]. \<forall>p. sf_parents f ! i \<noteq> P_Recorded p}"
    "set (sf_children f ! 0) = {i \<in> set [0..<3]. sf_parents f ! i = P_Recorded 0}"
    using causal unfolding len by simp_all
  moreover have "[0..<3] = [0, 1, 2]" "\<not> All ((<) (0 :: nat))" by (auto simp: upt_rec)
  ultimately have "set (sf_roots f) = {0, 1}" "set (sf_children f ! 0) = {2}" "on_cycle (relations (sf_records f)) 0"
    unfolding f(2) set_filter [symmetric] by simp_all
  then show ?thesis using causal r f by simp
qed

definition rendered ::
  "(string \<Rightarrow> string) \<Rightarrow> nat \<Rightarrow> span_forest \<Rightarrow> (nat \<times> nat) list \<Rightarrow> forest_error + forest_text \<Rightarrow> bool" where
  "rendered dbg max_bytes f order r \<longleftrightarrow>
     (case r of
        Inl e \<Rightarrow> max_bytes > MAX_FOREST_TEXT_BYTES \<or>
          max_bytes < length (forest_header f (length (sf_records f)) (length (sf_records f)))
      | Inr t \<Rightarrow> length (ft_text t) \<le> max_bytes \<and> ft_emitted t + ft_omitted t = length (sf_records f) \<and>
          ft_text t = forest_header f (ft_emitted t) (ft_omitted t) @
            concat (map (\<lambda>(i, d). forest_line dbg f i d) (take (ft_emitted t) order)) \<and>
          (ft_omitted t = 0 \<or> (case order ! ft_emitted t of (i, d) \<Rightarrow>
             length (ft_text t) + length (forest_line dbg f i d) + length (forest_header f (length (sf_records f)) (length (sf_records f))) >
               max_bytes + length (forest_header f (ft_emitted t) (ft_omitted t)))))"

text \<open>
  C35. Rendering ends, within its budget. For every forest that was built there is an order of all its nodes, each once and parents before
  their children, such that for every budget the renderer returns: it refuses a budget above the maximum or
  too small for its header; otherwise its text is the header with exact counts, followed by the lines of the first nodes of that
  order, as many as fit, and is no longer than the budget.
\<close>

theorem rendering_ends:
  assumes "forest_new snap = Some (Inr f)"
  shows "\<exists>order. distinct (map fst order) \<and> set (map fst order) = {..<length (sf_records f)} \<and>
    parents_first (sf_parents f) (map fst order) \<and>
    (\<forall>dbg max_bytes. \<exists>r. render_text dbg max_bytes f = Some r \<and> rendered dbg max_bytes f order r)"
proof -
  have ok: "snapshot_ok snap" using forest_new_refuses [of snap] assms by auto
  let ?ps = "sf_parents f" and ?n = "length (sf_records f)"
  have f: "sf_children f = map (children_of ?ps) [0..<length ?ps]" "sf_roots f = roots_of ?ps" "acyclic (edges ?ps)"
    "parents_in_range ?ps" "length ?ps = ?n"
    using forest_new_result [OF ok] assms by auto
  have fst_id: "map fst (map (\<lambda>i. (i, 0 :: nat)) (roots_of ?ps)) = roots_of ?ps" by (simp add: comp_def)
  obtain order where o: "distinct (map fst order)" "set (map fst order) = {..<?n}" "parents_first ?ps (map fst order)"
    and loop: "\<And>line budget emitted body. render_loop line (sf_children f) budget (map (\<lambda>i. (i, 0)) (sf_roots f)) emitted body =
       (let k = fitting (\<lambda>(i, d). line i d) budget (length body) order in
        Some (emitted + k, body @ concat (map (\<lambda>(i, d). line i d) (take k order))))"
    using traversal [OF f(3,4), of "map (\<lambda>i. (i, 0)) (roots_of ?ps)", unfolded fst_id] roots_apart [of ?ps]
      roots_cover [OF f(3,4)] unfolding f(1,2)
    by (auto simp: roots_of_def f(5))
  have len: "length order = ?n" using distinct_card [OF o(1)] o(2) by simp
  have "\<exists>r. render_text dbg max_bytes f = Some r \<and> rendered dbg max_bytes f order r" for dbg max_bytes
  proof (cases "max_bytes > MAX_FOREST_TEXT_BYTES \<or> max_bytes < length (forest_header f ?n ?n)")
    case True
    then show ?thesis by (auto simp: render_text_def rendered_def Let_def)
  next
    case False
    let ?line = "\<lambda>(i, d). forest_line dbg f i d" and ?h = "length (forest_header f ?n ?n)"
    let ?k = "fitting ?line (max_bytes - ?h) 0 order"
    have k: "?k \<le> ?n" using fitting_le [of ?line "max_bytes - ?h" 0 order] len by simp
    have "length (concat (map ?line (take ?k order))) \<le> max_bytes - ?h"
      using fitting_bytes [of 0 "max_bytes - ?h" ?line order] by simp
    moreover have "length (forest_header f ?k (?n - ?k)) \<le> ?h" using header_mono [of ?k ?n "?n - ?k" f] k by simp
    ultimately have "length (forest_header f ?k (?n - ?k) @ concat (map ?line (take ?k order))) \<le> max_bytes"
      using False unfolding length_append by linarith
    moreover have "?n - ?k = 0 \<or> (case order ! ?k of (i, d) \<Rightarrow>
        length (forest_header f ?k (?n - ?k) @ concat (map ?line (take ?k order))) + length (forest_line dbg f i d) + ?h >
          max_bytes + length (forest_header f ?k (?n - ?k)))"
    proof (cases "?k < ?n")
      case True
      then have "max_bytes - ?h < length (concat (map ?line (take ?k order))) + length (?line (order ! ?k))"
        using fitting_maximal [of 0 "max_bytes - ?h" ?line order] len by simp
      then show ?thesis unfolding length_append by (cases "order ! ?k") auto
    qed simp
    ultimately show ?thesis using False k by (simp add: render_text_def rendered_def Let_def loop)
  qed
  then show ?thesis using o by blast
qed

definition example_forest :: span_forest where
  "example_forest = (case the (forest_new example_reading) of Inr f \<Rightarrow> f)"

theorem rendering_ends_witness:
  "\<exists>(order :: (nat \<times> nat) list) r. set (map fst order) = {0, 1} \<and> parents_first (sf_parents example_forest) (map fst order) \<and>
    render_text (\<lambda>s. s) 4096 example_forest = Some r"
proof -
  have f: "forest_new example_reading = Some (Inr example_forest)" by code_simp
  have n: "length (sf_records example_forest) = 2" by code_simp
  have two: "{..<2 :: nat} = {0, 1}" by auto
  obtain order where o: "set (map fst order) = {..<length (sf_records example_forest)}"
    "parents_first (sf_parents example_forest) (map fst order)"
    and all: "\<forall>dbg m. \<exists>r. render_text dbg m example_forest = Some r \<and> rendered dbg m example_forest order r"
    using rendering_ends [OF f] by (elim exE conjE) (rule that)
  obtain r where r: "render_text (\<lambda>s. s) 4096 example_forest = Some r"
    using spec [OF spec [OF all, of "\<lambda>s. s"], of 4096] by (elim exE conjE) (rule that)
  have "set (map fst order) = {0, 1}" using o(1) unfolding n two .
  then show ?thesis using o(2) r by (intro exI [of _ order] exI [of _ r] conjI)
qed

end
