(* ===== verification/Spec2Isabelle.thy ===== *)
theory Spec2Isabelle
  imports Raft_Theorems Raft_Rules Raft_Durability Raft_Robust Sharding Directory Directory_Durability
    Directory_Shards Dedup Swim_Theorems Probe Acl Singleton Cache Registry Wal_Theorems
    Frame_Batch Reorder Receptionist_Theorems Topology_Theorems Handshake_Theorems Trace_Theorems
begin

text \<open>
  A verification library for \<^bold>\<open>parrot\<close>, a distributed actor runtime written in Rust.

  \<^bold>\<open>The program.\<close> The crate \<^verbatim>\<open>parrot-remote\<close> (under \<^verbatim>\<open>src/crates/parrot-remote/src\<close>) makes actors on
  several machines one system. This library is about the part of it that decides what the machines agree
  on and what they remember: consensus and its durable form, the directory that is replicated by it,
  placement on a hash ring, membership by gossip and probing, the handshake and the frames that travel between the machines and the
  order they are delivered in, the routes between them, the tables that bound and correlate messages, and the traces of what
  was done. The components call each other as follows. A directory host owns a durable Raft host, which
  owns a Raft node and a file; the sharded directory owns one directory replica per shard and routes by the
  hash ring; the membership driver owns the membership table and sends probes; the sender of durable messages
  appends them to a write-ahead log and their receiver asks the deduplication table; every request over the network waits in the callback
  registry; resolved addresses are kept in the resolve cache. A connection opens with a handshake, which fixes the
  frame limit, and cuts its byte stream into frames; hubs relay requests along route tables, which a route reflector keeps equal; the one-way messages of one source pass its reorder worker before delivery; the receptionist keeps which paths offer a service,
  tells its subscribers and its peers, and asks the access rules, as do the routes. Handlers report
  their spans to a trace recorder, whose snapshots are read as a forest.

  \<^bold>\<open>Conventions\<close> (theory \<^verbatim>\<open>Prelude\<close>). Machine integers that cannot wrap in the source are natural numbers with
  \<open>checked_add\<close>, \<open>checked_sub\<close> and \<open>saturating_add\<close> where the source has them; hashes are words. Strings are lists of
  UTF-8 bytes. A panic is \<^term>\<open>None\<close>, an error of the source is \<^term>\<open>Inl\<close>. Hash maps are association lists
  (\<^verbatim>\<open>Tables\<close>) in iteration order, or functions where the order is irrelevant. Code that is not part of the
  sources (bincode, SHA-256, JSON, X.509, the file system, sockets, clocks) is an argument of the definitions; what is
  assumed of it is a hypothesis of the theorem concerned, and each such theorem has a witness with a concrete function.
  So is the unstable sort of the hash ring, whose order of equal hashes the standard library leaves open.

  \<^bold>\<open>Theories, with the code they model.\<close>
  \<^item> \<^verbatim>\<open>Raft_Node\<close> (\<^verbatim>\<open>raft/mod.rs\<close>): the Raft node. \<open>raft_node\<close> is \<^verbatim>\<open>RaftNode\<close>; \<open>raft_tick\<close>, \<open>raft_step\<close>, \<open>raft_propose\<close>,
    \<open>raft_outbox\<close>, \<open>raft_committed\<close> are its driver interface and the \<open>step_\<close> functions its message handlers.
  \<^item> \<^verbatim>\<open>Raft_Cluster\<close>: a group of nodes with a network that loses, duplicates and reorders, and with crashes; a step
    function over events and the reachable groups. \<^verbatim>\<open>Raft_History\<close> adds the history variables of the proof,
    \<^verbatim>\<open>Raft_Safety\<close> the inductive invariant, \<^verbatim>\<open>Raft_Theorems\<close> the theorems on every reachable group (C1, C4 to C7).
  \<^item> \<^verbatim>\<open>Raft_Rules\<close>: the append planner against the append rule as the literature states it (C9).
  \<^item> \<^verbatim>\<open>Raft_Robust\<close>: a node on its own, fed with arbitrary messages (C22), and what it keeps while it leads one term.
  \<^item> \<^verbatim>\<open>Raft_Storage\<close> and \<^verbatim>\<open>Raft_Durability\<close> (\<^verbatim>\<open>raft/storage.rs\<close>): the durable host, its snapshot file and every point where
    publication can fail; write-ahead, fencing, recovery and capacity (C11 to C13, C15).
  \<^item> \<^verbatim>\<open>Sharding\<close> (\<^verbatim>\<open>sharding.rs\<close>): hash ring, shard coordinator, entity keys; the ring is a placement when no two members
    have virtual nodes with the same hash (C16).
  \<^item> \<^verbatim>\<open>Directory\<close> (\<^verbatim>\<open>roles/directory.rs\<close>, \<^verbatim>\<open>roles/directory/command.rs\<close>): the directory state machine and its replica: a border query answers
    with the longest declared prefix, and applying the committed queue is a replay. \<^verbatim>\<open>Durable_Directory\<close> and \<^verbatim>\<open>Directory_Durability\<close> (\<^verbatim>\<open>roles/directory/durable.rs\<close>, \<^verbatim>\<open>request.rs\<close>): the durable
    directory with deduplicated requests and linearizable reads (C23 to C25). \<^verbatim>\<open>Directory_Shards\<close>: the sharded
    directory (C26).
  \<^item> \<^verbatim>\<open>Once\<close>: the contract of a filter that admits a key at most once. \<^verbatim>\<open>Dedup\<close> (\<^verbatim>\<open>durable/dedup.rs\<close>): the deduplication
    table (C27).
  \<^item> \<^verbatim>\<open>Newest\<close>: the contract of a merge that keeps the newest entry. \<^verbatim>\<open>Swim\<close> and \<^verbatim>\<open>Swim_Theorems\<close> (\<^verbatim>\<open>swim.rs\<close>): membership table, gossip and driver loop (C29 to C31). \<^verbatim>\<open>Probe\<close>
    (\<^verbatim>\<open>swim/probe.rs\<close>): probe messages and waiting requests, each of which accepts one reply at most.
  \<^item> \<^verbatim>\<open>Acl\<close> (\<^verbatim>\<open>acl.rs\<close>): access rules (C36). \<^verbatim>\<open>Singleton\<close> (\<^verbatim>\<open>singleton.rs\<close>): the singleton lease over time (C37). \<^verbatim>\<open>Cache\<close>
    (\<^verbatim>\<open>cache.rs\<close>): the resolve cache (C38). \<^verbatim>\<open>Registry\<close> (\<^verbatim>\<open>registry.rs\<close>): the callback registry (C39).
  \<^item> \<^verbatim>\<open>Wal\<close> (\<^verbatim>\<open>durable.rs\<close>, \<^verbatim>\<open>durable/submission.rs\<close>, \<^verbatim>\<open>durable/causal.rs\<close>): the write-ahead log of durable messages. \<open>wal\<close>
    is \<^verbatim>\<open>WalInner\<close> with its directory, what of it was synced and the outcomes of the I/O calls still to come;
    \<open>open_with_limits\<close>, \<open>append_submission\<close>, \<open>wal_ack\<close>, \<open>checkpoint\<close>, \<open>roll\<close>, \<open>wal_sync\<close> and \<open>replay_unacked\<close> are its operations.
    \<^verbatim>\<open>Wal_Records\<close> shows that frames, keyed acceptances and causal records are read back; \<^verbatim>\<open>Wal_View\<close> gives a sequence of
    records its meaning (pending records, watermarks, receipts) and shows that the two passes of opening compute
    it; \<^verbatim>\<open>Wal_Disk\<close> says when a directory opens; \<^verbatim>\<open>Wal_Operations\<close> and \<^verbatim>\<open>Wal_Acks\<close> follow every operation through
    every I/O outcome; \<^verbatim>\<open>Wal_Example\<close> is a concrete log; \<^verbatim>\<open>Wal_Theorems\<close> has the theorems (C10, C18, C32).
  \<^item> \<^verbatim>\<open>Bytes\<close>: little-endian numbers, UTF-8 and guards, shared by the log and the frames. \<^verbatim>\<open>Frame\<close> (\<^verbatim>\<open>frame.rs\<close>, \<^verbatim>\<open>error.rs\<close>, \<^verbatim>\<open>transport.rs\<close>): the
    wire frame, its encoder, the incremental decoder \<open>decode_with_limit\<close>, batches with their iterator, and the payloads of
    traces, replies, hints and errors. \<^verbatim>\<open>Frame_Codec\<close>: the decoder accepts exactly what the encoder writes (C2) and a
    stream of frames is recovered however it is cut into chunks (C34); \<^verbatim>\<open>Frame_Batch\<close>: batches are read back (C19).
  \<^item> \<^verbatim>\<open>Reorder\<close> (\<^verbatim>\<open>ref_.rs\<close>, \<^verbatim>\<open>ingress.rs\<close>): the sequence counter of a sender and the workers that put the messages of
    one source back in order, with gaps, time-outs and the bound on what they hold (C17, C33).
  \<^item> \<^verbatim>\<open>Receptionist\<close> (\<^verbatim>\<open>receptionist.rs\<close>, \<^verbatim>\<open>system/receptionist.rs\<close>): listings, registration scopes, subscriptions and the exchange between peers, for the facade
    of a remote system and for one on its own;
    \<^verbatim>\<open>Receptionist_Theorems\<close>: subscribers see the table, and a retired generation stays retired (C14).
  \<^item> \<^verbatim>\<open>Topology\<close> (\<^verbatim>\<open>topology.rs\<close>, \<^verbatim>\<open>roles/hub.rs\<close>, \<^verbatim>\<open>roles/route_reflector.rs\<close>): route tables, their gossip and compaction, the relay of a
    hub with its bounded map of correlations, and the route reflector. \<^verbatim>\<open>Topology_Theorems\<close>: compaction keeps what every target
    resolves to (C8), reflection makes the tables of all clients equal (C20), and a relayed request finds its way back.
  \<^item> \<^verbatim>\<open>Handshake\<close> (\<^verbatim>\<open>handshake.rs\<close>, \<^verbatim>\<open>security.rs\<close>, \<^verbatim>\<open>tls.rs\<close>, \<^verbatim>\<open>transport.rs\<close>): the bodies that open a connection, the checks of a peer's name and the
    exchange. \<^verbatim>\<open>Handshake_Theorems\<close>: bodies are read back, unknown fields included, and both sides agree (C3).
  \<^item> \<^verbatim>\<open>Trace\<close> (\<^verbatim>\<open>trace/recording.rs\<close> and \<^verbatim>\<open>trace/forest.rs\<close> of the crate \<^verbatim>\<open>parrot-api\<close>): the bounded recorder of spans, the forest of a
    snapshot and its text. \<^verbatim>\<open>Trace_Forest\<close> follows the removal of cycles and the traversal; \<^verbatim>\<open>Trace_Theorems\<close>: the forest is causal (C21),
    the recorder accounts for every span (C28) and rendering ends (C35).
  \<^item> This theory: the directory over a Raft group (C40).

  \<^bold>\<open>Interfaces.\<close> \<open>total_order\<close> (in \<^verbatim>\<open>Raft_Theorems\<close>) is what a replicated state machine needs of consensus, interpreted on
  the reachable Raft groups; \<open>placement\<close> (in \<^verbatim>\<open>Sharding\<close>) what a caller needs of a hash ring, interpreted on the ring
  with a stable sort, to which every sort comes down when hashes do not collide;
  \<open>at_most_once\<close> and \<open>exactly_once\<close> (in \<^verbatim>\<open>Once\<close>) are interpreted on the probe table and the deduplication table;
  \<open>newest_wins\<close> (in \<^verbatim>\<open>Newest\<close>) is the merge of a replicated view, interpreted on the membership table and on the route tables;
  \<open>stream_codec\<close> (in \<^verbatim>\<open>Frame_Codec\<close>) is what a reader of a byte stream needs of a frame format, interpreted on the wire frames.

  \<^bold>\<open>Termination and bounds.\<close> No definition uses fuel. The recursive ones are structural, except the watermark loop of
  \<open>dedup_commit\<close>, which consumes a finite set of gaps, the eviction loop of the cache, which removes an entry
  in each round, the scan of a segment and the reader of handshake fields, which consume bytes in each round, and the walk towards a
  root (\<open>walk\<close>), which marks a node in each round; they have termination proofs. The loops that drain a connection's buffer (\<open>drain\<close>) and
  that render a forest (\<open>render_loop\<close>) are partial functions, proved to return. The limits of the source (snapshot, command and
  entry sizes, pending requests, cache and registry capacities) are constants of the model with the source's values.

  \<^bold>\<open>Not modelled.\<close> The actor engines of \<^verbatim>\<open>parrot\<close> (threads, mailboxes, schedulers), whose subject is memory-level
  concurrency; transports, TLS beyond the check of a peer's certificate, sockets, ingress dispatch, relays and the system facade, which are asynchronous plumbing around the
  components above; process groups, mirror control, the
  outbox and inbox tasks that drive the write-ahead log; MQTT, LiveKit, WASM, ABI, derive macros, configuration loading,
  applications, examples, benchmarks and vendored crates. In the modelled files the projection of members to
  socket addresses (\<^verbatim>\<open>member_route\<close>), logging and metrics are left out.
\<close>

section \<open>The directory over consensus\<close>

lemma replay_append:
  "replay cc (xs @ ys) sm = (case replay cc xs sm of Inl e \<Rightarrow> Inl e | Inr s \<Rightarrow> replay cc ys s)"
  by (induction xs arbitrary: sm) (auto split: sum.split)

text \<open>
  C40. Replicated directories agree. In every reachable Raft group, the directory that a member has built from the
  entries it applied is a state the other members' directories went through or will go through: if the
  member ahead could apply all its entries, so could the one behind, the one behind reaches the state of
  the one ahead by applying the entries it still misses, and members that applied equally many
  entries hold the same directory.
\<close>

theorem replicated_directories_agree:
  assumes "reachable c" and "i \<in> set (cluster.members c)" and "j \<in> set (cluster.members c)"
    and "length (applied c i) \<le> length (applied c j)" and "replay cc (applied c j) sm_default = Inr ahead"
  shows "\<exists>behind rest. replay cc (applied c i) sm_default = Inr behind \<and> applied c j = applied c i @ rest \<and>
    replay cc rest behind = Inr ahead \<and> (length (applied c i) = length (applied c j) \<longrightarrow> behind = ahead)"
proof -
  obtain rest where rest: "applied c j = applied c i @ rest"
    using raft.catch_up [OF conjI [OF assms(1,2)] conjI [OF assms(1,3)] assms(4), of "\<lambda>_ _. ()" "()"] by auto
  then obtain behind where "replay cc (applied c i) sm_default = Inr behind" "replay cc rest behind = Inr ahead"
    using assms(5) by (auto simp: replay_append split: sum.splits)
  then show ?thesis using rest by auto
qed

theorem replicated_directories_agree_witness:
  "\<exists>c ahead. run (demo_election @ demo_commit) demo_init = Some c \<and>
     replay demo_cmd_codec (applied c ''a'') sm_default = Inr ahead \<and>
     (\<exists>rest. applied c ''a'' = applied c ''c'' @ rest \<and> replay demo_cmd_codec rest sm_default = Inr ahead)"
proof -
  obtain c where c: "run (demo_election @ demo_commit) demo_init = Some c" "applied c ''a'' = [demo_entry]" "applied c ''c'' = []"
    "''a'' \<in> set (cluster.members c)" "''c'' \<in> set (cluster.members c)"
    using demo_run by auto
  have "\<not> isl (replay demo_cmd_codec [demo_entry] sm_default)" by code_simp
  then obtain ahead where a: "replay demo_cmd_codec (applied c ''a'') sm_default = Inr ahead"
    using c(2) by (cases "replay demo_cmd_codec [demo_entry] sm_default") auto
  show ?thesis
    using replicated_directories_agree [OF demo_reachable [OF c(1)] c(5,4) _ a] c a by auto
qed

end
